(* ===== verification/Go_Prelude.thy ===== *)
theory Go_Prelude
  imports Main "HOL-Library.Word"
begin

text \<open>
  Shared vocabulary of the development: the outcome type of a Go function (a value, an
  error return, or a run-time panic), the slice accesses that can panic, the big-endian and
  little-endian integers of \<open>encoding/binary\<close>, the helpers of Go's \<open>strings\<close>
  package that the code calls, and the two generic contracts (a wire codec, a machine with an
  invariant) that several components instantiate.
\<close>

unbundle bit_operations_syntax

section \<open>Outcomes of a Go call\<close>

type_synonym byte = "8 word"

datatype ('e, 'a) res = Ok 'a | Err 'e | Panic

fun bind :: "('e, 'a) res \<Rightarrow> ('a \<Rightarrow> ('e, 'b) res) \<Rightarrow> ('e, 'b) res" where
  "bind (Ok x) f = f x"
| "bind (Err e) f = Err e"
| "bind Panic f = Panic"

definition require :: "bool \<Rightarrow> 'e \<Rightarrow> ('e, unit) res" where
  "require c e = (if c then Ok () else Err e)"

named_theorems go_simps \<open>unfolding rules for the outcome combinators\<close>

lemma bind_eq_Ok [go_simps]: "bind m f = Ok y \<longleftrightarrow> (\<exists>x. m = Ok x \<and> f x = Ok y)"
  by (cases m) auto

lemma bind_eq_Err [go_simps]:
  "bind m f = Err e \<longleftrightarrow> m = Err e \<or> (\<exists>x. m = Ok x \<and> f x = Err e)"
  by (cases m) auto

named_theorems panic_simps \<open>when an outcome is a panic\<close>

lemma bind_eq_Panic [panic_simps]:
  "bind m f = Panic \<longleftrightarrow> m = Panic \<or> (\<exists>x. m = Ok x \<and> f x = Panic)"
  by (cases m) auto

lemma bind_cong [fundef_cong]:
  "m = m' \<Longrightarrow> (\<And>x. m' = Ok x \<Longrightarrow> f x = g x) \<Longrightarrow> bind m f = bind m' g"
  by (cases m') auto

lemma require_simps [simp]:
  "require True e = Ok ()"
  "require False e = Err e"
  by (simp_all add: require_def)

lemma require_eq_Ok [simp]: "require c e = Ok u \<longleftrightarrow> c"
  by (simp add: require_def)

lemma require_not_Panic [simp]: "require c e \<noteq> Panic" "Panic \<noteq> require c e"
  by (simp_all add: require_def)

section \<open>Slices\<close>

text \<open>
  Go indexes and reslices with a bounds check: out of range is a panic.  (A reslice may also
  reach up to the capacity; every reslice modelled here is of a slice whose capacity is its
  length or is shown to stay within the length.)
\<close>

definition index_at :: "'a list \<Rightarrow> nat \<Rightarrow> ('e, 'a) res" where
  "index_at b i = (if i < length b then Ok (b ! i) else Panic)"

definition reslice :: "'a list \<Rightarrow> nat \<Rightarrow> nat \<Rightarrow> ('e, 'a list) res" where
  "reslice b i j = (if i \<le> j \<and> j \<le> length b then Ok (take (j - i) (drop i b)) else Panic)"

definition reslice_from :: "'a list \<Rightarrow> nat \<Rightarrow> ('e, 'a list) res" where
  "reslice_from b i = (if i \<le> length b then Ok (drop i b) else Panic)"

lemma index_at_ok [simp]: "i < length b \<Longrightarrow> index_at b i = Ok (b ! i)"
  by (simp add: index_at_def)

lemma reslice_ok [simp]:
  "i \<le> j \<Longrightarrow> j \<le> length b \<Longrightarrow> reslice b i j = Ok (take (j - i) (drop i b))"
  by (simp add: reslice_def)

lemma reslice_from_ok [simp]: "i \<le> length b \<Longrightarrow> reslice_from b i = Ok (drop i b)"
  by (simp add: reslice_from_def)

lemma index_at_eq_Ok [simp]: "index_at b i = Ok x \<longleftrightarrow> i < length b \<and> x = b ! i"
  by (auto simp: index_at_def)

lemma index_at_eq_Panic [panic_simps]: "index_at b i = Panic \<longleftrightarrow> length b \<le> i"
  by (auto simp: index_at_def)

lemma reslice_eq_Panic [panic_simps]: "reslice b i j = Panic \<longleftrightarrow> \<not> (i \<le> j \<and> j \<le> length b)"
  by (auto simp: reslice_def)

lemma reslice_from_eq_Panic [panic_simps]: "reslice_from b i = Panic \<longleftrightarrow> length b < i"
  by (auto simp: reslice_from_def)

lemma slice_not_Err [simp]:
  "index_at b i \<noteq> Err e" "reslice b i j \<noteq> Err e" "reslice_from b i \<noteq> Err e"
  by (simp_all add: index_at_def reslice_def reslice_from_def)

section \<open>Integers in byte order\<close>

fun be_bytes :: "nat \<Rightarrow> 'a::len word \<Rightarrow> byte list" where
  "be_bytes 0 w = []"
| "be_bytes (Suc n) w = ucast (drop_bit (8 * n) w) # be_bytes n w"

fun be_word :: "byte list \<Rightarrow> 'a::len word" where
  "be_word [] = 0"
| "be_word (b # bs) = push_bit (8 * length bs) (ucast b) OR be_word bs"

definition le_bytes :: "nat \<Rightarrow> 'a::len word \<Rightarrow> byte list" where
  "le_bytes n w = rev (be_bytes n w)"

definition le_word :: "byte list \<Rightarrow> 'a::len word" where
  "le_word bs = be_word (rev bs)"

lemma length_be_bytes [simp]: "length (be_bytes n w) = n"
  by (induction n) simp_all

lemma length_le_bytes [simp]: "length (le_bytes n w) = n"
  by (simp add: le_bytes_def)

lemma be_word_be_bytes_take: "be_word (be_bytes n w) = take_bit (8 * n) w"
proof (induction n)
  case 0
  then show ?case by simp
next
  case (Suc n)
  have "push_bit (8 * n) (ucast (ucast (drop_bit (8 * n) w) :: byte)) OR take_bit (8 * n) w
      = take_bit (8 * Suc n) w"
    by (rule bit_word_eqI) (auto simp: bit_simps)
  with Suc.IH show ?case by simp
qed

lemma be_word_be_bytes [simp]:
  "LENGTH('a) \<le> 8 * n \<Longrightarrow> be_word (be_bytes n w) = (w :: 'a::len word)"
  by (simp add: be_word_be_bytes_take take_bit_word_eq_self)

lemma le_word_le_bytes [simp]:
  "LENGTH('a) \<le> 8 * n \<Longrightarrow> le_word (le_bytes n w) = (w :: 'a::len word)"
  by (simp add: le_word_def le_bytes_def)

lemma bit_be_word_high: "8 * length bs \<le> m \<Longrightarrow> \<not> bit (be_word bs :: 'a::len word) m"
proof (induction bs)
  case Nil
  then show ?case by simp
next
  case (Cons b bs)
  have "\<not> bit b (m - 8 * length bs)"
    using Cons.prems bit_imp_le_length[of b "m - 8 * length bs"] by fastforce
  with Cons show ?case by (auto simp: bit_simps)
qed

lemma be_bytes_or_high:
  "8 * n \<le> LENGTH('a) \<Longrightarrow> be_bytes n (push_bit (8 * n) x OR w) = be_bytes n (w :: 'a::len word)"
proof -
  have "be_bytes m (push_bit (8 * n) x OR w) = be_bytes m w" if "m \<le> n" for m
    using that
  proof (induction m)
    case 0
    then show ?case by simp
  next
    case (Suc m)
    have "ucast (drop_bit (8 * m) (push_bit (8 * n) x OR w)) = (ucast (drop_bit (8 * m) w) :: byte)"
      using Suc.prems by (intro bit_word_eqI) (auto simp: bit_simps)
    with Suc show ?case by simp
  qed
  then show "be_bytes n (push_bit (8 * n) x OR w) = be_bytes n w" by simp
qed

lemma be_bytes_be_word:
  "8 * length bs \<le> LENGTH('a) \<Longrightarrow> be_bytes (length bs) (be_word bs :: 'a::len word) = bs"
proof (induction bs)
  case Nil
  then show ?case by simp
next
  case (Cons b bs)
  have "(ucast (drop_bit (8 * length bs)
      (push_bit (8 * length bs) (ucast b) OR be_word bs :: 'a word)) :: byte) = b"
    using Cons.prems by (intro bit_word_eqI) (auto simp: bit_simps bit_be_word_high)
  with Cons show ?case by (simp add: be_bytes_or_high)
qed

lemma le_bytes_le_word:
  "8 * length bs \<le> LENGTH('a) \<Longrightarrow> le_bytes (length bs) (le_word bs :: 'a::len word) = bs"
  using be_bytes_be_word[of "rev bs", where ?'a = 'a] by (simp add: le_bytes_def le_word_def)

text \<open>\<open>binary.BigEndian.Uint16\<close> and its kin at an offset of a buffer.\<close>

definition be_at :: "nat \<Rightarrow> byte list \<Rightarrow> nat \<Rightarrow> ('e, 'a::len word) res" where
  "be_at n b off = (if off + n \<le> length b then Ok (be_word (take n (drop off b))) else Panic)"

lemma be_at_ok [simp]:
  "off + n \<le> length b \<Longrightarrow> be_at n b off = Ok (be_word (take n (drop off b)))"
  by (simp add: be_at_def)

lemma be_at_eq_Panic [panic_simps]: "be_at n b off = Panic \<longleftrightarrow> length b < off + n"
  by (auto simp: be_at_def)

lemma be_at_append [simp]:
  "be_at n (xs @ ys) (length xs) = be_at n ys 0"
  by (simp add: be_at_def)

lemma be_at_be_bytes [simp]:
  "LENGTH('a) \<le> 8 * n \<Longrightarrow> be_at n (be_bytes n (w :: 'a::len word) @ ys) 0 = Ok w"
  by (simp add: be_at_def)

lemma unat_of_nat_16: "n < 65536 \<Longrightarrow> unat (of_nat n :: 16 word) = n"
  by (simp add: unsigned_of_nat take_bit_nat_eq_self)

lemma unat_of_nat_32: "n < 4294967296 \<Longrightarrow> unat (of_nat n :: 32 word) = n"
  by (simp add: unsigned_of_nat take_bit_nat_eq_self)

section \<open>The wire codec contract\<close>

text \<open>
  An encoder and a decoder that fit: every message the sender may send (\<open>ok\<close>) is encoded
  without an error and decoded back, and the decoder never panics, whatever bytes arrive.
\<close>

locale wire_codec =
  fixes enc :: "'m \<Rightarrow> ('e, byte list) res"
    and dec :: "byte list \<Rightarrow> ('d, 'm) res"
    and ok :: "'m \<Rightarrow> bool"
  assumes roundtrip: "ok m \<Longrightarrow> \<exists>b. enc m = Ok b \<and> dec b = Ok m"
    and dec_total: "dec b \<noteq> Panic"
begin

lemma enc_inj:
  assumes "ok m" and "ok m'" and "enc m = enc m'"
  shows "m = m'"
proof -
  obtain b b' where b: "enc m = Ok b" "dec b = Ok m" and b': "enc m' = Ok b'" "dec b' = Ok m'"
    using assms(1,2) roundtrip by metis
  with assms(3) have "dec b = dec b'" by simp
  with b b' show ?thesis by simp
qed

lemma dec_enc: "ok m \<Longrightarrow> bind (enc m) (\<lambda>b. case dec b of Ok m' \<Rightarrow> Ok (m' = m) | _ \<Rightarrow> Ok False) = Ok True"
  using roundtrip by fastforce

lemma dec_cases: "(\<exists>m. dec b = Ok m) \<or> (\<exists>e. dec b = Err e)"
  using dec_total by (cases "dec b") auto

end

section \<open>Machines with an invariant\<close>

text \<open>
  A component with state: a step per event, an invariant that every enabled step keeps.
  The clients use the run over a list of events.
\<close>

locale inv_machine =
  fixes step :: "'ev \<Rightarrow> 's \<Rightarrow> 's"
    and good :: "'ev \<Rightarrow> 's \<Rightarrow> bool"
    and inv :: "'s \<Rightarrow> bool"
  assumes step_inv: "inv s \<Longrightarrow> good e s \<Longrightarrow> inv (step e s)"
begin

fun good_run :: "'ev list \<Rightarrow> 's \<Rightarrow> bool" where
  "good_run [] s = True"
| "good_run (e # es) s = (good e s \<and> good_run es (step e s))"

lemma run_inv: "inv s \<Longrightarrow> good_run es s \<Longrightarrow> inv (fold step es s)"
  by (induction es arbitrary: s) (auto intro: step_inv)

lemma run_inv_always:
  assumes "\<And>e s. good e s" and "inv s"
  shows "inv (fold step es s)"
  using assms(2) by (induction es arbitrary: s) (auto intro: step_inv assms(1))

end

end
