(* ===== verification/Wire_Protocol.thy ===== *)
theory Wire_Protocol
  imports Go_Prelude
begin

text \<open>
  The binary WebSocket protocol of \<open>internal/wsstream\<close> (protocol.go, types.go): the
  encoders and decoders of the four message kinds.  A Go buffer that is allocated once and
  filled at increasing offsets is the concatenation of its fields; the decoders keep the
  source's offsets, its length checks and its order of checks, and every index or reslice
  can panic.  \<open>int64\<close> and \<open>uint64\<close> share the type \<open>64 word\<close>: the conversion
  between them keeps the bits.
\<close>

section \<open>Message types and errors\<close>

definition MsgTypeCodecInfo :: byte where "MsgTypeCodecInfo = 1"
definition MsgTypeVideoFrame :: byte where "MsgTypeVideoFrame = 2"
definition MsgTypeAudioFrame :: byte where "MsgTypeAudioFrame = 3"
definition MsgTypeAudioCodecInfo :: byte where "MsgTypeAudioCodecInfo = 5"

definition CodecH264 :: string where "CodecH264 = ''h264''"
definition CodecH265 :: string where "CodecH265 = ''h265''"

datatype wire_error =
    NilMessage
  | UnknownCodec string
  | UnknownCodecByte byte
  | TooShort nat
  | WrongType byte
  | Truncated string
  | TruncatedNalu nat string
  | TooManyNalus nat
  | ConfigTooLong nat

record codec_info =
  ci_codec :: string
  ci_profile :: byte
  ci_level :: byte
  ci_sps :: "byte list"
  ci_pps :: "byte list"
  ci_vps :: "byte list"

record video_frame =
  vf_pts :: "64 word"
  vf_keyframe :: bool
  vf_nalus :: "byte list list"

record audio_codec_info =
  aci_codec :: byte
  aci_rate :: "32 word"
  aci_channels :: byte
  aci_config :: "byte list"

record audio_frame =
  af_pts :: "64 word"
  af_data :: "byte list"

section \<open>Codec info\<close>

definition codecByte :: "string \<Rightarrow> (wire_error, byte) res" where
  "codecByte codec =
     (if codec = CodecH264 then Ok 4
      else if codec = CodecH265 then Ok 5
      else Err (UnknownCodec codec))"

definition codecFromByte :: "byte \<Rightarrow> (wire_error, string) res" where
  "codecFromByte b =
     (if b = 4 then Ok CodecH264
      else if b = 5 then Ok CodecH265
      else Err (UnknownCodecByte b))"

text \<open>One length-prefixed field: \<open>PutUint16\<close> of the truncated length, then the data.\<close>

definition put_field16 :: "byte list \<Rightarrow> byte list" where
  "put_field16 x = be_bytes 2 (of_nat (length x) :: 16 word) @ x"

definition EncodeCodecInfo :: "codec_info option \<Rightarrow> (wire_error, byte list) res" where
  "EncodeCodecInfo cio =
     (case cio of
        None \<Rightarrow> Err NilMessage
      | Some ci \<Rightarrow>
          bind (codecByte (ci_codec ci)) (\<lambda>cb.
            Ok ([MsgTypeCodecInfo, cb, ci_profile ci, ci_level ci]
                @ put_field16 (ci_sps ci)
                @ put_field16 (ci_pps ci)
                @ (if ci_codec ci = CodecH265 then put_field16 (ci_vps ci) else []))))"

definition read_field16 :: "string \<Rightarrow> byte list \<Rightarrow> nat \<Rightarrow> (wire_error, byte list \<times> nat) res" where
  "read_field16 what d off =
     bind (require (off + 2 \<le> length d) (Truncated (what @ '' length''))) (\<lambda>_.
     bind (be_at 2 d off) (\<lambda>l :: 16 word.
     let n = unat l; off = off + 2 in
     bind (require (off + n \<le> length d) (Truncated (what @ '' data''))) (\<lambda>_.
     bind (reslice d off (off + n)) (\<lambda>x. Ok (x, off + n)))))"

definition DecodeCodecInfo :: "byte list \<Rightarrow> (wire_error, codec_info) res" where
  "DecodeCodecInfo d =
     bind (require (5 \<le> length d) (TooShort (length d))) (\<lambda>_.
     bind (index_at d 0) (\<lambda>t.
     bind (require (t = MsgTypeCodecInfo) (WrongType t)) (\<lambda>_.
     bind (bind (index_at d 1) codecFromByte) (\<lambda>codec.
     bind (index_at d 2) (\<lambda>profile.
     bind (index_at d 3) (\<lambda>level.
     bind (read_field16 ''SPS'' d 4) (\<lambda>(sps, off).
     bind (read_field16 ''PPS'' d off) (\<lambda>(pps, off).
     bind (if codec = CodecH265 then read_field16 ''VPS'' d off else Ok ([], off)) (\<lambda>(vps, off).
     Ok \<lparr>ci_codec = codec, ci_profile = profile, ci_level = level,
         ci_sps = sps, ci_pps = pps, ci_vps = vps\<rparr>)))))))))"

section \<open>Video frames\<close>

definition put_nalu :: "byte list \<Rightarrow> byte list" where
  "put_nalu x = be_bytes 4 (of_nat (length x) :: 32 word) @ x"

definition EncodeVideoFrame :: "video_frame option \<Rightarrow> (wire_error, byte list) res" where
  "EncodeVideoFrame vfo =
     (case vfo of
        None \<Rightarrow> Err NilMessage
      | Some vf \<Rightarrow>
          bind (require (length (vf_nalus vf) \<le> 65535) (TooManyNalus (length (vf_nalus vf)))) (\<lambda>_.
            Ok (MsgTypeVideoFrame # be_bytes 8 (vf_pts vf)
                @ [if vf_keyframe vf then 1 else 0]
                @ be_bytes 2 (of_nat (length (vf_nalus vf)) :: 16 word)
                @ concat (map put_nalu (vf_nalus vf)))))"

text \<open>The loop over the NAL units: \<open>n\<close> left, \<open>i\<close> done, at offset \<open>off\<close>.\<close>

fun read_nalus :: "byte list \<Rightarrow> nat \<Rightarrow> nat \<Rightarrow> nat \<Rightarrow> (wire_error, byte list list) res" where
  "read_nalus d i 0 off = Ok []"
| "read_nalus d i (Suc n) off =
     bind (require (off + 4 \<le> length d) (TruncatedNalu i ''length'')) (\<lambda>_.
     bind (be_at 4 d off) (\<lambda>l :: 32 word.
     let k = unat l; off = off + 4 in
     bind (require (off + k \<le> length d) (TruncatedNalu i ''data'')) (\<lambda>_.
     bind (reslice d off (off + k)) (\<lambda>x.
     bind (read_nalus d (Suc i) n (off + k)) (\<lambda>xs. Ok (x # xs))))))"

definition DecodeVideoFrame :: "byte list \<Rightarrow> (wire_error, video_frame) res" where
  "DecodeVideoFrame d =
     bind (require (12 \<le> length d) (TooShort (length d))) (\<lambda>_.
     bind (index_at d 0) (\<lambda>t.
     bind (require (t = MsgTypeVideoFrame) (WrongType t)) (\<lambda>_.
     bind (be_at 8 d 1) (\<lambda>pts.
     bind (index_at d 9) (\<lambda>k.
     bind (be_at 2 d 10) (\<lambda>n :: 16 word.
     bind (read_nalus d 0 (unat n) 12) (\<lambda>nalus.
     Ok \<lparr>vf_pts = pts, vf_keyframe = (k \<noteq> 0), vf_nalus = nalus\<rparr>)))))))"

section \<open>Audio\<close>

definition EncodeAudioCodecInfo :: "audio_codec_info option \<Rightarrow> (wire_error, byte list) res" where
  "EncodeAudioCodecInfo acio =
     (case acio of
        None \<Rightarrow> Err NilMessage
      | Some a \<Rightarrow>
          bind (require (length (aci_config a) \<le> 65535) (ConfigTooLong (length (aci_config a)))) (\<lambda>_.
            Ok ([MsgTypeAudioCodecInfo, aci_codec a] @ be_bytes 4 (aci_rate a)
                @ [aci_channels a]
                @ be_bytes 2 (of_nat (length (aci_config a)) :: 16 word)
                @ aci_config a)))"

definition DecodeAudioCodecInfo :: "byte list \<Rightarrow> (wire_error, audio_codec_info) res" where
  "DecodeAudioCodecInfo d =
     bind (require (9 \<le> length d) (TooShort (length d))) (\<lambda>_.
     bind (index_at d 0) (\<lambda>t.
     bind (require (t = MsgTypeAudioCodecInfo) (WrongType t)) (\<lambda>_.
     bind (index_at d 1) (\<lambda>codec.
     bind (be_at 4 d 2) (\<lambda>rate.
     bind (index_at d 6) (\<lambda>ch.
     bind (be_at 2 d 7) (\<lambda>l :: 16 word.
     let n = unat l in
     bind (require (9 + n \<le> length d) (Truncated ''config'')) (\<lambda>_.
     bind (if 0 < n then reslice d 9 (9 + n) else Ok []) (\<lambda>cfg.
     Ok \<lparr>aci_codec = codec, aci_rate = rate, aci_channels = ch, aci_config = cfg\<rparr>)))))))))"

definition EncodeAudioFrame :: "audio_frame option \<Rightarrow> (wire_error, byte list) res" where
  "EncodeAudioFrame afo =
     (case afo of
        None \<Rightarrow> Err NilMessage
      | Some af \<Rightarrow> Ok (MsgTypeAudioFrame # be_bytes 8 (af_pts af) @ af_data af))"

definition DecodeAudioFrame :: "byte list \<Rightarrow> (wire_error, audio_frame) res" where
  "DecodeAudioFrame d =
     bind (require (9 \<le> length d) (TooShort (length d))) (\<lambda>_.
     bind (index_at d 0) (\<lambda>t.
     bind (require (t = MsgTypeAudioFrame) (WrongType t)) (\<lambda>_.
     bind (be_at 8 d 1) (\<lambda>pts.
     bind (if 9 < length d then reslice_from d 9 else Ok []) (\<lambda>x.
     Ok \<lparr>af_pts = pts, af_data = x\<rparr>)))))"

section \<open>The decoders never panic\<close>

lemma read_field16_not_Panic [simp]: "read_field16 w d off \<noteq> Panic"
  by (auto simp: read_field16_def Let_def panic_simps)

lemma read_nalus_not_Panic [simp]: "read_nalus d i n off \<noteq> Panic"
  by (induction n arbitrary: i off) (auto simp: Let_def panic_simps)

lemma codecFromByte_not_Panic [simp]: "codecFromByte b \<noteq> Panic"
  by (simp add: codecFromByte_def)

lemma DecodeCodecInfo_total: "DecodeCodecInfo d \<noteq> Panic"
  by (auto simp: DecodeCodecInfo_def panic_simps split: prod.splits if_splits)

lemma DecodeVideoFrame_total: "DecodeVideoFrame d \<noteq> Panic"
  by (auto simp: DecodeVideoFrame_def panic_simps)

lemma DecodeAudioCodecInfo_total: "DecodeAudioCodecInfo d \<noteq> Panic"
  by (auto simp: DecodeAudioCodecInfo_def Let_def panic_simps split: if_splits)

lemma DecodeAudioFrame_total: "DecodeAudioFrame d \<noteq> Panic"
  by (auto simp: DecodeAudioFrame_def panic_simps split: if_splits)

section \<open>Fields read back\<close>

lemma length_put_field16 [simp]: "length (put_field16 x) = 2 + length x"
  by (simp add: put_field16_def)

lemma length_put_nalu [simp]: "length (put_nalu x) = 4 + length x"
  by (simp add: put_nalu_def)

text \<open>
  A field written after a prefix of length \<open>off\<close> is read back, and the offset moves behind it.
\<close>

lemma read_field16_put:
  assumes "off = length pre" and "length x < 65536"
  shows "read_field16 w (pre @ put_field16 x @ suf) off = Ok (x, off + 2 + length x)"
proof -
  let ?d = "pre @ put_field16 x @ suf"
  have l: "be_at 2 ?d off = Ok (of_nat (length x) :: 16 word)"
    by (simp add: be_at_def put_field16_def assms(1))
  have n: "unat (of_nat (length x) :: 16 word) = length x"
    using assms(2) by (rule unat_of_nat_16)
  have "reslice ?d (off + 2) (off + 2 + length x) = Ok x"
    by (simp add: reslice_def put_field16_def assms(1))
  with l n show ?thesis
    by (simp add: read_field16_def Let_def assms(1))
qed

lemma read_nalus_put:
  assumes "\<forall>x \<in> set xs. length x < 2 ^ 32" and "off = length pre"
  shows "read_nalus (pre @ concat (map put_nalu xs) @ suf) i (length xs) off = Ok xs"
  using assms
proof (induction xs arbitrary: pre i off)
  case Nil
  then show ?case by simp
next
  case (Cons x xs)
  let ?d = "pre @ concat (map put_nalu (x # xs)) @ suf"
  have l: "be_at 4 ?d off = Ok (of_nat (length x) :: 32 word)"
    by (simp add: be_at_def put_nalu_def Cons.prems(2))
  have n: "unat (of_nat (length x) :: 32 word) = length x"
    using Cons.prems(1) by (intro unat_of_nat_32) simp
  have r: "reslice ?d (off + 4) (off + 4 + length x) = Ok x"
    by (simp add: reslice_def put_nalu_def Cons.prems(2))
  have "read_nalus ((pre @ put_nalu x) @ concat (map put_nalu xs) @ suf) (Suc i) (length xs)
      (off + 4 + length x) = Ok xs"
    using Cons.prems by (intro Cons.IH) auto
  then have "read_nalus ?d (Suc i) (length xs) (off + 4 + length x) = Ok xs"
    by simp
  with l n r show ?case
    by (simp add: Let_def Cons.prems(2))
qed

section \<open>Round trips\<close>

definition codec_info_ok :: "codec_info \<Rightarrow> bool" where
  "codec_info_ok ci \<longleftrightarrow>
     length (ci_sps ci) < 65536 \<and> length (ci_pps ci) < 65536 \<and> length (ci_vps ci) < 65536
     \<and> (ci_codec ci = CodecH264 \<and> ci_vps ci = [] \<or> ci_codec ci = CodecH265)"

definition video_frame_ok :: "video_frame \<Rightarrow> bool" where
  "video_frame_ok vf \<longleftrightarrow>
     length (vf_nalus vf) < 65536 \<and> (\<forall>x \<in> set (vf_nalus vf). length x < 2 ^ 32)"

definition audio_codec_info_ok :: "audio_codec_info \<Rightarrow> bool" where
  "audio_codec_info_ok a \<longleftrightarrow> length (aci_config a) < 65536"

lemma codec_strings_differ [simp]: "CodecH264 \<noteq> CodecH265" "CodecH265 \<noteq> CodecH264"
  by (simp_all add: CodecH264_def CodecH265_def)

lemma codecFromByte_codecByte: "codecByte c = Ok b \<Longrightarrow> codecFromByte b = Ok c"
  by (auto simp: codecByte_def codecFromByte_def split: if_splits)

lemma DecodeCodecInfo_layout:
  assumes "codecFromByte cb = Ok c" and "length sps < 65536" and "length pps < 65536"
    and "c = CodecH265 \<Longrightarrow> tail = put_field16 vps @ rst" and "length vps < 65536"
    and "c \<noteq> CodecH265 \<Longrightarrow> vps = []"
  shows "DecodeCodecInfo ([MsgTypeCodecInfo, cb, p, l] @ put_field16 sps @ put_field16 pps @ tail)
    = Ok \<lparr>ci_codec = c, ci_profile = p, ci_level = l, ci_sps = sps, ci_pps = pps, ci_vps = vps\<rparr>"
proof -
  let ?h = "[MsgTypeCodecInfo, cb, p, l]"
  let ?d = "?h @ put_field16 sps @ put_field16 pps @ tail"
  have s: "read_field16 ''SPS'' ?d 4 = Ok (sps, 6 + length sps)"
    using read_field16_put[of 4 ?h sps "''SPS''" "put_field16 pps @ tail"] assms(2) by simp
  have q: "read_field16 ''PPS'' ?d (6 + length sps) = Ok (pps, 8 + length sps + length pps)"
    using read_field16_put[of "6 + length sps" "?h @ put_field16 sps" pps "''PPS''" tail] assms(3)
    by simp
  have v: "(if c = CodecH265 then read_field16 ''VPS'' ?d (8 + length sps + length pps)
            else Ok ([], 8 + length sps + length pps))
         = Ok (vps, (if c = CodecH265 then 10 + length sps + length pps + length vps
                     else 8 + length sps + length pps))"
    using read_field16_put[of "8 + length sps + length pps"
        "?h @ put_field16 sps @ put_field16 pps" vps "''VPS''" rst] assms(4,5,6)
    by simp
  show ?thesis
    unfolding DecodeCodecInfo_def
    using s q v assms(1) by simp
qed

lemma codec_info_roundtrip:
  assumes "codec_info_ok ci"
  shows "\<exists>b. EncodeCodecInfo (Some ci) = Ok b \<and> DecodeCodecInfo b = Ok ci"
proof -
  from assms obtain cb where cb: "codecByte (ci_codec ci) = Ok cb"
    by (auto simp: codec_info_ok_def codecByte_def)
  let ?tail = "if ci_codec ci = CodecH265 then put_field16 (ci_vps ci) else []"
  have "DecodeCodecInfo ([MsgTypeCodecInfo, cb, ci_profile ci, ci_level ci]
      @ put_field16 (ci_sps ci) @ put_field16 (ci_pps ci) @ ?tail) = Ok ci"
    using assms codecFromByte_codecByte[OF cb]
    by (subst DecodeCodecInfo_layout[where vps = "ci_vps ci" and rst = "[]"])
       (auto simp: codec_info_ok_def)
  then show ?thesis by (simp add: EncodeCodecInfo_def cb)
qed

lemma video_frame_roundtrip:
  assumes "video_frame_ok vf"
  shows "\<exists>b. EncodeVideoFrame (Some vf) = Ok b \<and> DecodeVideoFrame b = Ok vf"
proof -
  let ?n = "of_nat (length (vf_nalus vf)) :: 16 word"
  let ?h = "MsgTypeVideoFrame # be_bytes 8 (vf_pts vf) @ [if vf_keyframe vf then 1 else 0]
      @ be_bytes 2 ?n"
  let ?d = "?h @ concat (map put_nalu (vf_nalus vf))"
  have n: "unat ?n = length (vf_nalus vf)"
    using assms by (intro unat_of_nat_16) (simp add: video_frame_ok_def)
  have r: "read_nalus ?d 0 (unat ?n) 12 = Ok (vf_nalus vf)"
    unfolding n using assms read_nalus_put[of "vf_nalus vf" 12 ?h "[]" 0]
    by (simp add: video_frame_ok_def)
  have "be_at 8 ?d 1 = Ok (vf_pts vf)" and "be_at 2 ?d 10 = Ok ?n"
    by (simp_all add: be_at_def nth_append)
  moreover have "index_at ?d 9 = Ok (if vf_keyframe vf then 1 else 0)"
    by (simp add: index_at_def nth_append)
  ultimately have "DecodeVideoFrame ?d = Ok vf"
    using r by (simp add: DecodeVideoFrame_def)
  moreover have "EncodeVideoFrame (Some vf) = Ok ?d"
    using assms by (simp add: EncodeVideoFrame_def video_frame_ok_def)
  ultimately show ?thesis by blast
qed

lemma audio_codec_info_roundtrip:
  assumes "audio_codec_info_ok a"
  shows "\<exists>b. EncodeAudioCodecInfo (Some a) = Ok b \<and> DecodeAudioCodecInfo b = Ok a"
proof -
  let ?n = "of_nat (length (aci_config a)) :: 16 word"
  let ?d = "[MsgTypeAudioCodecInfo, aci_codec a] @ be_bytes 4 (aci_rate a) @ [aci_channels a]
      @ be_bytes 2 ?n @ aci_config a"
  have n: "unat ?n = length (aci_config a)"
    using assms by (intro unat_of_nat_16) (simp add: audio_codec_info_ok_def)
  have "be_at 4 ?d 2 = Ok (aci_rate a)" and "be_at 2 ?d 7 = Ok ?n"
    and "index_at ?d 6 = Ok (aci_channels a)"
    by (simp_all add: be_at_def index_at_def nth_append)
  moreover have "reslice ?d 9 (9 + length (aci_config a)) = Ok (aci_config a)"
    by (simp add: reslice_def)
  ultimately have "DecodeAudioCodecInfo ?d = Ok a"
    using n by (simp add: DecodeAudioCodecInfo_def Let_def)
  moreover have "EncodeAudioCodecInfo (Some a) = Ok ?d"
    using assms by (simp add: EncodeAudioCodecInfo_def audio_codec_info_ok_def)
  ultimately show ?thesis by blast
qed

lemma audio_frame_roundtrip:
  "\<exists>b. EncodeAudioFrame (Some af) = Ok b \<and> DecodeAudioFrame b = Ok af"
proof -
  let ?d = "MsgTypeAudioFrame # be_bytes 8 (af_pts af) @ af_data af"
  have "be_at 8 ?d 1 = Ok (af_pts af)"
    by (simp add: be_at_def)
  then have "DecodeAudioFrame ?d = Ok af"
    by (simp add: DecodeAudioFrame_def)
  then show ?thesis by (simp add: EncodeAudioFrame_def)
qed

interpretation codec_info_wire:
  wire_codec "\<lambda>ci. EncodeCodecInfo (Some ci)" DecodeCodecInfo codec_info_ok
  by unfold_locales (auto intro: codec_info_roundtrip simp: DecodeCodecInfo_total)

interpretation video_wire:
  wire_codec "\<lambda>vf. EncodeVideoFrame (Some vf)" DecodeVideoFrame video_frame_ok
  by unfold_locales (auto intro: video_frame_roundtrip simp: DecodeVideoFrame_total)

interpretation audio_info_wire:
  wire_codec "\<lambda>a. EncodeAudioCodecInfo (Some a)" DecodeAudioCodecInfo audio_codec_info_ok
  by unfold_locales (auto intro: audio_codec_info_roundtrip simp: DecodeAudioCodecInfo_total)

interpretation audio_wire:
  wire_codec "\<lambda>af. EncodeAudioFrame (Some af)" DecodeAudioFrame "\<lambda>_. True"
  by unfold_locales (auto intro: audio_frame_roundtrip simp: DecodeAudioFrame_total)

section \<open>What a decoder accepts\<close>

lemma unat_16: "unat (w :: 16 word) < 65536"
  by (rule order.strict_trans2[OF unsigned_less]) simp

lemma read_field16_length: "read_field16 w d off = Ok (x, off') \<Longrightarrow> length x < 65536"
  using unat_16 by (auto simp: read_field16_def go_simps reslice_def require_def Let_def split: if_splits)

lemma DecodeCodecInfo_sps: "DecodeCodecInfo d = Ok ci \<Longrightarrow> length (ci_sps ci) < 65536"
  by (auto simp: DecodeCodecInfo_def go_simps dest: read_field16_length)

section \<open>Properties\<close>

text \<open>no byte sequence a peer can send makes a decoder of the wire protocol panic: every
  read is behind its length check.\<close>

theorem wire_decoders_never_panic:
  "DecodeCodecInfo d \<noteq> Panic \<and> DecodeVideoFrame d \<noteq> Panic
   \<and> DecodeAudioCodecInfo d \<noteq> Panic \<and> DecodeAudioFrame d \<noteq> Panic"
  using codec_info_wire.dec_total video_wire.dec_total audio_info_wire.dec_total audio_wire.dec_total
  by blast

text \<open>a codec announcement and a video frame within the field widths come back from the
  decoder as they were encoded.\<close>

theorem wire_video_roundtrip:
  assumes "codec_info_ok ci" and "video_frame_ok vf"
  shows "(\<exists>b. EncodeCodecInfo (Some ci) = Ok b \<and> DecodeCodecInfo b = Ok ci)
    \<and> (\<exists>b. EncodeVideoFrame (Some vf) = Ok b \<and> DecodeVideoFrame b = Ok vf)"
  using codec_info_wire.roundtrip[OF assms(1)] video_wire.roundtrip[OF assms(2)] by simp

theorem wire_video_witness:
  "\<exists>b. EncodeVideoFrame (Some \<lparr>vf_pts = 90000, vf_keyframe = True, vf_nalus = [[0x65, 1], []]\<rparr>) = Ok b
     \<and> DecodeVideoFrame b = Ok \<lparr>vf_pts = 90000, vf_keyframe = True, vf_nalus = [[0x65, 1], []]\<rparr>"
  using wire_video_roundtrip[of "\<lparr>ci_codec = CodecH264, ci_profile = 1, ci_level = 2, ci_sps = [1],
      ci_pps = [2], ci_vps = []\<rparr>" "\<lparr>vf_pts = 90000, vf_keyframe = True, vf_nalus = [[0x65, 1], []]\<rparr>"]
  by (simp add: codec_info_ok_def video_frame_ok_def)

text \<open>audio messages round trip as well, a frame of any length included.\<close>

theorem wire_audio_roundtrip:
  assumes "audio_codec_info_ok a"
  shows "(\<exists>b. EncodeAudioCodecInfo (Some a) = Ok b \<and> DecodeAudioCodecInfo b = Ok a)
    \<and> (\<exists>b. EncodeAudioFrame (Some af) = Ok b \<and> DecodeAudioFrame b = Ok af)"
  using audio_info_wire.roundtrip[OF assms] audio_wire.roundtrip[of af] by simp

theorem wire_audio_witness:
  "\<exists>b. EncodeAudioCodecInfo (Some \<lparr>aci_codec = 2, aci_rate = 8000, aci_channels = 1, aci_config = [1]\<rparr>) = Ok b
     \<and> DecodeAudioCodecInfo b = Ok \<lparr>aci_codec = 2, aci_rate = 8000, aci_channels = 1, aci_config = [1]\<rparr>"
  using wire_audio_roundtrip[of "\<lparr>aci_codec = 2, aci_rate = 8000, aci_channels = 1, aci_config = [1]\<rparr>"
      "\<lparr>af_pts = 0, af_data = []\<rparr>"]
  by (simp add: audio_codec_info_ok_def)

text \<open>a parameter set of 65536 bytes or more is encoded without an error, with its length
  field truncated, and the decoder does not return it.\<close>

theorem wire_long_sps_is_lost:
  assumes "ci_codec ci = CodecH264" and "65536 \<le> length (ci_sps ci)"
  shows "\<exists>b. EncodeCodecInfo (Some ci) = Ok b \<and> DecodeCodecInfo b \<noteq> Ok ci"
proof -
  obtain b where "EncodeCodecInfo (Some ci) = Ok b"
    using assms(1) by (simp add: EncodeCodecInfo_def codecByte_def)
  then show ?thesis using DecodeCodecInfo_sps[of b ci] assms(2) by fastforce
qed

theorem wire_long_sps_witness:
  "\<exists>ci b. EncodeCodecInfo (Some ci) = Ok b \<and> DecodeCodecInfo b \<noteq> Ok ci"
  using wire_long_sps_is_lost[of "\<lparr>ci_codec = CodecH264, ci_profile = 0, ci_level = 0,
      ci_sps = replicate 65536 0, ci_pps = [], ci_vps = []\<rparr>"]
  by (simp only: codec_info.simps length_replicate) blast

end
