(* ===== verification/Jt808_Codec.thy ===== *)
theory Jt808_Codec
  imports Go_Prelude
begin

text \<open>
  The JT/T 808 frame codec of \<open>internal/jt808/packet.go\<close>: byte stuffing, checksum, the
  2013 and 2019 headers, the BCD-coded SIM number, and the byte-stream splitter of the read
  loop in \<open>server.go\<close>.  Go strings are char lists; a SIM is a string of digits.
\<close>

section \<open>Packets\<close>

record packet =
  pk_id :: "16 word"
  pk_sim :: string
  pk_seq :: "16 word"
  pk_body :: "byte list"
  pk_version :: byte
  pk_total :: "16 word"
  pk_index :: "16 word"
  pk_noAck :: bool

datatype jt_error =
    MissingDelimiters
  | TruncatedEscape
  | InvalidEscape
  | FrameTooShort
  | ChecksumMismatch
  | EncryptedFrame
  | HeaderTooShort
  | InvalidBCD
  | BodyLengthMismatch
  | BodyTooLong nat
  | InvalidSIM

definition maxBody :: nat where "maxBody = 1023"

definition is_digit :: "char \<Rightarrow> bool" where
  "is_digit c \<longleftrightarrow> 48 \<le> (of_char c :: nat) \<and> of_char c \<le> (57 :: nat)"

definition validSIM :: "string \<Rightarrow> bool" where
  "validSIM key \<longleftrightarrow> \<not> (length key = 0 \<or> length key > 20) \<and> list_all is_digit key"

definition digit_char :: "byte \<Rightarrow> char" where
  "digit_char d = char_of (unat (48 + d))"

definition digit_val :: "char \<Rightarrow> byte" where
  "digit_val c = of_nat (of_char c) - 48"

text \<open>\<open>strings.TrimLeft(s, "0")\<close>, with the empty result replaced by \<open>"0"\<close>.\<close>

definition trim_zeros :: "string \<Rightarrow> string" where
  "trim_zeros s = (let t = dropWhile (\<lambda>c. c = CHR ''0'') s in if t = [] then ''0'' else t)"

section \<open>Byte stuffing and checksum\<close>

fun unescape :: "byte list \<Rightarrow> (jt_error, byte list) res" where
  "unescape [] = Ok []"
| "unescape (b # bs) =
     (if b = 0x7d then
        (case bs of
           [] \<Rightarrow> Err TruncatedEscape
         | c # cs \<Rightarrow>
             if c = 1 then bind (unescape cs) (\<lambda>r. Ok (0x7d # r))
             else if c = 2 then bind (unescape cs) (\<lambda>r. Ok (0x7e # r))
             else Err InvalidEscape)
      else bind (unescape bs) (\<lambda>r. Ok (b # r)))"

fun escape :: "byte list \<Rightarrow> byte list" where
  "escape [] = []"
| "escape (b # bs) =
     (if b = 0x7e then 0x7d # 2 # escape bs
      else if b = 0x7d then 0x7d # 1 # escape bs
      else b # escape bs)"

definition xor_all :: "byte list \<Rightarrow> byte" where
  "xor_all bs = fold (\<lambda>b c. c XOR b) bs 0"

section \<open>Decoding\<close>

fun bcd_digits :: "byte list \<Rightarrow> (jt_error, string) res" where
  "bcd_digits [] = Ok []"
| "bcd_digits (b # bs) =
     (if drop_bit 4 b > 9 \<or> b AND 15 > 9 then Err InvalidBCD
      else bind (bcd_digits bs) (\<lambda>s. Ok (digit_char (drop_bit 4 b) # digit_char (b AND 15) # s)))"

text \<open>
  The two parts of \<open>decodePacket\<close> that read the unstuffed buffer without its checksum byte:
  the fields behind the attribute word, for a header whose SIM starts at \<open>start\<close>, and the
  choice between the 2013 and the 2019 header.
\<close>

definition decode_tail ::
  "16 word \<Rightarrow> 16 word \<Rightarrow> byte \<Rightarrow> nat \<Rightarrow> nat \<Rightarrow> bool \<Rightarrow> byte list \<Rightarrow> (jt_error, packet) res" where
  "decode_tail mid attr version start phoneLen sub buf =
     (let headerEnd = start + phoneLen + 2 + (if sub then 4 else 0) in
     bind (require (\<not> length buf < headerEnd) HeaderTooShort) (\<lambda>_.
     bind (bind (reslice buf start (start + phoneLen)) bcd_digits) (\<lambda>digits.
     bind (be_at 2 buf (start + phoneLen)) (\<lambda>seq.
     let bodyAt = start + phoneLen + 2 in
     bind (if sub then be_at 2 buf bodyAt else Ok 0) (\<lambda>total.
     bind (if sub then be_at 2 buf (bodyAt + 2) else Ok 0) (\<lambda>index.
     bind (reslice_from buf (if sub then bodyAt + 4 else bodyAt)) (\<lambda>body.
     bind (require (length body = unat (attr AND 0x3ff)) BodyLengthMismatch) (\<lambda>_.
     Ok \<lparr>pk_id = mid, pk_sim = trim_zeros digits, pk_seq = seq, pk_body = body,
         pk_version = version, pk_total = total, pk_index = index, pk_noAck = False\<rparr>))))))))"

definition decode_fields :: "byte list \<Rightarrow> (jt_error, packet) res" where
  "decode_fields buf =
     bind (be_at 2 buf 0) (\<lambda>mid.
     bind (be_at 2 buf 2) (\<lambda>attr :: 16 word.
     bind (require (attr AND 0x1c00 = 0) EncryptedFrame) (\<lambda>_.
     let v2019 = (attr AND 0x4000 \<noteq> 0);
         start = (if v2019 then 5 else 4);
         phoneLen = (if v2019 then 10 else 6);
         version = (if v2019 \<and> length buf > 4 then buf ! 4 else 0) in
     decode_tail mid attr version start phoneLen (attr AND 0x2000 \<noteq> 0) buf)))"

definition decodePacket :: "byte list \<Rightarrow> (jt_error, packet) res" where
  "decodePacket frame =
     bind (require (\<not> (length frame < 2 \<or> frame ! 0 \<noteq> 0x7e \<or> frame ! (length frame - 1) \<noteq> 0x7e))
             MissingDelimiters) (\<lambda>_.
     bind (unescape (take (length frame - 2) (drop 1 frame))) (\<lambda>buf.
     bind (require (\<not> length buf < 13) FrameTooShort) (\<lambda>_.
     bind (require (xor_all buf = 0) ChecksumMismatch) (\<lambda>_.
     bind (reslice buf 0 (length buf - 1)) (\<lambda>buf.
     decode_fields buf)))))"

section \<open>Encoding\<close>

fun bcd_pack :: "string \<Rightarrow> byte list" where
  "bcd_pack (a # b # s) = (push_bit 4 (digit_val a) OR digit_val b) # bcd_pack s"
| "bcd_pack _ = []"

definition phone_len :: "packet \<Rightarrow> nat" where
  "phone_len p = (if pk_version p \<noteq> 0 then 10 else 6)"

definition attr_of :: "packet \<Rightarrow> 16 word" where
  "attr_of p = of_nat (length (pk_body p))
     OR (if pk_total p > 1 then 0x2000 else 0)
     OR (if pk_version p \<noteq> 0 then 0x4000 else 0)"

definition header_bytes :: "packet \<Rightarrow> byte list" where
  "header_bytes p =
     be_bytes 2 (pk_id p) @ be_bytes 2 (attr_of p)
     @ (if pk_version p \<noteq> 0 then [pk_version p] else [])
     @ bcd_pack (replicate (phone_len p * 2 - length (pk_sim p)) (CHR ''0'') @ pk_sim p)
     @ be_bytes 2 (pk_seq p)
     @ (if pk_total p > 1 then be_bytes 2 (pk_total p) @ be_bytes 2 (pk_index p) else [])"

definition encodePacket :: "packet \<Rightarrow> (jt_error, byte list) res" where
  "encodePacket p =
     bind (require (length (pk_body p) \<le> maxBody) (BodyTooLong (length (pk_body p)))) (\<lambda>_.
     bind (require (\<not> (\<not> validSIM (pk_sim p) \<or> length (pk_sim p) > phone_len p * 2)) InvalidSIM) (\<lambda>_.
     let buf = header_bytes p @ pk_body p in
     Ok (0x7e # escape (buf @ [xor_all buf]) @ [0x7e])))"

section \<open>The read loop\<close>

text \<open>
  \<open>handle\<close> splits the byte stream at the delimiter.  \<open>frame\<close> and \<open>started\<close> are the
  loop's variables; a step returns the frame handed to \<open>decodePacket\<close>, if there is one.
\<close>

record reader =
  rd_frame :: "byte list"
  rd_started :: bool

definition reader_init :: reader where
  "reader_init = \<lparr>rd_frame = [], rd_started = False\<rparr>"

definition read_byte :: "reader \<Rightarrow> byte \<Rightarrow> reader \<times> byte list option" where
  "read_byte r b =
     (if b = 0x7e then
        (\<lparr>rd_frame = [0x7e], rd_started = True\<rparr>,
         if rd_started r \<and> length (rd_frame r) > 1 then Some (rd_frame r @ [0x7e]) else None)
      else if rd_started r then
        (if length (rd_frame r) \<ge> 8192 then (\<lparr>rd_frame = [], rd_started = False\<rparr>, None)
         else (r\<lparr>rd_frame := rd_frame r @ [b]\<rparr>, None))
      else (r, None))"

text \<open>All bytes of the connection, and the packets that reach \<open>ingest\<close>, in order.\<close>

fun read_stream :: "reader \<Rightarrow> byte list \<Rightarrow> packet list" where
  "read_stream r [] = []"
| "read_stream r (b # bs) =
     (let (r', fo) = read_byte r b in
      (case fo of
         None \<Rightarrow> []
       | Some f \<Rightarrow> (case decodePacket f of Ok p \<Rightarrow> [p] | _ \<Rightarrow> []))
      @ read_stream r' bs)"

section \<open>Byte stuffing undone\<close>

lemma unescape_escape: "unescape (escape bs) = Ok bs"
  by (induction bs) auto

lemma escape_no_delimiter: "0x7e \<notin> set (escape bs)"
  by (induction bs) auto

lemma length_escape: "length (escape bs) \<le> 2 * length bs"
  by (induction bs) auto

lemma xor_all_snoc: "xor_all (xs @ [x]) = xor_all xs XOR x"
  by (simp add: xor_all_def)

lemma xor_all_checksum [simp]: "xor_all (xs @ [xor_all xs]) = 0"
  by (simp add: xor_all_snoc)

section \<open>BCD digits\<close>

lemma is_digit_cases:
  assumes "is_digit c"
  obtains k :: nat where "k \<le> 9" and "c = char_of (48 + k)"
proof
  show "of_char c - 48 \<le> (9 :: nat)"
    using assms unfolding is_digit_def by linarith
  show "c = char_of (48 + (of_char c - 48 :: nat))"
    using assms by (simp add: is_digit_def)
qed

lemma digit_val_char_of: "k \<le> (9::nat) \<Longrightarrow> digit_val (char_of (48 + k)) = (of_nat k :: byte)"
  by (simp add: digit_val_def)

lemma small_cases: "k \<le> (9::nat) \<Longrightarrow> k = 0 \<or> k = 1 \<or> k = 2 \<or> k = 3 \<or> k = 4 \<or> k = 5 \<or> k = 6 \<or> k = 7
   \<or> k = 8 \<or> k = 9"
  by arith

lemma digit_char_val: "is_digit c \<Longrightarrow> digit_char (digit_val c) = c"
  by (erule is_digit_cases)
     (auto simp: digit_val_char_of digit_char_def dest!: small_cases)

lemma digit_val_word:
  assumes "is_digit c"
  shows "digit_val c \<in> {0, 1, 2, 3, 4, 5, 6, 7, 8, 9}"
  using assms by (elim is_digit_cases) (auto simp: digit_val_char_of dest!: small_cases)

lemma nibbles:
  assumes "hi \<in> {0, 1, 2, 3, 4, 5, 6, 7, 8, 9 :: byte}" and "lo \<in> {0, 1, 2, 3, 4, 5, 6, 7, 8, 9 :: byte}"
  shows "drop_bit 4 (push_bit 4 hi OR lo) = hi" and "(push_bit 4 hi OR lo) AND 15 = lo"
    and "\<not> hi > 9" and "\<not> lo > 9"
  using assms by auto

lemma bcd_digits_pack:
  "list_all is_digit s \<Longrightarrow> even (length s) \<Longrightarrow> bcd_digits (bcd_pack s) = Ok s"
proof (induction s rule: bcd_pack.induct)
  case (1 a b s)
  then have "is_digit a" "is_digit b" and IH: "bcd_digits (bcd_pack s) = Ok s"
    by auto
  then show ?case
    using nibbles[OF digit_val_word digit_val_word, of a b] by (simp add: digit_char_val)
qed auto

lemma length_bcd_pack [simp]: "length (bcd_pack s) = length s div 2"
  by (induction s rule: bcd_pack.induct) auto

text \<open>The digits that a decoder can produce.\<close>

lemma nibble_le_9_cases: "\<not> 9 < (x :: byte) \<Longrightarrow> \<exists>k \<le> 9. x = of_nat k"
  by (rule exI[of _ "unat x"]) (simp add: word_less_nat_alt)

lemma is_digit_digit_char: "\<not> 9 < d \<Longrightarrow> is_digit (digit_char d)"
  by (drule nibble_le_9_cases) (auto simp: is_digit_def digit_char_def dest!: small_cases)

lemma bcd_digits_ok:
  "bcd_digits bs = Ok s \<Longrightarrow> list_all is_digit s \<and> length s = 2 * length bs"
  by (induction bs arbitrary: s) (auto simp: go_simps is_digit_digit_char split: if_splits)

lemma bcd_digits_not_Panic [simp]: "bcd_digits bs \<noteq> Panic"
  by (induction bs) (auto simp: panic_simps)

lemma unescape_not_Panic [simp]: "unescape bs \<noteq> Panic"
  by (induction bs rule: unescape.induct) (auto simp: panic_simps split: list.splits)

section \<open>Attribute word\<close>

lemma and_flag_iff: "a AND 0x4000 \<noteq> 0 \<longleftrightarrow> bit a 14" "a AND 0x2000 \<noteq> 0 \<longleftrightarrow> bit a 13" for a :: "16 word"
  using and_exp_eq_0_iff_not_bit[of a 14] and_exp_eq_0_iff_not_bit[of a 13] by simp_all

lemma and_encrypt_iff: "a AND 0x1c00 = 0 \<longleftrightarrow> \<not> bit a 10 \<and> \<not> bit a 11 \<and> \<not> bit a 12" for a :: "16 word"
proof -
  have m: "(0x1c00 :: 16 word) = 2 ^ 10 OR (2 ^ 11 OR 2 ^ 12)" by simp
  show ?thesis
    unfolding m bit.conj_disj_distrib or_eq_0_iff and_exp_eq_0_iff_not_bit by simp
qed

lemma bit_of_nat_small:
  assumes "n \<le> 1023" and "10 \<le> k"
  shows "\<not> bit (of_nat n :: 16 word) k"
proof -
  have "n < 2 ^ k" using assms power_increasing[of 10 k "2::nat"] by simp
  then have "\<not> bit n k" by (simp add: bit_iff_odd)
  then show ?thesis by (simp add: bit_of_nat_iff)
qed

lemma attr_of_bits:
  assumes "length (pk_body p) \<le> 1023"
  shows "attr_of p AND 0x1c00 = 0"
    and "attr_of p AND 0x4000 \<noteq> 0 \<longleftrightarrow> pk_version p \<noteq> 0"
    and "attr_of p AND 0x2000 \<noteq> 0 \<longleftrightarrow> pk_total p > 1"
    and "attr_of p AND 0x3ff = of_nat (length (pk_body p))"
proof -
  have b: "bit (attr_of p) k \<longleftrightarrow> bit (of_nat (length (pk_body p)) :: 16 word) k
      \<or> pk_total p > 1 \<and> k = 13 \<or> pk_version p \<noteq> 0 \<and> k = 14" if "k < 16" for k
  proof -
    have "bit (0x2000 :: 16 word) k \<longleftrightarrow> k = 13" "bit (0x4000 :: 16 word) k \<longleftrightarrow> k = 14"
      using that bit_exp_iff[of 13 k, where ?'a = "16 word"] bit_exp_iff[of 14 k, where ?'a = "16 word"]
      by auto
    then show ?thesis using that unfolding attr_of_def
      by (auto simp: bit_simps)
  qed
  note s = bit_of_nat_small[OF assms]
  show "attr_of p AND 0x1c00 = 0" unfolding and_encrypt_iff by (simp add: b s)
  show "attr_of p AND 0x4000 \<noteq> 0 \<longleftrightarrow> pk_version p \<noteq> 0" unfolding and_flag_iff by (simp add: b s)
  show "attr_of p AND 0x2000 \<noteq> 0 \<longleftrightarrow> pk_total p > 1" unfolding and_flag_iff by (simp add: b s)
  have m: "(0x3ff :: 16 word) = mask 10" by (simp add: mask_eq_exp_minus_1)
  show "attr_of p AND 0x3ff = of_nat (length (pk_body p))"
    unfolding m
  proof (rule bit_word_eqI)
    fix n assume "n < LENGTH(16)"
    then show "bit (attr_of p AND mask 10) n = bit (of_nat (length (pk_body p)) :: 16 word) n"
      by (cases "n < 10") (simp_all add: bit_and_iff bit_mask_iff b s)
  qed
qed

section \<open>Decoding is total\<close>

lemma decode_tail_total: "decode_tail mid attr v m n sub buf \<noteq> Panic"
  unfolding decode_tail_def Let_def
  by (auto simp: panic_simps split: if_splits)

lemma decode_fields_total: "4 \<le> length buf \<Longrightarrow> decode_fields buf \<noteq> Panic"
  unfolding decode_fields_def Let_def
  by (auto simp: panic_simps decode_tail_total)

lemma decodePacket_total: "decodePacket frame \<noteq> Panic"
  unfolding decodePacket_def
  by (auto simp: panic_simps decode_fields_total)

section \<open>The round trip\<close>

text \<open>
  The packets the server sends: a body that fits, a canonical SIM (no leading zero unless it
  is \<open>"0"\<close>) of the header's width, and no sub-package fields unless there are several parts.
\<close>

definition packet_ok :: "packet \<Rightarrow> bool" where
  "packet_ok p \<longleftrightarrow>
     length (pk_body p) \<le> maxBody \<and> validSIM (pk_sim p) \<and> length (pk_sim p) \<le> phone_len p * 2
     \<and> trim_zeros (pk_sim p) = pk_sim p
     \<and> (pk_total p > 1 \<or> pk_total p = 0 \<and> pk_index p = 0)
     \<and> \<not> pk_noAck p"

lemma dropWhile_replicate: "dropWhile (\<lambda>c. c = x) (replicate k x @ s) = dropWhile (\<lambda>c. c = x) s"
  by (induction k) auto

lemma trim_zeros_padded: "trim_zeros (replicate k (CHR ''0'') @ s) = trim_zeros s"
  by (simp add: trim_zeros_def dropWhile_replicate)

lemma zero_is_digit: "is_digit (CHR ''0'')"
  by (simp add: is_digit_def)

lemma bcd_digits_sim:
  assumes "packet_ok p"
  shows "bcd_digits (bcd_pack (replicate (phone_len p * 2 - length (pk_sim p)) (CHR ''0'') @ pk_sim p))
    = Ok (replicate (phone_len p * 2 - length (pk_sim p)) (CHR ''0'') @ pk_sim p)"
  using assms
  by (intro bcd_digits_pack)
     (auto simp: packet_ok_def validSIM_def list_all_iff zero_is_digit)

lemma length_sim_bytes:
  "packet_ok p \<Longrightarrow>
   length (bcd_pack (replicate (phone_len p * 2 - length (pk_sim p)) (CHR ''0'') @ pk_sim p)) = phone_len p"
  by (simp add: packet_ok_def)

lemma length_header_bytes:
  "packet_ok p \<Longrightarrow> length (header_bytes p) =
     (if pk_version p \<noteq> 0 then 17 else 12) + (if pk_total p > 1 then 4 else 0)"
  using length_sim_bytes[of p] by (simp add: header_bytes_def phone_len_def)

lemma encodePacket_ok:
  "packet_ok p \<Longrightarrow> encodePacket p =
     Ok (0x7e # escape (header_bytes p @ pk_body p @ [xor_all (header_bytes p @ pk_body p)]) @ [0x7e])"
  by (simp add: encodePacket_def packet_ok_def Let_def)

lemma decode_fields_encoded:
  assumes ok: "packet_ok p"
  shows "decode_fields (header_bytes p @ pk_body p) = Ok p"
proof -
  let ?sim = "replicate (phone_len p * 2 - length (pk_sim p)) (CHR ''0'') @ pk_sim p"
  have body: "length (pk_body p) \<le> 1023"
    using ok by (simp add: packet_ok_def maxBody_def)
  have n: "unat (of_nat (length (pk_body p)) :: 16 word) = length (pk_body p)"
    using body by (intro unat_of_nat_16) simp
  have trim: "trim_zeros ?sim = pk_sim p"
    using ok by (simp add: trim_zeros_padded packet_ok_def)
  have rest: "pk_total p > 1 \<or> pk_total p = 0 \<and> pk_index p = 0" "pk_noAck p = False"
    using ok by (auto simp: packet_ok_def)
  obtain sim where sim: "bcd_pack ?sim = sim" "length sim = phone_len p" "bcd_digits sim = Ok ?sim"
    using bcd_digits_sim[OF ok] length_sim_bytes[OF ok] by blast
  have hdr: "header_bytes p = be_bytes 2 (pk_id p) @ be_bytes 2 (attr_of p)
     @ (if pk_version p \<noteq> 0 then [pk_version p] else []) @ sim @ be_bytes 2 (pk_seq p)
     @ (if pk_total p > 1 then be_bytes 2 (pk_total p) @ be_bytes 2 (pk_index p) else [])"
    unfolding header_bytes_def sim(1) ..
  have res: "decode_fields (header_bytes p @ pk_body p) =
      Ok \<lparr>pk_id = pk_id p, pk_sim = trim_zeros ?sim, pk_seq = pk_seq p, pk_body = pk_body p,
          pk_version = pk_version p, pk_total = pk_total p, pk_index = pk_index p, pk_noAck = False\<rparr>"
    using rest(1) sim(2,3) attr_of_bits[OF body] n unfolding hdr
    by (cases "pk_version p = 0"; cases "pk_total p > 1")
       (auto simp: decode_fields_def decode_tail_def Let_def phone_len_def
          be_at_def reslice_def reslice_from_def nth_append)
  show ?thesis
    using rest(2) unfolding res trim by simp
qed

lemma packet_roundtrip:
  assumes ok: "packet_ok p" and enc: "encodePacket p = Ok f"
  shows "decodePacket f = Ok p"
proof -
  let ?buf = "header_bytes p @ pk_body p"
  let ?esc = "escape (?buf @ [xor_all ?buf])"
  have f: "f = 0x7e # ?esc @ [0x7e]"
    using enc encodePacket_ok[OF ok] by simp
  have "f ! 0 = 0x7e" "f ! (length f - Suc 0) = 0x7e" "2 \<le> length f"
    by (simp_all add: f nth_append)
  moreover have "unescape (take (length f - 2) (drop (Suc 0) f)) = Ok (?buf @ [xor_all ?buf])"
    by (simp add: f unescape_escape)
  moreover have "xor_all (header_bytes p @ pk_body p @ [xor_all ?buf]) = 0"
    using xor_all_checksum[of ?buf] by simp
  ultimately show ?thesis
    using decode_fields_encoded[OF ok] length_header_bytes[OF ok]
    by (simp add: decodePacket_def reslice_def)
qed

interpretation jt808_wire: wire_codec encodePacket decodePacket packet_ok
proof
  show "\<exists>b. encodePacket p = Ok b \<and> decodePacket b = Ok p" if "packet_ok p" for p
    using that encodePacket_ok[OF that] packet_roundtrip[OF that] by blast
qed (rule decodePacket_total)

section \<open>What a decoder may return\<close>

lemma dropWhile_twice: "dropWhile P (dropWhile P s) = dropWhile P s"
  by (induction s) simp_all

lemma trim_zeros_idem: "trim_zeros (trim_zeros s) = trim_zeros s"
  by (cases "dropWhile (\<lambda>c. c = CHR ''0'') s = []")
     (simp_all add: trim_zeros_def dropWhile_twice del: dropWhile_eq_Nil_conv)

lemma validSIM_trim_zeros:
  assumes "list_all is_digit s" and "s \<noteq> []" and "length s \<le> 20"
  shows "validSIM (trim_zeros s)"
proof -
  let ?t = "dropWhile (\<lambda>c. c = CHR ''0'') s"
  have "length ?t \<le> 20"
    using assms(3) length_dropWhile_le[of "\<lambda>c. c = CHR ''0''" s] by linarith
  moreover have "list_all is_digit ?t"
    using assms(1) by (induction s) auto
  ultimately show ?thesis
    by (simp add: validSIM_def trim_zeros_def Let_def zero_is_digit)
qed

lemma decode_tail_sim:
  assumes "decode_tail mid attr v m n sub buf = Ok p" and "n = 6 \<or> n = 10"
  shows "validSIM (pk_sim p) \<and> trim_zeros (pk_sim p) = pk_sim p \<and> \<not> pk_noAck p"
proof -
  obtain digits where d: "bcd_digits (take n (drop m buf)) = Ok digits" "m + n \<le> length buf"
    "pk_sim p = trim_zeros digits" "\<not> pk_noAck p"
    using assms(1) unfolding decode_tail_def Let_def
    by (cases sub) (auto simp: bind_eq_Ok reslice_def)
  have "list_all is_digit digits" and "length digits = 2 * n"
    using bcd_digits_ok[OF d(1)] d(2) by simp_all
  then have "validSIM (trim_zeros digits)"
    using assms(2) by (intro validSIM_trim_zeros) auto
  with d show ?thesis by (simp add: trim_zeros_idem)
qed

lemma decode_fields_sim:
  "decode_fields buf = Ok p \<Longrightarrow>
   validSIM (pk_sim p) \<and> trim_zeros (pk_sim p) = pk_sim p \<and> \<not> pk_noAck p"
  unfolding decode_fields_def Let_def bind_eq_Ok
  by (elim exE conjE) (erule decode_tail_sim, simp)

lemma decodePacket_sim:
  "decodePacket f = Ok p \<Longrightarrow>
   validSIM (pk_sim p) \<and> trim_zeros (pk_sim p) = pk_sim p \<and> \<not> pk_noAck p"
  by (auto simp: decodePacket_def go_simps dest: decode_fields_sim)

section \<open>Packets survive the byte stream\<close>

text \<open>A reader with no half-read frame, and one that collects the bytes of a frame.\<close>

definition reader_idle :: "reader \<Rightarrow> bool" where
  "reader_idle r \<longleftrightarrow> \<not> rd_started r \<or> length (rd_frame r) \<le> 1"

lemma read_stream_collect:
  assumes "0x7e \<notin> set bs" and "length fr + length bs \<le> 8192"
  shows "read_stream \<lparr>rd_frame = fr, rd_started = True\<rparr> (bs @ more_bytes)
    = read_stream \<lparr>rd_frame = fr @ bs, rd_started = True\<rparr> more_bytes"
  using assms
proof (induction bs arbitrary: fr)
  case Nil
  then show ?case by simp
next
  case (Cons b bs)
  then show ?case using Cons.IH[of "fr @ [b]"] by (simp add: read_byte_def)
qed

lemma length_header_bytes_le: "packet_ok p \<Longrightarrow> length (header_bytes p) \<le> 21"
  using length_header_bytes[of p] by (simp split: if_splits)

lemma read_stream_packet:
  assumes ok: "packet_ok p" and enc: "encodePacket p = Ok f" and r: "reader_idle r"
  shows "read_stream r (f @ more_bytes) = p # read_stream \<lparr>rd_frame = [0x7e], rd_started = True\<rparr> more_bytes"
proof -
  let ?buf = "header_bytes p @ pk_body p @ [xor_all (header_bytes p @ pk_body p)]"
  have f: "f = 0x7e # escape ?buf @ [0x7e]"
    using enc encodePacket_ok[OF ok] by simp
  have dec: "decodePacket (0x7e # escape ?buf @ [0x7e]) = Ok p"
    using packet_roundtrip[OF ok enc] f by simp
  have body: "length (pk_body p) \<le> 1023"
    using ok by (simp add: packet_ok_def maxBody_def)
  then have "length (escape ?buf) \<le> 2090"
    using length_escape[of ?buf] length_header_bytes_le[OF ok] by simp
  moreover have "escape ?buf \<noteq> []"
    by (cases ?buf) (auto split: if_splits)
  ultimately show ?thesis
    using r read_stream_collect[OF escape_no_delimiter[of ?buf], of "[0x7e]" "0x7e # more_bytes"] dec
    by (auto simp: f read_byte_def reader_idle_def)
qed

fun encode_all :: "packet list \<Rightarrow> (jt_error, byte list) res" where
  "encode_all [] = Ok []"
| "encode_all (p # ps) = bind (encodePacket p) (\<lambda>f. bind (encode_all ps) (\<lambda>fs. Ok (f @ fs)))"

lemma read_stream_packets:
  "reader_idle r \<Longrightarrow> \<forall>p \<in> set ps. packet_ok p \<Longrightarrow> encode_all ps = Ok bs \<Longrightarrow> read_stream r bs = ps"
proof (induction ps arbitrary: r bs)
  case Nil
  then show ?case by simp
next
  case (Cons p ps)
  from Cons.prems obtain f fs where "encodePacket p = Ok f" and fs: "encode_all ps = Ok fs"
    and bs: "bs = f @ fs"
    by (auto simp: go_simps)
  moreover have "read_stream \<lparr>rd_frame = [0x7e], rd_started = True\<rparr> fs = ps"
    using Cons.prems fs by (intro Cons.IH) (auto simp: reader_idle_def)
  ultimately show ?case
    using read_stream_packet[of p f r fs] Cons.prems by simp
qed

lemma encode_all_ok: "\<forall>p \<in> set ps. packet_ok p \<Longrightarrow> \<exists>bs. encode_all ps = Ok bs"
  by (induction ps) (auto simp: encodePacket_ok)

section \<open>Properties\<close>

text \<open>C6: a stream of encoded packets, whatever frame boundaries the network makes of it, is read
  back as the same packets in the same order: escaping hides every delimiter and no frame
  exceeds the reader's limit.\<close>

theorem jt808_stream_roundtrip:
  assumes "\<forall>p \<in> set ps. packet_ok p"
  shows "\<exists>bs. encode_all ps = Ok bs \<and> read_stream reader_init bs = ps"
  using encode_all_ok[OF assms] read_stream_packets[OF _ assms]
  by (auto simp: reader_idle_def reader_init_def)

theorem jt808_stream_witness:
  "\<exists>bs. encode_all (replicate 2 \<lparr>pk_id = 0x7e7d, pk_sim = ''13800138000'', pk_seq = 7, pk_body = [0x7e, 0x7d],
      pk_version = 1, pk_total = 0, pk_index = 0, pk_noAck = False\<rparr>) = Ok bs \<and> length bs \<noteq> 0"
  using jt808_stream_roundtrip[of "replicate 2 \<lparr>pk_id = 0x7e7d, pk_sim = ''13800138000'', pk_seq = 7,
      pk_body = [0x7e, 0x7d], pk_version = 1, pk_total = 0, pk_index = 0, pk_noAck = False\<rparr>"]
  by (fastforce simp: packet_ok_def validSIM_def is_digit_def phone_len_def trim_zeros_def maxBody_def
      numeral_2_eq_2)

text \<open>decoding never panics, and a decoded packet has a valid SIM without leading zeros and
  is never marked as a reassembled one.\<close>

theorem jt808_decode_safe:
  "decodePacket f \<noteq> Panic
   \<and> (decodePacket f = Ok p \<longrightarrow> validSIM (pk_sim p) \<and> trim_zeros (pk_sim p) = pk_sim p \<and> \<not> pk_noAck p)"
  using jt808_wire.dec_total decodePacket_sim by blast

theorem jt808_decode_witness:
  "\<exists>f p. decodePacket f = Ok p \<and> validSIM (pk_sim p)"
proof -
  let ?p = "\<lparr>pk_id = 2, pk_sim = ''5'', pk_seq = 7, pk_body = [], pk_version = 0, pk_total = 0,
      pk_index = 0, pk_noAck = False\<rparr>"
  have "packet_ok ?p"
    by (simp add: packet_ok_def validSIM_def is_digit_def phone_len_def trim_zeros_def)
  then obtain f where "decodePacket f = Ok ?p" using jt808_wire.roundtrip by blast
  then show ?thesis using jt808_decode_safe[of f ?p] by blast
qed

end
