(* ===== verification/Jt808_Fragments.thy ===== *)
theory Jt808_Fragments
  imports Jt808_Codec
begin

text \<open>
  Sub-package reassembly: \<open>pushFrag\<close> of \<open>internal/jt808/server.go\<close>.  A part slot is
  \<open>None\<close> for Go's nil slice; \<open>append([]byte(nil), body...)\<close> of an empty body is nil.
\<close>

record frag_group =
  fg_total :: "16 word"
  fg_seq0 :: "16 word"
  fg_parts :: "byte list option list"
  fg_got :: nat
  fg_size :: nat

type_synonym frags = "16 word \<rightharpoonup> frag_group"

definition maxFragBytes :: nat where "maxFragBytes = 2 ^ 20"

definition part_len :: "byte list option \<Rightarrow> nat" where
  "part_len po = (case po of None \<Rightarrow> 0 | Some b \<Rightarrow> length b)"

definition part_bytes :: "byte list option \<Rightarrow> byte list" where
  "part_bytes po = (case po of None \<Rightarrow> [] | Some b \<Rightarrow> b)"

definition copy_part :: "byte list \<Rightarrow> byte list option" where
  "copy_part b = (if b = [] then None else Some b)"

definition new_group :: "packet \<Rightarrow> frag_group" where
  "new_group p = \<lparr>fg_total = pk_total p, fg_seq0 = pk_seq p,
     fg_parts = replicate (unat (pk_total p)) None, fg_got = 0, fg_size = 0\<rparr>"

text \<open>The group the fragment belongs to, after the sequence number of part 1 is noted.\<close>

definition current_group :: "packet \<Rightarrow> frags \<Rightarrow> frag_group" where
  "current_group p fs =
     (let g = (case fs (pk_id p) of
                 None \<Rightarrow> new_group p
               | Some g \<Rightarrow> if fg_total g \<noteq> pk_total p then new_group p else g)
      in if pk_index p = 1 then g\<lparr>fg_seq0 := pk_seq p\<rparr> else g)"

text \<open>The part stored at slot \<open>i\<close>, with the part count and the byte count.\<close>

definition put_part :: "nat \<Rightarrow> byte list \<Rightarrow> frag_group \<Rightarrow> frag_group" where
  "put_part i b g = g\<lparr>fg_got := (if fg_parts g ! i = None then fg_got g + 1 else fg_got g),
     fg_parts := (fg_parts g)[i := copy_part b],
     fg_size := (if fg_parts g ! i = None then fg_size g
                 else fg_size g - part_len (fg_parts g ! i)) + length b\<rparr>"

definition pushFrag :: "packet \<Rightarrow> frags \<Rightarrow> frags \<times> packet option" where
  "pushFrag p fs =
     (if pk_index p = 0 \<or> pk_index p > pk_total p \<or> pk_total p > 64 then (fs, None)
      else if fg_size (current_group p fs) + length (pk_body p) > maxFragBytes
        then (fs(pk_id p := None), None)
      else let g = put_part (unat (pk_index p - 1)) (pk_body p) (current_group p fs) in
        if fg_got g < unat (fg_total g) then (fs(pk_id p \<mapsto> g), None)
        else (fs(pk_id p := None),
              Some (p\<lparr>pk_body := concat (map part_bytes (fg_parts g)), pk_seq := fg_seq0 g,
                      pk_total := 0, pk_index := 0, pk_noAck := True\<rparr>)))"

text \<open>A run over the fragments of a connection: the completed messages, in order.\<close>

fun push_all :: "packet list \<Rightarrow> frags \<Rightarrow> frags \<times> packet list" where
  "push_all [] fs = (fs, [])"
| "push_all (p # ps) fs =
     (let (fs, out) = pushFrag p fs;
          (fs, outs) = push_all ps fs
      in (fs, (case out of None \<Rightarrow> outs | Some q \<Rightarrow> q # outs)))"

section \<open>The bookkeeping invariant\<close>

text \<open>
  The byte count is the total of the stored parts and stays within the limit; the part counter
  never falls below the number of stored parts and is below the total while the group waits.
\<close>

definition stored :: "frag_group \<Rightarrow> nat" where
  "stored g = length (filter (\<lambda>po. po \<noteq> None) (fg_parts g))"

definition group_inv :: "frag_group \<Rightarrow> bool" where
  "group_inv g \<longleftrightarrow>
     length (fg_parts g) = unat (fg_total g) \<and> fg_total g \<le> 64
     \<and> fg_size g = sum_list (map part_len (fg_parts g)) \<and> fg_size g \<le> maxFragBytes
     \<and> stored g \<le> fg_got g \<and> fg_got g < unat (fg_total g)"

definition frags_inv :: "frags \<Rightarrow> bool" where
  "frags_inv fs \<longleftrightarrow> (\<forall>k g. fs k = Some g \<longrightarrow> group_inv g)"

lemma sum_list_update_nat:
  "i < length xs \<Longrightarrow> sum_list (xs[i := (y :: nat)]) = sum_list xs - xs ! i + y"
  using sum_list_update[of i xs y] elem_le_sum_list[of i xs] by simp

lemma sum_part_len_update:
  assumes "i < length ps"
  shows "sum_list (map part_len (ps[i := q])) = sum_list (map part_len ps) - part_len (ps ! i) + part_len q"
  using assms sum_list_update_nat[of i "map part_len ps" "part_len q"] by (simp add: map_update)

lemma length_filter_update:
  assumes "i < length ps"
  shows "length (filter P (ps[i := q])) =
    length (filter P ps) - (if P (ps ! i) then 1 else 0) + (if P q then 1 else 0)"
  using assms
proof (induction ps arbitrary: i)
  case Nil
  then show ?case by simp
next
  case (Cons a ps)
  have "0 < length (filter P ps)" if "P (ps ! j)" "j < length ps" for j
    using that by (auto simp: filter_empty_conv)
  with Cons show ?case by (cases i) (auto simp: le_Suc_eq Suc_diff_le)
qed

lemma part_len_copy [simp]: "part_len (copy_part b) = length b"
  by (simp add: part_len_def copy_part_def)

lemma part_bytes_copy [simp]: "part_bytes (copy_part b) = b"
  by (simp add: part_bytes_def copy_part_def)

lemma part_len_None [simp]: "part_len None = 0"
  by (simp add: part_len_def)

lemma stored_pos: "i < length (fg_parts g) \<Longrightarrow> fg_parts g ! i \<noteq> None \<Longrightarrow> 0 < stored g"
  by (auto simp: stored_def filter_empty_conv) (metis nth_mem)

lemma put_part_inv:
  assumes "length (fg_parts g) = unat (fg_total g)" and "fg_total g \<le> 64" and "i < unat (fg_total g)"
    and "fg_size g = sum_list (map part_len (fg_parts g))" and "fg_size g + length b \<le> maxFragBytes"
    and "stored g \<le> fg_got g" and "fg_got (put_part i b g) < unat (fg_total g)"
  shows "group_inv (put_part i b g)"
proof -
  have i: "i < length (fg_parts g)" using assms(1,3) by simp
  have "part_len (fg_parts g ! i) \<le> sum_list (map part_len (fg_parts g))"
    using elem_le_sum_list[of i "map part_len (fg_parts g)"] i by simp
  moreover have "stored (put_part i b g) \<le> fg_got (put_part i b g)"
    using assms(6) length_filter_update[OF i, of "\<lambda>po. po \<noteq> None" "copy_part b"]
      stored_pos[OF i]
    by (auto simp: stored_def put_part_def split: if_splits)
  ultimately show ?thesis
    using assms i by (auto simp: group_inv_def put_part_def sum_part_len_update)
qed

lemma index_in_range:
  fixes k t :: "16 word"
  assumes "k \<noteq> 0" and "k \<le> t"
  shows "unat (k - 1) = unat k - 1" and "unat k - 1 < unat t"
proof -
  have "0 < unat k" using assms(1) by (simp add: unat_gt_0)
  moreover have "1 \<le> k" using assms(1) by (simp add: word_le_nat_alt Suc_le_eq unat_gt_0)
  ultimately show "unat (k - 1) = unat k - 1" and "unat k - 1 < unat t"
    using assms(2) unat_minus_one[OF assms(1)] by (auto simp: word_le_nat_alt)
qed

lemma current_group_inv:
  assumes "frags_inv fs" and "pk_total p \<le> 64"
  defines "g \<equiv> current_group p fs"
  shows "length (fg_parts g) = unat (fg_total g)" and "fg_total g = pk_total p"
    and "fg_size g = sum_list (map part_len (fg_parts g))" and "stored g \<le> fg_got g"
  using assms
  by (auto simp: current_group_def new_group_def frags_inv_def group_inv_def stored_def Let_def
      sum_list_replicate split: option.splits)

lemma pushFrag_inv:
  assumes "frags_inv fs"
  shows "frags_inv (fst (pushFrag p fs))"
proof (cases "pk_index p = 0 \<or> pk_index p > pk_total p \<or> pk_total p > 64")
  case True
  with assms show ?thesis by (simp add: pushFrag_def)
next
  case False
  then have p: "pk_index p \<noteq> 0" "pk_index p \<le> pk_total p" "pk_total p \<le> 64" by auto
  note g = current_group_inv[OF assms p(3)]
  let ?g = "put_part (unat (pk_index p - 1)) (pk_body p) (current_group p fs)"
  have t: "fg_total ?g = fg_total (current_group p fs)"
    by (simp add: put_part_def)
  have "group_inv ?g"
    if "fg_size (current_group p fs) + length (pk_body p) \<le> maxFragBytes"
      and "fg_got ?g < unat (fg_total ?g)"
    using that p index_in_range[OF p(1,2)] g t by (intro put_part_inv) auto
  with False assms show ?thesis
    by (auto simp: pushFrag_def Let_def frags_inv_def)
qed

interpretation frag_machine: inv_machine "\<lambda>p fs. fst (pushFrag p fs)" "\<lambda>_ _. True" frags_inv
  by unfold_locales (rule pushFrag_inv)

section \<open>Reassembly\<close>

text \<open>
  The sender's side: a message split into the parts \<open>parts\<close>, part \<open>k\<close> (from 1) sent as
  \<open>base\<close> with its own sequence number.  Every part is non-empty and fits a frame.
\<close>

definition frag_packet :: "packet \<Rightarrow> byte list list \<Rightarrow> (nat \<Rightarrow> 16 word) \<Rightarrow> nat \<Rightarrow> packet" where
  "frag_packet base parts sq k = base\<lparr>pk_seq := sq k, pk_body := parts ! (k - 1),
     pk_total := of_nat (length parts), pk_index := of_nat k\<rparr>"

definition splits_ok :: "byte list list \<Rightarrow> bool" where
  "splits_ok parts \<longleftrightarrow> 2 \<le> length parts \<and> length parts \<le> 64
     \<and> (\<forall>b \<in> set parts. b \<noteq> [] \<and> length b \<le> maxBody)"

text \<open>The receiver's group after the parts with numbers in \<open>S\<close> have arrived.\<close>

definition partial_parts :: "byte list list \<Rightarrow> nat set \<Rightarrow> byte list option list" where
  "partial_parts parts S = map (\<lambda>i. if Suc i \<in> S then Some (parts ! i) else None) [0..<length parts]"

definition partial_group :: "byte list list \<Rightarrow> (nat \<Rightarrow> 16 word) \<Rightarrow> nat set \<Rightarrow> frag_group \<Rightarrow> bool" where
  "partial_group parts sq S g \<longleftrightarrow>
     fg_total g = of_nat (length parts) \<and> fg_parts g = partial_parts parts S
     \<and> fg_got g = card S \<and> fg_size g = sum_list (map part_len (partial_parts parts S))
     \<and> (1 \<in> S \<longrightarrow> fg_seq0 g = sq 1)"

lemma part_number_words:
  assumes "splits_ok parts" and "1 \<le> k" and "k \<le> length parts"
  shows "of_nat k \<noteq> (0 :: 16 word)" and "(of_nat k :: 16 word) \<le> of_nat (length parts)"
    and "of_nat (length parts) \<le> (64 :: 16 word)" and "unat (of_nat k - 1 :: 16 word) = k - 1"
    and "unat (of_nat (length parts) :: 16 word) = length parts"
    and "(of_nat k :: 16 word) = 1 \<longleftrightarrow> k = 1"
proof -
  have u: "unat (of_nat k :: 16 word) = k" "unat (of_nat (length parts) :: 16 word) = length parts"
    using assms by (auto simp: splits_ok_def intro!: unat_of_nat_16)
  show nz: "of_nat k \<noteq> (0 :: 16 word)"
    using u(1) assms(2) by (metis not_one_le_zero unat_0)
  show "(of_nat k :: 16 word) \<le> of_nat (length parts)" and "of_nat (length parts) \<le> (64 :: 16 word)"
    using u assms by (simp_all add: word_le_nat_alt splits_ok_def)
  show "unat (of_nat k - 1 :: 16 word) = k - 1"
    using unat_minus_one[OF nz] u(1) by simp
  show "unat (of_nat (length parts) :: 16 word) = length parts" by (rule u(2))
  show "(of_nat k :: 16 word) = 1 \<longleftrightarrow> k = 1"
    using u(1) by (metis of_nat_1 unat_1)
qed

lemma partial_parts_insert:
  assumes "splits_ok parts" and "1 \<le> k" and "k \<le> length parts"
  shows "(partial_parts parts S)[k - 1 := copy_part (parts ! (k - 1))] = partial_parts parts (insert k S)"
proof (rule nth_equalityI)
  show "length ((partial_parts parts S)[k - 1 := copy_part (parts ! (k - 1))])
      = length (partial_parts parts (insert k S))"
    by (simp add: partial_parts_def)
  fix i assume "i < length ((partial_parts parts S)[k - 1 := copy_part (parts ! (k - 1))])"
  then have i: "i < length parts" by (simp add: partial_parts_def)
  have "parts ! (k - 1) \<noteq> []"
    using assms by (auto simp: splits_ok_def)
  then show "(partial_parts parts S)[k - 1 := copy_part (parts ! (k - 1))] ! i
      = partial_parts parts (insert k S) ! i"
    using i assms(2) by (cases "i = k - 1") (auto simp: partial_parts_def copy_part_def)
qed

lemma length_partial_parts [simp]: "length (partial_parts parts S) = length parts"
  by (simp add: partial_parts_def)

lemma partial_parts_nth_None:
  "1 \<le> k \<Longrightarrow> k \<le> length parts \<Longrightarrow> partial_parts parts S ! (k - 1) = None \<longleftrightarrow> k \<notin> S"
  by (simp add: partial_parts_def)

lemma partial_size_bound:
  assumes "splits_ok parts"
  shows "sum_list (map part_len (partial_parts parts S)) \<le> 64 * maxBody"
proof -
  have "part_len po \<le> maxBody" if "po \<in> set (partial_parts parts S)" for po
    using that assms by (auto simp: partial_parts_def splits_ok_def part_len_def)
  then have "sum_list (map part_len (partial_parts parts S))
      \<le> sum_list (map (\<lambda>_. maxBody) (partial_parts parts S))"
    by (intro sum_list_mono) auto
  also have "\<dots> = length parts * maxBody"
    by (simp add: map_replicate_const sum_list_replicate)
  also have "\<dots> \<le> 64 * maxBody"
    using assms by (simp add: splits_ok_def)
  finally show ?thesis .
qed

lemma concat_full_parts:
  "{1..length parts} \<subseteq> S \<Longrightarrow> concat (map part_bytes (partial_parts parts S)) = concat parts"
proof -
  assume "{1..length parts} \<subseteq> S"
  then have "map part_bytes (partial_parts parts S) = parts"
    by (intro nth_equalityI) (auto simp: partial_parts_def part_bytes_def subset_iff)
  then show ?thesis by simp
qed

text \<open>The group in the table matches the set of parts seen; an empty set may have no group.\<close>

definition tracks :: "packet \<Rightarrow> byte list list \<Rightarrow> (nat \<Rightarrow> 16 word) \<Rightarrow> nat set \<Rightarrow> frags \<Rightarrow> bool" where
  "tracks base parts sq S fs \<longleftrightarrow>
     (case fs (pk_id base) of None \<Rightarrow> S = {} | Some g \<Rightarrow> partial_group parts sq S g)"

lemma current_group_tracks:
  assumes "splits_ok parts" and "1 \<le> k" and "k \<le> length parts" and "tracks base parts sq S fs"
  defines "g \<equiv> current_group (frag_packet base parts sq k) fs"
  shows "fg_total g = of_nat (length parts)" and "fg_parts g = partial_parts parts S"
    and "fg_got g = card S" and "fg_size g = sum_list (map part_len (partial_parts parts S))"
    and "1 \<in> insert k S \<Longrightarrow> fg_seq0 g = sq 1"
proof -
  note w = part_number_words[OF assms(1-3)]
  have none: "partial_parts parts {} = replicate (length parts) None"
    by (simp add: partial_parts_def map_replicate_trivial)
  show "fg_total g = of_nat (length parts)" and "fg_parts g = partial_parts parts S"
    and "fg_got g = card S" and "fg_size g = sum_list (map part_len (partial_parts parts S))"
    and "1 \<in> insert k S \<Longrightarrow> fg_seq0 g = sq 1"
    using assms(4) w
    by (auto simp: g_def current_group_def tracks_def partial_group_def frag_packet_def new_group_def
        none sum_list_replicate Let_def split: option.splits)
qed

definition whole_packet :: "packet \<Rightarrow> byte list list \<Rightarrow> (nat \<Rightarrow> 16 word) \<Rightarrow> packet" where
  "whole_packet base parts sq = base\<lparr>pk_body := concat parts, pk_seq := sq 1,
     pk_total := 0, pk_index := 0, pk_noAck := True\<rparr>"

lemma pushFrag_step:
  assumes ok: "splits_ok parts" and k: "1 \<le> k" "k \<le> length parts"
    and t: "tracks base parts sq S fs" and S: "S \<subseteq> {1..length parts}"
  defines "r \<equiv> pushFrag (frag_packet base parts sq k) fs"
  shows "insert k S \<noteq> {1..length parts} \<Longrightarrow> snd r = None \<and> tracks base parts sq (insert k S) (fst r)"
    and "insert k S = {1..length parts} \<Longrightarrow> snd r = Some (whole_packet base parts sq)
      \<and> fst r = fs(pk_id base := None)"
proof -
  let ?p = "frag_packet base parts sq k" and ?n = "length parts"
  note w = part_number_words[OF ok k]
  note g = current_group_tracks[OF ok k t]
  let ?g = "put_part (k - 1) (parts ! (k - 1)) (current_group ?p fs)"
  have fin: "finite S" using S by (rule finite_subset) simp
  have parts: "fg_parts ?g = partial_parts parts (insert k S)"
    using g(2) partial_parts_insert[OF ok k] by (simp add: put_part_def)
  have got: "fg_got ?g = card (insert k S)"
    using g(2,3) fin partial_parts_nth_None[OF k, of S] by (simp add: put_part_def insert_absorb)
  have size: "fg_size ?g = sum_list (map part_len (partial_parts parts (insert k S)))"
    unfolding partial_parts_insert[OF ok k, symmetric]
    using g(2,4) k sum_part_len_update[of "k - 1" "partial_parts parts S" "copy_part (parts ! (k - 1))"]
    by (auto simp: put_part_def)
  have other: "fg_total ?g = of_nat ?n" "1 \<in> insert k S \<Longrightarrow> fg_seq0 ?g = sq 1"
    using g(1,5) by (simp_all add: put_part_def)
  have fits: "\<not> fg_size (current_group ?p fs) + length (pk_body ?p) > maxFragBytes"
  proof -
    have "parts ! (k - 1) \<in> set parts" using k by simp
    then have "length (parts ! (k - 1)) \<le> maxBody"
      using ok by (simp add: splits_ok_def)
    then show ?thesis
      using g(4) partial_size_bound[OF ok, of S]
      by (simp add: frag_packet_def maxFragBytes_def maxBody_def)
  qed
  have r: "r = (if fg_got ?g < ?n then (fs(pk_id base \<mapsto> ?g), None)
      else (fs(pk_id base := None), Some (?p\<lparr>pk_body := concat (map part_bytes (fg_parts ?g)),
        pk_seq := fg_seq0 ?g, pk_total := 0, pk_index := 0, pk_noAck := True\<rparr>)))"
  proof -
    have guard: "\<not> (pk_index ?p = 0 \<or> pk_index ?p > pk_total ?p \<or> pk_total ?p > 64)"
      using w by (simp add: frag_packet_def not_less)
    have f: "unat (pk_index ?p - 1) = k - 1" "pk_body ?p = parts ! (k - 1)" "pk_id ?p = pk_id base"
      using w(4) by (simp_all add: frag_packet_def)
    have "unat (fg_total ?g) = ?n" using other(1) w(5) by simp
    with guard fits show ?thesis
      unfolding r_def pushFrag_def Let_def f by (simp only: if_False)
  qed
  have sub: "insert k S \<subseteq> {1..?n}" using S k by auto
  show "snd r = None \<and> tracks base parts sq (insert k S) (fst r)" if ne: "insert k S \<noteq> {1..?n}"
  proof -
    have "card (insert k S) < ?n"
      using psubset_card_mono[of "{1..?n}" "insert k S"] psubsetI[OF sub ne] by simp
    then show ?thesis
      using parts got size other unfolding r by (auto simp: tracks_def partial_group_def)
  qed
  show "snd r = Some (whole_packet base parts sq) \<and> fst r = fs(pk_id base := None)"
    if eq: "insert k S = {1..?n}"
  proof -
    have "\<not> fg_got ?g < ?n" using got eq by simp
    moreover have "1 \<in> insert k S" using eq k by auto
    ultimately show ?thesis
      using parts concat_full_parts[of parts "insert k S"] eq other(2) unfolding r
      by (simp add: whole_packet_def frag_packet_def)
  qed
qed

lemma push_all_append:
  "push_all (ps @ qs) fs =
     (let (fs1, o1) = push_all ps fs; (fs2, o2) = push_all qs fs1 in (fs2, o1 @ o2))"
  by (induction ps arbitrary: fs) (auto split: prod.splits option.splits)

lemma push_all_partial:
  assumes ok: "splits_ok parts"
  shows "set ks \<subseteq> {1..length parts} \<Longrightarrow> S \<subseteq> {1..length parts} \<Longrightarrow> S \<union> set ks \<noteq> {1..length parts}
    \<Longrightarrow> tracks base parts sq S fs \<Longrightarrow>
    \<exists>fs'. push_all (map (frag_packet base parts sq) ks) fs = (fs', []) \<and> tracks base parts sq (S \<union> set ks) fs'"
proof (induction ks arbitrary: S fs)
  case Nil
  then show ?case by simp
next
  case (Cons k ks)
  have k: "1 \<le> k" "k \<le> length parts" using Cons.prems(1) by auto
  have "insert k S \<noteq> {1..length parts}"
    using Cons.prems(1,3) by auto
  then obtain fs1 where fs1: "pushFrag (frag_packet base parts sq k) fs = (fs1, None)"
    and t: "tracks base parts sq (insert k S) fs1"
    using pushFrag_step(1)[OF ok k Cons.prems(4,2)] by (metis prod.collapse)
  have "\<exists>fs'. push_all (map (frag_packet base parts sq) ks) fs1 = (fs', [])
      \<and> tracks base parts sq (insert k S \<union> set ks) fs'"
    using Cons.prems t k by (intro Cons.IH) auto
  with fs1 show ?case by auto
qed

lemma push_all_complete:
  assumes ok: "splits_ok parts" and ks: "set ks \<subset> {1..length parts}"
    and k: "insert k (set ks) = {1..length parts}" and fs: "fs (pk_id base) = None"
  shows "\<exists>fs'. push_all (map (frag_packet base parts sq) (ks @ [k])) fs = (fs', [whole_packet base parts sq])
    \<and> fs' (pk_id base) = None"
proof -
  have "tracks base parts sq {} fs" using fs by (simp add: tracks_def)
  then obtain fs1 where fs1: "push_all (map (frag_packet base parts sq) ks) fs = (fs1, [])"
    and t: "tracks base parts sq (set ks) fs1"
    using push_all_partial[OF ok, of ks "{}" base sq fs] ks
    by (metis Un_empty_left empty_subsetI psubset_eq)
  have "1 \<le> k" "k \<le> length parts" using k by auto
  then show ?thesis
    using pushFrag_step(2)[OF ok _ _ t _ k] ks fs1
    by (auto simp: push_all_append Let_def split: prod.splits)
qed

lemma replicate_two: "replicate 2 x = [x, x]"
  by (simp add: numeral_2_eq_2)

section \<open>Properties\<close>



text \<open>C8: whatever fragments a peer sends, the parts held for one message stay within one
  mebibyte and 64 slots, and the byte counter equals what is held.\<close>

theorem jt808_fragments_bounded:
  assumes "fold (\<lambda>p fs. fst (pushFrag p fs)) ps Map.empty mid = Some g"
  shows "sum_list (map part_len (fg_parts g)) = fg_size g \<and> fg_size g \<le> maxFragBytes
    \<and> length (fg_parts g) \<le> 64"
proof -
  have "frags_inv (fold (\<lambda>p fs. fst (pushFrag p fs)) ps Map.empty)"
    by (rule frag_machine.run_inv_always) (simp_all add: frags_inv_def)
  then have "group_inv g" using assms by (simp add: frags_inv_def)
  then show ?thesis using word_le_nat_alt[of "fg_total g" 64] by (simp add: group_inv_def)
qed

theorem jt808_fragments_witness:
  "\<exists>g. fold (\<lambda>p fs. fst (pushFrag p fs)) [\<lparr>pk_id = 5, pk_sim = ''5'', pk_seq = 0, pk_body = [1, 2],
       pk_version = 0, pk_total = 2, pk_index = 1, pk_noAck = False\<rparr>] Map.empty 5 = Some g
     \<and> fg_size g \<le> maxFragBytes"
proof -
  have "\<exists>g. fold (\<lambda>p fs. fst (pushFrag p fs)) [\<lparr>pk_id = 5, pk_sim = ''5'', pk_seq = 0, pk_body = [1, 2],
       pk_version = 0, pk_total = 2, pk_index = 1, pk_noAck = False\<rparr>] Map.empty 5 = Some g"
    by (simp add: pushFrag_def current_group_def new_group_def put_part_def maxFragBytes_def
        Let_def replicate_two)
  then obtain g where g: "fold (\<lambda>p fs. fst (pushFrag p fs)) [\<lparr>pk_id = 5, pk_sim = ''5'', pk_seq = 0,
       pk_body = [1, 2], pk_version = 0, pk_total = 2, pk_index = 1, pk_noAck = False\<rparr>] Map.empty 5 = Some g"
    by blast
  with jt808_fragments_bounded[OF g] show ?thesis by blast
qed

text \<open>an empty part is stored as nothing, so sending it twice counts it twice: a message of
  two parts is reported complete while its other part was never received.\<close>

theorem jt808_empty_part_completes:
  assumes "pk_total p = 2" and "pk_index p = 1" and "pk_body p = []" and "fs (pk_id p) = None"
  shows "\<exists>fs' q. push_all [p, p] fs = (fs', [q]) \<and> pk_body q = []"
  using assms
  by (simp add: pushFrag_def current_group_def new_group_def put_part_def copy_part_def maxFragBytes_def
      part_bytes_def part_len_def Let_def replicate_two)

theorem jt808_empty_part_witness:
  "\<exists>p fs' q. push_all [p, p] Map.empty = (fs', [q]) \<and> pk_body q = []"
  using jt808_empty_part_completes[of "\<lparr>pk_id = 5, pk_sim = ''5'', pk_seq = 0, pk_body = [],
       pk_version = 0, pk_total = 2, pk_index = 1, pk_noAck = False\<rparr>" Map.empty] by auto

end
