(* ===== verification/Jt808_Server.thy ===== *)
theory Jt808_Server
  imports Jt808_Fragments Go_Strings
begin

text \<open>
  The signaling server of \<open>internal/jt808\<close> (server.go and the grant table of commands.go):
  connections, terminals, stream grants, and the handler of an incoming packet.  The state is
  the server's maps with the session objects; a handler returns the new state and what it did
  to the network.  Whether a socket write succeeds is an input (\<open>wr\<close>); a write to a connection
  the server has closed fails.  A command that waits for a reply is two steps, before and after
  the wait, since other packets are handled in between.
\<close>

section \<open>State\<close>

record upload_task =
  up_serial :: "16 word"
  up_done :: bool
  up_result :: byte
  up_at :: int

record terminal =
  tm_key :: string
  tm_online :: bool
  tm_auth :: bool
  tm_joined :: int
  tm_seen :: int
  tm_province :: "16 word"
  tm_city :: "16 word"
  tm_maker :: string
  tm_model :: string
  tm_id :: string
  tm_plate_color :: byte
  tm_plate :: string
  tm_uploads :: "upload_task list"

record session =
  se_sim :: string
  se_version :: byte
  se_seq :: "16 word"
  se_pending :: "(16 word \<times> 16 word) list"
  se_frags :: frags
  se_closed :: bool

record jt_config =
  jc_auth_code :: string
  jc_media_ip :: string
  jc_tcp_port :: "16 word"
  jc_udp_port :: "16 word"
  jc_transport :: string
  jc_plate :: "byte list \<Rightarrow> string"

record server =
  sv_stopped :: bool
  sv_conns :: "nat \<rightharpoonup> session"
  sv_sessions :: "string \<rightharpoonup> nat"
  sv_terms :: "string \<rightharpoonup> terminal"
  sv_grants :: "string \<rightharpoonup> int"

datatype out =
    Sent nat "byte list"
  | CloseConn nat
  | Delivered nat "16 word" byte "byte list"

definition cmdRegister :: "16 word" where "cmdRegister = 0x0100"
definition cmdAuth :: "16 word" where "cmdAuth = 0x0102"
definition cmdHeartbeat :: "16 word" where "cmdHeartbeat = 0x0002"
definition cmdGeneralReply :: "16 word" where "cmdGeneralReply = 0x0001"
definition cmdRegisterReply :: "16 word" where "cmdRegisterReply = 0x8100"
definition cmdGeneralAck :: "16 word" where "cmdGeneralAck = 0x8001"
definition cmdLogout :: "16 word" where "cmdLogout = 0x0003"
definition cmdAVReport :: "16 word" where "cmdAVReport = 0x1003"
definition cmdResourceList :: "16 word" where "cmdResourceList = 0x1205"
definition cmdUploadDone :: "16 word" where "cmdUploadDone = 0x1206"

definition grantLive :: string where "grantLive = ''live:''"
definition grantPB :: string where "grantPB = ''pb:''"

definition new_session :: session where
  "new_session = \<lparr>se_sim = [], se_version = 0, se_seq = 0, se_pending = [],
     se_frags = Map.empty, se_closed = False\<rparr>"

definition server_init :: server where
  "server_init = \<lparr>sv_stopped = False, sv_conns = Map.empty, sv_sessions = Map.empty,
     sv_terms = Map.empty, sv_grants = Map.empty\<rparr>"

definition upd_conn :: "nat \<Rightarrow> (session \<Rightarrow> session) \<Rightarrow> server \<Rightarrow> server" where
  "upd_conn c f s = s\<lparr>sv_conns := (sv_conns s)(c := map_option f (sv_conns s c))\<rparr>"

definition upd_term :: "string \<Rightarrow> (terminal \<Rightarrow> terminal) \<Rightarrow> server \<Rightarrow> server" where
  "upd_term sim f s = s\<lparr>sv_terms := (sv_terms s)(sim := map_option f (sv_terms s sim))\<rparr>"

section \<open>Grants\<close>

definition StreamID :: "string \<Rightarrow> byte \<Rightarrow> string" where
  "StreamID key ch = trim_zeros key @ ''_'' @ dec_string (unat ch)"

definition grant_of :: "string \<Rightarrow> server \<Rightarrow> int" where
  "grant_of k s = (case sv_grants s k of None \<Rightarrow> 0 | Some n \<Rightarrow> n)"

definition term_active :: "string \<Rightarrow> server \<Rightarrow> bool" where
  "term_active sim s = (case sv_terms s sim of None \<Rightarrow> False | Some t \<Rightarrow> tm_online t \<and> tm_auth t)"

definition AllowStream :: "string \<Rightarrow> server \<Rightarrow> bool" where
  "AllowStream name s =
     (if name = [] then False
      else case cut (CHR ''_'') name of (sim, _, found) \<Rightarrow>
        if \<not> found \<or> sv_stopped s \<or> \<not> term_active sim s then False
        else grant_of (grantLive @ name) s > 0 \<or> grant_of (grantPB @ name) s > 0)"

definition grant :: "string \<Rightarrow> string \<Rightarrow> server \<Rightarrow> server \<times> int" where
  "grant kind name s =
     (s\<lparr>sv_grants := (sv_grants s)(kind @ name \<mapsto> 1)\<rparr>, grant_of (kind @ name) s)"

definition restoreGrant :: "string \<Rightarrow> string \<Rightarrow> int \<Rightarrow> server \<Rightarrow> server" where
  "restoreGrant kind name previous s =
     (case cut (CHR ''_'') name of (sim, _, _) \<Rightarrow>
        if previous > 0 \<and> \<not> sv_stopped s \<and> term_active sim s
        then s\<lparr>sv_grants := (sv_grants s)(kind @ name \<mapsto> previous)\<rparr>
        else s\<lparr>sv_grants := (sv_grants s)(kind @ name := None)\<rparr>)"

definition revoke :: "string \<Rightarrow> string \<Rightarrow> server \<Rightarrow> server" where
  "revoke kind name s = s\<lparr>sv_grants := (sv_grants s)(kind @ name := None)\<rparr>"

definition clearGrantsLocked :: "string \<Rightarrow> server \<Rightarrow> server" where
  "clearGrantsLocked sim s = s\<lparr>sv_grants := (\<lambda>name.
     if has_prefix name (grantLive @ sim @ ''_'') \<or> has_prefix name (grantPB @ sim @ ''_'')
     then None else sv_grants s name)\<rparr>"

section \<open>Replies\<close>

definition ackBody :: "16 word \<Rightarrow> 16 word \<Rightarrow> byte \<Rightarrow> byte list" where
  "ackBody seq mid result = be_bytes 2 seq @ be_bytes 2 mid @ [result]"

text \<open>The third component tells whether \<open>writeReply\<close> returned no error.\<close>

definition writeReply :: "bool \<Rightarrow> nat \<Rightarrow> 16 word \<Rightarrow> byte list \<Rightarrow> server \<Rightarrow> server \<times> out list \<times> bool" where
  "writeReply wr c mid body s =
     (case sv_conns s c of
        None \<Rightarrow> (s, [], False)
      | Some ss \<Rightarrow>
          let seq = se_seq ss + 1; s' = upd_conn c (\<lambda>ss. ss\<lparr>se_seq := seq\<rparr>) s in
          (case encodePacket \<lparr>pk_id = mid, pk_sim = se_sim ss, pk_seq = seq, pk_body = body,
                  pk_version = se_version ss, pk_total = 0, pk_index = 0, pk_noAck = False\<rparr> of
             Ok f \<Rightarrow> if wr \<and> \<not> se_closed ss then (s', [Sent c f], True) else (s', [], False)
           | _ \<Rightarrow> (s', [], False)))"

definition close_conn :: "nat \<Rightarrow> server \<Rightarrow> server \<times> out list" where
  "close_conn c s = (upd_conn c (\<lambda>ss. ss\<lparr>se_closed := True\<rparr>) s, [CloseConn c])"

definition deliver :: "nat \<Rightarrow> 16 word \<Rightarrow> 16 word \<Rightarrow> byte \<Rightarrow> byte list \<Rightarrow> server \<Rightarrow> server \<times> out list" where
  "deliver c seq replyTo result body s =
     (case sv_conns s c of
        None \<Rightarrow> (s, [])
      | Some ss \<Rightarrow>
          if map_of (se_pending ss) seq = Some replyTo
          then (upd_conn c (\<lambda>ss. ss\<lparr>se_pending := filter (\<lambda>(q, _). q \<noteq> seq) (se_pending ss)\<rparr>) s,
                [Delivered c seq result body])
          else (s, []))"

text \<open>
  The reply to an AV query carries no sequence number: it goes to the query in flight, of
  which \<open>avMu\<close> allows one.
\<close>

definition deliver_av :: "nat \<Rightarrow> byte list \<Rightarrow> server \<Rightarrow> server \<times> out list" where
  "deliver_av c body s =
     (case sv_conns s c of
        None \<Rightarrow> (s, [])
      | Some ss \<Rightarrow>
          (case find (\<lambda>(q, r). r = cmdAVReport) (se_pending ss) of
             None \<Rightarrow> (s, [])
           | Some (seq, _) \<Rightarrow>
               (upd_conn c (\<lambda>ss. ss\<lparr>se_pending := filter (\<lambda>(q, _). q \<noteq> seq) (se_pending ss)\<rparr>) s,
                [Delivered c seq 0 body])))"

fun note_first :: "16 word \<Rightarrow> byte \<Rightarrow> int \<Rightarrow> upload_task list \<Rightarrow> upload_task list" where
  "note_first seq r now [] = []"
| "note_first seq r now (u # us) =
     (if up_serial u = seq then u\<lparr>up_done := True, up_result := r, up_at := now\<rparr> # us
      else u # note_first seq r now us)"

definition noteUpload :: "int \<Rightarrow> string \<Rightarrow> byte list \<Rightarrow> server \<Rightarrow> server" where
  "noteUpload now sim body s =
     (if length body < 3 then s
      else upd_term sim (\<lambda>t. t\<lparr>tm_uploads :=
             note_first (be_word (take 2 body)) (body ! 2) now (tm_uploads t)\<rparr>) s)"

section \<open>Registration\<close>

definition cstring :: "byte list \<Rightarrow> string" where
  "cstring b = string_of_bytes (rev (dropWhile (\<lambda>x. x = 0 \<or> x = 32) (rev b)))"

definition seg :: "byte list \<Rightarrow> nat \<Rightarrow> nat \<Rightarrow> byte list" where
  "seg b i j = take (j - i) (drop i b)"

definition applyRegister :: "jt_config \<Rightarrow> byte list \<Rightarrow> byte \<Rightarrow> terminal \<Rightarrow> terminal" where
  "applyRegister cfg body version t =
     (if length body < 25 then t
      else
        let (maker, model, ident, colorAt) =
              (if version \<noteq> 0 \<and> length body \<ge> 76 then (seg body 4 15, seg body 15 45, seg body 45 75, 75)
               else if length body \<ge> 37 then (seg body 4 9, seg body 9 29, seg body 29 36, 36)
               else (seg body 4 9, seg body 9 17, seg body 17 24, 24));
            t = t\<lparr>tm_province := be_word (take 2 body), tm_city := be_word (take 2 (drop 2 body)),
                  tm_maker := cstring maker, tm_model := cstring model, tm_id := cstring ident\<rparr>
        in if colorAt < length body
           then t\<lparr>tm_plate_color := body ! colorAt, tm_plate := jc_plate cfg (drop (colorAt + 1) body)\<rparr>
           else t)"

section \<open>The packet handler\<close>

text \<open>The first packet of a connection claims its SIM; a later one must carry the same SIM.\<close>

definition fresh_terminal :: "string \<Rightarrow> int \<Rightarrow> terminal" where
  "fresh_terminal sim now = \<lparr>tm_key = sim, tm_online = True, tm_auth = False, tm_joined = now,
     tm_seen = now, tm_province = 0, tm_city = 0, tm_maker = [], tm_model = [], tm_id = [],
     tm_plate_color = 0, tm_plate = [], tm_uploads = []\<rparr>"

definition claimed :: "int \<Rightarrow> nat \<Rightarrow> packet \<Rightarrow> server \<Rightarrow> server" where
  "claimed now c p s =
     (let s = upd_conn c (\<lambda>ss. ss\<lparr>se_sim := pk_sim p, se_version := pk_version p\<rparr>) s
      in s\<lparr>sv_sessions := (sv_sessions s)(pk_sim p \<mapsto> c),
           sv_terms := (sv_terms s)(pk_sim p \<mapsto> fresh_terminal (pk_sim p) now)\<rparr>)"

definition claim_sim :: "int \<Rightarrow> nat \<Rightarrow> packet \<Rightarrow> server \<Rightarrow> server \<times> out list \<times> bool" where
  "claim_sim now c p s =
     (case sv_conns s c of
        None \<Rightarrow> (s, [], False)
      | Some ss \<Rightarrow>
          if \<not> validSIM (pk_sim p) then (s, [], False)
          else if se_sim ss = [] then
            (if sv_stopped s \<or> sv_sessions s (pk_sim p) \<noteq> None
             then (let (s, out) = close_conn c s in (s, out, False))
             else (claimed now c p s, [], True))
          else if pk_sim p \<noteq> se_sim ss then (let (s, out) = close_conn c s in (s, out, False))
          else (s, [], True))"

text \<open>The credential of an authentication packet; the 2019 header prefixes its length.\<close>

definition credential :: "packet \<Rightarrow> string option" where
  "credential p =
     (if pk_version p \<noteq> 0 then
        (case pk_body p of
           [] \<Rightarrow> None
         | n # rest \<Rightarrow> if unat n > length rest then None
                       else Some (string_of_bytes (take (unat n) rest)))
      else Some (string_of_bytes (pk_body p)))"

definition handle_auth :: "jt_config \<Rightarrow> bool \<Rightarrow> nat \<Rightarrow> packet \<Rightarrow> server \<Rightarrow> server \<times> out list" where
  "handle_auth cfg wr c p s =
     (case credential p of
        None \<Rightarrow> (s, [])
      | Some a \<Rightarrow>
          let valid = ConstantTimeEqual a (jc_auth_code cfg);
              (s, out, sent) = writeReply wr c cmdGeneralAck
                 (ackBody (pk_seq p) (pk_id p) (if valid then 0 else 1)) s
          in if sent then
               (if sv_terms s (pk_sim p) = None then (s, out)
                else
                  let s = upd_term (pk_sim p) (\<lambda>t. t\<lparr>tm_auth := valid\<rparr>) s
                  in (if valid then s else clearGrantsLocked (pk_sim p) s, out))
             else (s, out))"

definition handle_register :: "jt_config \<Rightarrow> bool \<Rightarrow> nat \<Rightarrow> packet \<Rightarrow> server \<Rightarrow> server \<times> out list" where
  "handle_register cfg wr c p s =
     (if length (pk_body p) < 25 then (s, [])
      else
        let s = upd_term (pk_sim p) (applyRegister cfg (pk_body p) (pk_version p)) s;
            (s, out, _) = writeReply wr c cmdRegisterReply
               (be_bytes 2 (pk_seq p) @ [0] @ bytes_of_string (jc_auth_code cfg)) s
        in (s, out))"

definition send_ack :: "bool \<Rightarrow> nat \<Rightarrow> packet \<Rightarrow> server \<Rightarrow> server \<times> out list" where
  "send_ack wr c p s =
     (let (s, out, _) = writeReply wr c cmdGeneralAck (ackBody (pk_seq p) (pk_id p) 0) s in (s, out))"

definition dispatch :: "jt_config \<Rightarrow> int \<Rightarrow> bool \<Rightarrow> nat \<Rightarrow> packet \<Rightarrow> server \<Rightarrow> server \<times> out list" where
  "dispatch cfg now wr c p s =
     (if pk_id p = cmdRegister then handle_register cfg wr c p s
      else if pk_id p = cmdAuth then handle_auth cfg wr c p s
      else if pk_id p = cmdLogout then
        (let (s, o1) = send_ack wr c p s;
             s = upd_term (pk_sim p) (\<lambda>t. t\<lparr>tm_online := False, tm_auth := False\<rparr>) s;
             (s, o2) = close_conn c s
         in (s, o1 @ o2))
      else if pk_id p = cmdGeneralReply then
        (if length (pk_body p) \<noteq> 5 then (s, [])
         else deliver c (be_word (take 2 (pk_body p))) cmdGeneralReply (pk_body p ! 4) (pk_body p) s)
      else if pk_id p = cmdAVReport then
        (if length (pk_body p) \<noteq> 10 then (s, [])
         else
           let (s, o1) = (if pk_noAck p then (s, []) else send_ack wr c p s);
               (s, o2) = deliver_av c (pk_body p) s
           in (s, o1 @ o2))
      else if pk_id p = cmdResourceList \<or> pk_id p = cmdUploadDone then
        (let s = (if pk_id p = cmdUploadDone
                  then noteUpload now (case sv_conns s c of None \<Rightarrow> [] | Some ss \<Rightarrow> se_sim ss) (pk_body p) s
                  else s);
             (s, o1) = (if length (pk_body p) \<ge> 2
                        then deliver c (be_word (take 2 (pk_body p))) (pk_id p) 0 (pk_body p) s
                        else (s, []));
             (s, o2) = (if pk_noAck p then (s, []) else send_ack wr c p s)
         in (s, o1 @ o2))
      else if pk_id p = cmdHeartbeat then send_ack wr c p s
      else if pk_noAck p then (s, []) else send_ack wr c p s)"

definition handlePacket :: "jt_config \<Rightarrow> int \<Rightarrow> bool \<Rightarrow> nat \<Rightarrow> packet \<Rightarrow> server \<Rightarrow> server \<times> out list" where
  "handlePacket cfg now wr c p s =
     (let (s, out, go) = claim_sim now c p s in
      if go then
        let s = upd_term (pk_sim p) (\<lambda>t. t\<lparr>tm_seen := now\<rparr>) s;
            (s, o2) = dispatch cfg now wr c p s
        in (s, out @ o2)
      else (s, out))"

definition ingest :: "jt_config \<Rightarrow> int \<Rightarrow> bool \<Rightarrow> nat \<Rightarrow> packet \<Rightarrow> server \<Rightarrow> server \<times> out list" where
  "ingest cfg now wr c p s =
     (if pk_total p > 1 then
        let (s, o1) = send_ack wr c p s in
        (case sv_conns s c of
           None \<Rightarrow> (s, o1)
         | Some ss \<Rightarrow>
             let (fs, whole) = pushFrag p (se_frags ss);
                 s = upd_conn c (\<lambda>ss. ss\<lparr>se_frags := fs\<rparr>) s
             in (case whole of
                   None \<Rightarrow> (s, o1)
                 | Some q \<Rightarrow> (let (s, o2) = handlePacket cfg now wr c q s in (s, o1 @ o2))))
      else handlePacket cfg now wr c p s)"

section \<open>Connections\<close>

definition accept_conn :: "nat \<Rightarrow> server \<Rightarrow> server" where
  "accept_conn c s =
     (if sv_stopped s then s else s\<lparr>sv_conns := (sv_conns s)(c \<mapsto> new_session)\<rparr>)"

text \<open>The deferred clean-up of \<open>handle\<close> when the connection ends.\<close>

definition conn_closed :: "nat \<Rightarrow> server \<Rightarrow> server" where
  "conn_closed c s =
     (case sv_conns s c of
        None \<Rightarrow> s
      | Some ss \<Rightarrow>
          let s = s\<lparr>sv_conns := (sv_conns s)(c := None)\<rparr> in
          if sv_sessions s (se_sim ss) = Some c then
            upd_term (se_sim ss) (\<lambda>t. t\<lparr>tm_online := False, tm_auth := False\<rparr>)
              (clearGrantsLocked (se_sim ss)
                (s\<lparr>sv_sessions := (sv_sessions s)(se_sim ss := None)\<rparr>))
          else s)"

definition stop_server :: "server \<Rightarrow> server" where
  "stop_server s = s\<lparr>sv_stopped := True,
     sv_conns := (\<lambda>c. map_option (\<lambda>ss. ss\<lparr>se_closed := True\<rparr>) (sv_conns s c))\<rparr>"

section \<open>Commands to a terminal\<close>

text \<open>
  \<open>sendWait\<close> up to the wait: the active check, the next sequence number, the waiter and the
  write.  \<open>None\<close> is an error return.
\<close>

definition sendWait_begin ::
  "bool \<Rightarrow> string \<Rightarrow> 16 word \<Rightarrow> byte list \<Rightarrow> 16 word \<Rightarrow> server \<Rightarrow> server \<times> out list \<times> 16 word option" where
  "sendWait_begin wr key mid body replyTo s =
     (case sv_sessions s key of
        None \<Rightarrow> (s, [], None)
      | Some c \<Rightarrow>
          (case sv_conns s c of
             None \<Rightarrow> (s, [], None)
           | Some ss \<Rightarrow>
               if sv_stopped s \<or> \<not> term_active key s then (s, [], None)
               else
                 let seq = se_seq ss + 1;
                     add = upd_conn c (\<lambda>ss. ss\<lparr>se_seq := seq,
                        se_pending := (seq, replyTo) # filter (\<lambda>(q, _). q \<noteq> seq) (se_pending ss)\<rparr>) s;
                     fail = upd_conn c (\<lambda>ss. ss\<lparr>se_seq := seq,
                        se_pending := filter (\<lambda>(q, _). q \<noteq> seq) (se_pending ss)\<rparr>) s
                 in (case encodePacket \<lparr>pk_id = mid, pk_sim = key, pk_seq = seq, pk_body = body,
                        pk_version = se_version ss, pk_total = 0, pk_index = 0, pk_noAck = False\<rparr> of
                       Ok f \<Rightarrow> if wr \<and> \<not> se_closed ss then (add, [Sent c f], Some seq)
                               else (fail, [], None)
                     | _ \<Rightarrow> (fail, [], None))))"

text \<open>\<open>Play\<close> and \<open>Playback\<close>: the grant comes first and is taken back when the send fails.\<close>

record play_input =
  pi_key :: string
  pi_channel :: byte
  pi_transport :: string
  pi_data :: byte
  pi_stream :: byte

definition channel_or_1 :: "byte \<Rightarrow> byte" where
  "channel_or_1 ch = (if ch = 0 then 1 else ch)"

definition play_transport :: "jt_config \<Rightarrow> play_input \<Rightarrow> string" where
  "play_transport cfg i =
     (let t = to_lower (trim_space (pi_transport i)) in if t = [] then jc_transport cfg else t)"

definition play_body :: "jt_config \<Rightarrow> play_input \<Rightarrow> byte list" where
  "play_body cfg i =
     (let ip = bytes_of_string (jc_media_ip cfg) in
      [of_nat (length ip)] @ ip
      @ (if play_transport cfg i = ''tcp'' then be_bytes 2 (jc_tcp_port cfg) @ [0, 0]
         else [0, 0] @ be_bytes 2 (jc_udp_port cfg))
      @ [channel_or_1 (pi_channel i), pi_data i, pi_stream i])"

datatype cmd_error = BadSIM | BadTransport | BadData

definition play_begin ::
  "jt_config \<Rightarrow> play_input \<Rightarrow> server \<Rightarrow> (cmd_error, server \<times> string \<times> int \<times> byte list) res" where
  "play_begin cfg i s =
     bind (require (validSIM (pi_key i)) BadSIM) (\<lambda>_.
     bind (require (play_transport cfg i = ''tcp'' \<or> play_transport cfg i = ''udp'') BadTransport) (\<lambda>_.
     bind (require (\<not> (pi_data i > 5 \<or> pi_stream i > 1)) BadData) (\<lambda>_.
       let name = StreamID (pi_key i) (channel_or_1 (pi_channel i));
           (s', previous) = grant grantLive name s
       in Ok (s', name, previous, play_body cfg i))))"

definition play_end :: "bool \<Rightarrow> string \<Rightarrow> string \<Rightarrow> int \<Rightarrow> server \<Rightarrow> server" where
  "play_end sent kind name previous s = (if sent then s else restoreGrant kind name previous s)"

section \<open>What each operation leaves alone\<close>

text \<open>
  The parts of the state the invariant speaks of: which SIM and fragments a connection has,
  and the online and authenticated flags of a terminal.
\<close>

definition conn_view :: "server \<Rightarrow> nat \<Rightarrow> (string \<times> frags) option" where
  "conn_view s c = map_option (\<lambda>ss. (se_sim ss, se_frags ss)) (sv_conns s c)"

definition flags :: "server \<Rightarrow> string \<Rightarrow> (bool \<times> bool) option" where
  "flags s sim = map_option (\<lambda>t. (tm_online t, tm_auth t)) (sv_terms s sim)"

definition auth_on :: "string \<Rightarrow> server \<Rightarrow> bool" where
  "auth_on sim s \<longleftrightarrow> (\<exists>on. flags s sim = Some (on, True))"

named_theorems views \<open>projections of updated server states\<close>

lemma upd_conn_views [views]:
  "sv_sessions (upd_conn c f s) = sv_sessions s" "sv_stopped (upd_conn c f s) = sv_stopped s"
  "sv_terms (upd_conn c f s) = sv_terms s" "sv_grants (upd_conn c f s) = sv_grants s"
  "flags (upd_conn c f s) = flags s"
  by (simp_all add: upd_conn_def flags_def fun_eq_iff)

lemma upd_term_views [views]:
  "sv_sessions (upd_term k g s) = sv_sessions s" "sv_stopped (upd_term k g s) = sv_stopped s"
  "sv_conns (upd_term k g s) = sv_conns s" "sv_grants (upd_term k g s) = sv_grants s"
  "conn_view (upd_term k g s) = conn_view s"
  by (simp_all add: upd_term_def conn_view_def fun_eq_iff)

lemma conn_view_upd_conn:
  "(\<And>ss. se_sim (f ss) = se_sim ss \<and> se_frags (f ss) = se_frags ss) \<Longrightarrow>
   conn_view (upd_conn c f s) = conn_view s"
  by (rule ext) (cases "sv_conns s c"; auto simp: conn_view_def upd_conn_def)

lemma flags_upd_term:
  "flags (upd_term k g s) sim =
     (if sim = k then map_option (\<lambda>t. (tm_online (g t), tm_auth (g t))) (sv_terms s k) else flags s sim)"
  by (auto simp: flags_def upd_term_def option.map_comp comp_def)

lemma flags_upd_term_same:
  "(\<And>t. tm_online (g t) = tm_online t \<and> tm_auth (g t) = tm_auth t) \<Longrightarrow>
   flags (upd_term k g s) = flags s"
  by (rule ext) (cases "sv_terms s k"; auto simp: upd_term_def flags_def)

lemma clearGrants_views [views]:
  "sv_sessions (clearGrantsLocked k s) = sv_sessions s" "sv_stopped (clearGrantsLocked k s) = sv_stopped s"
  "sv_conns (clearGrantsLocked k s) = sv_conns s" "sv_terms (clearGrantsLocked k s) = sv_terms s"
  "conn_view (clearGrantsLocked k s) = conn_view s" "flags (clearGrantsLocked k s) = flags s"
  by (simp_all add: clearGrantsLocked_def conn_view_def flags_def fun_eq_iff)

text \<open>A change that keeps sessions and connections, and the flags of all but one terminal.\<close>

definition quiet :: "string \<Rightarrow> server \<Rightarrow> server \<Rightarrow> bool" where
  "quiet sim s s' \<longleftrightarrow>
     sv_sessions s' = sv_sessions s \<and> sv_stopped s' = sv_stopped s \<and> conn_view s' = conn_view s
     \<and> (\<forall>k. k \<noteq> sim \<longrightarrow> flags s' k = flags s k)"

lemma quiet_refl [simp]: "quiet sim s s"
  by (simp add: quiet_def)

lemma quiet_trans: "quiet sim s s' \<Longrightarrow> quiet sim s' s'' \<Longrightarrow> quiet sim s s''"
  by (simp add: quiet_def)

text \<open>A change that touches no flag and no grant either.\<close>

definition silent :: "server \<Rightarrow> server \<Rightarrow> bool" where
  "silent s s' \<longleftrightarrow>
     sv_sessions s' = sv_sessions s \<and> sv_stopped s' = sv_stopped s \<and> conn_view s' = conn_view s
     \<and> flags s' = flags s \<and> sv_grants s' = sv_grants s"

lemma silent_refl [simp]: "silent s s"
  by (simp add: silent_def)

lemma silent_trans: "silent s s' \<Longrightarrow> silent s' s'' \<Longrightarrow> silent s s''"
  by (simp add: silent_def)

lemma silent_quiet: "silent s s' \<Longrightarrow> quiet sim s s'"
  by (simp add: silent_def quiet_def)

lemma silent_upd_conn:
  "(\<And>ss. se_sim (f ss) = se_sim ss \<and> se_frags (f ss) = se_frags ss) \<Longrightarrow> silent s (upd_conn c f s)"
  by (simp add: silent_def views conn_view_upd_conn)

lemma silent_upd_term:
  "(\<And>t. tm_online (g t) = tm_online t \<and> tm_auth (g t) = tm_auth t) \<Longrightarrow> silent s (upd_term k g s)"
  by (simp add: silent_def views flags_upd_term_same)

lemma silent_writeReply: "silent s (fst (writeReply wr c m b s))"
  by (auto simp: writeReply_def Let_def intro: silent_upd_conn split: option.splits res.splits)

lemma silent_close_conn: "silent s (fst (close_conn c s))"
  by (simp add: close_conn_def silent_upd_conn)

lemma silent_deliver: "silent s (fst (deliver c q r x b s))"
  by (auto simp: deliver_def intro: silent_upd_conn split: option.splits)

lemma silent_deliver_av: "silent s (fst (deliver_av c b s))"
  by (auto simp: deliver_av_def intro: silent_upd_conn split: option.splits)

lemma silent_noteUpload: "silent s (noteUpload now sim b s)"
  by (auto simp: noteUpload_def intro: silent_upd_term)

lemma silent_send_ack: "silent s (fst (send_ack wr c p s))"
  using silent_writeReply by (auto simp: send_ack_def split: prod.splits) (metis fst_conv)

lemma applyRegister_flags:
  "tm_online (applyRegister cfg b v t) = tm_online t \<and> tm_auth (applyRegister cfg b v t) = tm_auth t"
  by (simp add: applyRegister_def Let_def split: prod.splits)

lemma silent_handle_register: "silent s (fst (handle_register cfg wr c p s))"
  using silent_writeReply[of "upd_term (pk_sim p) (applyRegister cfg (pk_body p) (pk_version p)) s"]
    silent_upd_term[of "applyRegister cfg (pk_body p) (pk_version p)" s "pk_sim p"] applyRegister_flags
  by (auto simp: handle_register_def Let_def split: prod.splits) (metis fst_conv silent_trans)

section \<open>The handler keeps sessions, and authenticates only by the secret\<close>

lemma quiet_clear: "quiet sim s (clearGrantsLocked k s)"
  by (simp add: quiet_def views)

lemma quiet_upd_term: "quiet k s (upd_term k g s)"
  by (simp add: quiet_def views flags_upd_term)

lemma clear_grants_cong:
  "sv_grants s = sv_grants t \<Longrightarrow> sv_grants (clearGrantsLocked k s) = sv_grants (clearGrantsLocked k t)"
  by (simp add: clearGrantsLocked_def cong: if_cong)

text \<open>The authentication handler: what happens to the flags, the grants and the rest.\<close>

lemma handle_auth_cases:
  assumes "handle_auth cfg wr c p s = (s', out)"
  obtains (rest) "silent s s'"
    | (accept) a where "credential p = Some a" "ConstantTimeEqual a (jc_auth_code cfg)"
        "\<exists>f. out = [Sent c f]" "quiet (pk_sim p) s s'" "sv_grants s' = sv_grants s"
    | (reject) a where "credential p = Some a" "\<not> ConstantTimeEqual a (jc_auth_code cfg)"
        "quiet (pk_sim p) s s'" "\<not> auth_on (pk_sim p) s'"
        "sv_grants s' = sv_grants (clearGrantsLocked (pk_sim p) s)"
proof (cases "credential p")
  case None
  then show thesis using assms rest by (simp add: handle_auth_def)
next
  case (Some a)
  let ?v = "ConstantTimeEqual a (jc_auth_code cfg)"
  obtain s1 o1 sent where w: "writeReply wr c cmdGeneralAck
      (ackBody (pk_seq p) (pk_id p) (if ?v then 0 else 1)) s = (s1, o1, sent)"
    by (metis prod_cases3)
  have s1: "silent s s1"
    using silent_writeReply[of s wr c] w by (metis fst_conv)
  have sent: "sent \<Longrightarrow> \<exists>f. o1 = [Sent c f]"
    using w by (auto simp: writeReply_def Let_def split: option.splits res.splits if_splits)
  show thesis
  proof (cases "sent \<and> sv_terms s1 (pk_sim p) \<noteq> None")
    case False
    then have "s' = s1" using assms w Some by (auto simp: handle_auth_def Let_def split: if_splits)
    then show thesis using s1 rest by simp
  next
    case True
    let ?s2 = "upd_term (pk_sim p) (\<lambda>t. t\<lparr>tm_auth := ?v\<rparr>) s1"
    have eq: "s' = (if ?v then ?s2 else clearGrantsLocked (pk_sim p) ?s2)" "out = o1"
      using assms w Some True by (auto simp: handle_auth_def Let_def split: if_splits)
    have q: "quiet (pk_sim p) s ?s2"
      using silent_quiet[OF s1] quiet_upd_term by (rule quiet_trans)
    have g: "sv_grants ?s2 = sv_grants s"
      using s1 by (simp add: silent_def views)
    show thesis
    proof (cases ?v)
      case v: True
      show thesis by (rule accept[OF Some v]) (use eq v q g sent True in auto)
    next
      case v: False
      have "\<not> auth_on (pk_sim p) s'"
        using eq v by (auto simp: auth_on_def views flags_upd_term)
      moreover have "quiet (pk_sim p) s s'"
        using eq v quiet_trans[OF q quiet_clear] by simp
      ultimately show thesis
        using eq v clear_grants_cong[OF g] by (intro reject[OF Some v]) simp_all
    qed
  qed
qed

lemma dispatch_quiet_raw:
  assumes "dispatch cfg now wr c p s = (s', out)"
  shows "silent s s' \<or> pk_id p = cmdAuth \<and> handle_auth cfg wr c p s = (s', out)
    \<or> pk_id p = cmdLogout \<and> quiet (pk_sim p) s s' \<and> flags s' (pk_sim p) \<in> {None, Some (False, False)}
      \<and> sv_grants s' = sv_grants s"
proof (cases "pk_id p = cmdLogout")
  case True
  obtain s1 o1 where a: "send_ack wr c p s = (s1, o1)" by fastforce
  have s1: "silent s s1" using silent_send_ack[of s wr c p] a by simp
  let ?s2 = "upd_term (pk_sim p) (\<lambda>t. t\<lparr>tm_online := False, tm_auth := False\<rparr>) s1"
  obtain s3 o3 where c: "close_conn c ?s2 = (s3, o3)" by fastforce
  have s3: "silent ?s2 s3" using silent_close_conn[of ?s2 c] c by simp
  have "s' = s3" using assms True a c
    by (auto simp: dispatch_def Let_def cmdLogout_def cmdRegister_def cmdAuth_def)
  moreover have "quiet (pk_sim p) s s3"
    using silent_quiet[OF s1] quiet_upd_term silent_quiet[OF s3] by (blast intro: quiet_trans)
  moreover have "flags s3 (pk_sim p) \<in> {None, Some (False, False)}" "sv_grants s3 = sv_grants s"
    using s1 s3 by (auto simp: silent_def flags_upd_term views map_option_case split: option.splits)
  ultimately show ?thesis using True by simp
next
  case False
  note [simp] = silent_send_ack silent_handle_register silent_deliver silent_deliver_av silent_noteUpload
  have ack: "send_ack wr c p t = (u, o') \<Longrightarrow> silent t u" for t u o'
    using silent_send_ack[of t wr c p] by simp
  have del: "deliver c q r x b t = (u, o') \<Longrightarrow> silent t u" for t u o' q r x b
    using silent_deliver[of t c q r x b] by simp
  have dav: "deliver_av c b t = (u, o') \<Longrightarrow> silent t u" for t u o' b
    using silent_deliver_av[of t c b] by simp
  have reg: "handle_register cfg wr c p t = (u, o') \<Longrightarrow> silent t u" for t u o'
    using silent_handle_register[of t cfg wr c p] by simp
  show ?thesis
    using assms False unfolding dispatch_def Let_def
    by (auto dest!: ack del dav reg intro: silent_trans silent_noteUpload
        split: if_splits prod.splits)
qed

lemma dispatch_quiet: "quiet (pk_sim p) s (fst (dispatch cfg now wr c p s))"
proof -
  obtain s' out where d: "dispatch cfg now wr c p s = (s', out)" by fastforce
  from dispatch_quiet_raw[OF this] show ?thesis
  proof (elim disjE conjE)
    assume "handle_auth cfg wr c p s = (s', out)"
    then show ?thesis by (cases rule: handle_auth_cases) (auto simp: d silent_quiet)
  qed (auto simp: d silent_quiet)
qed

section \<open>The invariant of the session table\<close>

text \<open>
  A SIM belongs to at most one live connection and the table points to it, a terminal is
  online or authenticated only while it has one, and the fragments of every connection are
  well-formed.
\<close>

definition table_inv ::
  "(string \<rightharpoonup> nat) \<Rightarrow> (nat \<Rightarrow> (string \<times> frags) option) \<Rightarrow> (string \<Rightarrow> (bool \<times> bool) option) \<Rightarrow> bool" where
  "table_inv S V F \<longleftrightarrow>
     (\<forall>sim c. S sim = Some c \<longrightarrow> sim \<noteq> [] \<and> (\<exists>fs. V c = Some (sim, fs)))
     \<and> (\<forall>c sim fs. V c = Some (sim, fs) \<longrightarrow> frags_inv fs \<and> (sim \<noteq> [] \<longrightarrow> S sim = Some c))
     \<and> (\<forall>sim on au. F sim = Some (on, au) \<longrightarrow> on \<or> au \<longrightarrow> S sim \<noteq> None)"

definition server_inv :: "server \<Rightarrow> bool" where
  "server_inv s \<longleftrightarrow> table_inv (sv_sessions s) (conn_view s) (flags s)"

lemma table_invI:
  assumes "\<And>sim c. S sim = Some c \<Longrightarrow> sim \<noteq> []"
    and "\<And>sim c. S sim = Some c \<Longrightarrow> \<exists>fs. V c = Some (sim, fs)"
    and "\<And>c sim fs. V c = Some (sim, fs) \<Longrightarrow> frags_inv fs"
    and "\<And>c sim fs. V c = Some (sim, fs) \<Longrightarrow> sim \<noteq> [] \<Longrightarrow> S sim = Some c"
    and "\<And>sim on au. F sim = Some (on, au) \<Longrightarrow> on \<or> au \<Longrightarrow> S sim \<noteq> None"
  shows "table_inv S V F"
  unfolding table_inv_def
  by (intro conjI allI impI)
    (erule assms(1), erule assms(2), erule assms(3), erule (1) assms(4), erule (1) assms(5))

lemma table_invD1: "table_inv S V F \<Longrightarrow> S sim = Some c \<Longrightarrow> sim \<noteq> []"
  unfolding table_inv_def by (drule conjunct1, drule spec, drule spec, drule (1) mp, erule conjunct1)

lemma table_invD2: "table_inv S V F \<Longrightarrow> S sim = Some c \<Longrightarrow> \<exists>fs. V c = Some (sim, fs)"
  unfolding table_inv_def by (drule conjunct1, drule spec, drule spec, drule (1) mp, erule conjunct2)

lemma table_invD3: "table_inv S V F \<Longrightarrow> V c = Some (sim, fs) \<Longrightarrow> frags_inv fs"
  unfolding table_inv_def
  by (drule conjunct2, drule conjunct1, drule spec, drule spec, drule spec, drule (1) mp, erule conjunct1)

lemma table_invD4: "table_inv S V F \<Longrightarrow> V c = Some (sim, fs) \<Longrightarrow> sim \<noteq> [] \<Longrightarrow> S sim = Some c"
  unfolding table_inv_def
  by (drule conjunct2, drule conjunct1, drule spec, drule spec, drule spec, drule (1) mp,
      drule conjunct2, erule (1) mp)

lemma table_invD5: "table_inv S V F \<Longrightarrow> F sim = Some (on, au) \<Longrightarrow> on \<or> au \<Longrightarrow> S sim \<noteq> None"
  unfolding table_inv_def
  by (drule conjunct2, drule conjunct2, drule spec, drule spec, drule spec, drule (1) mp, erule (1) mp)

lemmas table_invD = table_invD1 table_invD2 table_invD3 table_invD4 table_invD5

lemma table_inv_flags:
  assumes inv: "table_inv S V F" and eq: "\<And>k. k \<noteq> sim \<Longrightarrow> F' k = F k" and "S sim \<noteq> None"
  shows "table_inv S V F'"
proof (rule table_invI)
  fix k on au assume "F' k = Some (on, au)" "on \<or> au"
  then show "S k \<noteq> None"
    using table_invD5[OF inv, of k on au] eq[of k] assms(3) by (cases "k = sim") simp_all
qed (rule table_invD[OF inv], assumption+)+

lemma table_inv_claim:
  assumes inv: "table_inv S V F" and free: "S sim = None" and ne: "sim \<noteq> []" and c: "V c = Some ([], fs)"
  shows "table_inv (S(sim \<mapsto> c)) (V(c \<mapsto> (sim, fs))) (F(sim \<mapsto> x))"
proof (rule table_invI)
  fix k c' assume "(S(sim \<mapsto> c)) k = Some c'"
  then have k: "k = sim \<and> c' = c \<or> k \<noteq> sim \<and> S k = Some c'" by (simp split: if_splits)
  then show "k \<noteq> []" using ne table_invD1[OF inv, of k c'] by blast
  have "S k = Some c' \<Longrightarrow> c' \<noteq> c"
    using table_invD1[OF inv, of k c'] table_invD2[OF inv, of k c'] c by auto
  then show "\<exists>fs'. (V(c \<mapsto> (sim, fs))) c' = Some (k, fs')"
    using k table_invD2[OF inv, of k c'] by auto
next
  fix c' k fs' assume v: "(V(c \<mapsto> (sim, fs))) c' = Some (k, fs')"
  then have k: "c' = c \<and> k = sim \<and> fs' = fs \<or> c' \<noteq> c \<and> V c' = Some (k, fs')"
    by (simp split: if_splits)
  then show "frags_inv fs'"
    using table_invD3[OF inv c] table_invD3[OF inv, of c' k fs'] by blast
  show "(S(sim \<mapsto> c)) k = Some c'" if "k \<noteq> []"
    using k table_invD4[OF inv, of c' k fs'] that free by auto
next
  fix k on au assume "(F(sim \<mapsto> x)) k = Some (on, au)" "on \<or> au"
  then show "(S(sim \<mapsto> c)) k \<noteq> None"
    using table_invD5[OF inv, of k on au] by (simp split: if_splits)
qed

lemma table_inv_frags:
  assumes inv: "table_inv S V F" and c: "V c = Some (sim, fs)" and fs': "frags_inv fs'"
  shows "table_inv S (V(c \<mapsto> (sim, fs'))) F"
proof (rule table_invI)
  fix k c' assume k: "S k = Some c'"
  show "\<exists>fs. (V(c \<mapsto> (sim, fs'))) c' = Some (k, fs)"
    using table_invD2[OF inv k] c by auto
next
  fix c' k fs'' assume "(V(c \<mapsto> (sim, fs'))) c' = Some (k, fs'')"
  then have k: "c' = c \<and> k = sim \<and> fs'' = fs' \<or> V c' = Some (k, fs'')"
    by (simp split: if_splits)
  then show "frags_inv fs''" using fs' table_invD3[OF inv, of c' k fs''] by blast
  show "S k = Some c'" if "k \<noteq> []"
    using k table_invD4[OF inv c] table_invD4[OF inv, of c' k fs''] that by blast
qed (rule table_invD[OF inv], assumption+)+

text \<open>A connection leaves: it takes its table entry and its terminal's flags with it.\<close>

lemma table_inv_leave:
  assumes inv: "table_inv S V F" and sim: "S sim = Some c"
    and off: "F' sim = None \<or> F' sim = Some (False, False)" and eq: "\<And>k. k \<noteq> sim \<Longrightarrow> F' k = F k"
  shows "table_inv (S(sim := None)) (V(c := None)) F'"
proof (rule table_invI)
  fix k c' assume "(S(sim := None)) k = Some c'"
  then have k: "k \<noteq> sim" "S k = Some c'" by (simp_all split: if_splits)
  then show "k \<noteq> []" using table_invD1[OF inv] by blast
  show "\<exists>fs. (V(c := None)) c' = Some (k, fs)"
    using table_invD2[OF inv k(2)] table_invD2[OF inv sim] k(1) by (auto split: if_splits)
next
  fix c' k fs assume "(V(c := None)) c' = Some (k, fs)"
  then have v: "c' \<noteq> c" "V c' = Some (k, fs)" by (simp_all split: if_splits)
  then show "frags_inv fs" using table_invD3[OF inv] by blast
  show "(S(sim := None)) k = Some c'" if "k \<noteq> []"
    using table_invD4[OF inv v(2) that] sim v(1) by (auto split: if_splits)
next
  fix k on au assume "F' k = Some (on, au)" "on \<or> au"
  then show "(S(sim := None)) k \<noteq> None"
    using table_invD5[OF inv, of k on au] off eq[of k] by (cases "k = sim") auto
qed

lemma table_inv_drop:
  assumes inv: "table_inv S V F" and c: "\<And>k. S k \<noteq> Some c"
  shows "table_inv S (V(c := None)) F"
proof (rule table_invI)
  fix k c' assume k: "S k = Some c'"
  then show "\<exists>fs. (V(c := None)) c' = Some (k, fs)"
    using table_invD2[OF inv k] c[of k] by (cases "c' = c") simp_all
next
  fix c' k fs assume "(V(c := None)) c' = Some (k, fs)"
  then have v: "V c' = Some (k, fs)" by (simp split: if_splits)
  then show "frags_inv fs" by (rule table_invD3[OF inv])
  show "S k = Some c'" if "k \<noteq> []" using inv v that by (rule table_invD4)
qed (rule table_invD[OF inv], assumption+)+

lemma table_inv_accept:
  assumes inv: "table_inv S V F" and new: "V c = None"
  shows "table_inv S (V(c \<mapsto> ([], Map.empty))) F"
proof (rule table_invI)
  fix k c' assume k: "S k = Some c'"
  then show "\<exists>fs. (V(c \<mapsto> ([], Map.empty))) c' = Some (k, fs)"
    using table_invD2[OF inv k] new by (cases "c' = c") auto
next
  fix c' k fs assume "(V(c \<mapsto> ([], Map.empty))) c' = Some (k, fs)"
  then have v: "k = [] \<and> fs = Map.empty \<or> V c' = Some (k, fs)" by (auto split: if_splits)
  then show "frags_inv fs" using table_invD3[OF inv, of c' k fs] by (auto simp: frags_inv_def)
  show "S k = Some c'" if "k \<noteq> []" using v table_invD4[OF inv, of c' k fs] that by blast
qed (rule table_invD[OF inv], assumption+)+

lemma server_inv_init: "server_inv server_init"
  by (simp add: server_inv_def table_inv_def server_init_def conn_view_def flags_def)

lemma server_inv_quiet:
  assumes "server_inv s" and "quiet sim s s'" and "sv_sessions s sim \<noteq> None"
  shows "server_inv s'"
  using assms table_inv_flags[of "sv_sessions s" "conn_view s" "flags s" sim "flags s'"]
  unfolding server_inv_def quiet_def by simp

lemma server_inv_silent: "server_inv s \<Longrightarrow> silent s s' \<Longrightarrow> server_inv s'"
  by (simp add: server_inv_def silent_def)

lemma claimed_views:
  assumes "sv_conns s c = Some ss"
  shows "sv_sessions (claimed now c p s) = (sv_sessions s)(pk_sim p \<mapsto> c)"
    and "sv_grants (claimed now c p s) = sv_grants s"
    and "conn_view (claimed now c p s) = (conn_view s)(c \<mapsto> (pk_sim p, se_frags ss))"
    and "flags (claimed now c p s) = (flags s)(pk_sim p \<mapsto> (True, False))"
    and "sv_stopped (claimed now c p s) = sv_stopped s"
  using assms
  by (auto simp: claimed_def Let_def conn_view_def flags_def upd_conn_def fresh_terminal_def)

text \<open>After a successful claim the connection owns the SIM of the packet.\<close>

lemma claim_sim_inv:
  assumes inv: "server_inv s" and cl: "claim_sim now c p s = (s', out, go)"
  shows "server_inv s' \<and> (go \<longrightarrow> sv_sessions s' (pk_sim p) = Some c)
    \<and> (auth_on k s' \<longrightarrow> auth_on k s) \<and> sv_grants s' = sv_grants s"
proof (cases "sv_conns s c")
  case None
  then show ?thesis using inv cl by (simp add: claim_sim_def)
next
  case (Some ss)
  have close: ?thesis if "close_conn c s = (s', out)" and "\<not> go"
    using that silent_close_conn[of s c] inv server_inv_silent
    by (auto simp: silent_def auth_on_def)
  consider (bad) "\<not> validSIM (pk_sim p)"
    | (first) "validSIM (pk_sim p)" "se_sim ss = []" "\<not> sv_stopped s" "sv_sessions s (pk_sim p) = None"
    | (taken) "validSIM (pk_sim p)" "se_sim ss = []" "sv_stopped s \<or> sv_sessions s (pk_sim p) \<noteq> None"
    | (other) "validSIM (pk_sim p)" "se_sim ss \<noteq> []" "pk_sim p \<noteq> se_sim ss"
    | (same) "validSIM (pk_sim p)" "se_sim ss \<noteq> []" "pk_sim p = se_sim ss"
    by blast
  then show ?thesis
  proof cases
    case bad
    then show ?thesis using inv cl Some by (simp add: claim_sim_def)
  next
    case taken
    then show ?thesis using cl Some close by (auto simp: claim_sim_def split: prod.splits)
  next
    case other
    then show ?thesis using cl Some close by (auto simp: claim_sim_def split: prod.splits)
  next
    case same
    then have "conn_view s c = Some (pk_sim p, se_frags ss)" using Some by (simp add: conn_view_def)
    then have "sv_sessions s (pk_sim p) = Some c"
      using inv same table_invD4[of "sv_sessions s" "conn_view s" "flags s" c] unfolding server_inv_def by simp
    then show ?thesis using same inv cl Some by (auto simp: claim_sim_def)
  next
    case first
    let ?sim = "pk_sim p"
    have ne: "?sim \<noteq> []" using first(1) by (auto simp: validSIM_def)
    have s': "s' = claimed now c p s" and go
      using cl Some first by (auto simp: claim_sim_def)
    have old: "conn_view s c = Some ([], se_frags ss)" using Some first by (simp add: conn_view_def)
    have "server_inv s'"
      using table_inv_claim[of "sv_sessions s" "conn_view s" "flags s", OF inv[unfolded server_inv_def] first(4) ne old]
      unfolding server_inv_def s' claimed_views[OF Some] .
    then show ?thesis
      using \<open>go\<close> by (auto simp: s' claimed_views[OF Some] auth_on_def split: if_splits)
  qed
qed

lemma handlePacket_inv:
  assumes "server_inv s"
  shows "server_inv (fst (handlePacket cfg now wr c p s))"
proof -
  obtain s1 o1 go where cl: "claim_sim now c p s = (s1, o1, go)" by (metis prod_cases3)
  note c1 = claim_sim_inv[OF assms cl]
  let ?s2 = "upd_term (pk_sim p) (\<lambda>t. t\<lparr>tm_seen := now\<rparr>) s1"
  have q: "silent s1 ?s2" by (rule silent_upd_term) simp
  have "server_inv (fst (dispatch cfg now wr c p ?s2))" if go
    using that c1 q server_inv_quiet[OF server_inv_silent[OF conjunct1[OF c1] q] dispatch_quiet]
    by (simp add: silent_def)
  with c1 show ?thesis
    by (auto simp: handlePacket_def cl Let_def split: prod.splits)
qed

lemma server_inv_set_frags:
  assumes "server_inv s" and "frags_inv fs"
  shows "server_inv (upd_conn c (\<lambda>ss. ss\<lparr>se_frags := fs\<rparr>) s)"
proof (cases "sv_conns s c")
  case None
  then have "conn_view (upd_conn c (\<lambda>ss. ss\<lparr>se_frags := fs\<rparr>) s) = conn_view s"
    by (auto simp: conn_view_def upd_conn_def)
  with assms show ?thesis by (simp add: server_inv_def views)
next
  case (Some ss)
  then have v: "conn_view (upd_conn c (\<lambda>ss. ss\<lparr>se_frags := fs\<rparr>) s) = (conn_view s)(c \<mapsto> (se_sim ss, fs))"
    "conn_view s c = Some (se_sim ss, se_frags ss)"
    by (auto simp: conn_view_def upd_conn_def)
  show ?thesis
    using table_inv_frags[of "sv_sessions s" "conn_view s" "flags s", OF assms(1)[unfolded server_inv_def] v(2) assms(2)]
    unfolding server_inv_def v(1) views .
qed

lemma ingest_inv:
  assumes "server_inv s"
  shows "server_inv (fst (ingest cfg now wr c p s))"
proof (cases "pk_total p > 1")
  case False
  then show ?thesis using assms handlePacket_inv by (simp add: ingest_def)
next
  case True
  obtain s1 o1 where a: "send_ack wr c p s = (s1, o1)" by fastforce
  have s1: "server_inv s1"
    using server_inv_silent[OF assms silent_send_ack[of s wr c p]] a by simp
  show ?thesis
  proof (cases "sv_conns s1 c")
    case None
    then show ?thesis using True a s1 by (simp add: ingest_def)
  next
    case (Some ss)
    then have "conn_view s1 c = Some (se_sim ss, se_frags ss)" by (simp add: conn_view_def)
    then have "frags_inv (se_frags ss)"
      using s1 table_invD(3) unfolding server_inv_def by metis
    then have "frags_inv (fst (pushFrag p (se_frags ss)))" by (rule pushFrag_inv)
    then have "server_inv (upd_conn c (\<lambda>ss. ss\<lparr>se_frags := fst (pushFrag p (se_frags ss'))\<rparr>) s1)"
      if "ss' = ss" for ss'
      using that server_inv_set_frags[OF s1] by simp
    then show ?thesis
      using True a Some handlePacket_inv
      by (auto simp: ingest_def Let_def split: prod.splits option.splits) (metis fst_conv)+
  qed
qed


lemma accept_conn_inv:
  assumes "server_inv s" and "sv_conns s c = None"
  shows "server_inv (accept_conn c s)"
proof -
  let ?s = "s\<lparr>sv_conns := (sv_conns s)(c \<mapsto> new_session)\<rparr>"
  have "conn_view ?s = (conn_view s)(c \<mapsto> ([], Map.empty))" "conn_view s c = None" "flags ?s = flags s"
    using assms(2) by (auto simp: conn_view_def new_session_def flags_def)
  then have "server_inv ?s"
    using table_inv_accept[of "sv_sessions s" "conn_view s" "flags s" c] assms(1)
    by (simp add: server_inv_def)
  then show ?thesis using assms(1) by (simp add: accept_conn_def)
qed

lemma conn_closed_views:
  assumes "sv_conns s c = Some ss" and "sv_sessions s (se_sim ss) = Some c"
  shows "sv_sessions (conn_closed c s) = (sv_sessions s)(se_sim ss := None)"
    and "conn_view (conn_closed c s) = (conn_view s)(c := None)"
    and "flags (conn_closed c s) k =
           (if k = se_sim ss then map_option (\<lambda>_. (False, False)) (flags s k) else flags s k)"
    and "sv_grants (conn_closed c s) = sv_grants (clearGrantsLocked (se_sim ss) s)"
    and "sv_stopped (conn_closed c s) = sv_stopped s"
  using assms
  by (auto simp: conn_closed_def Let_def conn_view_def flags_def upd_term_def clearGrantsLocked_def
      option.map_comp comp_def fun_eq_iff)

lemma conn_closed_inv:
  assumes inv: "server_inv s"
  shows "server_inv (conn_closed c s)"
proof (cases "sv_conns s c")
  case None
  then show ?thesis using inv by (simp add: conn_closed_def)
next
  case (Some ss)
  note inv' = inv[unfolded server_inv_def]
  show ?thesis
  proof (cases "sv_sessions s (se_sim ss) = Some c")
    case True
    note v = conn_closed_views[OF Some True]
    have "flags (conn_closed c s) (se_sim ss) = None
        \<or> flags (conn_closed c s) (se_sim ss) = Some (False, False)"
      by (cases "flags s (se_sim ss)") (simp_all add: v)
    then show ?thesis
      using table_inv_leave[OF inv' True, of "flags (conn_closed c s)"]
      by (simp add: server_inv_def v)
  next
    case False
    let ?s = "s\<lparr>sv_conns := (sv_conns s)(c := None)\<rparr>"
    have eq: "conn_closed c s = ?s" using Some False by (simp add: conn_closed_def Let_def)
    have none: "sv_sessions s k \<noteq> Some c" for k
      using table_invD2[OF inv', of k c] Some False by (auto simp: conn_view_def)
    have "conn_view ?s = (conn_view s)(c := None)" "flags ?s = flags s"
      by (auto simp: conn_view_def flags_def)
    then show ?thesis
      using table_inv_drop[OF inv' none] by (simp add: server_inv_def eq)
  qed
qed

lemma stop_server_views [views]:
  "sv_sessions (stop_server s) = sv_sessions s" "conn_view (stop_server s) = conn_view s"
  "flags (stop_server s) = flags s" "sv_grants (stop_server s) = sv_grants s"
  "sv_stopped (stop_server s)"
  by (simp_all add: stop_server_def conn_view_def flags_def option.map_comp comp_def fun_eq_iff)

lemma silent_sendWait_begin: "silent s (fst (sendWait_begin wr key m b r s))"
  by (auto simp: sendWait_begin_def Let_def intro: silent_upd_conn split: option.splits res.splits)

lemma grant_change_views [views]:
  "sv_sessions (restoreGrant k n p s) = sv_sessions s" "conn_view (restoreGrant k n p s) = conn_view s"
  "flags (restoreGrant k n p s) = flags s" "sv_sessions (revoke k n s) = sv_sessions s"
  "conn_view (revoke k n s) = conn_view s" "flags (revoke k n s) = flags s"
  "sv_sessions (fst (grant k n s)) = sv_sessions s" "conn_view (fst (grant k n s)) = conn_view s"
  "flags (fst (grant k n s)) = flags s"
  by (simp_all add: restoreGrant_def revoke_def grant_def conn_view_def flags_def fun_eq_iff
      split: prod.splits)


section \<open>The server as a machine\<close>

text \<open>
  Everything that changes the state, as one step per critical section: the goroutines of the
  connections and of the commands interleave in any order.  A fresh connection has a new
  number.
\<close>

datatype jt_event =
    Accept nat
  | PacketIn int bool nat packet
  | Ended nat
  | StopServer
  | Issue bool string "16 word" "byte list" "16 word"
  | GiveUp nat "16 word"
  | Granted string string
  | Restored string string int
  | Revoked string string

definition give_up :: "nat \<Rightarrow> 16 word \<Rightarrow> server \<Rightarrow> server" where
  "give_up c seq s = upd_conn c (\<lambda>ss. ss\<lparr>se_pending := filter (\<lambda>(q, _). q \<noteq> seq) (se_pending ss)\<rparr>) s"

fun jt_step :: "jt_config \<Rightarrow> jt_event \<Rightarrow> server \<Rightarrow> server \<times> out list" where
  "jt_step cfg (Accept c) s = (accept_conn c s, [])"
| "jt_step cfg (PacketIn now wr c p) s = ingest cfg now wr c p s"
| "jt_step cfg (Ended c) s = (conn_closed c s, [])"
| "jt_step cfg StopServer s = (stop_server s, [])"
| "jt_step cfg (Issue wr key mid body r) s =
     (case sendWait_begin wr key mid body r s of (s, out, _) \<Rightarrow> (s, out))"
| "jt_step cfg (GiveUp c seq) s = (give_up c seq s, [])"
| "jt_step cfg (Granted kind name) s = (fst (grant kind name s), [])"
| "jt_step cfg (Restored kind name n) s = (restoreGrant kind name n s, [])"
| "jt_step cfg (Revoked kind name) s = (revoke kind name s, [])"

definition fresh_event :: "jt_event \<Rightarrow> server \<Rightarrow> bool" where
  "fresh_event e s = (case e of Accept c \<Rightarrow> sv_conns s c = None | _ \<Rightarrow> True)"

lemma silent_give_up: "silent s (give_up c q s)"
  by (simp add: give_up_def silent_upd_conn)

lemma silent_Issue: "silent s (fst (jt_step cfg (Issue wr key mid body r) s))"
  using silent_sendWait_begin[of s wr key mid body r] by (auto split: prod.splits)

lemma jt_step_inv:
  assumes "server_inv s" and "fresh_event e s"
  shows "server_inv (fst (jt_step cfg e s))"
proof (cases e)
  case (Accept c)
  then show ?thesis using assms by (simp add: accept_conn_inv fresh_event_def)
next
  case (PacketIn now wr c p)
  then show ?thesis using assms by (simp add: ingest_inv)
next
  case (Ended c)
  then show ?thesis using assms by (simp add: conn_closed_inv)
next
  case StopServer
  then show ?thesis using assms by (simp add: server_inv_def views)
next
  case (Issue wr key mid body r)
  then show ?thesis using server_inv_silent[OF assms(1) silent_Issue] by simp
next
  case (GiveUp c seq)
  then show ?thesis using server_inv_silent[OF assms(1) silent_give_up] by simp
next
  case (Granted kind name)
  then show ?thesis using assms by (simp add: server_inv_def views)
next
  case (Restored kind name n)
  then show ?thesis using assms by (simp add: server_inv_def views)
next
  case (Revoked kind name)
  then show ?thesis using assms by (simp add: server_inv_def views)
qed

interpretation jt_machine: inv_machine "\<lambda>e s. fst (jt_step cfg e s)" fresh_event server_inv for cfg
  by unfold_locales (rule jt_step_inv)

text \<open>A run of the server from its start.\<close>

definition jt_run :: "jt_config \<Rightarrow> jt_event list \<Rightarrow> server" where
  "jt_run cfg es = fold (\<lambda>e s. fst (jt_step cfg e s)) es server_init"

fun fresh_run :: "jt_config \<Rightarrow> jt_event list \<Rightarrow> server \<Rightarrow> bool" where
  "fresh_run cfg [] s = True"
| "fresh_run cfg (e # es) s = (fresh_event e s \<and> fresh_run cfg es (fst (jt_step cfg e s)))"

lemma fresh_run_good: "fresh_run cfg es s \<Longrightarrow> jt_machine.good_run cfg es s"
  by (induction es arbitrary: s) simp_all

lemma jt_run_inv: "fresh_run cfg es server_init \<Longrightarrow> server_inv (jt_run cfg es)"
  unfolding jt_run_def by (rule jt_machine.run_inv[OF server_inv_init fresh_run_good])

lemma server_inv_unique:
  assumes "server_inv s" and "sv_conns s c = Some ss" and "se_sim ss \<noteq> []"
  shows "sv_sessions s (se_sim ss) = Some c"
  using table_invD4[OF assms(1)[unfolded server_inv_def], of c "se_sim ss" "se_frags ss"] assms
  by (simp add: conn_view_def)

lemma server_inv_session:
  assumes "server_inv s" and "sv_sessions s sim = Some c"
  shows "\<exists>ss. sv_conns s c = Some ss \<and> se_sim ss = sim"
  using table_invD2[OF assms(1)[unfolded server_inv_def] assms(2)] by (auto simp: conn_view_def)

lemma server_inv_active:
  assumes "server_inv s" and "term_active sim s"
  shows "\<exists>c ss. sv_sessions s sim = Some c \<and> sv_conns s c = Some ss \<and> se_sim ss = sim"
proof -
  obtain t where "sv_terms s sim = Some t" "tm_online t" "tm_auth t"
    using assms(2) by (auto simp: term_active_def split: option.splits)
  then have "flags s sim = Some (True, True)" by (simp add: flags_def)
  then have "sv_sessions s sim \<noteq> None"
    using table_invD5[OF assms(1)[unfolded server_inv_def]] by blast
  then show ?thesis using server_inv_session[OF assms(1)] by blast
qed

text \<open>Grants and the authenticated flag only appear by the operations meant to make them.\<close>

lemma handlePacket_auth:
  assumes inv: "server_inv s" and "handlePacket cfg now wr c p s = (s', out)"
  shows "(auth_on k s' \<longrightarrow> auth_on k s \<or> pk_id p = cmdAuth \<and> pk_sim p = k
            \<and> (\<exists>a. credential p = Some a \<and> ConstantTimeEqual a (jc_auth_code cfg)) \<and> (\<exists>f. Sent c f \<in> set out))
         \<and> (sv_grants s' g \<noteq> None \<longrightarrow> sv_grants s g \<noteq> None)"
proof -
  obtain s1 o1 go where cl: "claim_sim now c p s = (s1, o1, go)" by (metis prod_cases3)
  note c1 = claim_sim_inv[OF inv cl, of k]
  show ?thesis
  proof (cases go)
    case False
    then show ?thesis using assms(2) cl c1 by (auto simp: handlePacket_def)
  next
    case True
    let ?s2 = "upd_term (pk_sim p) (\<lambda>t. t\<lparr>tm_seen := now\<rparr>) s1"
    have q: "silent s1 ?s2" by (rule silent_upd_term) simp
    have q1: "auth_on k ?s2 = auth_on k s1" "sv_grants ?s2 = sv_grants s"
      using q c1 by (simp_all add: silent_def auth_on_def)
    obtain o2 where d: "dispatch cfg now wr c p ?s2 = (s', o2)" and out: "out = o1 @ o2"
      using assms(2) cl True by (auto simp: handlePacket_def Let_def split: prod.splits)
    from dispatch_quiet_raw[OF d] show ?thesis
    proof (elim disjE conjE)
      assume "silent ?s2 s'"
      then show ?thesis using q1 c1 by (simp add: silent_def auth_on_def)
    next
      assume l: "quiet (pk_sim p) ?s2 s'" "flags s' (pk_sim p) \<in> {None, Some (False, False)}"
        "sv_grants s' = sv_grants ?s2"
      then have "auth_on k s' \<Longrightarrow> auth_on k ?s2"
        by (cases "k = pk_sim p") (auto simp: quiet_def auth_on_def)
      then show ?thesis using q1 c1 l by auto
    next
      assume a: "pk_id p = cmdAuth" "handle_auth cfg wr c p ?s2 = (s', o2)"
      from a(2) show ?thesis
      proof (cases rule: handle_auth_cases)
        case rest
        then show ?thesis using q1 c1 by (simp add: silent_def auth_on_def)
      next
        case (accept a)
        then show ?thesis using q1 c1 a out
          by (cases "k = pk_sim p") (auto simp: quiet_def auth_on_def)
      next
        case (reject a)
        then have "auth_on k s' \<Longrightarrow> auth_on k ?s2"
          by (cases "k = pk_sim p") (auto simp: quiet_def auth_on_def)
        moreover have "sv_grants s' g \<noteq> None \<Longrightarrow> sv_grants s g \<noteq> None"
          using reject(5) q1(2) by (simp add: clearGrantsLocked_def split: if_splits)
        ultimately show ?thesis using q1 c1 by auto
      qed
    qed
  qed
qed


text \<open>The packet that \<open>ingest\<close> hands to \<open>handlePacket\<close>: the one received, or a reassembled one.\<close>

definition handled :: "server \<Rightarrow> nat \<Rightarrow> packet \<Rightarrow> packet option" where
  "handled s c p =
     (if pk_total p > 1
      then (case sv_conns s c of None \<Rightarrow> None | Some ss \<Rightarrow> snd (pushFrag p (se_frags ss)))
      else Some p)"

lemma ingest_auth:
  assumes inv: "server_inv s" and step: "ingest cfg now wr c p s = (s', out)"
  shows "(auth_on k s' \<longrightarrow> auth_on k s \<or> (\<exists>q. handled s c p = Some q \<and> pk_id q = cmdAuth \<and> pk_sim q = k
            \<and> (\<exists>a. credential q = Some a \<and> ConstantTimeEqual a (jc_auth_code cfg)) \<and> (\<exists>f. Sent c f \<in> set out)))
         \<and> (sv_grants s' g \<noteq> None \<longrightarrow> sv_grants s g \<noteq> None)"
proof (cases "pk_total p > 1")
  case False
  then show ?thesis
    using handlePacket_auth[OF inv, of cfg now wr c p s' out k g] step by (simp add: ingest_def handled_def)
next
  case True
  obtain s1 o1 where a: "send_ack wr c p s = (s1, o1)" by fastforce
  have sil: "silent s s1" using silent_send_ack[of s wr c p] a by simp
  have s1: "auth_on k s1 = auth_on k s" "sv_grants s1 = sv_grants s"
    using sil by (simp_all add: silent_def auth_on_def)
  have i1: "server_inv s1" using server_inv_silent[OF inv sil] .
  have cv: "conn_view s1 c = conn_view s c" using sil by (simp add: silent_def)
  show ?thesis
  proof (cases "sv_conns s1 c")
    case None
    then show ?thesis using True a s1 step by (simp add: ingest_def)
  next
    case (Some ss)
    then obtain ss0 where ss0: "sv_conns s c = Some ss0" "se_frags ss0 = se_frags ss"
      using cv by (cases "sv_conns s c") (auto simp: conn_view_def)
    have "frags_inv (se_frags ss)"
      using table_invD3[OF i1[unfolded server_inv_def], of c "se_sim ss"] Some by (simp add: conn_view_def)
    then have fi: "frags_inv (fst (pushFrag p (se_frags ss)))" by (rule pushFrag_inv)
    obtain fs w where pf: "pushFrag p (se_frags ss) = (fs, w)" by fastforce
    let ?s2 = "upd_conn c (\<lambda>ss. ss\<lparr>se_frags := fs\<rparr>) s1"
    have i2: "server_inv ?s2" using server_inv_set_frags[OF i1] fi pf by simp
    have s2: "auth_on k ?s2 = auth_on k s" "sv_grants ?s2 = sv_grants s"
      using s1 by (simp_all add: views auth_on_def)
    show ?thesis
    proof (cases w)
      case None
      then show ?thesis using step True a Some pf s2 by (simp add: ingest_def)
    next
      case w: (Some q)
      obtain o2 where h: "handlePacket cfg now wr c q ?s2 = (s', o2)" and out: "out = o1 @ o2"
        using step True a Some pf w by (auto simp: ingest_def split: prod.splits)
      have "handled s c p = Some q" using True ss0 pf w by (simp add: handled_def)
      then show ?thesis
        using handlePacket_auth[OF i2 h, of k g] s2 out by auto
    qed
  qed
qed

lemma jt_step_auth:
  assumes "server_inv s" and "jt_step cfg e s = (s', out)" and "auth_on k s'" and "\<not> auth_on k s"
  shows "\<exists>now wr c p q. e = PacketIn now wr c p \<and> handled s c p = Some q \<and> pk_id q = cmdAuth \<and> pk_sim q = k
    \<and> credential q = Some (jc_auth_code cfg) \<and> (\<exists>f. Sent c f \<in> set out)"
proof (cases e)
  case (PacketIn now wr c p)
  then have "ingest cfg now wr c p s = (s', out)" using assms(2) by simp
  from ingest_auth[OF assms(1) this, of k "[]"] show ?thesis
    using assms(3,4) PacketIn by (auto simp: ConstantTimeEqual_def)
next
  case (Accept c)
  then show ?thesis using assms by (auto simp: accept_conn_def auth_on_def flags_def split: if_splits)
next
  case (Ended c)
  then show ?thesis
    using assms by (auto simp: conn_closed_def Let_def auth_on_def flags_def views flags_upd_term upd_term_def
        split: option.splits if_splits)
next
  case StopServer
  then show ?thesis using assms by (auto simp: auth_on_def views)
next
  case (Issue wr key mid body r)
  then show ?thesis using assms silent_Issue[of s cfg wr key mid body r] by (simp add: silent_def auth_on_def)
next
  case (GiveUp c seq)
  then show ?thesis using assms silent_give_up[of s c seq] by (auto simp: silent_def auth_on_def)
next
  case (Granted kind name)
  then show ?thesis using assms by (auto simp: auth_on_def views)
next
  case (Restored kind name n)
  then show ?thesis using assms by (auto simp: auth_on_def views)
next
  case (Revoked kind name)
  then show ?thesis using assms by (auto simp: auth_on_def views)
qed

text \<open>A stream without a grant gets one only by \<open>grant\<close>, or back by \<open>restoreGrant\<close>.\<close>

lemma jt_step_grants:
  assumes "server_inv s" and "jt_step cfg e s = (s', out)" and "sv_grants s g = None" and "sv_grants s' g \<noteq> None"
  shows "(\<exists>kind name. e = Granted kind name \<and> g = kind @ name)
    \<or> (\<exists>kind name n. e = Restored kind name n \<and> g = kind @ name \<and> n > 0)"
proof (cases e)
  case (PacketIn now wr c p)
  then have "ingest cfg now wr c p s = (s', out)" using assms(2) by simp
  from ingest_auth[OF assms(1) this] show ?thesis using assms(3,4) by blast
next
  case (Accept c)
  then show ?thesis using assms by (auto simp: accept_conn_def split: if_splits)
next
  case (Ended c)
  then show ?thesis
    using assms by (auto simp: conn_closed_def Let_def views clearGrantsLocked_def split: option.splits if_splits)
next
  case StopServer
  then show ?thesis using assms by (auto simp: views)
next
  case (Issue wr key mid body r)
  then show ?thesis using assms silent_Issue[of s cfg wr key mid body r] by (simp add: silent_def)
next
  case (GiveUp c seq)
  then show ?thesis using assms silent_give_up[of s c seq] by (auto simp: silent_def)
next
  case (Granted kind name)
  then show ?thesis using assms by (auto simp: grant_def split: if_splits)
next
  case (Restored kind name n)
  then show ?thesis using assms by (auto simp: restoreGrant_def split: prod.splits if_splits)
next
  case (Revoked kind name)
  then show ?thesis using assms by (auto simp: revoke_def split: if_splits)
qed

lemma cleared_denies:
  assumes "sv_grants s' = sv_grants (clearGrantsLocked sim s)" and "has_prefix name (sim @ ''_'')"
  shows "\<not> AllowStream name s'"
proof -
  obtain t where "name = sim @ ''_'' @ t" using assms(2) by (auto simp: has_prefix_iff)
  then have "has_prefix (grantLive @ name) (grantLive @ sim @ ''_'')"
    "has_prefix (grantPB @ name) (grantPB @ sim @ ''_'')"
    by (simp_all add: has_prefix_iff)
  then show ?thesis
    using assms(1) by (simp add: AllowStream_def grant_of_def clearGrantsLocked_def split: prod.splits)
qed


lemma jt_run_append:
  "jt_run cfg (es @ fs) = fold (\<lambda>e s. fst (jt_step cfg e s)) fs (jt_run cfg es)"
  by (simp add: jt_run_def)

lemma fresh_run_append:
  "fresh_run cfg (es @ fs) s \<longleftrightarrow>
   fresh_run cfg es s \<and> fresh_run cfg fs (fold (\<lambda>e s. fst (jt_step cfg e s)) es s)"
  by (induction es arbitrary: s) simp_all

text \<open>An event that may create the grant \<open>g\<close>.\<close>

definition grants_key :: "string \<Rightarrow> jt_event \<Rightarrow> bool" where
  "grants_key g e = (case e of
      Granted kind name \<Rightarrow> kind @ name = g
    | Restored kind name n \<Rightarrow> kind @ name = g
    | _ \<Rightarrow> False)"

lemma run_keeps_denied:
  assumes "server_inv s" and "fresh_run cfg es s" and "sv_grants s g = None"
    and "list_all (\<lambda>e. \<not> grants_key g e) es"
  shows "sv_grants (fold (\<lambda>e s. fst (jt_step cfg e s)) es s) g = None"
  using assms
proof (induction es arbitrary: s)
  case (Cons e es)
  obtain s' out where st: "jt_step cfg e s = (s', out)" by fastforce
  have inv: "server_inv s'" using jt_step_inv[of s e cfg] Cons.prems st by simp
  have "\<not> grants_key g e" using Cons.prems(4) by simp
  then have "sv_grants s' g = None"
    using jt_step_grants[OF Cons.prems(1) st Cons.prems(3)] by (cases "sv_grants s' g") (auto simp: grants_key_def)
  then show ?case using Cons.IH[OF inv] Cons.prems st by simp
qed simp

lemma no_grants_denies:
  "sv_grants s (grantLive @ name) = None \<Longrightarrow> sv_grants s (grantPB @ name) = None \<Longrightarrow> \<not> AllowStream name s"
  by (simp add: AllowStream_def grant_of_def split: prod.splits)

lemma conn_closed_grants:
  assumes "server_inv s" and "sv_sessions s sim = Some c"
  shows "sv_grants (conn_closed c s) = sv_grants (clearGrantsLocked sim s)"
proof -
  obtain ss where "sv_conns s c = Some ss" "se_sim ss = sim"
    using server_inv_session[OF assms] by blast
  then show ?thesis using conn_closed_views(4)[of s c ss] assms(2) by simp
qed

lemma clear_grants_none:
  "has_prefix name (sim @ ''_'') \<Longrightarrow> sv_grants (clearGrantsLocked sim s) (grantLive @ name) = None"
  "has_prefix name (sim @ ''_'') \<Longrightarrow> sv_grants (clearGrantsLocked sim s) (grantPB @ name) = None"
  by (auto simp: clearGrantsLocked_def has_prefix_iff)


section \<open>A concrete run\<close>

definition demo_cfg :: jt_config where
  "demo_cfg = \<lparr>jc_auth_code = ''k1'', jc_media_ip = ''10.0.0.1'', jc_tcp_port = 1078, jc_udp_port = 1078,
     jc_transport = ''tcp'', jc_plate = string_of_bytes\<rparr>"

definition demo_packet :: "16 word \<Rightarrow> byte list \<Rightarrow> packet" where
  "demo_packet mid body = \<lparr>pk_id = mid, pk_sim = ''5'', pk_seq = 1, pk_body = body,
     pk_version = 0, pk_total = 0, pk_index = 0, pk_noAck = False\<rparr>"

definition demo_auth :: jt_event where
  "demo_auth = PacketIn 10 True 1 (demo_packet cmdAuth [107, 49])"

text \<open>A terminal connects, authenticates and is asked to play.\<close>

definition demo_run :: "jt_event list" where
  "demo_run = [Accept 1, demo_auth, Granted grantLive ''5_1'']"

lemma demo_fresh: "fresh_run demo_cfg demo_run server_init"
  by code_simp

lemma demo_conn:
  "sv_conns (jt_run demo_cfg demo_run) 1 = Some (the (sv_conns (jt_run demo_cfg demo_run) 1))"
  "se_sim (the (sv_conns (jt_run demo_cfg demo_run) 1)) = ''5''"
proof -
  have "\<not> Option.is_none (sv_conns (jt_run demo_cfg demo_run) 1)" by code_simp
  then show "sv_conns (jt_run demo_cfg demo_run) 1 = Some (the (sv_conns (jt_run demo_cfg demo_run) 1))"
    by (cases "sv_conns (jt_run demo_cfg demo_run) 1") simp_all
  show "se_sim (the (sv_conns (jt_run demo_cfg demo_run) 1)) = ''5''" by code_simp
qed

lemma demo_allow: "AllowStream ''5_1'' (jt_run demo_cfg demo_run)"
  by code_simp

section \<open>Properties\<close>

text \<open>C4: a SIM belongs to at most one live connection, whatever the events before: two
  connections that claimed the same SIM are the same connection, and the session table points to
  it.\<close>

theorem jt_one_connection_per_sim:
  assumes "fresh_run cfg es server_init"
    and "sv_conns (jt_run cfg es) c = Some a" and "sv_conns (jt_run cfg es) d = Some b"
    and "se_sim a = se_sim b" and "se_sim a \<noteq> []"
  shows "c = d \<and> sv_sessions (jt_run cfg es) (se_sim a) = Some c"
  using server_inv_unique[OF jt_run_inv[OF assms(1)] assms(2)]
    server_inv_unique[OF jt_run_inv[OF assms(1)] assms(3)] assms(4,5) by simp

theorem jt_one_connection_witness:
  "sv_sessions (jt_run demo_cfg demo_run) ''5'' = Some 1"
  using jt_one_connection_per_sim[OF demo_fresh demo_conn(1) demo_conn(1)] demo_conn(2) by simp

text \<open>C3: a stream is admitted only for an authenticated terminal that still has its
  connection, and only under a grant for that very stream name.\<close>

theorem jt_allow_needs_live_session:
  assumes "fresh_run cfg es server_init" and "AllowStream name (jt_run cfg es)"
  shows "\<exists>sim rest c ss. name = sim @ CHR ''_'' # rest \<and> term_active sim (jt_run cfg es)
    \<and> sv_sessions (jt_run cfg es) sim = Some c \<and> sv_conns (jt_run cfg es) c = Some ss \<and> se_sim ss = sim
    \<and> (0 < grant_of (grantLive @ name) (jt_run cfg es) \<or> 0 < grant_of (grantPB @ name) (jt_run cfg es))"
proof -
  obtain sim rest f where "cut (CHR ''_'') name = (sim, rest, f)" by (metis prod_cases3)
  then have "name = sim @ CHR ''_'' # rest" "term_active sim (jt_run cfg es)"
    "0 < grant_of (grantLive @ name) (jt_run cfg es) \<or> 0 < grant_of (grantPB @ name) (jt_run cfg es)"
    using assms(2) cut_parts[of "CHR ''_''" name sim rest f] by (auto simp: AllowStream_def split: if_splits)
  then show ?thesis using server_inv_active[OF jt_run_inv[OF assms(1)]] by blast
qed

theorem jt_allow_witness:
  "\<exists>sim c. sv_sessions (jt_run demo_cfg demo_run) sim = Some c"
  using jt_allow_needs_live_session[OF demo_fresh demo_allow] by blast

text \<open>C2: a terminal becomes authenticated only by an authentication packet of its own
  connection that carries the configured code and was acknowledged on the wire.\<close>

theorem jt_authenticated_only_by_code:
  assumes "fresh_run cfg es server_init" and "jt_step cfg e (jt_run cfg es) = (s', out)"
    and "auth_on k s'" and "\<not> auth_on k (jt_run cfg es)"
  shows "\<exists>now wr c p q. e = PacketIn now wr c p \<and> handled (jt_run cfg es) c p = Some q
    \<and> pk_id q = cmdAuth \<and> pk_sim q = k \<and> credential q = Some (jc_auth_code cfg) \<and> (\<exists>f. Sent c f \<in> set out)"
  by (rule jt_step_auth[OF jt_run_inv[OF assms(1)] assms(2,3,4)])

theorem jt_authenticated_witness:
  "\<exists>now wr c p q. demo_auth = PacketIn now wr c p \<and> handled (jt_run demo_cfg [Accept 1]) c p = Some q
    \<and> credential q = Some ''k1''"
proof -
  have code: "jc_auth_code demo_cfg = ''k1''" by (simp add: demo_cfg_def)
  have f: "fresh_run demo_cfg [Accept 1] server_init" by code_simp
  have "(case flags (fst (jt_step demo_cfg demo_auth (jt_run demo_cfg [Accept 1]))) ''5'' of
      Some (on, au) \<Rightarrow> au | None \<Rightarrow> False)" by code_simp
  then have a: "auth_on ''5'' (fst (jt_step demo_cfg demo_auth (jt_run demo_cfg [Accept 1])))"
    by (auto simp: auth_on_def split: option.splits)
  have "flags (jt_run demo_cfg [Accept 1]) ''5'' = None" by code_simp
  then have n: "\<not> auth_on ''5'' (jt_run demo_cfg [Accept 1])" by (simp add: auth_on_def)
  show ?thesis
    using jt_authenticated_only_by_code[OF f surjective_pairing a n] code by metis
qed



text \<open>an authentication packet with a wrong code, once answered, closes every stream of
  the terminal.\<close>

theorem jt_bad_code_revokes:
  assumes "credential p = Some a" and "\<not> ConstantTimeEqual a (jc_auth_code cfg)"
    and "handle_auth cfg wr c p s = (s', out)" and "out \<noteq> []" and "sv_terms s (pk_sim p) \<noteq> None"
    and "has_prefix name (pk_sim p @ ''_'')"
  shows "\<not> AllowStream name s' \<and> \<not> auth_on (pk_sim p) s'"
proof -
  obtain s1 o1 sent where w: "writeReply wr c cmdGeneralAck (ackBody (pk_seq p) (pk_id p) 1) s = (s1, o1, sent)"
    by (metis prod_cases3)
  then have t: "sv_terms s1 = sv_terms s" "o1 \<noteq> [] \<Longrightarrow> sent"
    by (auto simp: writeReply_def Let_def views split: option.splits res.splits if_splits)
  let ?s2 = "upd_term (pk_sim p) (\<lambda>t. t\<lparr>tm_auth := False\<rparr>) s1"
  have eq: "s' = clearGrantsLocked (pk_sim p) ?s2"
    using assms(1-5) w t by (auto simp: handle_auth_def Let_def split: if_splits)
  then show ?thesis
    using cleared_denies[of s' "pk_sim p" ?s2 name] assms(6) by (simp add: auth_on_def views flags_upd_term)
qed

theorem jt_bad_code_witness:
  "\<not> AllowStream ''5_1'' (fst (handle_auth demo_cfg True 1 (demo_packet cmdAuth [107]) (jt_run demo_cfg demo_run)))"
proof -
  have t: "sv_terms (jt_run demo_cfg demo_run) ''5'' \<noteq> None"
    using demo_allow
    by (auto simp: AllowStream_def term_active_def split: prod.splits if_splits option.splits)
  have sent: "snd (handle_auth demo_cfg True 1 (demo_packet cmdAuth [107]) (jt_run demo_cfg demo_run)) \<noteq> []"
    by code_simp
  have cred: "credential (demo_packet cmdAuth [107]) = Some ''k''" by code_simp
  have bad: "\<not> ConstantTimeEqual ''k'' (jc_auth_code demo_cfg)" by code_simp
  have sim: "pk_sim (demo_packet cmdAuth [107]) = ''5''" by (simp add: demo_packet_def)
  show ?thesis
    using jt_bad_code_revokes[OF cred bad surjective_pairing sent, of "''5_1''"] t
    by (simp add: sim has_prefix_def)
qed




end
