(* ===== verification/Jt808_Commands.thy ===== *)
theory Jt808_Commands
  imports Jt808_Server
begin

text \<open>
  The JT/T 1078 commands of \<open>internal/jt808/commands.go\<close>: for each the checks on its input, the
  message it sends (id, body, expected reply), and what it does with the reply; and the parsers
  of the two replies with a body.  A \<open>time.Time\<close> is an instant with its calendar fields in
  its own time zone.
\<close>

section \<open>Times\<close>

record civil =
  cv_year :: nat
  cv_month :: nat
  cv_day :: nat
  cv_hour :: nat
  cv_min :: nat
  cv_sec :: nat

record gotime =
  gt_ns :: int
  gt_civil :: civil

definition IsZero :: "gotime \<Rightarrow> bool" where "IsZero t \<longleftrightarrow> gt_ns t = 0"
definition After :: "gotime \<Rightarrow> gotime \<Rightarrow> bool" where "After t u \<longleftrightarrow> gt_ns t > gt_ns u"

definition two_digits :: "nat \<Rightarrow> string" where
  "two_digits n = [char_of (48 + n div 10 mod 10), char_of (48 + n mod 10)]"

definition digit_num :: "char \<Rightarrow> nat" where "digit_num c = of_char c - 48"

text \<open>The layout \<open>060102150405\<close>, for printing and for parsing.\<close>

definition format_compact :: "civil \<Rightarrow> string" where
  "format_compact c = two_digits (cv_year c) @ two_digits (cv_month c) @ two_digits (cv_day c)
     @ two_digits (cv_hour c) @ two_digits (cv_min c) @ two_digits (cv_sec c)"

definition leap_year :: "nat \<Rightarrow> bool" where
  "leap_year y \<longleftrightarrow> y mod 4 = 0 \<and> (y mod 100 \<noteq> 0 \<or> y mod 400 = 0)"

definition days_in :: "nat \<Rightarrow> nat \<Rightarrow> nat" where
  "days_in y m = (if m = 2 then (if leap_year y then 29 else 28)
     else if m = 4 \<or> m = 6 \<or> m = 9 \<or> m = 11 then 30 else 31)"

definition civil_ok :: "civil \<Rightarrow> bool" where
  "civil_ok c \<longleftrightarrow> 1 \<le> cv_month c \<and> cv_month c \<le> 12 \<and> 1 \<le> cv_day c
     \<and> cv_day c \<le> days_in (cv_year c) (cv_month c) \<and> cv_hour c < 24 \<and> cv_min c < 60 \<and> cv_sec c < 60"

fun parse_compact :: "string \<Rightarrow> civil option" where
  "parse_compact [a, b, c, d, e, f, g, h, i, j, k, l] =
     (let n = (\<lambda>x y. 10 * digit_num x + digit_num y); yy = n a b;
          t = \<lparr>cv_year = (if yy \<ge> 69 then 1900 + yy else 2000 + yy), cv_month = n c d, cv_day = n e f,
               cv_hour = n g h, cv_min = n i j, cv_sec = n k l\<rparr>
      in if civil_ok t then Some t else None)"
| "parse_compact _ = None"

definition bcdTime :: "gotime \<Rightarrow> byte list" where
  "bcdTime t = bcd_pack (format_compact (gt_civil t))"

datatype parse_error = ShortBCD | InvalidBCDTime | TimeRange | ShortAV | ShortList | TruncatedList | ListTooLarge

definition parseBCDTime :: "byte list \<Rightarrow> (parse_error, civil) res" where
  "parseBCDTime b =
     (if length b < 6 then Err ShortBCD
      else (case bcd_digits (take 6 b) of
              Ok s \<Rightarrow> (case parse_compact s of None \<Rightarrow> Err TimeRange | Some c \<Rightarrow> Ok c)
            | _ \<Rightarrow> Err InvalidBCDTime))"

section \<open>Replies with a body\<close>

record av_properties =
  av_codec :: byte
  av_channels :: byte
  av_sample_rate :: byte
  av_sample_bits :: byte
  av_frame_len :: nat
  av_output :: byte
  av_video :: byte
  av_max_audio :: byte
  av_max_video :: byte

definition parseAV :: "byte list \<Rightarrow> (parse_error, av_properties) res" where
  "parseAV body =
     bind (require (length body = 10) ShortAV) (\<lambda>_.
     bind (index_at body 0) (\<lambda>b0. bind (index_at body 1) (\<lambda>b1.
     bind (index_at body 2) (\<lambda>b2. bind (index_at body 3) (\<lambda>b3.
     bind (be_at 2 body 4) (\<lambda>n :: 16 word.
     bind (index_at body 6) (\<lambda>b6. bind (index_at body 7) (\<lambda>b7.
     bind (index_at body 8) (\<lambda>b8. bind (index_at body 9) (\<lambda>b9.
     Ok \<lparr>av_codec = b0, av_channels = b1, av_sample_rate = b2, av_sample_bits = b3,
         av_frame_len = unat n, av_output = b6, av_video = b7, av_max_audio = b8,
         av_max_video = b9\<rparr>))))))))))"

record resource =
  rs_channel :: byte
  rs_start :: civil
  rs_end :: civil
  rs_alarm :: "64 word"
  rs_avtype :: byte
  rs_stream :: byte
  rs_storage :: byte
  rs_size :: "32 word"

definition parse_item :: "byte list \<Rightarrow> (parse_error, resource) res" where
  "parse_item p =
     bind (bind (reslice p 1 7) parseBCDTime) (\<lambda>start.
     bind (bind (reslice p 7 13) parseBCDTime) (\<lambda>end_t.
     bind (index_at p 0) (\<lambda>ch.
     bind (be_at 8 p 13) (\<lambda>alarm.
     bind (index_at p 21) (\<lambda>av. bind (index_at p 22) (\<lambda>st. bind (index_at p 23) (\<lambda>mem.
     bind (be_at 4 p 24) (\<lambda>size.
     Ok \<lparr>rs_channel = ch, rs_start = start, rs_end = end_t, rs_alarm = alarm, rs_avtype = av,
         rs_stream = st, rs_storage = mem, rs_size = size\<rparr>))))))))"

fun parse_items :: "nat \<Rightarrow> byte list \<Rightarrow> (parse_error, resource list) res" where
  "parse_items 0 p = Ok []"
| "parse_items (Suc n) p =
     bind (parse_item p) (\<lambda>r.
     bind (reslice_from p 28) (\<lambda>p'.
     bind (parse_items n p') (\<lambda>rs. Ok (r # rs))))"

text \<open>\<open>count*item\<close> is a product of 32-bit words and may wrap.\<close>

definition parseResources :: "byte list \<Rightarrow> (parse_error, resource list) res" where
  "parseResources body =
     bind (require (\<not> length body < 6) ShortList) (\<lambda>_.
     bind (be_at 4 body 2) (\<lambda>count :: 32 word.
     bind (require (\<not> (of_nat (length body - 6) :: 32 word) < count * 28) TruncatedList) (\<lambda>_.
     bind (require (\<not> count > 10000) ListTooLarge) (\<lambda>_.
     bind (reslice_from body 6) (\<lambda>p. parse_items (unat count) p)))))"

section \<open>Facts about the parsers\<close>

lemma digit_num_char:
  assumes "k < 10"
  shows "digit_num (char_of (48 + k)) = k" and "is_digit (char_of (48 + k))"
proof -
  have "(of_char (char_of (48 + k)) :: nat) = (48 + k) mod 256" by (rule of_char_of)
  then have "(of_char (char_of (48 + k)) :: nat) = 48 + k" using assms by (subst (asm) mod_less) simp_all
  then show "digit_num (char_of (48 + k)) = k" and "is_digit (char_of (48 + k))"
    using assms by (simp_all add: digit_num_def is_digit_def del: of_char_of)
qed

lemma two_digits_back:
  assumes "n < 100"
  shows "10 * digit_num (char_of (48 + n div 10 mod 10)) + digit_num (char_of (48 + n mod 10)) = n"
proof -
  have "n div 10 mod 10 < 10" "n mod 10 < 10" by simp_all
  moreover have "n div 10 mod 10 = n div 10" using assms by (intro mod_less) (simp add: less_mult_imp_div_less)
  then have "10 * (n div 10 mod 10) + n mod 10 = n" by simp
  ultimately show ?thesis by (simp only: digit_num_char)
qed

lemma two_digits_mod: "two_digits (n mod 100) = two_digits n"
proof -
  have "n mod (10 * 10) = 10 * (n div 10 mod 10) + n mod 10" by (rule mod_mult2_eq)
  then have "n mod 100 div 10 = n div 10 mod 10" by simp
  then have "n mod 100 div 10 mod 10 = n div 10 mod 10" by simp
  moreover have "n mod 100 mod 10 = n mod 10" by (rule mod_mod_cancel) simp
  ultimately show ?thesis by (simp only: two_digits_def)
qed

lemma is_digit_two: "list_all is_digit (two_digits n)"
proof -
  have "n div 10 mod 10 < 10" "n mod 10 < 10" by simp_all
  then show ?thesis by (simp only: two_digits_def list.pred_inject digit_num_char simp_thms)
qed

definition short_year :: "civil \<Rightarrow> bool" where
  "short_year c \<longleftrightarrow> 1969 \<le> cv_year c \<and> cv_year c \<le> 2068"

lemma parse_format_compact:
  assumes "civil_ok c" and "short_year c"
  shows "parse_compact (format_compact c) = Some c"
proof -
  have y: "(if cv_year c mod 100 \<ge> 69 then 1900 + cv_year c mod 100 else 2000 + cv_year c mod 100) = cv_year c"
  proof (cases "cv_year c < 2000")
    case True
    then obtain k where k: "cv_year c = k + 19 * 100" "69 \<le> k" "k < 100"
      using assms(2) le_Suc_ex[of 1900 "cv_year c"] by (auto simp: short_year_def)
    then have "cv_year c mod 100 = k" by (simp only: mod_mult_self1) simp
    with k show ?thesis by simp
  next
    case False
    then obtain k where k: "cv_year c = k + 20 * 100" "k < 69"
      using assms(2) le_Suc_ex[of 2000 "cv_year c"] by (auto simp: short_year_def)
    then have "cv_year c mod 100 = k" by (simp only: mod_mult_self1) simp
    with k show ?thesis by simp
  qed
  have "days_in (cv_year c) (cv_month c) \<le> 31" by (simp add: days_in_def)
  then have small: "cv_month c < 100" "cv_day c < 100" "cv_hour c < 100" "cv_min c < 100" "cv_sec c < 100"
    using assms(1) by (auto simp: civil_ok_def)
  have "cv_year c mod 100 < 100" by simp
  note digs = small[THEN two_digits_back] this[THEN two_digits_back]
  have "parse_compact (two_digits (cv_year c mod 100) @ two_digits (cv_month c) @ two_digits (cv_day c)
     @ two_digits (cv_hour c) @ two_digits (cv_min c) @ two_digits (cv_sec c)) = Some c"
    unfolding two_digits_def append.simps parse_compact.simps Let_def digs y using assms(1) by (cases c) simp
  then show ?thesis by (simp add: format_compact_def two_digits_mod)
qed

lemma list_all_format: "list_all is_digit (format_compact c)"
  by (simp add: format_compact_def is_digit_two)

lemma length_format [simp]: "length (format_compact c) = 12"
  by (simp add: format_compact_def two_digits_def)

lemma bcd_time_roundtrip:
  "civil_ok c \<Longrightarrow> short_year c \<Longrightarrow> parseBCDTime (bcd_pack (format_compact c) @ rest) = Ok c"
  by (simp add: parseBCDTime_def bcd_digits_pack[OF list_all_format] parse_format_compact)

lemma parseBCDTime_not_Panic [simp]: "parseBCDTime b \<noteq> Panic"
  by (simp add: parseBCDTime_def split: res.splits option.splits)

lemma parse_item_total: "28 \<le> length p \<Longrightarrow> parse_item p \<noteq> Panic"
  by (cases p) (simp_all add: parse_item_def panic_simps)

lemma parse_items_total: "28 * n \<le> length p \<Longrightarrow> parse_items n p \<noteq> Panic"
proof (induction n arbitrary: p)
  case (Suc n)
  then have "28 \<le> length p" "28 * n \<le> length (drop 28 p)" by simp_all
  then show ?case
    using Suc.IH[of "drop 28 p"] parse_item_total[of p]
    by (auto simp: panic_simps reslice_from_def)
qed simp

lemma parse_items_length: "parse_items n p = Ok rs \<Longrightarrow> length rs = n"
  by (induction n arbitrary: p rs) (auto simp: go_simps)

text \<open>A count that passes both checks did not wrap: the items are in the body.\<close>

lemma count_fits:
  assumes "\<not> (of_nat n :: 32 word) < count * 28" and "\<not> count > 10000"
  shows "28 * unat count \<le> n"
proof -
  have c: "unat count \<le> 10000" using assms(2) by (simp add: word_less_nat_alt)
  then have "unat (count * 28) = 28 * unat count"
    by (simp add: unat_word_ariths mod_less)
  moreover have "unat (of_nat n :: 32 word) \<le> n" by (simp add: unsigned_of_nat)
  ultimately show ?thesis using assms(1) by (simp add: word_less_nat_alt)
qed

lemma parseResources_total: "parseResources body \<noteq> Panic"
proof -
  have "parse_items (unat count) (drop 6 body) \<noteq> Panic"
    if "\<not> (of_nat (length body - 6) :: 32 word) < count * 28" "\<not> count > 10000" for count
    using count_fits[OF that] by (intro parse_items_total) simp
  then show ?thesis
    by (auto simp: parseResources_def panic_simps reslice_from_def require_def split: if_splits)
qed

text \<open>The terminal's side of a resource list.\<close>

definition put_item :: "resource \<Rightarrow> byte list" where
  "put_item r = [rs_channel r] @ bcd_pack (format_compact (rs_start r)) @ bcd_pack (format_compact (rs_end r))
     @ be_bytes 8 (rs_alarm r) @ [rs_avtype r, rs_stream r, rs_storage r] @ be_bytes 4 (rs_size r)"

definition put_resources :: "16 word \<Rightarrow> resource list \<Rightarrow> byte list" where
  "put_resources seq rs = be_bytes 2 seq @ be_bytes 4 (of_nat (length rs) :: 32 word) @ concat (map put_item rs)"

definition resource_ok :: "resource \<Rightarrow> bool" where
  "resource_ok r \<longleftrightarrow> civil_ok (rs_start r) \<and> short_year (rs_start r) \<and> civil_ok (rs_end r) \<and> short_year (rs_end r)"

lemma length_put_item [simp]: "length (put_item r) = 28"
  by (simp add: put_item_def)

lemma parse_item_put:
  assumes "resource_ok r"
  shows "parse_item (put_item r @ rest) = Ok r"
proof -
  let ?s = "bcd_pack (format_compact (rs_start r))" and ?e = "bcd_pack (format_compact (rs_end r))"
  let ?p = "put_item r @ rest"
  have ls: "length ?s = 6" "length ?e = 6" by simp_all
  have s: "reslice ?p 1 7 = Ok ?s" "reslice ?p 7 13 = Ok ?e"
    by (simp_all add: reslice_def put_item_def ls)
  have t: "parseBCDTime ?s = Ok (rs_start r)" "parseBCDTime ?e = Ok (rs_end r)"
    using assms bcd_time_roundtrip[of _ "[]"] by (simp_all add: resource_ok_def)
  have a: "be_at 8 ?p 13 = Ok (rs_alarm r)" "be_at 4 ?p 24 = Ok (rs_size r)"
    by (simp_all add: be_at_def put_item_def ls)
  have b: "index_at ?p 0 = Ok (rs_channel r)" "index_at ?p 21 = Ok (rs_avtype r)"
    "index_at ?p 22 = Ok (rs_stream r)" "index_at ?p 23 = Ok (rs_storage r)"
    by (simp_all add: put_item_def nth_append ls)
  show ?thesis by (cases r) (use s t a b in \<open>simp add: parse_item_def\<close>)
qed

lemma parse_items_put:
  "\<forall>r \<in> set rs. resource_ok r \<Longrightarrow> parse_items (length rs) (concat (map put_item rs) @ rest) = Ok rs"
  by (induction rs) (simp_all add: parse_item_put reslice_from_def)

lemma parse_resources_put:
  assumes "\<forall>r \<in> set rs. resource_ok r" and "length rs \<le> 10000"
  shows "parseResources (put_resources seq rs) = Ok rs"
proof -
  let ?n = "of_nat (length rs) :: 32 word"
  have n: "unat ?n = length rs" using assms(2) by (intro unat_of_nat_32) simp
  have len: "length (concat (map put_item rs)) = 28 * length rs"
    by (induction rs) simp_all
  have c: "be_at 4 (put_resources seq rs) 2 = Ok ?n"
    by (simp add: be_at_def put_resources_def)
  have "of_nat (length (put_resources seq rs) - 6) = ?n * 28"
    by (simp add: put_resources_def len)
  moreover have "\<not> ?n > 10000" using assms(2) n by (simp add: word_less_nat_alt)
  moreover have "drop 6 (put_resources seq rs) = concat (map put_item rs) @ []"
    by (simp add: put_resources_def)
  ultimately show ?thesis
    using parse_items_put[OF assms(1), of "[]"] n c
    by (simp add: parseResources_def reslice_from_def) (simp add: put_resources_def)
qed

section \<open>Commands\<close>

text \<open>
  What a command sends, or the reason it is refused before anything is sent.  \<open>jc_reply\<close> is the
  message that answers it.
\<close>

record command =
  jm_key :: string
  jm_id :: "16 word"
  jm_body :: "byte list"
  jm_reply :: "16 word"

datatype bad_input = InvalidKey | InvalidControl | InvalidRate | InvalidPeriod | InvalidTransport
  | DragNeedsTime | NeedFTP | InvalidDirection | InvalidAction

definition command_of :: "string \<Rightarrow> 16 word \<Rightarrow> byte list \<Rightarrow> command" where
  "command_of key mid body = \<lparr>jm_key = key, jm_id = mid, jm_body = body, jm_reply = cmdGeneralReply\<rparr>"

definition LiveControl :: "string \<Rightarrow> byte \<Rightarrow> byte \<Rightarrow> byte \<Rightarrow> byte \<Rightarrow> (bad_input, command) res" where
  "LiveControl key channel control closeAV stream =
     bind (require (validSIM key) InvalidKey) (\<lambda>_.
     bind (require (\<not> (control > 4 \<or> closeAV > 2 \<or> stream > 1)) InvalidControl) (\<lambda>_.
     Ok (command_of key 0x9102 [channel_or_1 channel, control, closeAV, stream])))"

text \<open>After the reply; \<open>result\<close> is \<open>None\<close> when the wait failed.\<close>

definition LiveControl_reply :: "string \<Rightarrow> byte \<Rightarrow> byte \<Rightarrow> byte \<Rightarrow> byte option \<Rightarrow> server \<Rightarrow> server \<times> bool" where
  "LiveControl_reply key channel control closeAV result s =
     (if result = Some 0
      then (if control = 0 \<and> closeAV = 0 then revoke grantLive (StreamID key (channel_or_1 channel)) s else s,
            True)
      else (s, False))"

definition ReportLoss :: "string \<Rightarrow> byte \<Rightarrow> byte \<Rightarrow> (bad_input, command) res" where
  "ReportLoss key channel rate =
     bind (require (validSIM key) InvalidKey) (\<lambda>_.
     bind (require (\<not> rate > 100) InvalidRate) (\<lambda>_.
     Ok (command_of key 0x9105 [channel_or_1 channel, rate])))"

definition QueryAV :: "string \<Rightarrow> (bad_input, command) res" where
  "QueryAV key =
     bind (require (validSIM key) InvalidKey) (\<lambda>_.
     Ok \<lparr>jm_key = key, jm_id = 0x9003, jm_body = [], jm_reply = cmdAVReport\<rparr>)"

definition mediaPrefix :: "string \<Rightarrow> 16 word \<Rightarrow> 16 word \<Rightarrow> string \<Rightarrow> byte list" where
  "mediaPrefix ip tcpPort udpPort transport =
     [of_nat (length (bytes_of_string ip))] @ bytes_of_string ip
     @ (if transport = ''tcp'' then be_bytes 2 tcpPort @ [0, 0] else [0, 0] @ be_bytes 2 udpPort)"

definition period_ok :: "gotime \<Rightarrow> gotime \<Rightarrow> bool" where
  "period_ok start end_t \<longleftrightarrow> \<not> (IsZero start \<or> IsZero end_t \<or> \<not> After end_t start)"

record playback_input =
  pb_key :: string
  pb_channel :: byte
  pb_transport :: string
  pb_avtype :: byte
  pb_stream :: byte
  pb_storage :: byte
  pb_mode :: byte
  pb_speed :: byte
  pb_start :: gotime
  pb_end :: gotime

definition Playback :: "jt_config \<Rightarrow> playback_input \<Rightarrow> server \<Rightarrow> (bad_input, server \<times> string \<times> int \<times> command) res" where
  "Playback cfg i s =
     bind (require (validSIM (pb_key i)) InvalidKey) (\<lambda>_.
     bind (require (period_ok (pb_start i) (pb_end i)) InvalidPeriod) (\<lambda>_.
     let t = to_lower (trim_space (pb_transport i)); transport = (if t = [] then jc_transport cfg else t);
         ch = channel_or_1 (pb_channel i) in
     bind (require (transport = ''tcp'' \<or> transport = ''udp'') InvalidTransport) (\<lambda>_.
     let body = mediaPrefix (jc_media_ip cfg) (jc_tcp_port cfg) (jc_udp_port cfg) transport
           @ [ch, pb_avtype i, pb_stream i, pb_storage i, pb_mode i, pb_speed i]
           @ bcdTime (pb_start i) @ bcdTime (pb_end i);
         name = StreamID (pb_key i) ch; (s', previous) = grant grantPB name s
     in Ok (s', name, previous, command_of (pb_key i) 0x9201 body))))"

definition PlaybackControl :: "string \<Rightarrow> byte \<Rightarrow> byte \<Rightarrow> byte \<Rightarrow> gotime \<Rightarrow> (bad_input, command) res" where
  "PlaybackControl key channel control speed dragTo =
     bind (require (validSIM key) InvalidKey) (\<lambda>_.
     bind (require (\<not> control > 6) InvalidControl) (\<lambda>_.
     bind (require (\<not> (control = 5 \<and> IsZero dragTo)) DragNeedsTime) (\<lambda>_.
     Ok (command_of key 0x9202 ([channel_or_1 channel, control, speed]
           @ (if control = 5 then bcdTime dragTo else replicate 6 0))))))"

definition PlaybackControl_reply :: "string \<Rightarrow> byte \<Rightarrow> byte \<Rightarrow> byte option \<Rightarrow> server \<Rightarrow> server \<times> bool" where
  "PlaybackControl_reply key channel control result s =
     (if result = Some 0
      then (if control = 2 then revoke grantPB (StreamID key (channel_or_1 channel)) s else s, True)
      else (s, False))"

definition QueryResources ::
  "string \<Rightarrow> byte \<Rightarrow> gotime \<Rightarrow> gotime \<Rightarrow> byte \<Rightarrow> byte \<Rightarrow> byte \<Rightarrow> (bad_input, command) res" where
  "QueryResources key channel start end_t avtype stream storage =
     bind (require (validSIM key) InvalidKey) (\<lambda>_.
     bind (require (period_ok start end_t) InvalidPeriod) (\<lambda>_.
     Ok \<lparr>jm_key = key, jm_id = 0x9205,
         jm_body = [channel] @ bcdTime start @ bcdTime end_t @ replicate 8 0 @ [avtype, stream, storage],
         jm_reply = cmdResourceList\<rparr>))"

record upload_input =
  ui_key :: string
  ui_channel :: byte
  ui_start :: gotime
  ui_end :: gotime
  ui_host :: string
  ui_port :: int
  ui_user :: string
  ui_password :: string
  ui_path :: string
  ui_avtype :: byte
  ui_stream :: byte
  ui_storage :: byte
  ui_condition :: byte

text \<open>The FTP fields of \<open>Config\<close>.\<close>

record ftp_config =
  fc_port :: int
  fc_user :: string
  fc_password :: string

definition or_default :: "string \<Rightarrow> string \<Rightarrow> string" where
  "or_default s d = (if s = [] then d else s)"

definition ftpField :: "string \<Rightarrow> byte list" where
  "ftpField s = (let b = take 255 (bytes_of_string s) in of_nat (length b) # b)"

definition Upload :: "jt_config \<Rightarrow> ftp_config \<Rightarrow> upload_input \<Rightarrow> (bad_input, command) res" where
  "Upload cfg ftp i =
     bind (require (validSIM (ui_key i)) InvalidKey) (\<lambda>_.
     bind (require (period_ok (ui_start i) (ui_end i)) InvalidPeriod) (\<lambda>_.
     let ch = channel_or_1 (ui_channel i);
         host = or_default (ui_host i) (jc_media_ip cfg);
         port = (if ui_port i = 0 then fc_port ftp else ui_port i);
         user = or_default (ui_user i) (fc_user ftp);
         password = or_default (ui_password i) (fc_password ftp);
         path = or_default (ui_path i) (''/jt1078/'' @ ui_key i @ ''/'' @ dec_string (unat ch)) in
     bind (require (\<not> (host = [] \<or> port \<le> 0 \<or> user = [] \<or> password = [])) NeedFTP) (\<lambda>_.
     Ok (command_of (ui_key i) 0x9206
       (ftpField host @ be_bytes 2 (of_int port :: 16 word) @ ftpField user @ ftpField password @ ftpField path
        @ [ch] @ bcdTime (ui_start i) @ bcdTime (ui_end i) @ replicate 8 0
        @ [ui_avtype i, ui_stream i, ui_storage i, ui_condition i])))))"

text \<open>The reply to an upload request registers the task that \<open>0x1206\<close> will complete.\<close>

definition Upload_reply :: "string \<Rightarrow> 16 word \<Rightarrow> byte option \<Rightarrow> server \<Rightarrow> server \<times> bool" where
  "Upload_reply key seq result s =
     (if result = Some 0
      then (upd_term key (\<lambda>t. t\<lparr>tm_uploads := tm_uploads t
              @ [\<lparr>up_serial = seq, up_done = False, up_result = 0, up_at = 0\<rparr>]\<rparr>) s, True)
      else (s, False))"

definition UploadControl :: "string \<Rightarrow> 16 word \<Rightarrow> byte \<Rightarrow> (bad_input, command) res" where
  "UploadControl key serial control =
     bind (require (validSIM key) InvalidKey) (\<lambda>_.
     bind (require (\<not> control > 2) InvalidControl) (\<lambda>_.
     Ok (command_of key 0x9207 (be_bytes 2 serial @ [control]))))"

definition ptz_table :: "(string \<times> 16 word \<times> byte) list" where
  "ptz_table = [(''rotate'', 0x9301, 4), (''focus'', 0x9302, 1), (''iris'', 0x9303, 1), (''wiper'', 0x9304, 1),
     (''infrared'', 0x9305, 1), (''zoom'', 0x9306, 1)]"

definition PTZ :: "string \<Rightarrow> byte \<Rightarrow> string \<Rightarrow> byte \<Rightarrow> byte \<Rightarrow> (bad_input, command) res" where
  "PTZ key channel action direct speed =
     bind (require (validSIM key) InvalidKey) (\<lambda>_.
       let a = to_lower (trim_space action) in
       (case map_of ptz_table a of
          None \<Rightarrow> Err InvalidAction
        | Some (mid, limit) \<Rightarrow>
            if direct > limit then Err InvalidDirection
            else Ok (command_of key mid ([channel_or_1 channel, direct] @ (if a = ''rotate'' then [speed] else [])))))"

section \<open>Facts about the commands\<close>

lemma length_bcdTime [simp]: "length (bcdTime t) = 6"
  by (simp add: bcdTime_def)

lemma PTZ_ok:
  assumes "PTZ key ch a d v = Ok m"
  shows "validSIM key \<and> jm_key m = key \<and> (\<exists>name limit. (name, jm_id m, limit) \<in> set ptz_table
    \<and> to_lower (trim_space a) = name \<and> d \<le> limit)
    \<and> take 2 (jm_body m) = [channel_or_1 ch, d] \<and> length (jm_body m) = (if jm_id m = 0x9301 then 3 else 2)"
proof -
  obtain mid limit where t: "map_of ptz_table (to_lower (trim_space a)) = Some (mid, limit)"
    and d: "\<not> d > limit" and v: "validSIM key"
    and m: "m = command_of key mid ([channel_or_1 ch, d] @ (if to_lower (trim_space a) = ''rotate'' then [v] else []))"
    using assms by (auto simp: PTZ_def go_simps require_def Let_def split: if_splits option.splits)
  have "(to_lower (trim_space a), mid, limit) \<in> set ptz_table" using t by (rule map_of_SomeD)
  moreover have "mid = 0x9301 \<longleftrightarrow> to_lower (trim_space a) = ''rotate''"
    using map_of_SomeD[OF t] by (auto simp: ptz_table_def)
  ultimately show ?thesis using d v by (auto simp: m command_of_def)
qed

section \<open>Properties\<close>

text \<open>a resource list is parsed without a panic whatever its bytes: the product of the item
  count and the item size may wrap in 32 bits, but a count that passes both checks did not.\<close>

theorem resources_never_panic:
  "parseResources body \<noteq> Panic \<and> parseAV body \<noteq> Panic \<and> parseBCDTime body \<noteq> Panic"
  by (auto simp: parseResources_total parseAV_def panic_simps require_def)

text \<open>a list of at most 10000 recordings, laid out as the terminal lays it out, comes back as
  the same recordings, with times between 1969 and 2068.\<close>

theorem resources_roundtrip:
  assumes "\<forall>r \<in> set rs. resource_ok r" and "length rs \<le> 10000"
  shows "parseResources (put_resources seq rs) = Ok rs"
  by (rule parse_resources_put[OF assms])

theorem resources_roundtrip_witness:
  "\<exists>rs. length rs = 2 \<and> parseResources (put_resources 7 rs) = Ok rs"
proof -
  let ?t = "\<lparr>cv_year = 2024, cv_month = 2, cv_day = 29, cv_hour = 23, cv_min = 59, cv_sec = 1\<rparr>"
  let ?r = "\<lparr>rs_channel = 1, rs_start = ?t, rs_end = ?t, rs_alarm = 0, rs_avtype = 0, rs_stream = 1,
      rs_storage = 0, rs_size = 1024\<rparr>"
  have "\<forall>r \<in> set [?r, ?r]. resource_ok r"
    by (simp add: resource_ok_def civil_ok_def short_year_def days_in_def leap_year_def)
  then have "parseResources (put_resources 7 [?r, ?r]) = Ok [?r, ?r]"
    by (rule resources_roundtrip) simp
  then show ?thesis by (intro exI[of _ "[?r, ?r]"]) simp
qed

text \<open>a PTZ request is sent only for a valid SIM, a known action and a direction in that
  action's range; the message carries the channel, with 0 read as 1, and the direction, and the
  speed for a rotation only.\<close>

theorem PTZ_sends_valid_commands:
  assumes "PTZ key ch a d v = Ok m"
  shows "validSIM key \<and> jm_key m = key \<and> (\<exists>name limit. (name, jm_id m, limit) \<in> set ptz_table
    \<and> to_lower (trim_space a) = name \<and> d \<le> limit)
    \<and> take 2 (jm_body m) = [channel_or_1 ch, d] \<and> length (jm_body m) = (if jm_id m = 0x9301 then 3 else 2)"
  by (rule PTZ_ok[OF assms])

theorem PTZ_witness:
  "\<exists>m. PTZ ''5'' 0 '' Rotate'' 4 9 = Ok m \<and> length (jm_body m) = 3"
proof -
  have m: "PTZ ''5'' 0 '' Rotate'' 4 9 = Ok (command_of ''5'' 0x9301 [1, 4, 9])" by code_simp
  show ?thesis using PTZ_sends_valid_commands[OF m] m by (auto simp: command_of_def)
qed

end
