(* ===== verification/Tutk_Crypto.thy ===== *)
theory Tutk_Crypto
  imports Go_Strings
begin

text \<open>
  The packet scrambling and the framing helpers of \<open>internal/xiaomi/tutk\<close> (crypto.go and
  helpers.go): TransCode in both directions, XXTEA decryption for 16 bytes and for any length,
  and the ICAM and HL headers.
\<close>

unbundle bit_operations_syntax

section \<open>TransCode\<close>

definition charlie :: "byte list" where
  "charlie = bytes_of_string ''Charlie is the designer of P2P!!''"

text \<open>\<open>bits.RotateLeft32\<close>: a negative count rotates to the right.\<close>

definition RotateLeft32 :: "32 word \<Rightarrow> int \<Rightarrow> 32 word" where
  "RotateLeft32 x k = word_roti (- k) x"

text \<open>\<open>swap(dst, src, n)\<close>: the \<open>n\<close> bytes it writes.\<close>

definition swap_perm :: "nat \<Rightarrow> nat list" where
  "swap_perm n =
     (if n = 2 then [1, 0]
      else if n = 4 then [2, 3, 0, 1]
      else if n = 8 then [7, 4, 3, 2, 1, 6, 5, 0]
      else if n = 16 then [11, 9, 8, 15, 13, 10, 12, 14, 2, 1, 5, 0, 6, 4, 7, 3]
      else [0..<n])"

definition swap :: "nat \<Rightarrow> byte list \<Rightarrow> byte list" where
  "swap n src = map (\<lambda>i. src ! i) (swap_perm n)"

definition xor_charlie :: "byte list \<Rightarrow> byte list" where
  "xor_charlie bs = map2 (XOR) bs charlie"

text \<open>The four words of a block, each rotated by a count that depends on its offset.\<close>

definition rot_words :: "(int \<Rightarrow> int) \<Rightarrow> byte list \<Rightarrow> byte list" where
  "rot_words f bs = concat (map (\<lambda>i. le_bytes 4 (RotateLeft32 (le_word (take 4 (drop i bs))) (f (int i))))
     [0, 4, 8, 12])"

definition encode_block :: "byte list \<Rightarrow> byte list" where
  "encode_block b =
     rot_words (\<lambda>i. - i - 3) (swap 16 (xor_charlie (rot_words (\<lambda>i. - i - 1) b)))"

definition decode_block :: "byte list \<Rightarrow> byte list" where
  "decode_block b =
     rot_words (\<lambda>i. i + 1) (xor_charlie (swap 16 (rot_words (\<lambda>i. i + 3) b)))"

fun encode_blocks :: "byte list \<Rightarrow> byte list" where
  "encode_blocks src =
     (if length src \<ge> 16 then encode_block (take 16 src) @ encode_blocks (drop 16 src)
      else swap (length src) (xor_charlie src))"

fun decode_blocks :: "byte list \<Rightarrow> byte list" where
  "decode_blocks src =
     (if length src \<ge> 16 then decode_block (take 16 src) @ decode_blocks (drop 16 src)
      else xor_charlie (swap (length src) src))"

declare encode_blocks.simps [simp del] decode_blocks.simps [simp del]

text \<open>The result is written over \<open>dst\<close> when that is long enough.\<close>

definition TransCodePartial :: "byte list \<Rightarrow> byte list \<Rightarrow> byte list" where
  "TransCodePartial dst src = encode_blocks src @ drop (length src) dst"

definition ReverseTransCodePartial :: "byte list \<Rightarrow> byte list \<Rightarrow> byte list" where
  "ReverseTransCodePartial dst src = decode_blocks src @ drop (length src) dst"

text \<open>
  The blob forms share their shape: the header block, then, when bit 0 of byte 3 of the clear
  header is set, at most 48 further bytes, else all of them.
\<close>

definition code_rest :: "(byte list \<Rightarrow> byte list) \<Rightarrow> byte list \<Rightarrow> byte list \<Rightarrow> byte list" where
  "code_rest code clear src =
     (if clear ! 3 AND 1 \<noteq> 0
      then code (take (min (length src - 16) 48) (drop 16 src)) @ drop 64 src
      else code (drop 16 src))"

definition TransCodeBlob :: "byte list \<Rightarrow> byte list" where
  "TransCodeBlob src =
     (if length src < 16 then TransCodePartial [] src
      else TransCodePartial [] (take 16 src)
        @ (if length src > 16 then code_rest (TransCodePartial []) src src else []))"

definition ReverseTransCodeBlob :: "byte list \<Rightarrow> byte list" where
  "ReverseTransCodeBlob src =
     (if length src < 16 then ReverseTransCodePartial [] src
      else let header = ReverseTransCodePartial [] (take 16 src) in
        header @ (if length src > 16 then code_rest (ReverseTransCodePartial []) header src else []))"

section \<open>TransCode facts\<close>

lemma length_charlie [simp]: "length charlie = 32"
  by (simp add: charlie_def bytes_of_string_def)

lemma length_xor_charlie [simp]: "length bs \<le> 32 \<Longrightarrow> length (xor_charlie bs) = length bs"
  by (simp add: xor_charlie_def)

lemma xor_charlie_twice [simp]:
  assumes "length bs \<le> 32"
  shows "xor_charlie (xor_charlie bs) = bs"
  using assms by (intro nth_equalityI) (simp_all add: xor_charlie_def xor.assoc)

lemma length_rot_words [simp]: "length (rot_words f bs) = 16"
  by (simp add: rot_words_def)

lemma swap_perm_cases:
  obtains "n = 2" | "n = 4" | "n = 8" | "n = 16" | "swap_perm n = [0..<n]"
  by (cases "n = 2 \<or> n = 4 \<or> n = 8 \<or> n = 16") (auto simp: swap_perm_def)

lemma swap_perm_involutive: "map (\<lambda>i. swap_perm n ! i) (swap_perm n) = [0..<n]"
proof (rule swap_perm_cases[of n])
  assume "swap_perm n = [0..<n]"
  moreover have "map ((!) [0..<n]) [0..<n] = [0..<n]" by (rule map_idI) simp
  ultimately show ?thesis by simp
qed (simp_all add: swap_perm_def upt_conv_Cons)

lemma swap_perm_bound: "list_all (\<lambda>i. i < n) (swap_perm n)" and length_swap_perm [simp]: "length (swap_perm n) = n"
  by (rule swap_perm_cases[of n]; simp add: swap_perm_def list_all_iff)+

lemma length_swap [simp]: "length (swap n bs) = n"
  by (simp add: swap_def)

lemma swap_swap:
  assumes "length bs = n"
  shows "swap n (swap n bs) = bs"
proof -
  have "swap n (swap n bs) = map (\<lambda>i. bs ! (swap_perm n ! i)) (swap_perm n)"
    using swap_perm_bound[of n] by (auto simp: swap_def list_all_iff)
  also have "\<dots> = map ((!) bs) (map (\<lambda>i. swap_perm n ! i) (swap_perm n))" by simp
  also have "\<dots> = map ((!) bs) [0..<n]" by (simp only: swap_perm_involutive)
  also have "\<dots> = bs" using assms map_nth[of bs] by simp
  finally show ?thesis .
qed

lemma rotate_back: "RotateLeft32 (RotateLeft32 x k) (- k) = x"
  by (simp add: RotateLeft32_def word_roti_add[symmetric] del: word_roti_eq_word_rotr_word_rotl)

lemma four_parts:
  assumes "length bs = 16"
  shows "take 4 (drop 0 bs) @ take 4 (drop 4 bs) @ take 4 (drop 8 bs) @ take 4 (drop 12 bs) = bs"
proof -
  have "take 4 (drop 12 bs) = drop 12 bs" using assms by simp
  then have "take 4 (drop 8 bs) @ take 4 (drop 12 bs) = drop 8 bs"
    using append_take_drop_id[of 4 "drop 8 bs"] by simp
  then have "take 4 (drop 4 bs) @ take 4 (drop 8 bs) @ take 4 (drop 12 bs) = drop 4 bs"
    using append_take_drop_id[of 4 "drop 4 bs"] by simp
  then show ?thesis using append_take_drop_id[of 4 bs] by simp
qed

lemma rot_words_back:
  assumes "length bs = 16" and "\<And>i. g i = - f i"
  shows "rot_words g (rot_words f bs) = bs"
proof -
  let ?w = "\<lambda>i. RotateLeft32 (le_word (take 4 (drop i bs))) (f (int i))"
  let ?r = "rot_words f bs"
  have r: "?r = le_bytes 4 (?w 0) @ le_bytes 4 (?w 4) @ le_bytes 4 (?w 8) @ le_bytes 4 (?w 12)"
    by (simp add: rot_words_def)
  have part: "le_bytes 4 (RotateLeft32 (le_word (le_bytes 4 (?w i))) (g (int i))) = take 4 (drop i bs)"
    if "i + 4 \<le> 16" for i
  proof -
    have "length (take 4 (drop i bs)) = 4" using that assms(1) by simp
    then have "le_bytes 4 (le_word (take 4 (drop i bs)) :: 32 word) = take 4 (drop i bs)"
      using le_bytes_le_word[of "take 4 (drop i bs)", where ?'a = 32] by simp
    then show ?thesis by (simp add: assms(2) rotate_back)
  qed
  have "take 4 (drop 0 ?r) = le_bytes 4 (?w 0)" "take 4 (drop 4 ?r) = le_bytes 4 (?w 4)"
    "take 4 (drop 8 ?r) = le_bytes 4 (?w 8)" "take 4 (drop 12 ?r) = le_bytes 4 (?w 12)"
    by (simp_all add: r)
  then have "rot_words g ?r = take 4 (drop 0 bs) @ take 4 (drop 4 bs) @ take 4 (drop 8 bs) @ take 4 (drop 12 bs)"
    using part[of 0] part[of 4] part[of 8] part[of 12] by (simp add: rot_words_def)
  also have "\<dots> = bs" by (rule four_parts[OF assms(1)])
  finally show ?thesis .
qed

lemma decode_encode_block: "length b = 16 \<Longrightarrow> decode_block (encode_block b) = b"
  by (simp add: decode_block_def encode_block_def rot_words_back[where f = "\<lambda>i. - i - 3" and g = "\<lambda>i. i + 3"]
      rot_words_back[where f = "\<lambda>i. - i - 1" and g = "\<lambda>i. i + 1"] swap_swap)

lemma length_encode_block [simp]: "length (encode_block b) = 16"
  by (simp add: encode_block_def)

lemma decode_encode_blocks: "decode_blocks (encode_blocks src) = src"
proof (induction src rule: encode_blocks.induct)
  case (1 src)
  show ?case
  proof (cases "16 \<le> length src")
    case True
    then show ?thesis
      using 1[OF True] decode_encode_block[of "take 16 src"]
      by (subst encode_blocks.simps) (subst decode_blocks.simps, simp)
  next
    case False
    then show ?thesis
      by (subst encode_blocks.simps) (subst decode_blocks.simps, simp add: swap_swap)
  qed
qed

lemma length_encode_blocks [simp]: "length (encode_blocks src) = length src"
proof (induction src rule: encode_blocks.induct)
  case (1 src)
  then show ?case by (subst encode_blocks.simps) simp
qed

lemma encode_blocks_Nil [simp]: "encode_blocks src = [] \<longleftrightarrow> src = []"
  by (metis length_0_conv length_encode_blocks)

lemma code_rest_back:
  assumes "clear' ! 3 = clear ! 3" and "length pre = 16" and "16 < length src"
  shows "code_rest (ReverseTransCodePartial []) clear' (pre @ code_rest (TransCodePartial []) clear src) = drop 16 src"
proof (cases "clear ! 3 AND 1 \<noteq> 0")
  case False
  then show ?thesis
    using assms by (simp add: code_rest_def TransCodePartial_def ReverseTransCodePartial_def decode_encode_blocks)
next
  case True
  let ?n = "min (length src - 16) 48"
  let ?c = "encode_blocks (take ?n (drop 16 src))"
  have n: "length ?c = ?n" by simp
  have len: "length (pre @ ?c @ drop 64 src) = length src" using assms(2,3) n by (simp add: min_def)
  have "take ?n (?c @ drop 64 src) = ?c" using n by simp
  moreover have "drop 48 (?c @ drop 64 src) = drop 64 src"
    using n assms(3) by (cases "length src \<le> 64") (simp_all add: min_def)
  moreover have "take ?n (drop 16 src) @ drop 64 src = drop 16 src"
  proof (cases "length src \<le> 64")
    case False
    then have "?n = 48" by simp
    then show ?thesis using append_take_drop_id[of 48 "drop 16 src"] by simp
  qed simp
  ultimately show ?thesis
    using True assms(1,2) len
    by (simp add: code_rest_def TransCodePartial_def ReverseTransCodePartial_def decode_encode_blocks)
qed

lemma blob_roundtrip: "ReverseTransCodeBlob (TransCodeBlob src) = src"
proof (cases "length src < 16")
  case True
  then show ?thesis
    by (simp add: TransCodeBlob_def ReverseTransCodeBlob_def TransCodePartial_def ReverseTransCodePartial_def
        decode_encode_blocks)
next
  case False
  let ?h = "encode_blocks (take 16 src)"
  let ?rest = "if length src > 16 then code_rest (TransCodePartial []) src src else []"
  have h: "length ?h = 16" using False by simp
  have dh: "ReverseTransCodePartial [] ?h = take 16 src"
    using False by (simp add: ReverseTransCodePartial_def decode_encode_blocks)
  have blob: "TransCodeBlob src = ?h @ ?rest" using False by (simp add: TransCodeBlob_def TransCodePartial_def)
  show ?thesis
  proof (cases "length src > 16")
    case True
    have "length ?rest > 0"
      using True by (simp add: code_rest_def TransCodePartial_def length_encode_blocks min_def)
    moreover have "code_rest (ReverseTransCodePartial []) (take 16 src)
        (?h @ code_rest (TransCodePartial []) src src) = drop 16 src"
      by (rule code_rest_back) (use True h in simp_all)
    ultimately show ?thesis
      using True h dh
      by (simp add: ReverseTransCodeBlob_def blob Let_def)
  next
    case False2: False
    then show ?thesis using False h dh by (simp add: ReverseTransCodeBlob_def blob Let_def)
  qed
qed

section \<open>XXTEA\<close>

definition delta :: "32 word" where "delta = 0x9e3779b9"

definition xxteaMX :: "32 word \<Rightarrow> 32 word \<Rightarrow> 32 word \<Rightarrow> nat \<Rightarrow> 32 word \<Rightarrow> 32 word list \<Rightarrow> 32 word" where
  "xxteaMX sm y z p e k =
     ((drop_bit 5 z XOR push_bit 2 y) + (drop_bit 3 y XOR push_bit 4 z))
     XOR ((sm XOR y) + (k ! ((p mod 4) XOR unat e) XOR z))"

text \<open>
  One pass of the inner loop for \<open>p = n-1 .. 1\<close> and the step for 0; \<open>y\<close> is the running variable.
  The result is the array and the next \<open>y\<close>.
\<close>

fun var_pass :: "32 word \<Rightarrow> 32 word \<Rightarrow> 32 word list \<Rightarrow> nat \<Rightarrow> 32 word \<Rightarrow> 32 word list \<Rightarrow> 32 word list \<times> 32 word" where
  "var_pass sm e k 0 y v =
     (let v' = v[0 := v ! 0 - xxteaMX sm y (v ! (length v - 1)) 0 e k] in (v', v' ! 0))"
| "var_pass sm e k (Suc p) y v =
     (let v' = v[Suc p := v ! Suc p - xxteaMX sm y (v ! p) (Suc p) e k]
      in var_pass sm e k p (v' ! Suc p) v')"

fun var_rounds :: "nat \<Rightarrow> 32 word \<Rightarrow> 32 word list \<Rightarrow> 32 word \<Rightarrow> 32 word list \<Rightarrow> 32 word list" where
  "var_rounds 0 sm k y v = v"
| "var_rounds (Suc r) sm k y v =
     (let (v', y') = var_pass sm (drop_bit 2 sm AND 3) k (length v - 1) y v
      in var_rounds r (sm - delta) k y' v')"

definition words_of :: "nat \<Rightarrow> byte list \<Rightarrow> 32 word list" where
  "words_of n b = map (\<lambda>i. le_word (take 4 (drop (4 * i) b))) [0..<n]"

definition bytes_of :: "32 word list \<Rightarrow> byte list" where
  "bytes_of ws = concat (map (le_bytes 4) ws)"

text \<open>\<open>nil\<close> is the empty list; the last slice panics when the length is not a multiple of 4.\<close>

definition XXTEADecryptVar :: "byte list \<Rightarrow> byte list \<Rightarrow> (unit, byte list) res" where
  "XXTEADecryptVar data key =
     (if length data < 8 \<or> length key < 16 then Ok []
      else
        let k = words_of 4 key; n = length data div 4; v = words_of n data; rounds = 6 + 52 div n
        in reslice (bytes_of (var_rounds rounds (of_nat rounds * delta) k (v ! 0) v)) 0 (length data))"

text \<open>The fixed form: four words, \<open>i\<close> from 3 down to 0, the running variable \<open>w0\<close>.\<close>

fun fixed_pass :: "32 word \<Rightarrow> nat \<Rightarrow> 32 word list \<Rightarrow> nat list \<Rightarrow> 32 word \<Rightarrow> 32 word list \<Rightarrow> 32 word list" where
  "fixed_pass sm i2 k [] w0 w = w"
| "fixed_pass sm i2 k (i # is) w0 w =
     (let wi = w ! ((i + 3) mod 4); ki = k ! (i XOR i2);
          t1 = (w0 XOR sm) + (wi XOR ki);
          t2 = drop_bit 5 wi XOR push_bit 2 w0;
          t3 = drop_bit 3 w0 XOR push_bit 4 wi;
          w' = w[i := w ! i - (t1 XOR (t2 + t3))]
      in fixed_pass sm i2 k is (w' ! i) w')"

definition fixed_round :: "32 word \<Rightarrow> 32 word list \<Rightarrow> 32 word list \<Rightarrow> 32 word list" where
  "fixed_round sm k w = fixed_pass sm (unat (drop_bit 2 sm AND 3)) k [3, 2, 1, 0] (w ! 0) w"

fun fixed_rounds :: "nat \<Rightarrow> 32 word \<Rightarrow> 32 word list \<Rightarrow> 32 word list \<Rightarrow> 32 word list" where
  "fixed_rounds 0 sm k w = w"
| "fixed_rounds (Suc r) sm k w =
     fixed_rounds r (sm - delta) k (fixed_round sm k w)"

definition XXTEADecrypt :: "byte list \<Rightarrow> byte list \<Rightarrow> (unit, byte list) res" where
  "XXTEADecrypt src key =
     (if length src < 16 \<or> length key < 16 then Panic
      else Ok (bytes_of (fixed_rounds 19 (19 * delta) (words_of 4 key) (words_of 4 src))))"

section \<open>Reference encryption\<close>

text \<open>
  XXTEA as published: the step for word \<open>p\<close> mixes its two neighbours in the ring.  Decryption is
  to undo these steps in reverse order.
\<close>

definition mix :: "32 word \<Rightarrow> 32 word list \<Rightarrow> 32 word list \<Rightarrow> nat \<Rightarrow> 32 word" where
  "mix sm k v p = (let n = length v in
     xxteaMX sm (v ! ((p + 1) mod n)) (v ! ((p + n - 1) mod n)) p (drop_bit 2 sm AND 3) k)"

definition enc_step :: "32 word \<Rightarrow> 32 word list \<Rightarrow> nat \<Rightarrow> 32 word list \<Rightarrow> 32 word list" where
  "enc_step sm k p v = v[p := v ! p + mix sm k v p]"

definition dec_step :: "32 word \<Rightarrow> 32 word list \<Rightarrow> nat \<Rightarrow> 32 word list \<Rightarrow> 32 word list" where
  "dec_step sm k p v = v[p := v ! p - mix sm k v p]"

definition enc_round :: "32 word \<Rightarrow> 32 word list \<Rightarrow> 32 word list \<Rightarrow> 32 word list" where
  "enc_round sm k v = fold (enc_step sm k) [0..<length v] v"

fun enc_rounds :: "nat \<Rightarrow> 32 word \<Rightarrow> 32 word list \<Rightarrow> 32 word list \<Rightarrow> 32 word list" where
  "enc_rounds 0 sm k v = v"
| "enc_rounds (Suc r) sm k v = enc_rounds r (sm + delta) k (enc_round (sm + delta) k v)"

definition XXTEAEncrypt :: "byte list \<Rightarrow> byte list \<Rightarrow> byte list" where
  "XXTEAEncrypt data key =
     (let n = length data div 4; rounds = 6 + 52 div n
      in bytes_of (enc_rounds rounds 0 (words_of 4 key) (words_of n data)))"

section \<open>Decryption inverts encryption\<close>

lemma length_steps [simp]: "length (enc_step s k p v) = length v" "length (dec_step s k p v) = length v"
  by (simp_all add: enc_step_def dec_step_def)

lemma dec_enc_step:
  assumes "2 \<le> length v" and "p < length v"
  shows "dec_step s k p (enc_step s k p v) = v"
proof -
  let ?n = "length v"
  have "(p + 1) mod ?n \<noteq> p" "(p + ?n - 1) mod ?n \<noteq> p"
    using assms by (auto simp: mod_if)
  then have "mix s k (v[p := x]) p = mix s k v p" for x
    by (simp add: mix_def Let_def)
  then show ?thesis using assms by (simp add: enc_step_def dec_step_def)
qed

lemma length_fold_steps [simp]:
  "length (fold (enc_step s k) ps v) = length v" "length (fold (dec_step s k) ps v) = length v"
  by (induction ps arbitrary: v) simp_all

lemma dec_enc_fold:
  assumes "2 \<le> length v" and "\<forall>p \<in> set ps. p < length v"
  shows "fold (dec_step s k) (rev ps) (fold (enc_step s k) ps v) = v"
  using assms
proof (induction ps arbitrary: v)
  case (Cons p ps)
  then show ?case using Cons.IH[of "enc_step s k p v"] by (simp add: dec_enc_step)
qed simp

text \<open>The pass of the code, with its running variable, is the fold of the steps.\<close>

lemma var_pass_fold:
  assumes "2 \<le> length v" and "p < length v" and "y = v ! ((p + 1) mod length v)"
  shows "fst (var_pass s (drop_bit 2 s AND 3) k p y v) = fold (dec_step s k) (rev [0..<Suc p]) v
    \<and> snd (var_pass s (drop_bit 2 s AND 3) k p y v) = fold (dec_step s k) (rev [0..<Suc p]) v ! 0"
  using assms
proof (induction p arbitrary: y v)
  case 0
  then show ?case by (simp add: dec_step_def mix_def Let_def)
next
  case (Suc p)
  let ?v = "dec_step s k (Suc p) v"
  have "(Suc p + length v - 1) mod length v = p" using Suc.prems by simp
  then have v: "v[Suc p := v ! Suc p - xxteaMX s y (v ! p) (Suc p) (drop_bit 2 s AND 3) k] = ?v"
    using Suc.prems by (simp add: dec_step_def mix_def Let_def)
  have "var_pass s (drop_bit 2 s AND 3) k (Suc p) y v = var_pass s (drop_bit 2 s AND 3) k p (?v ! Suc p) ?v"
    by (simp add: v Let_def)
  moreover have "(p + 1) mod length ?v = Suc p" using Suc.prems by simp
  ultimately show ?case using Suc.IH[of ?v "?v ! Suc p"] Suc.prems by simp
qed

definition dec_round :: "32 word \<Rightarrow> 32 word list \<Rightarrow> 32 word list \<Rightarrow> 32 word list" where
  "dec_round sm k v = fold (dec_step sm k) (rev [0..<length v]) v"

lemma length_rounds [simp]: "length (enc_round sm k v) = length v" "length (dec_round sm k v) = length v"
  by (simp_all add: enc_round_def dec_round_def)

lemma length_enc_rounds [simp]: "length (enc_rounds r sm k v) = length v"
  by (induction r sm k v rule: enc_rounds.induct) simp_all

lemma dec_enc_round: "2 \<le> length v \<Longrightarrow> dec_round sm k (enc_round sm k v) = v"
  using dec_enc_fold[of v "[0..<length v]" sm k] by (simp add: dec_round_def enc_round_def)

lemma var_rounds_Suc:
  assumes "2 \<le> length v"
  shows "var_rounds (Suc r) sm k (v ! 0) v
    = var_rounds r (sm - delta) k (dec_round sm k v ! 0) (dec_round sm k v)"
proof -
  have l: "Suc (length v - 1) = length v" using assms by simp
  then have "(length v - 1 + 1) mod length v = 0" by simp
  then have "v ! 0 = v ! ((length v - 1 + 1) mod length v)" by (simp only:)
  then have "var_pass sm (drop_bit 2 sm AND 3) k (length v - 1) (v ! 0) v
      = (dec_round sm k v, dec_round sm k v ! 0)"
    using var_pass_fold[of v "length v - 1" "v ! 0" sm k] assms unfolding l dec_round_def prod_eq_iff by simp
  then show ?thesis by simp
qed

lemma var_rounds_last:
  assumes "2 \<le> length v"
  shows "length (var_rounds r sm k (v ! 0) v) = length v
    \<and> var_rounds (Suc r) sm k (v ! 0) v = dec_round (sm - of_nat r * delta) k (var_rounds r sm k (v ! 0) v)"
  using assms
proof (induction r arbitrary: sm v)
  case 0
  then show ?case using var_rounds_Suc[of v 0] by simp
next
  case (Suc r)
  note un = var_rounds_Suc[OF Suc.prems]
  have "2 \<le> length (dec_round sm k v)" using Suc.prems by simp
  from Suc.IH[OF this, of "sm - delta"] show ?case
    using un by (simp add: algebra_simps del: var_rounds.simps)
qed

lemma var_rounds_inverts:
  assumes "2 \<le> length v"
  shows "var_rounds r (sm + of_nat r * delta) k (enc_rounds r sm k v ! 0) (enc_rounds r sm k v) = v"
  using assms
proof (induction r arbitrary: sm v)
  case (Suc r)
  let ?w = "enc_round (sm + delta) k v"
  have "2 \<le> length ?w" using Suc.prems by simp
  note IH = Suc.IH[OF this, of "sm + delta"]
  have "2 \<le> length (enc_rounds r (sm + delta) k ?w)" using Suc.prems by simp
  note last = conjunct2[OF var_rounds_last[OF this, of r "sm + of_nat (Suc r) * delta" k]]
  have "sm + of_nat (Suc r) * delta = sm + delta + of_nat r * delta" by (simp add: algebra_simps)
  then show ?case
    using IH last dec_enc_round[OF Suc.prems] by (simp del: var_rounds.simps add: algebra_simps)
qed simp

lemma length_bytes_of [simp]: "length (bytes_of ws) = 4 * length ws"
  by (induction ws) (simp_all add: bytes_of_def)

lemma length_words_of [simp]: "length (words_of n b) = n"
  by (simp add: words_of_def)

lemma words_of_Suc: "words_of (Suc n) b = le_word (take 4 b) # words_of n (drop 4 b)"
  by (simp add: words_of_def upt_conv_Cons map_Suc_upt[symmetric] add.commute del: upt_Suc)

lemma words_of_bytes_of: "words_of (length ws) (bytes_of ws) = ws"
  by (induction ws) (simp_all add: words_of_Suc bytes_of_def words_of_def[of 0])

lemma bytes_of_words_of: "length b = 4 * n \<Longrightarrow> bytes_of (words_of n b) = b"
proof (induction n arbitrary: b)
  case (Suc n)
  have "length (take 4 b) = 4" using Suc.prems by simp
  then have "le_bytes 4 (le_word (take 4 b) :: 32 word) = take 4 b"
    using le_bytes_le_word[of "take 4 b", where ?'a = 32] by simp
  then show ?case using Suc.IH[of "drop 4 b"] Suc.prems by (simp add: words_of_Suc bytes_of_def)
qed (simp add: words_of_def bytes_of_def)

lemma XXTEA_inverse:
  assumes "length data = 4 * n" and "2 \<le> n" and "16 \<le> length key"
  shows "XXTEADecryptVar (XXTEAEncrypt data key) key = Ok data"
proof -
  let ?k = "words_of 4 key" and ?v = "words_of n data" and ?r = "6 + 52 div n"
  let ?e = "enc_rounds ?r 0 ?k ?v"
  have e: "XXTEAEncrypt data key = bytes_of ?e" using assms(1) by (simp add: XXTEAEncrypt_def Let_def)
  have w: "words_of n (bytes_of ?e) = ?e" using words_of_bytes_of[of ?e] by simp
  have "var_rounds ?r (of_nat ?r * delta) ?k (?e ! 0) ?e = ?v"
    using var_rounds_inverts[of ?v ?r 0 ?k] assms(2) by simp
  then show ?thesis
    using assms w bytes_of_words_of[OF assms(1)]
    by (simp add: e XXTEADecryptVar_def Let_def reslice_def)
qed

text \<open>The fixed form is the general one at four words.\<close>

lemma fixed_pass_Cons:
  assumes "i < 4"
  shows "fixed_pass sm (unat e) k (i # is) y w =
    (let w' = w[i := w ! i - xxteaMX sm y (w ! ((i + 3) mod 4)) i e k] in fixed_pass sm (unat e) k is (w' ! i) w')"
  using assms by (simp add: xxteaMX_def Let_def ac_simps)

lemma fixed_pass_var:
  assumes "length w = 4" and "p < 4"
  shows "fixed_pass sm (unat e) k (rev [0..<Suc p]) y w = fst (var_pass sm e k p y w)"
  using assms
proof (induction p arbitrary: y w)
  case 0
  then show ?case by (simp add: fixed_pass_Cons Let_def del: fixed_pass.simps(2))
next
  case (Suc p)
  have "(Suc p + 3) mod 4 = p" using Suc.prems by simp
  moreover let ?w = "w[Suc p := w ! Suc p - xxteaMX sm y (w ! p) (Suc p) e k]"
  have "fixed_pass sm (unat e) k (rev [0..<Suc p]) (?w ! Suc p) ?w = fst (var_pass sm e k p (?w ! Suc p) ?w)"
    using Suc.prems by (intro Suc.IH) simp_all
  moreover have "rev [0..<Suc (Suc p)] = Suc p # rev [0..<Suc p]" by simp
  ultimately show ?case
    using Suc.prems by (simp only: fixed_pass_Cons var_pass.simps Let_def)
qed

lemma fixed_round_dec:
  assumes "length w = 4"
  shows "fixed_round sm k w = dec_round sm k w"
proof -
  have "[3, 2, 1, 0] = rev [0..<Suc 3]" by (simp add: upt_conv_Cons)
  then have "fixed_round sm k w = fst (var_pass sm (drop_bit 2 sm AND 3) k 3 (w ! 0) w)"
    using fixed_pass_var[OF assms, of 3] by (simp only: fixed_round_def)
  also have "\<dots> = fold (dec_step sm k) (rev [0..<Suc 3]) w"
    using var_pass_fold[of w 3 "w ! 0" sm k] assms by simp
  also have "Suc 3 = length w" using assms by simp
  finally show ?thesis by (simp add: dec_round_def)
qed

lemma fixed_rounds_var:
  assumes "length w = 4"
  shows "fixed_rounds r sm k w = var_rounds r sm k (w ! 0) w"
  using assms
proof (induction r arbitrary: sm w)
  case (Suc r)
  then show ?case
    using Suc.IH[of "dec_round sm k w" "sm - delta"] var_rounds_Suc[of w r sm k]
    by (simp add: fixed_round_dec del: var_rounds.simps(2))
qed simp

lemma XXTEADecrypt_var:
  assumes "length src = 16" and "16 \<le> length key"
  shows "XXTEADecrypt src key = XXTEADecryptVar src key"
proof -
  have "length (var_rounds 19 (19 * delta) (words_of 4 key) (words_of 4 src ! 0) (words_of 4 src)) = 4"
    using var_rounds_last[of "words_of 4 src" 19 "19 * delta" "words_of 4 key"] by simp
  then show ?thesis
    using assms by (simp add: XXTEADecrypt_def XXTEADecryptVar_def Let_def fixed_rounds_var reslice_def)
qed

section \<open>Frame headers\<close>

text \<open>The argument count is a byte, and so is \<open>23+n\<close>; copying past the end is cut.\<close>

definition write_at :: "nat \<Rightarrow> byte list \<Rightarrow> byte list \<Rightarrow> byte list" where
  "write_at i src b = take i b @ take (length b - i) src @ drop (i + length src) b"

definition ICAM :: "32 word \<Rightarrow> byte list \<Rightarrow> (unit, byte list) res" where
  "ICAM cmd args =
     (let n = of_nat (length args) :: byte; size = unat (23 + n) in
      if size < 23 then Panic
      else Ok (write_at 23 args
         (bytes_of_string ''ICAM'' @ le_bytes 4 cmd @ replicate 7 0 @ [n] @ replicate 7 0 @ replicate (size - 23) 0)))"

definition HL :: "16 word \<Rightarrow> byte list \<Rightarrow> byte list" where
  "HL cmdID payload = bytes_of_string ''HL'' @ [5, 0] @ le_bytes 2 cmdID
     @ le_bytes 2 (of_nat (length payload) :: 16 word) @ replicate 8 0 @ payload"

text \<open>The end of the slice, \<open>16+payloadLen\<close>, is a 16-bit sum, the guard before it is not.\<close>

definition ParseHL :: "byte list \<Rightarrow> (unit, (16 word \<times> byte list) option) res" where
  "ParseHL d =
     (if length d < 16 \<or> d ! 0 \<noteq> 72 \<or> d ! 1 \<noteq> 76 then Ok None
      else
        let cmdID = le_word (take 2 (drop 4 d)) :: 16 word; n = le_word (take 2 (drop 6 d)) :: 16 word in
        if length d \<ge> 16 + unat n then bind (reslice d 16 (unat (16 + n))) (\<lambda>p. Ok (Some (cmdID, p)))
        else if length d > 16 then Ok (Some (cmdID, drop 16 d))
        else Ok (Some (cmdID, [])))"

text \<open>\<open>FindHL\<close> from an offset: the suffix that starts with the magic, if it has room for a header.\<close>

function FindHL :: "byte list \<Rightarrow> nat \<Rightarrow> byte list option" where
  "FindHL d i =
     (if i + 16 \<le> length d
      then (if d ! i = 72 \<and> d ! (i + 1) = 76 then Some (drop i d) else FindHL d (i + 1))
      else None)"
  by pat_completeness auto
termination by (relation "measure (\<lambda>(d, i). length d - i)") auto

declare FindHL.simps [simp del]

lemma HL_magic: "bytes_of_string ''HL'' = [72, 76]" "bytes_of_string ''ICAM'' = [73, 67, 65, 77]"
  by (simp_all add: bytes_of_string_def)

lemma ParseHL_HL:
  assumes "length payload < 65520"
  shows "ParseHL (HL cmd payload) = Ok (Some (cmd, payload))"
proof -
  let ?n = "of_nat (length payload) :: 16 word" and ?d = "HL cmd payload"
  have n: "unat ?n = length payload" using assms by (intro unat_of_nat_16) simp
  have n16: "unat (16 + ?n) = 16 + length payload"
    using assms n by (simp add: unat_word_ariths)
  have len: "length ?d = 16 + length payload" by (simp add: HL_def HL_magic)
  have parts: "d ! 0 = 72" "d ! 1 = 76" "le_word (take 2 (drop 4 d)) = cmd" "le_word (take 2 (drop 6 d)) = ?n"
    "drop 16 d = payload" if "d = ?d" for d
    by (simp_all add: that HL_def HL_magic)
  show ?thesis
    using parts[OF refl] n n16 len by (simp add: ParseHL_def Let_def reslice_def)
qed

lemma FindHL_skip:
  "FindHL d i = Some t \<Longrightarrow> \<exists>j \<ge> i. t = drop j d \<and> j + 16 \<le> length d \<and> d ! j = 72 \<and> d ! (j + 1) = 76
     \<and> (\<forall>l. i \<le> l \<and> l < j \<longrightarrow> \<not> (d ! l = 72 \<and> d ! (l + 1) = 76))"
proof (induction d i rule: FindHL.induct)
  case (1 d i)
  show ?case
  proof (cases "d ! i = 72 \<and> d ! (i + 1) = 76")
    case True
    then show ?thesis using 1(2) by (subst (asm) FindHL.simps) (auto split: if_splits)
  next
    case False
    have room: "i + 16 \<le> length d" and nxt: "FindHL d (i + 1) = Some t"
      using 1(2) False by (subst (asm) FindHL.simps, simp split: if_splits)+
    from 1(1)[OF room False nxt] obtain j where j: "j \<ge> i + 1" "t = drop j d" "j + 16 \<le> length d"
      "d ! j = 72" "d ! (j + 1) = 76" "\<forall>l. i + 1 \<le> l \<and> l < j \<longrightarrow> \<not> (d ! l = 72 \<and> d ! (l + 1) = 76)"
      by blast
    have "\<not> (d ! l = 72 \<and> d ! (l + 1) = 76)" if "i \<le> l" "l < j" for l
      using that j(6) False by (cases "l = i") auto
    with j show ?thesis by (intro exI[of _ j]) auto
  qed
qed

lemma byte_wrap: "m < 256 \<Longrightarrow> (23 + m) mod 256 < 23 \<longleftrightarrow> 233 \<le> (m :: nat)"
proof (cases "m < 233")
  case False
  assume "m < 256"
  obtain j where j: "m = 233 + j" using False le_Suc_ex[of 233 m] by auto
  then have "(23 + m) mod 256 = j mod 256" by simp
  then show ?thesis using j \<open>m < 256\<close> by simp
qed simp

lemma ICAM_panic: "ICAM cmd args = Panic \<longleftrightarrow> 233 \<le> length args mod 256"
proof -
  have "unat (23 + of_nat (length args) :: byte) = (23 + length args mod 256) mod 256"
    by (simp only: unat_word_ariths unsigned_of_nat take_bit_eq_mod) simp
  moreover have "length args mod 256 < 256" by simp
  ultimately show ?thesis using byte_wrap[of "length args mod 256"] by (simp only: ICAM_def Let_def) simp
qed

section \<open>Properties\<close>

text \<open>the receiver's ReverseTransCode undoes the sender's TransCode, for packets of every length,
  and in the blob form for every header, whether it asks for partial or for full encryption.\<close>

theorem transcode_roundtrip:
  "ReverseTransCodePartial [] (TransCodePartial [] src) = src
   \<and> ReverseTransCodeBlob (TransCodeBlob src) = src"
  by (simp add: TransCodePartial_def ReverseTransCodePartial_def decode_encode_blocks blob_roundtrip)

text \<open>both XXTEA routines decrypt what the published cipher encrypts: the fixed one the 16-byte
  login challenge, the general one every length of at least 8 that is a multiple of 4.\<close>

theorem xxtea_decrypts:
  assumes "length data = 4 * n" and "2 \<le> n" and "16 \<le> length key"
  shows "XXTEADecryptVar (XXTEAEncrypt data key) key = Ok data
    \<and> (n = 4 \<longrightarrow> XXTEADecrypt (XXTEAEncrypt data key) key = Ok data)"
proof -
  have "n = 4 \<Longrightarrow> length (XXTEAEncrypt data key) = 16"
    using assms(1) by (simp add: XXTEAEncrypt_def Let_def)
  then show ?thesis
    using XXTEA_inverse[OF assms] XXTEADecrypt_var[OF _ assms(3), of "XXTEAEncrypt data key"] by auto
qed

theorem xxtea_decrypts_witness:
  "XXTEADecrypt (XXTEAEncrypt (replicate 16 7) (replicate 16 1)) (replicate 16 1) = Ok (replicate 16 7)"
  using xxtea_decrypts[of "replicate 16 7" 4 "replicate 16 1"] by simp

text \<open>on a block of 16 bytes the routine with the unrolled index arithmetic in signed bytes and
  the general routine compute the same plaintext.\<close>

theorem xxtea_routines_agree:
  assumes "length data = 16" and "16 \<le> length key"
  shows "XXTEADecrypt data key = XXTEADecryptVar data key"
  by (rule XXTEADecrypt_var[OF assms])

theorem xxtea_routines_witness:
  "XXTEADecrypt (replicate 16 7) (replicate 16 1) = XXTEADecryptVar (replicate 16 7) (replicate 16 1)"
  by (rule xxtea_routines_agree) simp_all

text \<open>the general XXTEA routine slices its result to the input length, but the result holds
  whole words only: an input whose length is not a multiple of 4 makes it panic.\<close>

theorem xxtea_var_panics:
  assumes "8 \<le> length data" and "16 \<le> length key" and "length data mod 4 \<noteq> 0"
  shows "XXTEADecryptVar data key = Panic"
proof -
  let ?n = "length data div 4"
  have n: "2 \<le> ?n" using assms(1) by simp
  have "4 * ?n < length data"
    using assms(3) mult_div_mod_eq[of 4 "length data"] by linarith
  moreover have "length (var_rounds r sm k (words_of ?n data ! 0) (words_of ?n data)) = ?n" for r sm k
    using var_rounds_last[of "words_of ?n data" r sm k] n by simp
  ultimately have "reslice (bytes_of (var_rounds r sm k (words_of ?n data ! 0) (words_of ?n data))) 0 (length data)
      = Panic" for r sm k
    by (simp only: reslice_eq_Panic length_bytes_of) simp
  moreover have "\<not> (length data < 8 \<or> length key < 16)" using assms(1,2) by simp
  ultimately show ?thesis by (simp only: XXTEADecryptVar_def Let_def if_False)
qed

theorem xxtea_var_panics_witness:
  "XXTEADecryptVar (replicate 9 0) (replicate 16 0) = Panic"
  by (rule xxtea_var_panics) simp_all

text \<open>an HL message is parsed back to its command and payload, and no datagram (they are
  shorter than 65536 bytes) makes the parser panic, although it adds the header size to the
  length field in 16 bits.\<close>

theorem HL_roundtrip:
  "(length payload < 65520 \<longrightarrow> ParseHL (HL cmd payload) = Ok (Some (cmd, payload)))
   \<and> (length d < 65536 \<longrightarrow> ParseHL d \<noteq> Panic)"
proof -
  have "ParseHL d \<noteq> Panic" if "length d < 65536"
  proof -
    have "unat (16 + n) = 16 + unat n" if "16 + unat n \<le> length d" for n :: "16 word"
      using that \<open>length d < 65536\<close> by (simp add: unat_word_ariths)
    then show ?thesis by (auto simp: ParseHL_def Let_def panic_simps)
  qed
  then show ?thesis using ParseHL_HL by blast
qed

theorem HL_roundtrip_witness:
  "ParseHL (HL 7 [1, 2]) = Ok (Some (7, [1, 2])) \<and> ParseHL [72, 76] \<noteq> Panic"
  using HL_roundtrip[of "[1, 2]" 7 "[72, 76]"] by simp

text \<open>the size of an ICAM message is computed in a byte, so exactly the argument lengths
  whose remainder by 256 is at least 233 make its construction panic.\<close>

theorem ICAM_panics:
  "ICAM cmd args = Panic \<longleftrightarrow> 233 \<le> length args mod 256"
  by (rule ICAM_panic)

end
