(* ===== verification/Health_Remediate.thy ===== *)
theory Health_Remediate
  imports Go_Strings
begin

text \<open>
  Automatic restarts of failed recorders, \<open>internal/health/auto_remediate.go\<close>.  Times are
  nanoseconds since the zero \<open>time.Time\<close>, so 0 is \<open>IsZero\<close>; the clock is an argument.  \<open>Check\<close>
  gives up its lock around the rediscovery callback, which makes it two steps.
\<close>

section \<open>Durations and statuses\<close>

definition second_ns :: int where "second_ns = 1000000000"
definition minute_ns :: int where "minute_ns = 60 * second_ns"
definition hour_ns :: int where "hour_ns = 60 * minute_ns"

definition StatusRecording :: string where "StatusRecording = ''recording''"
definition StatusError :: string where "StatusError = ''error''"
definition StatusReconnecting :: string where "StatusReconnecting = ''reconnecting''"
definition StatusOffline :: string where "StatusOffline = ''offline''"

lemma durations_pos [simp]: "0 < second_ns" "0 < minute_ns" "0 < hour_ns"
  "0 \<le> second_ns" "0 \<le> minute_ns" "0 \<le> hour_ns"
  by (simp_all add: second_ns_def minute_ns_def hour_ns_def)

lemma statuses_differ [simp]:
  "StatusRecording \<noteq> StatusError" "StatusError \<noteq> StatusRecording" "StatusRecording \<noteq> StatusReconnecting"
  "StatusReconnecting \<noteq> StatusRecording" "StatusError \<noteq> StatusReconnecting" "StatusReconnecting \<noteq> StatusError"
  "StatusOffline \<noteq> StatusError" "StatusError \<noteq> StatusOffline"
  by (simp_all add: StatusRecording_def StatusError_def StatusReconnecting_def StatusOffline_def)

section \<open>State and operations\<close>

record rm_config =
  rc_enabled :: bool
  rc_max_per_hour :: int
  rc_cooldown_minutes :: int
  rc_blacklist_hours :: int
  rc_global_max :: int
  rc_offline_seconds :: int

record restart_state =
  rr_attempts :: "int list"
  rr_blacklisted :: int
  rr_rediscovered :: bool

record remediator =
  rm_cams :: "string \<rightharpoonup> restart_state"
  rm_global :: "int list"
  rm_unhealthy :: "string \<rightharpoonup> int"

datatype refusal = Blacklisted int | HourLimit | Cooldown int | GlobalLimit

datatype verdict = Ignored | Refused refusal | AskRediscovery int | Restarted

definition fresh_restart :: restart_state where
  "fresh_restart = \<lparr>rr_attempts = [], rr_blacklisted = 0, rr_rediscovered = False\<rparr>"

definition NewAutoRemediator :: remediator where
  "NewAutoRemediator = \<lparr>rm_cams = Map.empty, rm_global = [], rm_unhealthy = Map.empty\<rparr>"

definition filterRecent :: "int list \<Rightarrow> int \<Rightarrow> int \<Rightarrow> int list" where
  "filterRecent ts now window = filter (\<lambda>t. \<not> t < now - window) ts"

definition getOrCreateState :: "string \<Rightarrow> remediator \<Rightarrow> restart_state" where
  "getOrCreateState cam r = (case rm_cams r cam of None \<Rightarrow> fresh_restart | Some st \<Rightarrow> st)"

definition put_state :: "string \<Rightarrow> restart_state \<Rightarrow> remediator \<Rightarrow> remediator" where
  "put_state cam st r = r\<lparr>rm_cams := (rm_cams r)(cam \<mapsto> st)\<rparr>"

definition forget_unhealthy :: "string \<Rightarrow> remediator \<Rightarrow> remediator" where
  "forget_unhealthy cam r = r\<lparr>rm_unhealthy := (rm_unhealthy r)(cam := None)\<rparr>"

text \<open>The switch on the status: the new tracking and whether the check goes on.\<close>

definition status_gate :: "rm_config \<Rightarrow> int \<Rightarrow> string \<Rightarrow> string \<Rightarrow> remediator \<Rightarrow> remediator \<times> bool" where
  "status_gate cfg now cam status r =
     (if status = StatusError then (forget_unhealthy cam r, True)
      else if status = StatusReconnecting \<or> status = StatusOffline then
        (case rm_unhealthy r cam of
           None \<Rightarrow> (r\<lparr>rm_unhealthy := (rm_unhealthy r)(cam \<mapsto> now)\<rparr>, False)
         | Some since \<Rightarrow> (r, \<not> now - since < rc_offline_seconds cfg * second_ns))
      else (forget_unhealthy cam r, False))"

text \<open>The rate limits and the restart, for the camera's state \<open>st\<close>.\<close>

definition try_restart :: "rm_config \<Rightarrow> int \<Rightarrow> string \<Rightarrow> restart_state \<Rightarrow> remediator \<Rightarrow> remediator \<times> verdict" where
  "try_restart cfg now cam st r =
     (let recent = filterRecent (rr_attempts st) now hour_ns; r = put_state cam st r in
      if int (length recent) \<ge> rc_max_per_hour cfg then (r, Refused HourLimit)
      else if recent \<noteq> [] \<and> now < last recent + rc_cooldown_minutes cfg * minute_ns
        then (r, Refused (Cooldown (last recent + rc_cooldown_minutes cfg * minute_ns)))
      else if int (length (filterRecent (rm_global r) now minute_ns)) \<ge> rc_global_max cfg
        then (r, Refused GlobalLimit)
      else
        let attempts = rr_attempts st @ [now];
            st' = st\<lparr>rr_attempts := attempts,
              rr_blacklisted := (if int (length (filterRecent attempts now hour_ns)) \<ge> rc_max_per_hour cfg
                                 then now else rr_blacklisted st)\<rparr>
        in (forget_unhealthy cam (put_state cam st' (r\<lparr>rm_global := rm_global r @ [now]\<rparr>)), Restarted))"

definition blacklist_expiry :: "rm_config \<Rightarrow> restart_state \<Rightarrow> int" where
  "blacklist_expiry cfg st = rr_blacklisted st + rc_blacklist_hours cfg * hour_ns"

definition Check ::
  "rm_config \<Rightarrow> bool \<Rightarrow> bool \<Rightarrow> int \<Rightarrow> string \<Rightarrow> string \<Rightarrow> remediator \<Rightarrow> remediator \<times> verdict" where
  "Check cfg cam_enabled has_rediscover now cam status r =
     (if \<not> rc_enabled cfg \<or> \<not> cam_enabled then (r, Ignored)
      else (case status_gate cfg now cam status r of
          (r, False) \<Rightarrow> (r, Ignored)
        | (r, True) \<Rightarrow>
            let st = getOrCreateState cam r in
            if rr_blacklisted st \<noteq> 0 \<and> now < blacklist_expiry cfg st then
              (if has_rediscover \<and> \<not> rr_rediscovered st
               then (put_state cam (st\<lparr>rr_rediscovered := True\<rparr>) r, AskRediscovery (blacklist_expiry cfg st))
               else (put_state cam st r, Refused (Blacklisted (blacklist_expiry cfg st))))
            else try_restart cfg now cam (if rr_blacklisted st \<noteq> 0 then fresh_restart else st) r))"

text \<open>After the rediscovery callback.\<close>

definition rediscovered :: "string \<Rightarrow> int \<Rightarrow> bool \<Rightarrow> remediator \<Rightarrow> remediator \<times> verdict" where
  "rediscovered cam expiry found r =
     (if found then (forget_unhealthy cam (put_state cam fresh_restart r), Ignored)
      else (r, Refused (Blacklisted expiry)))"

definition IsBlacklisted :: "rm_config \<Rightarrow> int \<Rightarrow> string \<Rightarrow> remediator \<Rightarrow> bool" where
  "IsBlacklisted cfg now cam r = (case rm_cams r cam of
      None \<Rightarrow> False
    | Some st \<Rightarrow> rr_blacklisted st \<noteq> 0 \<and> now < blacklist_expiry cfg st)"

definition ClearBlacklist :: "string \<Rightarrow> remediator \<Rightarrow> remediator" where
  "ClearBlacklist cam r = forget_unhealthy cam
     (case rm_cams r cam of None \<Rightarrow> r | Some _ \<Rightarrow> put_state cam fresh_restart r)"

section \<open>Runs\<close>

datatype rm_event =
    CheckEv bool bool int string string
  | RediscoveryEv string int bool
  | ClearEv string

fun rm_step :: "rm_config \<Rightarrow> rm_event \<Rightarrow> remediator \<Rightarrow> remediator \<times> verdict" where
  "rm_step cfg (CheckEv en rd now cam status) r = Check cfg en rd now cam status r"
| "rm_step cfg (RediscoveryEv cam expiry found) r = rediscovered cam expiry found r"
| "rm_step cfg (ClearEv cam) r = (ClearBlacklist cam r, Ignored)"

text \<open>
  A run with its log: the camera and time of every call of the restart function.  The clock of
  the checks never goes back and is positive.
\<close>

fun restart_of :: "rm_event \<Rightarrow> verdict \<Rightarrow> (string \<times> int) list" where
  "restart_of (CheckEv en rd now cam status) Restarted = [(cam, now)]"
| "restart_of e v = []"

fun rm_run :: "rm_config \<Rightarrow> rm_event list \<Rightarrow> remediator \<Rightarrow> (string \<times> int) list \<Rightarrow> remediator \<times> (string \<times> int) list" where
  "rm_run cfg [] r log = (r, log)"
| "rm_run cfg (e # es) r log =
     (case rm_step cfg e r of (r', v) \<Rightarrow> rm_run cfg es r' (log @ restart_of e v))"

fun clock_ok :: "int \<Rightarrow> rm_event list \<Rightarrow> bool" where
  "clock_ok clock [] = True"
| "clock_ok clock (CheckEv en rd now cam status # es) = (0 < now \<and> clock \<le> now \<and> clock_ok now es)"
| "clock_ok clock (e # es) = clock_ok clock es"

definition restarts :: "rm_config \<Rightarrow> rm_event list \<Rightarrow> (string \<times> int) list" where
  "restarts cfg es = snd (rm_run cfg es NewAutoRemediator [])"

definition times_of :: "string \<Rightarrow> (string \<times> int) list \<Rightarrow> int list" where
  "times_of cam log = map snd (filter (\<lambda>p. fst p = cam) log)"

text \<open>An event that resets the history of \<open>cam\<close>.\<close>

fun resets :: "string \<Rightarrow> rm_event \<Rightarrow> bool" where
  "resets cam (CheckEv en rd now c status) = False"
| "resets cam (RediscoveryEv c expiry found) = (c = cam \<and> found)"
| "resets cam (ClearEv c) = (c = cam)"

section \<open>What a check changes\<close>

lemma status_gate_views [simp]:
  "rm_cams (fst (status_gate cfg now cam status r)) = rm_cams r"
  "rm_global (fst (status_gate cfg now cam status r)) = rm_global r"
  by (auto simp: status_gate_def forget_unhealthy_def split: option.splits)

lemma getOrCreate_put [simp]: "getOrCreateState cam (put_state cam st r) = st"
  by (simp add: getOrCreateState_def put_state_def)

lemma getOrCreate_other: "c \<noteq> cam \<Longrightarrow> getOrCreateState c (put_state cam st r) = getOrCreateState c r"
  by (simp add: getOrCreateState_def put_state_def)

lemma getOrCreate_cong: "rm_cams r' cam = rm_cams r cam \<Longrightarrow> getOrCreateState cam r' = getOrCreateState cam r"
  by (simp add: getOrCreateState_def)

lemma forget_views [simp]:
  "rm_cams (forget_unhealthy cam r) = rm_cams r" "rm_global (forget_unhealthy cam r) = rm_global r"
  by (simp_all add: forget_unhealthy_def)

lemma put_views [simp]: "rm_global (put_state cam st r) = rm_global r"
  by (simp add: put_state_def)

text \<open>A check either starts no restart and keeps the logs, or passed every limit.\<close>

lemma try_restart_cases:
  assumes "try_restart cfg now cam st r = (r', v)"
  obtains (refused) w where "v = Refused w" "rm_global r' = rm_global r" "rm_cams r' = (rm_cams r)(cam \<mapsto> st)"
    | (restarted) bl where "v = Restarted" "rm_global r' = rm_global r @ [now]"
        "rm_cams r' = (rm_cams r)(cam \<mapsto> st\<lparr>rr_attempts := rr_attempts st @ [now], rr_blacklisted := bl\<rparr>)"
        "bl = now \<or> bl = rr_blacklisted st"
        "int (length (filterRecent (rr_attempts st) now hour_ns)) < rc_max_per_hour cfg"
        "filterRecent (rr_attempts st) now hour_ns \<noteq> [] \<longrightarrow>
           last (filterRecent (rr_attempts st) now hour_ns) + rc_cooldown_minutes cfg * minute_ns \<le> now"
        "int (length (filterRecent (rm_global r) now minute_ns)) < rc_global_max cfg"
proof -
  let ?rec = "filterRecent (rr_attempts st) now hour_ns"
  let ?glob = "filterRecent (rm_global r) now minute_ns"
  let ?cd = "last ?rec + rc_cooldown_minutes cfg * minute_ns"
  consider (hour) "int (length ?rec) \<ge> rc_max_per_hour cfg"
    | (cool) "int (length ?rec) < rc_max_per_hour cfg" "?rec \<noteq> [] \<and> now < ?cd"
    | (glob) "int (length ?rec) < rc_max_per_hour cfg" "\<not> (?rec \<noteq> [] \<and> now < ?cd)"
        "int (length ?glob) \<ge> rc_global_max cfg"
    | (go) "int (length ?rec) < rc_max_per_hour cfg" "\<not> (?rec \<noteq> [] \<and> now < ?cd)"
        "int (length ?glob) < rc_global_max cfg"
    by linarith
  then show thesis
  proof cases
    case hour
    then show thesis using assms refused by (auto simp: try_restart_def Let_def put_state_def)
  next
    case cool
    then show thesis using assms refused by (auto simp: try_restart_def Let_def put_state_def)
  next
    case glob
    then show thesis using assms refused by (auto simp: try_restart_def Let_def put_state_def)
  next
    case go
    then show thesis
      using assms by (intro restarted) (auto simp: try_restart_def Let_def put_state_def)
  qed
qed

text \<open>The camera's history a check decides on: its own, or an empty one after the blacklist expired.\<close>

definition history_base :: "rm_config \<Rightarrow> int \<Rightarrow> restart_state \<Rightarrow> restart_state \<Rightarrow> bool" where
  "history_base cfg now st st0 \<longleftrightarrow>
     st0 = st \<and> rr_blacklisted st = 0 \<or> st0 = fresh_restart \<and> rr_blacklisted st \<noteq> 0 \<and> blacklist_expiry cfg st \<le> now"

lemma Check_cases:
  assumes "Check cfg en rd now cam status r = (r', v)"
  obtains (idle) st' where "v \<noteq> Restarted" "rm_global r' = rm_global r"
        "rm_cams r' = rm_cams r \<and> st' = getOrCreateState cam r \<or> rm_cams r' = (rm_cams r)(cam \<mapsto> st')"
        "rr_attempts st' = rr_attempts (getOrCreateState cam r) \<and> rr_blacklisted st' = rr_blacklisted (getOrCreateState cam r)
         \<or> history_base cfg now (getOrCreateState cam r) st'"
    | (restarted) st0 bl where "v = Restarted" "history_base cfg now (getOrCreateState cam r) st0"
        "rm_global r' = rm_global r @ [now]"
        "rm_cams r' = (rm_cams r)(cam \<mapsto> st0\<lparr>rr_attempts := rr_attempts st0 @ [now], rr_blacklisted := bl\<rparr>)"
        "bl = now \<or> bl = 0"
        "int (length (filterRecent (rr_attempts st0) now hour_ns)) < rc_max_per_hour cfg"
        "filterRecent (rr_attempts st0) now hour_ns \<noteq> [] \<longrightarrow>
           last (filterRecent (rr_attempts st0) now hour_ns) + rc_cooldown_minutes cfg * minute_ns \<le> now"
        "int (length (filterRecent (rm_global r) now minute_ns)) < rc_global_max cfg"
proof -
  let ?st = "getOrCreateState cam r"
  obtain r1 go where g: "status_gate cfg now cam status r = (r1, go)" by fastforce
  then have r1: "rm_cams r1 = rm_cams r" "rm_global r1 = rm_global r"
    using status_gate_views[of cfg now cam status r] by simp_all
  have st: "getOrCreateState cam r1 = ?st" using r1(1) by (intro getOrCreate_cong) simp
  show thesis
  proof (cases "rc_enabled cfg \<and> en \<and> go")
    case False
    then have "v = Ignored \<and> (r' = r \<or> r' = r1)"
      using assms g by (auto simp: Check_def split: if_splits)
    then show thesis using r1 by (intro idle[of ?st]) auto
  next
    case True
    show thesis
    proof (cases "rr_blacklisted ?st \<noteq> 0 \<and> now < blacklist_expiry cfg ?st")
      case bl: True
      have "v \<noteq> Restarted \<and> rm_global r' = rm_global r
        \<and> (\<exists>st'. rm_cams r' = (rm_cams r)(cam \<mapsto> st') \<and> rr_attempts st' = rr_attempts ?st
             \<and> rr_blacklisted st' = rr_blacklisted ?st)"
        using assms True g bl st r1 by (auto simp: Check_def Let_def put_state_def split: if_splits)
      then show thesis using idle by blast
    next
      case free: False
      obtain st0 where s0: "st0 = (if rr_blacklisted ?st \<noteq> 0 then fresh_restart else ?st)" by blast
      have base: "history_base cfg now ?st st0" using free by (auto simp: history_base_def s0)
      have bl0: "rr_blacklisted st0 = 0" by (simp add: fresh_restart_def s0)
      have "try_restart cfg now cam st0 r1 = (r', v)"
        using assms True g free st by (cases "rr_blacklisted ?st = 0") (simp_all add: Check_def Let_def s0)
      then show thesis
      proof (cases rule: try_restart_cases)
        case (refused w)
        then show thesis using base r1 by (intro idle[of st0]) simp_all
      next
        case (restarted bl)
        then show thesis using base r1 bl0 by (intro that(2)[OF _ base]) simp_all
      qed
    qed
  qed
qed

section \<open>The global limit\<close>

definition global_inv :: "rm_config \<Rightarrow> int \<Rightarrow> int list \<Rightarrow> bool" where
  "global_inv cfg clock g \<longleftrightarrow> (\<forall>x \<in> set g. x \<le> clock)
     \<and> (\<forall>t. int (length (filter (\<lambda>x. t - minute_ns \<le> x \<and> x \<le> t) g)) \<le> max 0 (rc_global_max cfg))"

lemma filter_mono_length: "(\<And>x. x \<in> set xs \<Longrightarrow> P x \<Longrightarrow> Q x) \<Longrightarrow> length (filter P xs) \<le> length (filter Q xs)"
  by (induction xs) auto

lemma global_inv_add:
  assumes inv: "global_inv cfg clock g" and now: "clock \<le> now"
    and room: "int (length (filterRecent g now minute_ns)) < rc_global_max cfg"
  shows "global_inv cfg now (g @ [now])"
  unfolding global_inv_def
proof (intro conjI allI)
  show "\<forall>x \<in> set (g @ [now]). x \<le> now" using inv now by (auto simp: global_inv_def)
  fix t
  let ?W = "\<lambda>x. t - minute_ns \<le> x \<and> x \<le> t"
  show "int (length (filter ?W (g @ [now]))) \<le> max 0 (rc_global_max cfg)"
  proof (cases "?W now")
    case False
    then have "filter ?W (g @ [now]) = filter ?W g" by auto
    then show ?thesis using inv by (simp only: global_inv_def)
  next
    case True
    then have "length (filter ?W g) \<le> length (filterRecent g now minute_ns)"
      unfolding filterRecent_def by (intro filter_mono_length) auto
    then show ?thesis using True room by simp
  qed
qed

lemma global_inv_clock: "global_inv cfg clock g \<Longrightarrow> clock \<le> clock' \<Longrightarrow> global_inv cfg clock' g"
  by (auto simp: global_inv_def)

lemma rm_run_global:
  assumes "global_inv cfg clock (rm_global r)" and "map snd log = rm_global r" and "clock_ok clock es"
  shows "\<exists>clock'. global_inv cfg clock' (map snd (snd (rm_run cfg es r log)))"
  using assms
proof (induction es arbitrary: clock r log)
  case Nil
  then show ?case by auto
next
  case (Cons e es)
  obtain r' v where st: "rm_step cfg e r = (r', v)" by fastforce
  show ?case
  proof (cases e)
    case (CheckEv en rd now cam status)
    then have now: "clock \<le> now" "clock_ok now es" using Cons.prems(3) by auto
    have "Check cfg en rd now cam status r = (r', v)" using st CheckEv by simp
    then show ?thesis
    proof (cases rule: Check_cases)
      case (idle st')
      then have "restart_of e v = []" using CheckEv by (cases v) auto
      then show ?thesis
        using Cons.IH[of now r' log] Cons.prems now idle st global_inv_clock by fastforce
    next
      case (restarted st0 bl)
      then have "global_inv cfg now (rm_global r')"
        using global_inv_add[OF Cons.prems(1) now(1)] by simp
      then show ?thesis
        using Cons.IH[of now r' "log @ [(cam, now)]"] Cons.prems now restarted st CheckEv by simp
    qed
  next
    case (RediscoveryEv cam expiry found)
    then have "rm_global r' = rm_global r" using st by (auto simp: rediscovered_def split: if_splits)
    then show ?thesis using Cons.IH[of clock r' log] Cons.prems st RediscoveryEv by simp
  next
    case (ClearEv cam)
    then have "rm_global r' = rm_global r" using st by (auto simp: ClearBlacklist_def split: option.splits)
    then show ?thesis using Cons.IH[of clock r' log] Cons.prems st ClearEv by simp
  qed
qed

section \<open>The limits of a camera\<close>

text \<open>
  What is known of the restarts \<open>L\<close> of a camera at time \<open>clock\<close>: the recorded attempts are the
  later part of \<open>L\<close>, the forgotten part is an hour old, restarts keep their distance, and no
  window of an hour holds more than the limit.
\<close>

definition camera_inv :: "rm_config \<Rightarrow> int \<Rightarrow> restart_state \<Rightarrow> int list \<Rightarrow> bool" where
  "camera_inv cfg clock st L \<longleftrightarrow>
     (\<exists>old. L = old @ rr_attempts st \<and> (\<forall>x \<in> set old. x + hour_ns \<le> clock))
     \<and> (\<forall>x \<in> set L. x \<le> clock)
     \<and> (rr_blacklisted st \<noteq> 0 \<longrightarrow> (\<forall>x \<in> set (rr_attempts st). x \<le> rr_blacklisted st))
     \<and> sorted L
     \<and> (\<forall>t. int (length (filter (\<lambda>x. t - hour_ns < x \<and> x \<le> t) L)) \<le> max 0 (rc_max_per_hour cfg))
     \<and> sorted_wrt (\<lambda>x y. x + min (rc_cooldown_minutes cfg * minute_ns) hour_ns \<le> y) L"

lemma camera_inv_clock: "camera_inv cfg clock st L \<Longrightarrow> clock \<le> clock' \<Longrightarrow> camera_inv cfg clock' st L"
  unfolding camera_inv_def by (elim conjE exE) (intro conjI exI; fastforce)

lemma camera_inv_state:
  "camera_inv cfg clock st L \<Longrightarrow> rr_attempts st' = rr_attempts st \<Longrightarrow> rr_blacklisted st' = rr_blacklisted st
   \<Longrightarrow> camera_inv cfg clock st' L"
  by (simp add: camera_inv_def)

text \<open>An expired blacklist of at least one hour only forgets attempts of more than an hour ago.\<close>

lemma camera_inv_base:
  assumes inv: "camera_inv cfg clock st L" and now: "clock \<le> now" and h: "1 \<le> rc_blacklist_hours cfg"
    and base: "history_base cfg now st st0"
  shows "camera_inv cfg now st0 L"
proof (cases "st0 = st")
  case True
  then show ?thesis using camera_inv_clock[OF inv now] by simp
next
  case False
  then have f: "st0 = fresh_restart" "rr_blacklisted st \<noteq> 0" "blacklist_expiry cfg st \<le> now"
    using base by (auto simp: history_base_def)
  have "rr_blacklisted st + hour_ns \<le> now"
  proof -
    have "1 * hour_ns \<le> rc_blacklist_hours cfg * hour_ns" by (rule mult_right_mono[OF h]) simp
    then show ?thesis using f(3) unfolding blacklist_expiry_def by linarith
  qed
  then have "\<forall>x \<in> set L. x + hour_ns \<le> now"
    using inv f(2) now unfolding camera_inv_def by fastforce
  then show ?thesis
    using camera_inv_clock[OF inv now] by (simp add: camera_inv_def f(1) fresh_restart_def)
qed

lemma sorted_filter_last:
  "sorted xs \<Longrightarrow> x \<in> set xs \<Longrightarrow> P x \<Longrightarrow> (x :: int) \<le> last (filter P xs)"
proof (induction xs)
  case (Cons y xs)
  show ?case
  proof (cases "filter P xs = []")
    case True
    then show ?thesis using Cons.prems by (auto simp: filter_empty_conv)
  next
    case False
    then have "last (filter P (y # xs)) = last (filter P xs)" "last (filter P xs) \<in> set xs"
      using last_in_set[OF False] by auto
    then show ?thesis using Cons by auto
  qed
qed simp

lemma camera_inv_restart:
  assumes inv: "camera_inv cfg now st L" and bl: "bl = now \<or> bl = 0"
    and room: "int (length (filterRecent (rr_attempts st) now hour_ns)) < rc_max_per_hour cfg"
    and cool: "filterRecent (rr_attempts st) now hour_ns \<noteq> [] \<longrightarrow>
        last (filterRecent (rr_attempts st) now hour_ns) + rc_cooldown_minutes cfg * minute_ns \<le> now"
  shows "camera_inv cfg now (st\<lparr>rr_attempts := rr_attempts st @ [now], rr_blacklisted := bl\<rparr>) (L @ [now])"
proof -
  let ?cd = "min (rc_cooldown_minutes cfg * minute_ns) hour_ns"
  obtain old where L: "L = old @ rr_attempts st" and old: "\<forall>x \<in> set old. x + hour_ns \<le> now"
    using inv by (auto simp: camera_inv_def)
  have le: "\<forall>x \<in> set L. x \<le> now" and so: "sorted L"
    and win: "int (length (filter (\<lambda>x. t - hour_ns < x \<and> x \<le> t) L)) \<le> max 0 (rc_max_per_hour cfg)"
    and gap: "sorted_wrt (\<lambda>x y. x + ?cd \<le> y) L" for t
    using inv by (auto simp: camera_inv_def)
  have gap': "x + ?cd \<le> now" if "x \<in> set L" for x
  proof (cases "x + hour_ns \<le> now")
    case False
    then have x: "x \<in> set (rr_attempts st)" "\<not> x < now - hour_ns" using that L old by auto
    have "x \<le> last (filterRecent (rr_attempts st) now hour_ns)"
      unfolding filterRecent_def using so L x by (intro sorted_filter_last) (auto simp: sorted_append)
    moreover have "filterRecent (rr_attempts st) now hour_ns \<noteq> []"
      using x by (auto simp: filterRecent_def filter_empty_conv)
    ultimately show ?thesis using cool by linarith
  qed simp
  have win': "int (length (filter (\<lambda>x. t - hour_ns < x \<and> x \<le> t) (L @ [now]))) \<le> max 0 (rc_max_per_hour cfg)" for t
  proof (cases "t - hour_ns < now \<and> now \<le> t")
    case False
    then have "filter (\<lambda>x. t - hour_ns < x \<and> x \<le> t) (L @ [now]) = filter (\<lambda>x. t - hour_ns < x \<and> x \<le> t) L" by auto
    then show ?thesis using win by simp
  next
    case True
    then have "filter (\<lambda>x. t - hour_ns < x \<and> x \<le> t) old = []" using old by (auto simp: filter_empty_conv)
    moreover have "length (filter (\<lambda>x. t - hour_ns < x \<and> x \<le> t) (rr_attempts st))
        \<le> length (filterRecent (rr_attempts st) now hour_ns)"
      unfolding filterRecent_def using True by (intro filter_mono_length) auto
    ultimately show ?thesis using room True by (simp add: L)
  qed
  show ?thesis
    unfolding camera_inv_def
    by (intro conjI exI[of _ old] allI)
       (use L old le so bl gap gap' win' in \<open>auto simp: sorted_append sorted_wrt_append\<close>)
qed

lemma times_of_append: "times_of cam (log @ [(c, t)]) = times_of cam log @ (if c = cam then [t] else [])"
  by (simp add: times_of_def)

lemma rm_run_camera:
  assumes "camera_inv cfg clock (getOrCreateState cam r) (times_of cam log)" and "clock_ok clock es"
    and "1 \<le> rc_blacklist_hours cfg" and "list_all (\<lambda>e. \<not> resets cam e) es"
  shows "\<exists>clock' st. camera_inv cfg clock' st (times_of cam (snd (rm_run cfg es r log)))"
  using assms
proof (induction es arbitrary: clock r log)
  case Nil
  then show ?case by auto
next
  case (Cons e es)
  note inv = Cons.prems(1) and h = Cons.prems(3)
  obtain r' v where st: "rm_step cfg e r = (r', v)" by fastforce
  show ?case
  proof (cases e)
    case (CheckEv en rd now c status)
    then have now: "clock \<le> now" "clock_ok now es" using Cons.prems(2) by auto
    have "Check cfg en rd now c status r = (r', v)" using st CheckEv by simp
    then show ?thesis
    proof (cases rule: Check_cases)
      case (idle st')
      then have "restart_of e v = []" using CheckEv by (cases v) auto
      moreover have "camera_inv cfg now (getOrCreateState cam r') (times_of cam log)"
      proof (cases "c = cam \<and> rm_cams r' = (rm_cams r)(c \<mapsto> st')")
        case True
        then have "getOrCreateState cam r' = st'" by (simp add: getOrCreateState_def)
        then show ?thesis
          using idle(4) True camera_inv_base[OF inv now(1) h] camera_inv_state[OF camera_inv_clock[OF inv now(1)]]
          by auto
      next
        case False
        then have "getOrCreateState cam r' = getOrCreateState cam r"
          using idle(3) by (auto simp: getOrCreateState_def)
        then show ?thesis using camera_inv_clock[OF inv now(1)] by simp
      qed
      ultimately show ?thesis using Cons.IH[of now r' log] Cons.prems now st by simp
    next
      case (restarted st0 bl)
      have "camera_inv cfg now (getOrCreateState cam r') (times_of cam (log @ [(c, now)]))"
      proof (cases "c = cam")
        case True
        then have "camera_inv cfg now st0 (times_of cam log)"
          using camera_inv_base[OF inv now(1) h] restarted(2) by simp
        from camera_inv_restart[OF this restarted(5,6,7)] show ?thesis
          using True restarted(4) by (simp add: times_of_append getOrCreateState_def)
      next
        case False
        then have "getOrCreateState cam r' = getOrCreateState cam r"
          using restarted(4) by (simp add: getOrCreateState_def)
        then show ?thesis using False camera_inv_clock[OF inv now(1)] by (simp add: times_of_append)
      qed
      then show ?thesis
        using Cons.IH[of now r' "log @ [(c, now)]"] Cons.prems now restarted(1) st CheckEv by simp
    qed
  next
    case (RediscoveryEv c expiry found)
    then have "getOrCreateState cam r' = getOrCreateState cam r"
      using st Cons.prems(4) by (auto simp: rediscovered_def getOrCreateState_def put_state_def split: if_splits)
    then show ?thesis using Cons.IH[of clock r' log] Cons.prems st RediscoveryEv by simp
  next
    case (ClearEv c)
    then have "getOrCreateState cam r' = getOrCreateState cam r"
      using st Cons.prems(4)
      by (auto simp: ClearBlacklist_def getOrCreateState_def put_state_def split: option.splits)
    then show ?thesis using Cons.IH[of clock r' log] Cons.prems st ClearEv by simp
  qed
qed

section \<open>Properties\<close>

text \<open>C9: over all cameras, no closed window of one minute ever holds more automatic restarts than
  the global limit, whatever the checks, rediscoveries and cleared blacklists.\<close>

theorem restarts_globally_limited:
  assumes "clock_ok 0 es"
  shows "int (length (filter (\<lambda>x. t - minute_ns \<le> x \<and> x \<le> t) (map snd (restarts cfg es)))) \<le> max 0 (rc_global_max cfg)"
proof -
  have "global_inv cfg 0 (rm_global NewAutoRemediator)" by (simp add: global_inv_def NewAutoRemediator_def)
  then obtain c where "global_inv cfg c (map snd (restarts cfg es))"
    using rm_run_global[of cfg 0 NewAutoRemediator "[]" es] assms
    unfolding restarts_def by (auto simp: NewAutoRemediator_def)
  then show ?thesis by (simp add: global_inv_def)
qed

definition demo_rm :: rm_config where
  "demo_rm = \<lparr>rc_enabled = True, rc_max_per_hour = 1, rc_cooldown_minutes = 5, rc_blacklist_hours = 1,
     rc_global_max = 10, rc_offline_seconds = 90\<rparr>"

definition demo_checks :: "rm_event list" where
  "demo_checks = [CheckEv True False minute_ns ''a'' StatusError, CheckEv True False (2 * minute_ns) ''a'' StatusError,
     CheckEv True False (61 * minute_ns) ''a'' StatusError]"

lemma demo_clock: "clock_ok 0 demo_checks"
  by (simp add: demo_checks_def)

theorem restarts_globally_witness:
  "int (length (filter (\<lambda>x. minute_ns - minute_ns \<le> x \<and> x \<le> minute_ns) (map snd (restarts demo_rm demo_checks)))) \<le> 10"
  using restarts_globally_limited[OF demo_clock, of minute_ns demo_rm] by (simp add: demo_rm_def)



text \<open>a blacklist duration of zero or less, which the configuration check lets through when
  negative, defeats the limits of the camera: with one restart per hour and a cooldown of any
  length, a second check at the same moment restarts it again.\<close>

theorem no_blacklist_no_limit:
  assumes "rc_enabled cfg" and "rc_max_per_hour cfg = 1" and "rc_blacklist_hours cfg \<le> 0" and "2 \<le> rc_global_max cfg"
    and "0 < now"
  shows "restarts cfg [CheckEv True rd now cam StatusError, CheckEv True rd now cam StatusError] = [(cam, now), (cam, now)]"
proof -
  have e: "\<not> now < now + rc_blacklist_hours cfg * hour_ns"
    using assms(3) by (simp add: mult_nonpos_nonneg not_less)
  show ?thesis
    using assms e
    by (simp add: restarts_def Check_def status_gate_def forget_unhealthy_def getOrCreateState_def put_state_def
        NewAutoRemediator_def fresh_restart_def try_restart_def filterRecent_def blacklist_expiry_def Let_def)
qed

theorem no_blacklist_witness:
  "restarts (demo_rm\<lparr>rc_blacklist_hours := - 1\<rparr>) [CheckEv True False 5 ''a'' StatusError, CheckEv True False 5 ''a'' StatusError]
   = [(''a'', 5), (''a'', 5)]"
  by (rule no_blacklist_no_limit) (simp_all add: demo_rm_def)

end
