(* ===== verification/Health_Alerts.thy ===== *)
theory Health_Alerts
  imports Health_Remediate
begin

text \<open>
  The alert pipeline of \<open>internal/health/alerts.go\<close>: suppression of repeated events, escalation,
  the status shown per camera and the anomaly count.  The metadata text of an event is kept as
  the duration it renders.  Storage and MQTT are outputs; their errors are only logged.
\<close>

section \<open>Events\<close>

record health_event =
  he_camera :: string
  he_type :: string
  he_status :: string
  he_message :: string
  he_duration :: int
  he_created :: int

definition ConnectionLost :: string where "ConnectionLost = ''connection_lost''"
definition ConnectionRestored :: string where "ConnectionRestored = ''connection_restored''"
definition StreamAnomaly :: string where "StreamAnomaly = ''stream_anomaly''"
definition FreezeDetected :: string where "FreezeDetected = ''freeze_detected''"
definition FreezeRecovered :: string where "FreezeRecovered = ''freeze_recovered''"

definition StatusHealthy :: string where "StatusHealthy = ''healthy''"
definition StatusWarning :: string where "StatusWarning = ''warning''"
definition StatusFailed :: string where "StatusFailed = ''error''"
definition StatusUnknown :: string where "StatusUnknown = ''unknown''"

definition isAnomalyEvent :: "string \<Rightarrow> bool" where
  "isAnomalyEvent t \<longleftrightarrow> t = StreamAnomaly \<or> t = FreezeDetected"

definition isPositiveEvent :: "string \<Rightarrow> bool" where
  "isPositiveEvent t \<longleftrightarrow> t = ConnectionRestored \<or> t = FreezeRecovered"

section \<open>The pipeline\<close>

record emit_state =
  es_last :: int
  es_first :: int
  es_count :: nat

record pipeline =
  pl_cooldown :: int
  pl_mqtt :: bool
  pl_emit :: "string \<rightharpoonup> emit_state"
  pl_status :: "string \<rightharpoonup> string"
  pl_anomalies :: "string \<rightharpoonup> int list"

datatype dispatch = Stored health_event | Published string health_event

definition escalationWindow :: int where "escalationWindow = hour_ns"

definition NewAlertPipeline :: "int \<Rightarrow> bool \<Rightarrow> pipeline" where
  "NewAlertPipeline cooldown mqtt = \<lparr>pl_cooldown = cooldown, pl_mqtt = mqtt, pl_emit = Map.empty,
     pl_status = Map.empty, pl_anomalies = Map.empty\<rparr>"

definition emit_key :: "string \<Rightarrow> health_event \<Rightarrow> string" where
  "emit_key cam ev = cam @ '':'' @ he_type ev @ '':'' @ he_message ev"

definition emit_of :: "string \<Rightarrow> pipeline \<Rightarrow> emit_state" where
  "emit_of key p = (case pl_emit p key of
     None \<Rightarrow> \<lparr>es_last = 0, es_first = 0, es_count = 0\<rparr> | Some st \<Rightarrow> st)"

text \<open>The bookkeeping of an emission: an expired window starts again, the count goes up.\<close>

definition next_emit :: "int \<Rightarrow> emit_state \<Rightarrow> emit_state" where
  "next_emit now st =
     (let expired = (es_first st \<noteq> 0 \<and> now - es_first st \<ge> escalationWindow)
      in \<lparr>es_last = now, es_first = (if expired \<or> es_first st = 0 then now else es_first st),
          es_count = (if expired then 0 else es_count st) + 1\<rparr>)"

definition suppressed :: "int \<Rightarrow> string \<Rightarrow> pipeline \<Rightarrow> bool" where
  "suppressed now key p \<longleftrightarrow> es_last (emit_of key p) \<noteq> 0 \<and> now - es_last (emit_of key p) < pl_cooldown p"

definition HandleEvent ::
  "bool \<Rightarrow> bool \<Rightarrow> int \<Rightarrow> string \<Rightarrow> health_event \<Rightarrow> pipeline \<Rightarrow> pipeline \<times> dispatch list" where
  "HandleEvent has_store has_mqtt now cam ev p =
     (let key = emit_key cam ev;
          ev = (if he_created ev = 0 then ev\<lparr>he_created := now\<rparr> else ev)
      in if suppressed now key p
         then (p\<lparr>pl_emit := (pl_emit p)(key \<mapsto> emit_of key p)\<rparr>, [])
         else
           let st = next_emit now (emit_of key p);
               ev = (if es_count st > 1 \<and> \<not> isPositiveEvent (he_type ev) then ev\<lparr>he_status := StatusFailed\<rparr> else ev);
               p = p\<lparr>pl_emit := (pl_emit p)(key \<mapsto> st), pl_status := (pl_status p)(cam \<mapsto> he_status ev),
                     pl_anomalies := (if isAnomalyEvent (he_type ev)
                        then (pl_anomalies p)(cam \<mapsto> (case pl_anomalies p cam of None \<Rightarrow> [] | Some ts \<Rightarrow> ts) @ [now])
                        else pl_anomalies p)\<rparr>
           in (p, (if has_store then [Stored ev] else [])
                  @ (if pl_mqtt p \<and> has_mqtt then [Published (''health/'' @ cam) ev] else [])))"

definition GetCameraStatus :: "string \<Rightarrow> pipeline \<Rightarrow> string" where
  "GetCameraStatus cam p = (case pl_status p cam of None \<Rightarrow> StatusUnknown | Some s \<Rightarrow> s)"

definition SetCameraStatus :: "string \<Rightarrow> string \<Rightarrow> pipeline \<Rightarrow> pipeline" where
  "SetCameraStatus cam s p = p\<lparr>pl_status := (pl_status p)(cam \<mapsto> s)\<rparr>"

definition GetAnomalyCount :: "int \<Rightarrow> string \<Rightarrow> pipeline \<Rightarrow> nat" where
  "GetAnomalyCount now cam p =
     length (filter (\<lambda>t. t > now - hour_ns) (case pl_anomalies p cam of None \<Rightarrow> [] | Some ts \<Rightarrow> ts))"

definition CleanStaleAnomalies :: "int \<Rightarrow> pipeline \<Rightarrow> pipeline" where
  "CleanStaleAnomalies now p = p\<lparr>pl_anomalies := (\<lambda>cam. case pl_anomalies p cam of
      None \<Rightarrow> None
    | Some ts \<Rightarrow> (let fresh = filter (\<lambda>t. t > now - hour_ns) ts in if fresh = [] then None else Some fresh))\<rparr>"

section \<open>Suppression over a run\<close>

text \<open>Everything the pipeline is asked to do, and the log of the keys it did not suppress.\<close>

datatype pl_event =
    Report int string health_event
  | ShowStatus string string
  | Clean int

fun pl_step :: "pl_event \<Rightarrow> pipeline \<Rightarrow> pipeline" where
  "pl_step (Report now cam ev) p = fst (HandleEvent True True now cam ev p)"
| "pl_step (ShowStatus cam s) p = SetCameraStatus cam s p"
| "pl_step (Clean now) p = CleanStaleAnomalies now p"

fun passed :: "pl_event \<Rightarrow> pipeline \<Rightarrow> (string \<times> int) list" where
  "passed (Report now cam ev) p = (if suppressed now (emit_key cam ev) p then [] else [(emit_key cam ev, now)])"
| "passed _ p = []"

fun pl_log :: "pl_event list \<Rightarrow> pipeline \<Rightarrow> (string \<times> int) list" where
  "pl_log [] p = []"
| "pl_log (e # es) p = passed e p @ pl_log es (pl_step e p)"

fun pl_clock :: "int \<Rightarrow> pl_event list \<Rightarrow> bool" where
  "pl_clock clock [] = True"
| "pl_clock clock (Report now cam ev # es) = (0 < now \<and> clock \<le> now \<and> pl_clock now es)"
| "pl_clock clock (e # es) = pl_clock clock es"

lemma pl_step_cooldown [simp]: "pl_cooldown (pl_step e p) = pl_cooldown p"
  by (cases e) (auto simp: HandleEvent_def SetCameraStatus_def CleanStaleAnomalies_def Let_def)

lemma pl_step_emit:
  "es_last (emit_of key (pl_step e p)) =
     (case e of Report now cam ev \<Rightarrow> (if emit_key cam ev = key \<and> \<not> suppressed now key p then now
                                      else es_last (emit_of key p))
      | _ \<Rightarrow> es_last (emit_of key p))"
  by (cases e) (auto simp: HandleEvent_def SetCameraStatus_def CleanStaleAnomalies_def Let_def emit_of_def
      next_emit_def split: option.splits)

lemma pl_log_spaced:
  assumes "pl_clock clock es" and "es_last (emit_of key p) \<le> clock"
  shows "(\<forall>y \<in> set (times_of key (pl_log es p)). es_last (emit_of key p) \<noteq> 0 \<longrightarrow> es_last (emit_of key p) + pl_cooldown p \<le> y)
    \<and> sorted_wrt (\<lambda>x y. x + pl_cooldown p \<le> y) (times_of key (pl_log es p))"
  using assms
proof (induction es arbitrary: clock p)
  case Nil
  then show ?case by (simp add: times_of_def)
next
  case (Cons e es)
  show ?case
  proof (cases e)
    case (Report now cam ev)
    then have now: "0 < now" "clock \<le> now" "pl_clock now es" using Cons.prems by auto
    let ?p = "pl_step e p"
    have l: "es_last (emit_of key ?p) =
        (if emit_key cam ev = key \<and> \<not> suppressed now key p then now else es_last (emit_of key p))"
      using pl_step_emit[of key e p] Report by simp
    then have "es_last (emit_of key ?p) \<le> now" using Cons.prems(2) now by simp
    note IH = Cons.IH[OF now(3) this, unfolded pl_step_cooldown]
    show ?thesis
    proof (cases "emit_key cam ev = key \<and> \<not> suppressed now key p")
      case True
      then have "times_of key (pl_log (e # es) p) = now # times_of key (pl_log es ?p)"
        using Report by (simp add: times_of_def)
      moreover have "es_last (emit_of key p) \<noteq> 0 \<longrightarrow> es_last (emit_of key p) + pl_cooldown p \<le> now"
        using True by (auto simp: suppressed_def)
      ultimately show ?thesis using IH l True now Cons.prems(2) by fastforce
    next
      case False
      then have "times_of key (pl_log (e # es) p) = times_of key (pl_log es ?p)"
        using Report by (auto simp: times_of_def)
      then show ?thesis using IH l False by auto
    qed
  next
    case (ShowStatus c s)
    then have l: "es_last (emit_of key (pl_step e p)) = es_last (emit_of key p)"
      using pl_step_emit[of key e p] by simp
    show ?thesis using Cons.IH[of clock "pl_step e p", unfolded pl_step_cooldown l] Cons.prems ShowStatus by simp
  next
    case (Clean t)
    then have l: "es_last (emit_of key (pl_step e p)) = es_last (emit_of key p)"
      using pl_step_emit[of key e p] by simp
    show ?thesis using Cons.IH[of clock "pl_step e p", unfolded pl_step_cooldown l] Cons.prems Clean by simp
  qed
qed

text \<open>What a reported event that is not suppressed looks like when it leaves the pipeline.\<close>

lemma HandleEvent_out:
  assumes "HandleEvent has_store has_mqtt now cam ev p = (p', out)" and "\<not> suppressed now (emit_key cam ev) p"
  shows "\<exists>ev'. GetCameraStatus cam p' = he_status ev' \<and> he_type ev' = he_type ev \<and> he_message ev' = he_message ev
    \<and> (he_status ev' = he_status ev \<or> he_status ev' = StatusFailed \<and> \<not> isPositiveEvent (he_type ev))
    \<and> set out \<subseteq> {Stored ev', Published (''health/'' @ cam) ev'} \<and> (has_store \<longrightarrow> Stored ev' \<in> set out)"
proof -
  let ?ev = "if he_created ev = 0 then ev\<lparr>he_created := now\<rparr> else ev"
  let ?st = "next_emit now (emit_of (emit_key cam ev) p)"
  let ?ev' = "if es_count ?st > 1 \<and> \<not> isPositiveEvent (he_type ?ev) then ?ev\<lparr>he_status := StatusFailed\<rparr> else ?ev"
  have "GetCameraStatus cam p' = he_status ?ev'" and "set out \<subseteq> {Stored ?ev', Published (''health/'' @ cam) ?ev'}"
    and "has_store \<longrightarrow> Stored ?ev' \<in> set out"
    using assms by (auto simp: HandleEvent_def Let_def GetCameraStatus_def split: if_splits)
  then show ?thesis by (intro exI[of _ ?ev']) simp
qed

section \<open>Properties\<close>

text \<open>of the events with the same camera, type and message, two that reach storage and MQTT
  are at least the cooldown apart, whatever is reported in between.\<close>

theorem alerts_respect_cooldown:
  assumes "pl_clock 0 es"
  shows "sorted_wrt (\<lambda>x y. x + cooldown \<le> y) (times_of key (pl_log es (NewAlertPipeline cooldown mqtt)))"
proof -
  have "es_last (emit_of key (NewAlertPipeline cooldown mqtt)) \<le> 0"
    by (simp add: NewAlertPipeline_def emit_of_def)
  from conjunct2[OF pl_log_spaced[OF assms this]] show ?thesis by (simp add: NewAlertPipeline_def)
qed

definition demo_alert :: health_event where
  "demo_alert = \<lparr>he_camera = ''a'', he_type = ConnectionLost, he_status = StatusFailed, he_message = ''Camera offline'',
     he_duration = 5, he_created = 0\<rparr>"

theorem alerts_cooldown_witness:
  "sorted_wrt (\<lambda>x y. x + 10 \<le> y) (times_of (emit_key ''a'' demo_alert)
     (pl_log [Report 1 ''a'' demo_alert, Report 2 ''a'' demo_alert] (NewAlertPipeline 10 True)))"
  by (rule alerts_respect_cooldown) simp

text \<open>an event that passes is dispatched as it was or escalated to an error, a recovery is never
  escalated, and the status shown for the camera is the one dispatched.\<close>

theorem alerts_escalate_only_failures:
  assumes "HandleEvent has_store has_mqtt now cam ev p = (p', out)" and "\<not> suppressed now (emit_key cam ev) p"
  shows "\<exists>ev'. GetCameraStatus cam p' = he_status ev' \<and> he_type ev' = he_type ev \<and> he_message ev' = he_message ev
    \<and> (he_status ev' = he_status ev \<or> he_status ev' = StatusFailed \<and> \<not> isPositiveEvent (he_type ev))
    \<and> set out \<subseteq> {Stored ev', Published (''health/'' @ cam) ev'} \<and> (has_store \<longrightarrow> Stored ev' \<in> set out)"
  by (rule HandleEvent_out[OF assms])

theorem alerts_escalate_witness:
  "GetCameraStatus ''a'' (fst (HandleEvent True True 1 ''a'' demo_alert (NewAlertPipeline 10 True))) = StatusFailed"
proof -
  have "\<not> suppressed 1 (emit_key ''a'' demo_alert) (NewAlertPipeline 10 True)"
    by (simp add: suppressed_def NewAlertPipeline_def emit_of_def)
  from alerts_escalate_only_failures[where has_store = True and has_mqtt = True, OF surjective_pairing this]
  show ?thesis
    by (elim exE conjE disjE) (simp_all only: demo_alert_def health_event.simps)
qed

end
