(* ===== verification/Health_Monitor.thy ===== *)
theory Health_Monitor
  imports Health_Alerts Complex_Main
begin

text \<open>
  The three detectors of \<open>internal/health\<close>: loss of connection (connection.go), frozen video
  (freeze.go) and stream statistics (collector.go).  Each returns the events it hands to its
  handler.  A periodic check visits the cameras in the order of Go's map iteration, which is an
  argument (\<open>ids\<close>).  Rates are exact rationals where the code has \<open>float64\<close>.
\<close>

section \<open>Connection monitor\<close>

record conn_state =
  cn_status :: string
  cn_since :: int
  cn_alerted :: bool

record conn_monitor =
  cm_threshold :: int
  cm_overrides :: "string \<rightharpoonup> int"
  cm_cameras :: "string \<rightharpoonup> conn_state"

definition NewConnectionMonitor :: "int \<Rightarrow> conn_monitor" where
  "NewConnectionMonitor threshold = \<lparr>cm_threshold = threshold, cm_overrides = Map.empty, cm_cameras = Map.empty\<rparr>"

definition isOfflineStatus :: "string \<Rightarrow> bool" where
  "isOfflineStatus s \<longleftrightarrow> s = StatusError \<or> s = StatusReconnecting"

definition event_of :: "string \<Rightarrow> string \<Rightarrow> string \<Rightarrow> string \<Rightarrow> int \<Rightarrow> health_event" where
  "event_of cam type status msg d = \<lparr>he_camera = cam, he_type = type, he_status = status, he_message = msg,
     he_duration = d, he_created = 0\<rparr>"

text \<open>\<open>OnStatusChange\<close> for a camera that is known: its new state and the events.\<close>

definition conn_change :: "int \<Rightarrow> string \<Rightarrow> string \<Rightarrow> conn_state \<Rightarrow> conn_state \<times> health_event list" where
  "conn_change now cam status st =
     (if cn_status st = status then (st, [])
      else
        let prev = cn_status st; st = st\<lparr>cn_status := status\<rparr>;
            st = (if isOfflineStatus status then st\<lparr>cn_since := now, cn_alerted := False\<rparr> else st)
        in if isOfflineStatus prev \<and> status = StatusRecording
           then (st\<lparr>cn_alerted := False\<rparr>,
                 if cn_alerted st
                 then [event_of cam ConnectionRestored StatusHealthy ''Connection restored'' (now - cn_since st)]
                 else [])
           else (st, []))"

definition conn_OnStatusChange :: "int \<Rightarrow> string \<Rightarrow> string \<Rightarrow> conn_monitor \<Rightarrow> conn_monitor \<times> health_event list" where
  "conn_OnStatusChange now cam status m =
     (case cm_cameras m cam of
        None \<Rightarrow> (m\<lparr>cm_cameras := (cm_cameras m)(cam \<mapsto> \<lparr>cn_status = status, cn_since = now, cn_alerted = False\<rparr>)\<rparr>, [])
      | Some st \<Rightarrow>
          (case conn_change now cam status st of
             (st', evs) \<Rightarrow> (m\<lparr>cm_cameras := (cm_cameras m)(cam \<mapsto> st')\<rparr>, evs)))"

definition override_or :: "(string \<rightharpoonup> int) \<Rightarrow> int \<Rightarrow> string \<Rightarrow> int" where
  "override_or ov d cam = (case ov cam of None \<Rightarrow> d | Some t \<Rightarrow> if t > 0 then t else d)"

definition conn_check_camera :: "int \<Rightarrow> string \<Rightarrow> conn_monitor \<Rightarrow> conn_monitor \<times> health_event list" where
  "conn_check_camera now cam m =
     (case cm_cameras m cam of
        None \<Rightarrow> (m, [])
      | Some st \<Rightarrow>
          if isOfflineStatus (cn_status st) \<and> \<not> cn_alerted st
             \<and> now - cn_since st \<ge> override_or (cm_overrides m) (cm_threshold m) cam
          then (m\<lparr>cm_cameras := (cm_cameras m)(cam \<mapsto> st\<lparr>cn_alerted := True\<rparr>)\<rparr>,
                [event_of cam ConnectionLost StatusFailed ''Camera offline'' (now - cn_since st)])
          else (m, []))"

text \<open>A visit of every camera, collecting the events.\<close>

fun visit :: "(string \<Rightarrow> 's \<Rightarrow> 's \<times> health_event list) \<Rightarrow> string list \<Rightarrow> 's \<Rightarrow> 's \<times> health_event list" where
  "visit f [] s = (s, [])"
| "visit f (cam # cams) s =
     (case f cam s of (s, evs) \<Rightarrow> (case visit f cams s of (s, evs') \<Rightarrow> (s, evs @ evs')))"

definition conn_Check :: "int \<Rightarrow> string list \<Rightarrow> conn_monitor \<Rightarrow> conn_monitor \<times> health_event list" where
  "conn_Check now ids m = visit (conn_check_camera now) ids m"

definition conn_SetCameraOverride :: "string \<Rightarrow> int \<Rightarrow> conn_monitor \<Rightarrow> conn_monitor" where
  "conn_SetCameraOverride cam t m = m\<lparr>cm_overrides := (cm_overrides m)(cam \<mapsto> t)\<rparr>"

definition conn_RemoveCamera :: "string \<Rightarrow> conn_monitor \<Rightarrow> conn_monitor" where
  "conn_RemoveCamera cam m =
     m\<lparr>cm_cameras := (cm_cameras m)(cam := None), cm_overrides := (cm_overrides m)(cam := None)\<rparr>"

definition GetOfflineDuration :: "int \<Rightarrow> string \<Rightarrow> conn_monitor \<Rightarrow> int" where
  "GetOfflineDuration now cam m = (case cm_cameras m cam of
      None \<Rightarrow> 0 | Some st \<Rightarrow> if isOfflineStatus (cn_status st) then now - cn_since st else 0)"

section \<open>Freeze detector\<close>

record freeze_state =
  fz_last :: int
  fz_recording :: bool
  fz_frozen :: bool
  fz_since :: int

record freeze_detector =
  fd_timeout :: int
  fd_overrides :: "string \<rightharpoonup> int"
  fd_cameras :: "string \<rightharpoonup> freeze_state"

definition NewFreezeDetector :: "int \<Rightarrow> freeze_detector" where
  "NewFreezeDetector timeout = \<lparr>fd_timeout = timeout, fd_overrides = Map.empty, fd_cameras = Map.empty\<rparr>"

definition freeze_state_of :: "int \<Rightarrow> string \<Rightarrow> freeze_detector \<Rightarrow> freeze_state" where
  "freeze_state_of now cam f = (case fd_cameras f cam of
     None \<Rightarrow> \<lparr>fz_last = now, fz_recording = False, fz_frozen = False, fz_since = 0\<rparr> | Some st \<Rightarrow> st)"

definition put_freeze :: "string \<Rightarrow> freeze_state \<Rightarrow> freeze_detector \<Rightarrow> freeze_detector" where
  "put_freeze cam st f = f\<lparr>fd_cameras := (fd_cameras f)(cam \<mapsto> st)\<rparr>"

text \<open>The callback of \<open>OnFrame\<close>.\<close>

definition freeze_OnFrame :: "int \<Rightarrow> string \<Rightarrow> freeze_detector \<Rightarrow> freeze_detector" where
  "freeze_OnFrame now cam f = put_freeze cam ((freeze_state_of now cam f)\<lparr>fz_last := now\<rparr>) f"

definition SetRecording :: "int \<Rightarrow> string \<Rightarrow> bool \<Rightarrow> freeze_detector \<Rightarrow> freeze_detector" where
  "SetRecording now cam recording f =
     (let st = freeze_state_of now cam f
      in put_freeze cam (if recording \<and> \<not> fz_recording st
           then st\<lparr>fz_recording := recording, fz_last := now, fz_frozen := False\<rparr>
           else st\<lparr>fz_recording := recording\<rparr>) f)"

definition freeze_check_camera :: "int \<Rightarrow> string \<Rightarrow> freeze_detector \<Rightarrow> freeze_detector \<times> health_event list" where
  "freeze_check_camera now cam f =
     (case fd_cameras f cam of
        None \<Rightarrow> (f, [])
      | Some st \<Rightarrow>
          if fz_recording st \<and> \<not> fz_frozen st \<and> now - fz_last st > override_or (fd_overrides f) (fd_timeout f) cam
          then (put_freeze cam (st\<lparr>fz_frozen := True, fz_since := fz_last st\<rparr>) f,
                [event_of cam FreezeDetected StatusFailed ''Video freeze detected'' (now - fz_last st)])
          else (f, []))"

definition freeze_Check :: "int \<Rightarrow> string list \<Rightarrow> freeze_detector \<Rightarrow> freeze_detector \<times> health_event list" where
  "freeze_Check now ids f = visit (freeze_check_camera now) ids f"

definition OnFrameReceived :: "int \<Rightarrow> string \<Rightarrow> freeze_detector \<Rightarrow> freeze_detector \<times> health_event list" where
  "OnFrameReceived now cam f =
     (case fd_cameras f cam of
        None \<Rightarrow> (f, [])
      | Some st \<Rightarrow>
          if \<not> fz_frozen st then (f, [])
          else (put_freeze cam (st\<lparr>fz_frozen := False\<rparr>) f,
                [event_of cam FreezeRecovered StatusHealthy ''Video recovered from freeze'' (now - fz_since st)]))"

definition freeze_RemoveCamera :: "string \<Rightarrow> freeze_detector \<Rightarrow> freeze_detector" where
  "freeze_RemoveCamera cam f =
     f\<lparr>fd_cameras := (fd_cameras f)(cam := None), fd_overrides := (fd_overrides f)(cam := None)\<rparr>"

definition freeze_SetCameraOverride :: "string \<Rightarrow> int \<Rightarrow> freeze_detector \<Rightarrow> freeze_detector" where
  "freeze_SetCameraOverride cam t f = f\<lparr>fd_overrides := (fd_overrides f)(cam \<mapsto> t)\<rparr>"

section \<open>Stream statistics\<close>

record camera_stats =
  ct_frames :: int
  ct_bytes :: int
  ct_idrs :: int
  ct_last_idr :: int

record collector_override =
  co_bitrate :: rat
  co_min_fps :: rat
  co_max_idr :: int

text \<open>A missing streak counter reads as 0.\<close>

record collector =
  cl_bitrate :: rat
  cl_min_fps :: rat
  cl_max_idr :: int
  cl_window :: int
  cl_cameras :: "string \<rightharpoonup> camera_stats"
  cl_prev :: "string \<rightharpoonup> rat"
  cl_streak :: "string \<Rightarrow> string \<Rightarrow> nat"
  cl_overrides :: "string \<rightharpoonup> collector_override"

definition minConsecutiveChecks :: nat where "minConsecutiveChecks = 2"

definition NewStreamStatsCollector :: "rat \<Rightarrow> rat \<Rightarrow> int \<Rightarrow> int \<Rightarrow> collector" where
  "NewStreamStatsCollector bitrate minfps maxidr window = \<lparr>cl_bitrate = bitrate, cl_min_fps = minfps,
     cl_max_idr = maxidr, cl_window = window, cl_cameras = Map.empty, cl_prev = Map.empty,
     cl_streak = (\<lambda>_ _. 0), cl_overrides = Map.empty\<rparr>"

definition is_idr :: "byte list list \<Rightarrow> bool" where
  "is_idr au = (case au of
      (b # _) # _ \<Rightarrow> b AND 0x1f = 5 \<or> drop_bit 1 b AND 0x3f = 19 \<or> drop_bit 1 b AND 0x3f = 20
    | _ \<Rightarrow> False)"

definition stats_of :: "int \<Rightarrow> string \<Rightarrow> collector \<Rightarrow> camera_stats" where
  "stats_of now cam c = (case cl_cameras c cam of
     None \<Rightarrow> \<lparr>ct_frames = 0, ct_bytes = 0, ct_idrs = 0, ct_last_idr = now\<rparr> | Some st \<Rightarrow> st)"

definition put_stats :: "string \<Rightarrow> camera_stats \<Rightarrow> collector \<Rightarrow> collector" where
  "put_stats cam st c = c\<lparr>cl_cameras := (cl_cameras c)(cam \<mapsto> st)\<rparr>"

definition stats_OnFrame :: "int \<Rightarrow> string \<Rightarrow> byte list list \<Rightarrow> collector \<Rightarrow> collector" where
  "stats_OnFrame now cam au c =
     (let st = stats_of now cam c;
          st = st\<lparr>ct_frames := ct_frames st + 1, ct_bytes := ct_bytes st + int (sum_list (map length au))\<rparr>
      in put_stats cam (if is_idr au then st\<lparr>ct_last_idr := now, ct_idrs := ct_idrs st + 1\<rparr> else st) c)"

definition window_seconds :: "collector \<Rightarrow> rat" where
  "window_seconds c = (let w = of_int (cl_window c) / of_int second_ns in if w \<le> 0 then 1 else w)"

definition fps_of :: "collector \<Rightarrow> int \<Rightarrow> rat" where
  "fps_of c frames = of_int frames / window_seconds c"

definition bitrate_of :: "collector \<Rightarrow> int \<Rightarrow> rat" where
  "bitrate_of c bytes = of_int (bytes * 8) / window_seconds c"

definition set_streak :: "string \<Rightarrow> string \<Rightarrow> nat \<Rightarrow> collector \<Rightarrow> collector" where
  "set_streak cam key n c = c\<lparr>cl_streak := (cl_streak c)(cam := (cl_streak c cam)(key := n))\<rparr>"

text \<open>An anomalous check counts up and speaks from the second in a row; another resets.\<close>

definition note_anomaly :: "string \<Rightarrow> string \<Rightarrow> bool \<Rightarrow> health_event \<Rightarrow> collector \<Rightarrow> collector \<times> health_event list" where
  "note_anomaly cam key bad ev c =
     (if bad then
        let n = cl_streak c cam key + 1
        in (set_streak cam key n c, if n \<ge> minConsecutiveChecks then [ev] else [])
      else (set_streak cam key 0 c, []))"

definition anomaly_event :: "string \<Rightarrow> string \<Rightarrow> int \<Rightarrow> health_event" where
  "anomaly_event cam msg d = event_of cam StreamAnomaly StatusWarning msg d"

definition bitrate_jump :: "rat option \<Rightarrow> rat \<Rightarrow> rat \<Rightarrow> bool" where
  "bitrate_jump prev bitrate threshold = (case prev of
      None \<Rightarrow> False
    | Some p \<Rightarrow> p > 0 \<and> bitrate > 0 \<and> \<bar>bitrate - p\<bar> / p > threshold)"

definition stats_check_camera :: "int \<Rightarrow> string \<Rightarrow> collector \<Rightarrow> collector \<times> health_event list" where
  "stats_check_camera now cam c =
     (case cl_cameras c cam of
        None \<Rightarrow> (c, [])
      | Some st \<Rightarrow>
          let ov = cl_overrides c cam;
              threshold = (case ov of Some o' \<Rightarrow> if co_bitrate o' > 0 then co_bitrate o' else cl_bitrate c | None \<Rightarrow> cl_bitrate c);
              minfps = (case ov of Some o' \<Rightarrow> if co_min_fps o' > 0 then co_min_fps o' else cl_min_fps c | None \<Rightarrow> cl_min_fps c);
              maxidr = (case ov of Some o' \<Rightarrow> if co_max_idr o' > 0 then co_max_idr o' else cl_max_idr c | None \<Rightarrow> cl_max_idr c);
              frames = ct_frames st; fps = fps_of c frames; bitrate = bitrate_of c (ct_bytes st);
              c = put_stats cam (st\<lparr>ct_frames := 0, ct_bytes := 0\<rparr>) c;
              (c, e1) = note_anomaly cam ''fps'' (minfps > 0 \<and> fps < minfps \<and> frames > 0)
                          (anomaly_event cam ''Low FPS detected'' 0) c;
              prev = cl_prev c cam;
              c = c\<lparr>cl_prev := (cl_prev c)(cam \<mapsto> bitrate)\<rparr>;
              (c, e2) = note_anomaly cam ''bitrate'' (bitrate_jump prev bitrate threshold)
                          (anomaly_event cam ''Bitrate anomaly detected'' 0) c;
              (c, e3) = note_anomaly cam ''idr'' (now - ct_last_idr st > maxidr)
                          (anomaly_event cam ''IDR interval too long'' (now - ct_last_idr st)) c
          in (c, e1 @ e2 @ e3))"

text \<open>After the visit, streaks of cameras that are gone are dropped.\<close>

definition CheckAndReset :: "int \<Rightarrow> string list \<Rightarrow> collector \<Rightarrow> collector \<times> health_event list" where
  "CheckAndReset now ids c =
     (case visit (stats_check_camera now) ids c of
        (c, evs) \<Rightarrow> (c\<lparr>cl_streak := (\<lambda>cam. if cl_cameras c cam \<noteq> None then cl_streak c cam else (\<lambda>_. 0))\<rparr>, evs))"

definition stats_RemoveCamera :: "string \<Rightarrow> collector \<Rightarrow> collector" where
  "stats_RemoveCamera cam c = c\<lparr>cl_cameras := (cl_cameras c)(cam := None), cl_prev := (cl_prev c)(cam := None),
     cl_overrides := (cl_overrides c)(cam := None), cl_streak := (cl_streak c)(cam := (\<lambda>_. 0))\<rparr>"

definition stats_SetCameraOverride :: "string \<Rightarrow> rat \<Rightarrow> rat \<Rightarrow> int \<Rightarrow> collector \<Rightarrow> collector" where
  "stats_SetCameraOverride cam b f i c = c\<lparr>cl_overrides := (cl_overrides c)(cam \<mapsto>
     \<lparr>co_bitrate = b, co_min_fps = f, co_max_idr = i\<rparr>)\<rparr>"

definition ResetCameraState :: "int \<Rightarrow> string \<Rightarrow> collector \<Rightarrow> collector" where
  "ResetCameraState now cam c =
     (let st = stats_of now cam c;
          c = put_stats cam (st\<lparr>ct_last_idr := now, ct_frames := 0, ct_bytes := 0\<rparr>) c
      in c\<lparr>cl_prev := (cl_prev c)(cam := None), cl_streak := (cl_streak c)(cam := (\<lambda>_. 0))\<rparr>)"

record stream_stats =
  ss_fps :: rat
  ss_bitrate :: rat
  ss_idr_interval :: rat
  ss_frames :: int
  ss_bytes :: int
  ss_last_idr :: int

definition GetStats :: "int \<Rightarrow> string \<Rightarrow> collector \<Rightarrow> stream_stats" where
  "GetStats now cam c = (case cl_cameras c cam of
      None \<Rightarrow> \<lparr>ss_fps = 0, ss_bitrate = 0, ss_idr_interval = 0, ss_frames = 0, ss_bytes = 0, ss_last_idr = 0\<rparr>
    | Some st \<Rightarrow> \<lparr>ss_fps = fps_of c (ct_frames st), ss_bitrate = bitrate_of c (ct_bytes st),
        ss_idr_interval = of_int (now - ct_last_idr st) / of_int second_ns,
        ss_frames = ct_frames st, ss_bytes = ct_bytes st, ss_last_idr = ct_last_idr st\<rparr>)"

section \<open>Facts about connections\<close>

text \<open>A monitor event for one camera, and what a run of them emits for it.\<close>

datatype conn_event = StatusChange int string | Checked int

fun conn_step :: "string \<Rightarrow> conn_event \<Rightarrow> conn_monitor \<Rightarrow> conn_monitor \<times> health_event list" where
  "conn_step cam (StatusChange now status) m = conn_OnStatusChange now cam status m"
| "conn_step cam (Checked now) m = conn_check_camera now cam m"

fun conn_run :: "string \<Rightarrow> conn_event list \<Rightarrow> conn_monitor \<Rightarrow> health_event list" where
  "conn_run cam [] m = []"
| "conn_run cam (e # es) m = (case conn_step cam e m of (m', evs) \<Rightarrow> evs @ conn_run cam es m')"

text \<open>Flapping: the status changes between error and reconnecting, with a check after each.\<close>

fun flapping :: "int \<Rightarrow> int \<Rightarrow> bool \<Rightarrow> nat \<Rightarrow> conn_event list" where
  "flapping t d err 0 = []"
| "flapping t d err (Suc n) =
     StatusChange t (if err then StatusError else StatusReconnecting) # Checked (t + d)
       # flapping (t + d) d (\<not> err) n"

lemma flapping_silent:
  assumes "0 \<le> d" and "d < cm_threshold m" and "cm_overrides m cam = None"
    and "cm_cameras m cam = Some st" and "cn_status st = (if err then StatusReconnecting else StatusError)"
    and "\<not> cn_alerted st"
  shows "conn_run cam (flapping t d err n) m = []"
  using assms(2-)
proof (induction n arbitrary: t err m st)
  case (Suc n)
  let ?status = "if err then StatusError else StatusReconnecting"
  let ?st = "st\<lparr>cn_status := ?status, cn_since := t, cn_alerted := False\<rparr>"
  let ?m = "m\<lparr>cm_cameras := (cm_cameras m)(cam \<mapsto> ?st)\<rparr>"
  have "conn_OnStatusChange t cam ?status m = (?m, [])"
    using Suc.prems by (auto simp: conn_OnStatusChange_def conn_change_def isOfflineStatus_def Let_def)
  moreover have "conn_check_camera (t + d) cam ?m = (?m, [])"
    using Suc.prems by (simp add: conn_check_camera_def override_or_def)
  moreover have "conn_run cam (flapping (t + d) d (\<not> err) n) ?m = []"
    using Suc.prems by (intro Suc.IH[where st = ?st]) auto
  ultimately show ?case by simp
qed simp

text \<open>The invariant behind \<open>connection_lost\<close>: an alerted camera has been offline for its threshold.\<close>

lemma conn_check_lost:
  assumes "conn_check_camera now cam m = (m', evs)" and "ev \<in> set evs"
  shows "\<exists>st. cm_cameras m cam = Some st \<and> isOfflineStatus (cn_status st) \<and> \<not> cn_alerted st
    \<and> he_type ev = ConnectionLost \<and> he_camera ev = cam
    \<and> override_or (cm_overrides m) (cm_threshold m) cam \<le> now - cn_since st
    \<and> conn_check_camera later cam m' = (m', [])"
  using assms
  by (auto simp: conn_check_camera_def event_of_def split: option.splits if_splits)

section \<open>Facts about frozen video\<close>

datatype freeze_event = Frame int | Recording int | FreezeChecked int

fun freeze_step :: "string \<Rightarrow> freeze_event \<Rightarrow> freeze_detector \<Rightarrow> freeze_detector \<times> health_event list" where
  "freeze_step cam (Frame now) f = (freeze_OnFrame now cam f, [])"
| "freeze_step cam (Recording now) f = (SetRecording now cam True f, [])"
| "freeze_step cam (FreezeChecked now) f = freeze_check_camera now cam f"

fun freeze_run :: "string \<Rightarrow> freeze_event list \<Rightarrow> freeze_detector \<Rightarrow> freeze_detector \<times> health_event list" where
  "freeze_run cam [] f = (f, [])"
| "freeze_run cam (e # es) f =
     (case freeze_step cam e f of (f, evs) \<Rightarrow> (case freeze_run cam es f of (f, evs') \<Rightarrow> (f, evs @ evs')))"

lemma frozen_stays:
  assumes "fd_cameras f cam = Some st" and "fz_frozen st" and "fz_recording st"
  shows "snd (freeze_run cam es f) = []
    \<and> (\<exists>st'. fd_cameras (fst (freeze_run cam es f)) cam = Some st' \<and> fz_frozen st')"
  using assms
proof (induction es arbitrary: f st)
  case (Cons e es)
  obtain f' st' where "freeze_step cam e f = (f', [])" "fd_cameras f' cam = Some st'" "fz_frozen st'" "fz_recording st'"
    using Cons.prems
    by (cases e) (auto simp: freeze_OnFrame_def SetRecording_def freeze_check_camera_def freeze_state_of_def
        put_freeze_def Let_def)
  then show ?case using Cons.IH[of f' st'] by (auto split: prod.splits)
qed simp

section \<open>Properties\<close>

text \<open>a connection loss is reported only for a camera that has been in an offline status for at
  least its threshold, and the same incident is not reported by the next check.\<close>

theorem connection_lost_after_threshold:
  assumes "conn_check_camera now cam m = (m', evs)" and "ev \<in> set evs"
  shows "\<exists>st. cm_cameras m cam = Some st \<and> isOfflineStatus (cn_status st) \<and> \<not> cn_alerted st
    \<and> he_type ev = ConnectionLost \<and> he_camera ev = cam
    \<and> override_or (cm_overrides m) (cm_threshold m) cam \<le> now - cn_since st
    \<and> conn_check_camera later cam m' = (m', [])"
  by (rule conn_check_lost[OF assms])

definition demo_conn_monitor :: "string \<Rightarrow> conn_monitor" where
  "demo_conn_monitor status = (NewConnectionMonitor 30)\<lparr>cm_cameras :=
     [''a'' \<mapsto> \<lparr>cn_status = status, cn_since = 5, cn_alerted = False\<rparr>]\<rparr>"

theorem connection_lost_witness:
  "\<exists>st. cm_cameras (demo_conn_monitor StatusError) ''a'' = Some st \<and> 30 \<le> 40 - cn_since st"
proof -
  have "event_of ''a'' ConnectionLost StatusFailed ''Camera offline'' 35
      \<in> set (snd (conn_check_camera 40 ''a'' (demo_conn_monitor StatusError)))"
    by (simp add: conn_check_camera_def demo_conn_monitor_def NewConnectionMonitor_def isOfflineStatus_def
        override_or_def)
  from connection_lost_after_threshold[OF surjective_pairing this] show ?thesis
    by (auto simp: demo_conn_monitor_def NewConnectionMonitor_def override_or_def)
qed

text \<open>a camera that never records but flips between error and reconnecting faster than its
  threshold is never reported, however long it does so: every flip restarts the timer.\<close>

theorem flapping_never_reported:
  assumes "0 \<le> d" and "d < cm_threshold m" and "cm_overrides m cam = None"
    and "cm_cameras m cam = Some st" and "cn_status st = (if err then StatusReconnecting else StatusError)"
    and "\<not> cn_alerted st"
  shows "conn_run cam (flapping t d err n) m = []"
  by (rule flapping_silent[OF assms])

theorem flapping_witness:
  "conn_run ''a'' (flapping 100 10 False 50) (demo_conn_monitor StatusError) = []"
  by (rule flapping_never_reported[where st = "\<lparr>cn_status = StatusError, cn_since = 5, cn_alerted = False\<rparr>"])
     (simp_all add: demo_conn_monitor_def NewConnectionMonitor_def)

text \<open>once a recording camera is found frozen, neither frames nor further checks nor a repeated
  start of recording ever change that or emit anything: the recovery is only in
  OnFrameReceived, which the program does not call.\<close>

theorem frozen_never_recovers:
  assumes "fd_cameras f cam = Some st" and "fz_frozen st" and "fz_recording st"
  shows "snd (freeze_run cam es f) = []
    \<and> (\<exists>st'. fd_cameras (fst (freeze_run cam es f)) cam = Some st' \<and> fz_frozen st')"
  by (rule frozen_stays[OF assms])

theorem frozen_witness:
  "snd (freeze_run ''a'' [Frame 200, FreezeChecked 201, Recording 202] ((NewFreezeDetector 10)\<lparr>fd_cameras :=
     [''a'' \<mapsto> \<lparr>fz_last = 5, fz_recording = True, fz_frozen = True, fz_since = 5\<rparr>]\<rparr>)) = []"
  by (rule conjunct1[OF frozen_never_recovers[where
        st = "\<lparr>fz_last = 5, fz_recording = True, fz_frozen = True, fz_since = 5\<rparr>"]]) simp_all

end
