(* ===== verification/Health_Quality.thy ===== *)
theory Health_Quality
  imports Go_Prelude Health_Remediate Complex_Main
begin

text \<open>
  Connection quality over a rolling window, \<open>internal/health/quality.go\<close>: online sessions and
  failures of each camera, and the metrics computed from them.  Integer divisions of durations
  truncate towards zero (their operands are not negative here); the percentage is an exact
  rational where the code has \<open>float64\<close>.
\<close>

record session_entry =
  sn_start :: int
  sn_end :: int
  sn_duration :: int

record camera_session =
  qs_online_since :: int
  qs_offline_since :: int
  qs_sessions :: "session_entry list"
  qs_failures :: "int list"
  qs_online :: bool

record quality_tracker =
  qt_cameras :: "string \<rightharpoonup> camera_session"
  qt_window :: int

record quality =
  ql_uptime :: rat
  ql_failures :: nat
  ql_mtbf :: int
  ql_avg_session :: int
  ql_last_failure :: int
  ql_status :: string

definition NewQualityTracker :: "int \<Rightarrow> quality_tracker" where
  "NewQualityTracker window = \<lparr>qt_cameras = Map.empty, qt_window = window\<rparr>"

definition empty_session :: camera_session where
  "empty_session = \<lparr>qs_online_since = 0, qs_offline_since = 0, qs_sessions = [], qs_failures = [], qs_online = False\<rparr>"

definition OnOnline :: "int \<Rightarrow> string \<Rightarrow> quality_tracker \<Rightarrow> quality_tracker" where
  "OnOnline now cam q =
     (let s = (case qt_cameras q cam of None \<Rightarrow> empty_session | Some s \<Rightarrow> s);
          s = (if qs_online s then s else s\<lparr>qs_online := True, qs_online_since := now\<rparr>)
      in q\<lparr>qt_cameras := (qt_cameras q)(cam \<mapsto> s)\<rparr>)"

definition OnOffline :: "int \<Rightarrow> string \<Rightarrow> quality_tracker \<Rightarrow> quality_tracker" where
  "OnOffline now cam q =
     (case qt_cameras q cam of
        None \<Rightarrow> q
      | Some s \<Rightarrow>
          if \<not> qs_online s then q
          else q\<lparr>qt_cameras := (qt_cameras q)(cam \<mapsto> s\<lparr>qs_online := False, qs_offline_since := now,
             qs_sessions := qs_sessions s @ [\<lparr>sn_start = qs_online_since s, sn_end = now,
                                                sn_duration = now - qs_online_since s\<rparr>],
             qs_failures := qs_failures s @ [now]\<rparr>)\<rparr>)"

definition quality_RemoveCamera :: "string \<Rightarrow> quality_tracker \<Rightarrow> quality_tracker" where
  "quality_RemoveCamera cam q = q\<lparr>qt_cameras := (qt_cameras q)(cam := None)\<rparr>"

definition prune :: "int \<Rightarrow> camera_session \<Rightarrow> camera_session" where
  "prune start s = s\<lparr>qs_sessions := filter (\<lambda>e. \<not> sn_end e < start) (qs_sessions s),
     qs_failures := filter (\<lambda>f. \<not> f < start) (qs_failures s)\<rparr>"

text \<open>The online time inside the window that a session from \<open>a\<close> to \<open>b\<close> counts for.\<close>

definition clipped :: "int \<Rightarrow> int \<Rightarrow> int \<Rightarrow> int" where
  "clipped start a b = (let dur = b - (if a < start then start else a) in if dur > 0 then dur else 0)"

definition total_online :: "int \<Rightarrow> int \<Rightarrow> camera_session \<Rightarrow> int" where
  "total_online now start s =
     sum_list (map (\<lambda>e. clipped start (sn_start e) (sn_end e)) (filter (\<lambda>e. \<not> sn_end e < start) (qs_sessions s)))
     + (if qs_online s then clipped start (qs_online_since s) now else 0)"

definition session_durations :: "int \<Rightarrow> int \<Rightarrow> camera_session \<Rightarrow> int list" where
  "session_durations now start s =
     map sn_duration (filter (\<lambda>e. \<not> sn_end e < start) (qs_sessions s))
     @ (if qs_online s then [now - qs_online_since s] else [])"

definition uptime_percent :: "int \<Rightarrow> int \<Rightarrow> rat" where
  "uptime_percent tot window =
     (let u = (if window > 0 then of_int tot / of_int window * 100 else 0) in if u > 100 then 100 else u)"

text \<open>The scans for the first and the last failure; a zero time means none yet.\<close>

definition latest :: "int list \<Rightarrow> int" where
  "latest fs = fold (\<lambda>f l. if f > l then f else l) fs 0"

definition earliest :: "int list \<Rightarrow> int" where
  "earliest fs = fold (\<lambda>f l. if l = 0 \<or> f < l then f else l) fs 0"

definition measure_session :: "int \<Rightarrow> int \<Rightarrow> camera_session \<Rightarrow> quality" where
  "measure_session now window s =
     (let start = now - window; s = prune start s;
          fs = filter (\<lambda>f. \<not> f < start) (qs_failures s); ds = session_durations now start s
      in \<lparr>ql_uptime = uptime_percent (total_online now start s) window,
          ql_failures = length fs,
          ql_mtbf = (if length fs \<ge> 2 then (latest fs - earliest fs) div (int (length fs) - 1) else 0),
          ql_avg_session = (if ds = [] then 0 else sum_list ds div int (length ds)),
          ql_last_failure = latest fs,
          ql_status = (if qs_online s then ''online'' else ''offline'')\<rparr>)"

definition unknown_quality :: quality where
  "unknown_quality = \<lparr>ql_uptime = 0, ql_failures = 0, ql_mtbf = 0, ql_avg_session = 0, ql_last_failure = 0,
     ql_status = ''unknown''\<rparr>"

definition GetQuality :: "int \<Rightarrow> string \<Rightarrow> quality_tracker \<Rightarrow> quality_tracker \<times> quality" where
  "GetQuality now cam q =
     (case qt_cameras q cam of
        None \<Rightarrow> (q, unknown_quality)
      | Some s \<Rightarrow> (q\<lparr>qt_cameras := (qt_cameras q)(cam \<mapsto> prune (now - qt_window q) s)\<rparr>,
                   measure_session now (qt_window q) s))"

text \<open>The second copy of the computation, used with the lock held, over all cameras.\<close>

definition GetAllQuality :: "int \<Rightarrow> string list \<Rightarrow> quality_tracker \<Rightarrow> (string \<times> quality) list" where
  "GetAllQuality now ids q = map (\<lambda>cam. (cam, snd (GetQuality now cam q))) ids"

section \<open>Facts\<close>

text \<open>
  Well-formed data of a camera at \<open>clock\<close>: sessions follow each other without overlap and lie
  between positive times, one failure per session at its end, and the open session began last.
\<close>

definition session_inv :: "int \<Rightarrow> camera_session \<Rightarrow> bool" where
  "session_inv clock s \<longleftrightarrow>
     (\<forall>e \<in> set (qs_sessions s). 0 < sn_start e \<and> sn_start e \<le> sn_end e \<and> sn_end e \<le> clock
        \<and> sn_duration e = sn_end e - sn_start e)
     \<and> sorted_wrt (\<lambda>e f. sn_end e \<le> sn_start f) (qs_sessions s)
     \<and> qs_failures s = map sn_end (qs_sessions s)
     \<and> (qs_online s \<longrightarrow> 0 < qs_online_since s \<and> qs_online_since s \<le> clock
          \<and> (\<forall>e \<in> set (qs_sessions s). sn_end e \<le> qs_online_since s))"

definition tracker_inv :: "int \<Rightarrow> quality_tracker \<Rightarrow> bool" where
  "tracker_inv clock q \<longleftrightarrow> (\<forall>cam s. qt_cameras q cam = Some s \<longrightarrow> session_inv clock s)"

lemma session_inv_clock: "session_inv clock s \<Longrightarrow> clock \<le> clock' \<Longrightarrow> session_inv clock' s"
  by (fastforce simp: session_inv_def)

lemma session_inv_online:
  "session_inv clock s \<Longrightarrow> clock \<le> now \<Longrightarrow> 0 < now \<Longrightarrow>
   session_inv now (if qs_online s then s else s\<lparr>qs_online := True, qs_online_since := now\<rparr>)"
  by (fastforce simp: session_inv_def)

lemma session_inv_offline:
  assumes "session_inv clock s" and "clock \<le> now" and "qs_online s"
  shows "session_inv now (s\<lparr>qs_online := False, qs_offline_since := now,
     qs_sessions := qs_sessions s @ [\<lparr>sn_start = qs_online_since s, sn_end = now, sn_duration = now - qs_online_since s\<rparr>],
     qs_failures := qs_failures s @ [now]\<rparr>)"
  using assms by (fastforce simp: session_inv_def sorted_wrt_append)

lemma session_inv_prune: "session_inv clock s \<Longrightarrow> session_inv clock (prune start s)"
  by (auto simp: session_inv_def prune_def sorted_wrt_filter filter_map comp_def)

lemma clipped_nonneg [simp]: "0 \<le> clipped start a b"
  by (simp add: clipped_def Let_def)

lemma clipped_le: "start \<le> b \<Longrightarrow> a \<le> b \<Longrightarrow> clipped start a b = b - max start a"
  by (auto simp: clipped_def Let_def)

text \<open>Disjoint sessions that start before \<open>bound\<close> count for at most the window up to it.\<close>

lemma clipped_sum:
  assumes "sorted_wrt (\<lambda>e f. sn_end e \<le> sn_start f) es"
    and "\<forall>e \<in> set es. sn_start e \<le> sn_end e \<and> sn_end e \<le> bound \<and> start \<le> sn_end e" and "start \<le> bound"
  shows "sum_list (map (\<lambda>e. clipped start (sn_start e) (sn_end e)) es)
    \<le> bound - max start (if es = [] then bound else sn_start (hd es))"
  using assms
proof (induction es)
  case (Cons e es)
  show ?case
  proof (cases es)
    case Nil
    then show ?thesis using Cons.prems by (simp add: clipped_le)
  next
    case (Cons f fs)
    then have "sum_list (map (\<lambda>e. clipped start (sn_start e) (sn_end e)) es) \<le> bound - max start (sn_start f)"
      using Cons.IH Cons.prems by simp
    moreover have "sn_end e \<le> sn_start f" "start \<le> sn_end e" "sn_start e \<le> sn_end e"
      using Cons.prems Cons by auto
    ultimately show ?thesis by (simp add: clipped_le)
  qed
qed simp

lemma total_online_bounds:
  assumes inv: "session_inv now s" and w: "0 \<le> window"
  shows "0 \<le> total_online now (now - window) s \<and> total_online now (now - window) s \<le> window"
proof -
  let ?start = "now - window" and ?b = "if qs_online s then max (now - window) (qs_online_since s) else now"
  let ?es = "filter (\<lambda>e. \<not> sn_end e < ?start) (qs_sessions s)"
  let ?sum = "sum_list (map (\<lambda>e. clipped ?start (sn_start e) (sn_end e)) ?es)"
  have "sorted_wrt (\<lambda>e f. sn_end e \<le> sn_start f) ?es"
    using inv by (simp add: session_inv_def sorted_wrt_filter)
  moreover have "\<forall>e \<in> set ?es. sn_start e \<le> sn_end e \<and> sn_end e \<le> ?b \<and> ?start \<le> sn_end e"
    using inv by (auto simp: session_inv_def)
  ultimately have "?sum \<le> ?b - max ?start (if ?es = [] then ?b else sn_start (hd ?es))"
    using w by (intro clipped_sum) auto
  then have "?sum \<le> ?b - ?start" using w by (simp split: if_splits)
  moreover have "0 \<le> ?sum" by (rule sum_list_nonneg) auto
  moreover have "qs_online s \<Longrightarrow> clipped ?start (qs_online_since s) now = now - ?b"
    using inv w by (auto simp: session_inv_def clipped_def Let_def)
  ultimately show ?thesis
    using inv w by (auto simp: total_online_def session_inv_def split: if_splits)
qed

lemma uptime_percent_exact:
  assumes "0 \<le> tot" and "tot \<le> w" and "0 < w"
  shows "uptime_percent tot w = of_int tot / of_int w * 100 \<and> 0 \<le> uptime_percent tot w
    \<and> uptime_percent tot w \<le> 100"
proof -
  obtain r :: rat where r: "of_int tot / of_int w = r" by blast
  have "0 \<le> r" "r \<le> 1" using assms by (simp_all add: divide_le_eq flip: r)
  then have "0 \<le> r * 100 \<and> \<not> 100 < r * 100" by simp
  then show ?thesis using assms(3) by (simp only: uptime_percent_def r Let_def) simp
qed

section \<open>Runs\<close>

text \<open>The tracker's operations at the time the clock shows, which never goes back.\<close>

datatype qt_event = Online int string | Offline int string | Query int string | Removed string

fun qt_time :: "qt_event \<Rightarrow> int option" where
  "qt_time (Online now cam) = Some now"
| "qt_time (Offline now cam) = Some now"
| "qt_time (Query now cam) = Some now"
| "qt_time (Removed cam) = None"

fun qt_op :: "qt_event \<Rightarrow> quality_tracker \<Rightarrow> quality_tracker" where
  "qt_op (Online now cam) q = OnOnline now cam q"
| "qt_op (Offline now cam) q = OnOffline now cam q"
| "qt_op (Query now cam) q = fst (GetQuality now cam q)"
| "qt_op (Removed cam) q = quality_RemoveCamera cam q"

definition qt_step :: "qt_event \<Rightarrow> int \<times> quality_tracker \<Rightarrow> int \<times> quality_tracker" where
  "qt_step e cq = ((case qt_time e of None \<Rightarrow> fst cq | Some now \<Rightarrow> now), qt_op e (snd cq))"

definition qt_good :: "qt_event \<Rightarrow> int \<times> quality_tracker \<Rightarrow> bool" where
  "qt_good e cq \<longleftrightarrow> (case qt_time e of None \<Rightarrow> True | Some now \<Rightarrow> fst cq \<le> now \<and> 0 < now)"

lemma tracker_invI: "(\<And>cam s. qt_cameras q cam = Some s \<Longrightarrow> session_inv clock s) \<Longrightarrow> tracker_inv clock q"
  by (simp add: tracker_inv_def)

lemma tracker_invD: "tracker_inv clock q \<Longrightarrow> qt_cameras q cam = Some s \<Longrightarrow> session_inv clock s"
  by (simp add: tracker_inv_def)

lemma tracker_inv_put:
  assumes "tracker_inv clock q" and "clock \<le> now" and "session_inv now s"
  shows "tracker_inv now (q\<lparr>qt_cameras := (qt_cameras q)(cam \<mapsto> s)\<rparr>)"
proof (rule tracker_invI)
  fix c s' assume "qt_cameras (q\<lparr>qt_cameras := (qt_cameras q)(cam \<mapsto> s)\<rparr>) c = Some s'"
  then show "session_inv now s'"
    using assms session_inv_clock[OF tracker_invD[OF assms(1)] assms(2)] by (auto split: if_splits)
qed

lemma tracker_inv_clock: "tracker_inv clock q \<Longrightarrow> clock \<le> now \<Longrightarrow> tracker_inv now q"
  by (rule tracker_invI) (rule session_inv_clock[OF tracker_invD])

lemma qt_op_inv:
  assumes inv: "tracker_inv clock q" and good: "qt_good e (clock, q)"
  shows "tracker_inv (case qt_time e of None \<Rightarrow> clock | Some now \<Rightarrow> now) (qt_op e q)"
proof (cases e)
  case (Online now cam)
  then have now: "clock \<le> now" "0 < now" using good by (auto simp: qt_good_def)
  have "session_inv clock (case qt_cameras q cam of None \<Rightarrow> empty_session | Some s \<Rightarrow> s)"
    using tracker_invD[OF inv] by (auto simp: session_inv_def empty_session_def split: option.splits)
  from tracker_inv_put[OF inv now(1) session_inv_online[OF this now]] show ?thesis
    using Online by (simp add: OnOnline_def Let_def)
next
  case (Offline now cam)
  then have now: "clock \<le> now" using good by (simp add: qt_good_def)
  show ?thesis
  proof (cases "\<exists>s. qt_cameras q cam = Some s \<and> qs_online s")
    case True
    then obtain s where s: "qt_cameras q cam = Some s" "qs_online s" by blast
    from tracker_inv_put[OF inv now session_inv_offline[OF tracker_invD[OF inv s(1)] now s(2)]] show ?thesis
      using Offline s by (simp add: OnOffline_def)
  next
    case False
    then have "OnOffline now cam q = q" by (auto simp: OnOffline_def split: option.splits)
    then show ?thesis using Offline tracker_inv_clock[OF inv now] by simp
  qed
next
  case (Query now cam)
  then have now: "clock \<le> now" using good by (simp add: qt_good_def)
  show ?thesis
  proof (cases "qt_cameras q cam")
    case None
    then show ?thesis using Query tracker_inv_clock[OF inv now] by (simp add: GetQuality_def)
  next
    case (Some s)
    from tracker_inv_put[OF inv now session_inv_prune[OF session_inv_clock[OF tracker_invD[OF inv Some] now]]]
    show ?thesis using Query Some by (simp add: GetQuality_def)
  qed
next
  case (Removed cam)
  then show ?thesis using inv by (auto simp: quality_RemoveCamera_def tracker_inv_def split: if_splits)
qed

interpretation qt_machine: inv_machine qt_step qt_good "\<lambda>cq. tracker_inv (fst cq) (snd cq)"
  by unfold_locales (use qt_op_inv in \<open>auto simp: qt_step_def\<close>)

definition qt_run :: "qt_event list \<Rightarrow> int \<Rightarrow> int \<times> quality_tracker" where
  "qt_run es window = fold qt_step es (0, NewQualityTracker window)"

fun qt_clock :: "qt_event list \<Rightarrow> int \<times> quality_tracker \<Rightarrow> bool" where
  "qt_clock [] cq = True"
| "qt_clock (e # es) cq = (qt_good e cq \<and> qt_clock es (qt_step e cq))"

lemma qt_clock_good: "qt_clock es cq \<Longrightarrow> qt_machine.good_run es cq"
  by (induction es arbitrary: cq) simp_all

lemma qt_run_inv: "qt_clock es (0, NewQualityTracker w) \<Longrightarrow> tracker_inv (fst (qt_run es w)) (snd (qt_run es w))"
  unfolding qt_run_def
  by (rule qt_machine.run_inv[OF _ qt_clock_good]) (simp_all add: tracker_inv_def NewQualityTracker_def)

lemma qt_window_run: "qt_window (snd (qt_run es w)) = w"
proof -
  have "qt_window (qt_op e q) = qt_window q" for e q
    by (cases e) (auto simp: OnOnline_def OnOffline_def GetQuality_def quality_RemoveCamera_def Let_def
        split: option.splits)
  then have "qt_window (snd (fold qt_step es cq)) = qt_window (snd cq)" for cq
    by (induction es arbitrary: cq) (simp_all add: qt_step_def)
  then show ?thesis by (simp add: qt_run_def NewQualityTracker_def)
qed

section \<open>Properties\<close>

text \<open>after any operations under a clock that does not go back, the online time measured for a
  camera never exceeds the window, so the uptime is its exact share of the window and lies
  between 0 and 100 without the clamp.\<close>

theorem uptime_within_bounds:
  assumes "qt_clock es (0, NewQualityTracker w)" and "0 < w"
    and "qt_cameras (snd (qt_run es w)) cam = Some s" and "fst (qt_run es w) \<le> now"
  shows "ql_uptime (measure_session now w s)
      = of_int (total_online now (now - w) (prune (now - w) s)) / of_int w * 100
    \<and> 0 \<le> ql_uptime (measure_session now w s) \<and> ql_uptime (measure_session now w s) \<le> 100"
proof -
  have "session_inv now (prune (now - w) s)"
    by (rule session_inv_prune[OF session_inv_clock[OF tracker_invD[OF qt_run_inv[OF assms(1)] assms(3)] assms(4)]])
  then have t: "0 \<le> total_online now (now - w) (prune (now - w) s)"
    "total_online now (now - w) (prune (now - w) s) \<le> w"
    using total_online_bounds[of now "prune (now - w) s" w] assms(2) by auto
  have eq: "ql_uptime (measure_session now w s) = uptime_percent (total_online now (now - w) (prune (now - w) s)) w"
    by (simp add: measure_session_def Let_def)
  show ?thesis using uptime_percent_exact[OF t assms(2)] unfolding eq .
qed

theorem uptime_witness:
  "\<exists>s. qt_cameras (snd (qt_run [Online 10 ''a'', Offline 40 ''a'', Online 50 ''a''] 100)) ''a'' = Some s
     \<and> ql_uptime (measure_session 60 100 s) \<le> 100"
proof -
  have "\<exists>s. qt_cameras (snd (qt_run [Online 10 ''a'', Offline 40 ''a'', Online 50 ''a''] 100)) ''a'' = Some s"
    by (simp add: qt_run_def qt_step_def OnOnline_def OnOffline_def NewQualityTracker_def empty_session_def Let_def)
  then obtain s where s: "qt_cameras (snd (qt_run [Online 10 ''a'', Offline 40 ''a'', Online 50 ''a''] 100)) ''a'' = Some s"
    by blast
  have "ql_uptime (measure_session 60 100 s) \<le> 100"
    using uptime_within_bounds[OF _ _ s, of 60] by (simp add: qt_good_def qt_step_def qt_run_def)
  with s show ?thesis by blast
qed

end
