(* ===== verification/Health_Manager.thy ===== *)
theory Health_Manager
  imports Health_Monitor Health_Quality
begin

text \<open>
  The health manager of \<open>internal/health/manager.go\<close>: it owns the detectors, the alert pipeline,
  the restarter and two quality trackers, polls the recorders' statuses and runs one check every
  ten seconds.  Callbacks into the rest of the program (is a camera enabled, was it rediscovered)
  are arguments; the orders of map iteration are the lists \<open>ids\<close> and \<open>statuses\<close>.
\<close>

record manager =
  mg_conn :: conn_monitor
  mg_collector :: collector
  mg_freeze :: freeze_detector
  mg_pipeline :: pipeline
  mg_remediator :: "(rm_config \<times> remediator) option"
  mg_quality :: quality_tracker
  mg_quality_short :: quality_tracker
  mg_known :: "string \<rightharpoonup> string"

record health_config =
  hc_enabled :: bool
  hc_offline :: int
  hc_bitrate :: rat
  hc_min_fps :: rat
  hc_max_idr :: int
  hc_freeze :: int
  hc_cooldown :: int
  hc_mqtt :: bool
  hc_remediation :: rm_config

definition stats_window :: int where "stats_window = 30 * second_ns"
definition check_period :: int where "check_period = 10 * second_ns"

definition NewManager :: "health_config \<Rightarrow> manager option" where
  "NewManager cfg =
     (if \<not> hc_enabled cfg then None
      else Some \<lparr>mg_conn = NewConnectionMonitor (hc_offline cfg),
        mg_collector = NewStreamStatsCollector (hc_bitrate cfg) (hc_min_fps cfg) (hc_max_idr cfg) stats_window,
        mg_freeze = NewFreezeDetector (hc_freeze cfg),
        mg_pipeline = NewAlertPipeline (hc_cooldown cfg) (hc_mqtt cfg),
        mg_remediator = (if rc_enabled (hc_remediation cfg) then Some (hc_remediation cfg, NewAutoRemediator) else None),
        mg_quality = NewQualityTracker (24 * hour_ns), mg_quality_short = NewQualityTracker hour_ns,
        mg_known = Map.empty\<rparr>)"

text \<open>The events of a detector go through the pipeline, in order.\<close>

fun route :: "bool \<Rightarrow> bool \<Rightarrow> int \<Rightarrow> health_event list \<Rightarrow> pipeline \<Rightarrow> pipeline \<times> dispatch list" where
  "route st mq now [] p = (p, [])"
| "route st mq now (ev # evs) p =
     (case HandleEvent st mq now (he_camera ev) ev p of
        (p, o1) \<Rightarrow> (case route st mq now evs p of (p, o2) \<Rightarrow> (p, o1 @ o2)))"

definition handled_events :: "bool \<Rightarrow> bool \<Rightarrow> int \<Rightarrow> health_event list \<Rightarrow> manager \<Rightarrow> manager \<times> dispatch list" where
  "handled_events st mq now evs m =
     (case route st mq now evs (mg_pipeline m) of (p, out) \<Rightarrow> (m\<lparr>mg_pipeline := p\<rparr>, out))"

record health_overrides =
  ho_offline :: int
  ho_bitrate :: rat
  ho_min_fps :: rat
  ho_max_idr :: int
  ho_freeze :: int

text \<open>A recorder with a stream hub gets the two frame subscriptions, which create the states.\<close>

definition OnCameraAdded ::
  "bool \<Rightarrow> bool \<Rightarrow> int \<Rightarrow> string \<Rightarrow> bool \<Rightarrow> health_overrides option \<Rightarrow> manager \<Rightarrow> manager \<times> dispatch list" where
  "OnCameraAdded st mq now cam has_hub ov m =
     (let m = (case ov of
                 None \<Rightarrow> m
               | Some h \<Rightarrow> m\<lparr>mg_conn := conn_SetCameraOverride cam (ho_offline h) (mg_conn m),
                   mg_collector := stats_SetCameraOverride cam (ho_bitrate h) (ho_min_fps h) (ho_max_idr h) (mg_collector m),
                   mg_freeze := freeze_SetCameraOverride cam (ho_freeze h) (mg_freeze m)\<rparr>);
          m = (if has_hub
               then m\<lparr>mg_collector := put_stats cam (stats_of now cam (mg_collector m)) (mg_collector m),
                      mg_freeze := put_freeze cam (freeze_state_of now cam (mg_freeze m)) (mg_freeze m)\<rparr>
               else m);
          (c, evs) = conn_OnStatusChange now cam StatusRecording (mg_conn m);
          (m, out) = handled_events st mq now evs (m\<lparr>mg_conn := c\<rparr>)
      in (m\<lparr>mg_freeze := SetRecording now cam True (mg_freeze m),
            mg_pipeline := SetCameraStatus cam StatusHealthy (mg_pipeline m),
            mg_known := (mg_known m)(cam \<mapsto> StatusRecording)\<rparr>, out))"

definition OnCameraRemoved :: "string \<Rightarrow> manager \<Rightarrow> manager" where
  "OnCameraRemoved cam m =
     m\<lparr>mg_conn := conn_RemoveCamera cam (mg_conn m), mg_collector := stats_RemoveCamera cam (mg_collector m),
       mg_freeze := freeze_RemoveCamera cam (mg_freeze m),
       mg_quality := quality_RemoveCamera cam (mg_quality m),
       mg_quality_short := quality_RemoveCamera cam (mg_quality_short m),
       mg_pipeline := SetCameraStatus cam [] (mg_pipeline m), mg_known := (mg_known m)(cam := None)\<rparr>"

definition OnStatusChange :: "bool \<Rightarrow> bool \<Rightarrow> int \<Rightarrow> string \<Rightarrow> string \<Rightarrow> manager \<Rightarrow> manager \<times> dispatch list" where
  "OnStatusChange st mq now cam status m =
     (let (c, evs) = conn_OnStatusChange now cam status (mg_conn m);
          (m, out) = handled_events st mq now evs (m\<lparr>mg_conn := c\<rparr>);
          recording = (status = StatusRecording); track = (if recording then OnOnline else OnOffline);
          m = m\<lparr>mg_freeze := SetRecording now cam recording (mg_freeze m),
                mg_quality := track now cam (mg_quality m),
                mg_quality_short := track now cam (mg_quality_short m)\<rparr>
      in (if recording
          then m\<lparr>mg_pipeline := SetCameraStatus cam StatusHealthy (mg_pipeline m),
                 mg_collector := ResetCameraState now cam (mg_collector m)\<rparr>
          else m, out))"

fun pollStatuses :: "bool \<Rightarrow> bool \<Rightarrow> int \<Rightarrow> (string \<times> string) list \<Rightarrow> manager \<Rightarrow> manager \<times> dispatch list" where
  "pollStatuses st mq now [] m = (m, [])"
| "pollStatuses st mq now ((cam, status) # rest) m =
     (let (m, o1) = (if mg_known m cam \<noteq> None \<and> mg_known m cam \<noteq> Some status
                     then OnStatusChange st mq now cam status m else (m, []));
          (m, o2) = pollStatuses st mq now rest (m\<lparr>mg_known := (mg_known m)(cam \<mapsto> status)\<rparr>)
      in (m, o1 @ o2))"

text \<open>\<open>CheckAll\<close> over the known statuses, with the answer of the rediscovery callback.\<close>

fun CheckAll ::
  "rm_config \<Rightarrow> (string \<Rightarrow> bool) \<Rightarrow> bool \<Rightarrow> (string \<Rightarrow> bool) \<Rightarrow> int \<Rightarrow> (string \<times> string) list \<Rightarrow> remediator
   \<Rightarrow> remediator \<times> (string \<times> verdict) list" where
  "CheckAll cfg enabled has_rd found now [] r = (r, [])"
| "CheckAll cfg enabled has_rd found now ((cam, status) # rest) r =
     (let (r, v) = (case Check cfg (enabled cam) has_rd now cam status r of
                      (r, AskRediscovery expiry) \<Rightarrow> rediscovered cam expiry (found cam) r
                    | (r, v) \<Rightarrow> (r, v));
          (r, vs) = CheckAll cfg enabled has_rd found now rest r
      in (r, (cam, v) # vs))"

definition known_list :: "string list \<Rightarrow> manager \<Rightarrow> (string \<times> string) list" where
  "known_list ids m = concat (map (\<lambda>cam. case mg_known m cam of None \<Rightarrow> [] | Some s \<Rightarrow> [(cam, s)]) ids)"

text \<open>One turn of the loop in \<open>run\<close>.\<close>

definition tick ::
  "bool \<Rightarrow> bool \<Rightarrow> (string \<Rightarrow> bool) \<Rightarrow> bool \<Rightarrow> (string \<Rightarrow> bool) \<Rightarrow> int \<Rightarrow> string list \<Rightarrow> (string \<times> string) list
   \<Rightarrow> manager \<Rightarrow> manager \<times> dispatch list \<times> (string \<times> verdict) list" where
  "tick st mq enabled has_rd found now ids statuses m =
     (let (c, evs) = conn_Check now ids (mg_conn m);
          (m, o1) = handled_events st mq now evs (m\<lparr>mg_conn := c\<rparr>);
          (s, evs) = CheckAndReset now ids (mg_collector m);
          (m, o2) = handled_events st mq now evs (m\<lparr>mg_collector := s\<rparr>);
          (f, evs) = freeze_Check now ids (mg_freeze m);
          (m, o3) = handled_events st mq now evs (m\<lparr>mg_freeze := f\<rparr>);
          m = m\<lparr>mg_pipeline := CleanStaleAnomalies now (mg_pipeline m)\<rparr>;
          (m, o4) = pollStatuses st mq now statuses m
      in (case mg_remediator m of
            None \<Rightarrow> (m, o1 @ o2 @ o3 @ o4, [])
          | Some (cfg, r) \<Rightarrow>
              (case CheckAll cfg enabled has_rd found now (known_list ids m) r of
                 (r, vs) \<Rightarrow> (m\<lparr>mg_remediator := Some (cfg, r)\<rparr>, o1 @ o2 @ o3 @ o4, vs))))"

definition knownRecorderStatus :: "string \<Rightarrow> manager \<Rightarrow> string" where
  "knownRecorderStatus cam m = (case mg_known m cam of Some s \<Rightarrow> s | None \<Rightarrow> GetCameraStatus cam (mg_pipeline m))"

definition trend_of :: "quality \<Rightarrow> quality \<Rightarrow> string" where
  "trend_of long short =
     (if ql_status long = ''unknown'' \<or> ql_status short = ''unknown'' then ''stable''
      else let d = ql_uptime short - ql_uptime long in
        if d > 5 then ''improving'' else if d < - 5 then ''degrading'' else ''stable'')"

definition GetStability :: "int \<Rightarrow> string \<Rightarrow> manager \<Rightarrow> (quality \<times> string) option" where
  "GetStability now cam m =
     (let q = snd (GetQuality now cam (mg_quality m)) in
      if ql_status q = ''unknown'' then None
      else Some (q, trend_of q (snd (GetQuality now cam (mg_quality_short m)))))"

section \<open>Facts\<close>

lemma handled_events_views [simp]:
  "mg_quality (fst (handled_events st mq now evs m)) = mg_quality m"
  "mg_quality_short (fst (handled_events st mq now evs m)) = mg_quality_short m"
  "mg_known (fst (handled_events st mq now evs m)) = mg_known m"
  "mg_freeze (fst (handled_events st mq now evs m)) = mg_freeze m"
  "mg_collector (fst (handled_events st mq now evs m)) = mg_collector m"
  "mg_conn (fst (handled_events st mq now evs m)) = mg_conn m"
  "mg_remediator (fst (handled_events st mq now evs m)) = mg_remediator m"
  by (simp_all add: handled_events_def split: prod.splits)

lemma handled_events_quality:
  "handled_events st mq now evs m = (m', out) \<Longrightarrow> mg_quality m' = mg_quality m"
  using handled_events_views(1)[of st mq now evs m] by simp

lemma OnCameraAdded_quality: "mg_quality (fst (OnCameraAdded st mq now cam hub ov m)) = mg_quality m"
  by (auto simp: OnCameraAdded_def Let_def dest!: handled_events_quality split: prod.splits option.splits)

lemma OnStatusChange_quality:
  "mg_quality (fst (OnStatusChange st mq now cam status m)) =
     (if status = StatusRecording then OnOnline else OnOffline) now cam (mg_quality m)"
  by (auto simp: OnStatusChange_def Let_def dest!: handled_events_quality split: prod.splits)

lemma low_fps_reported:
  assumes "cl_cameras c cam = Some st" and "cl_overrides c cam = None" and "cl_streak c cam ''fps'' \<ge> 1"
    and "0 < ct_frames st" and "0 < cl_min_fps c" and "fps_of c (ct_frames st) < cl_min_fps c"
  shows "anomaly_event cam ''Low FPS detected'' 0 \<in> set (snd (stats_check_camera now cam c))"
  using assms
  by (simp add: stats_check_camera_def note_anomaly_def minConsecutiveChecks_def put_stats_def set_streak_def
      Let_def split: prod.splits)

section \<open>Properties\<close>

text \<open>a camera that is added while recording and then fails is not counted: the quality trackers
  learn that a camera is online only from a change to recording, so the first outage is no
  failure and the camera has no stability data.\<close>

theorem first_outage_not_counted:
  assumes "NewManager cfg = Some m0" and "status \<noteq> StatusRecording"
  shows "GetStability later cam (fst (OnStatusChange st mq now cam status
     (fst (OnCameraAdded st mq t0 cam hub ov m0)))) = None"
proof -
  have "qt_cameras (mg_quality m0) cam = None"
    using assms(1) by (auto simp: NewManager_def NewQualityTracker_def split: if_splits)
  then show ?thesis
    using assms(2)
    by (simp add: GetStability_def OnStatusChange_quality OnCameraAdded_quality OnOffline_def GetQuality_def
        unknown_quality_def)
qed

definition demo_health :: health_config where
  "demo_health = \<lparr>hc_enabled = True, hc_offline = 30, hc_bitrate = 1, hc_min_fps = 10, hc_max_idr = 100, hc_freeze = 10,
     hc_cooldown = 60, hc_mqtt = False, hc_remediation = demo_rm\<rparr>"

theorem first_outage_witness:
  "\<exists>m0. NewManager demo_health = Some m0 \<and> GetStability 9 ''a'' (fst (OnStatusChange True True 5 ''a'' StatusError
     (fst (OnCameraAdded True True 1 ''a'' True None m0)))) = None"
proof -
  obtain m0 where m: "NewManager demo_health = Some m0" by (simp add: NewManager_def demo_health_def)
  show ?thesis using first_outage_not_counted[OF m, of StatusError] m by auto
qed

text \<open>the frame rate is the frames of one ten-second check period divided by the thirty-second
  window, a third of the true rate: a camera whose true rate is above the minimum is reported
  as slow by the second check in a row.\<close>

theorem frame_rate_underestimated:
  assumes "NewManager cfg = Some m0" and "cl_window c = cl_window (mg_collector m0)"
    and "cl_cameras c cam = Some st" and "cl_overrides c cam = None" and "cl_streak c cam ''fps'' \<ge> 1"
    and "int rate * (check_period div second_ns) = ct_frames st"
    and "cl_min_fps c \<le> of_nat rate" and "of_nat rate < 3 * cl_min_fps c" and "0 < rate"
  shows "anomaly_event cam ''Low FPS detected'' 0 \<in> set (snd (stats_check_camera now cam c))"
proof (rule low_fps_reported[OF assms(3,4,5)])
  have f: "ct_frames st = int rate * 10"
    using assms(6) by (simp add: check_period_def second_ns_def)
  have w: "window_seconds c = 30"
    using assms(1,2) by (auto simp: NewManager_def NewStreamStatsCollector_def window_seconds_def stats_window_def
        second_ns_def Let_def split: if_splits)
  show "0 < ct_frames st" using f assms(9) by simp
  have "(0 :: rat) < of_nat rate" using assms(9) by simp
  then show "0 < cl_min_fps c" using assms(8) by linarith
  show "fps_of c (ct_frames st) < cl_min_fps c" using assms(8) by (simp add: fps_of_def f w)
qed

theorem frame_rate_witness:
  "\<exists>c. cl_min_fps c \<le> of_nat 15
     \<and> anomaly_event ''a'' ''Low FPS detected'' 0 \<in> set (snd (stats_check_camera 0 ''a'' c))"
proof -
  obtain m0 where m: "NewManager demo_health = Some m0" by (simp add: NewManager_def demo_health_def)
  let ?c = "(NewStreamStatsCollector 1 10 100 stats_window)\<lparr>cl_cameras := [''a'' \<mapsto>
      \<lparr>ct_frames = 150, ct_bytes = 0, ct_idrs = 0, ct_last_idr = 0\<rparr>], cl_streak := (\<lambda>_ _. 1)\<rparr>"
  have w: "cl_window ?c = cl_window (mg_collector m0)"
    using m by (auto simp: NewManager_def NewStreamStatsCollector_def split: if_splits)
  have "anomaly_event ''a'' ''Low FPS detected'' 0 \<in> set (snd (stats_check_camera 0 ''a'' ?c))"
    by (rule frame_rate_underestimated[OF m w, where rate = 15 and
          st = "\<lparr>ct_frames = 150, ct_bytes = 0, ct_idrs = 0, ct_last_idr = 0\<rparr>"])
      (simp_all add: NewStreamStatsCollector_def check_period_def second_ns_def)
  then show ?thesis by (intro exI[of _ ?c]) (simp add: NewStreamStatsCollector_def)
qed

text \<open>a removed camera is gone from every detector: no later check of it says anything, and it has
  neither stability data nor a known status.\<close>

theorem removed_camera_is_silent:
  "snd (conn_check_camera now cam (mg_conn (OnCameraRemoved cam m))) = []
   \<and> snd (stats_check_camera now cam (mg_collector (OnCameraRemoved cam m))) = []
   \<and> snd (freeze_check_camera now cam (mg_freeze (OnCameraRemoved cam m))) = []
   \<and> GetStability now cam (OnCameraRemoved cam m) = None \<and> mg_known (OnCameraRemoved cam m) cam = None"
  by (simp add: OnCameraRemoved_def conn_RemoveCamera_def stats_RemoveCamera_def freeze_RemoveCamera_def
      quality_RemoveCamera_def conn_check_camera_def stats_check_camera_def freeze_check_camera_def GetStability_def
      GetQuality_def unknown_quality_def)

end
