(* ===== verification/Stream_Hub.thy ===== *)
theory Stream_Hub
  imports Complex_Main Go_Prelude "HOL-Library.Multiset"
begin

text \<open>
  The fan-out of frames to consumers, \<open>StreamHub\<close> of \<open>internal/model/stream.go\<close>.  A consumer has a
  buffered channel (a list with the capacity the hub gives it) that its own goroutine drains.
  \<open>Broadcast\<close> and the jitter timer are steps of the hub; a consumer takes frames between the steps
  (\<open>receive\<close>), and also between the channel operations of \<open>trySendIDR\<close>: there the schedule \<open>ks\<close>
  says how many frames it takes before each receive and each send.  Iteration over the map of
  consumers follows the list \<open>ids\<close>.  Callbacks (\<open>OnDrop\<close> and its kin) are the output of a step.
\<close>

section \<open>State\<close>

record frame =
  fm_pts :: int
  fm_au :: "byte list list option"
  fm_idr :: bool

record audio_frame =
  am_pts :: int
  am_codec :: string
  am_data :: "byte list"

record consumer =
  ce_ch :: "frame list"
  ce_cap :: nat
  ce_drops :: int
  ce_sends :: int
  ce_closed :: bool

record audio_consumer =
  ac_ch :: "audio_frame list"
  ac_drops :: int
  ac_closed :: bool

record hub =
  hb_consumers :: "string \<rightharpoonup> consumer"
  hb_audio :: "string \<rightharpoonup> audio_consumer"
  hb_bufsize :: nat
  hb_warn :: rat
  hb_jitter :: bool
  hb_jsize :: nat
  hb_jbuf :: "frame list"
  hb_jlast :: int
  hb_reorders :: int
  hb_timer :: bool

datatype hub_out =
    Delivered string frame
  | AudioDelivered string audio_frame
  | OnDrop string
  | OnDropRate string rat
  | OnBroadcast bool
  | OnBufferDepth string nat
  | OnJitterReorder
  | OnJitterDepth nat
  | OnJitterFlush nat

definition NewStreamHub :: hub where
  "NewStreamHub = \<lparr>hb_consumers = Map.empty, hb_audio = Map.empty, hb_bufsize = 150, hb_warn = 3 / 10,
     hb_jitter = False, hb_jsize = 5, hb_jbuf = [], hb_jlast = 0, hb_reorders = 0, hb_timer = False\<rparr>"

definition put_consumer :: "string \<Rightarrow> consumer \<Rightarrow> hub \<Rightarrow> hub" where
  "put_consumer cid e h = h\<lparr>hb_consumers := (hb_consumers h)(cid \<mapsto> e)\<rparr>"

section \<open>Subscriptions\<close>

definition new_consumer :: "nat \<Rightarrow> consumer" where
  "new_consumer n = \<lparr>ce_ch = [], ce_cap = n, ce_drops = 0, ce_sends = 0, ce_closed = False\<rparr>"

text \<open>\<open>Subscribe\<close> returns whether it was accepted.\<close>

definition Subscribe :: "string \<Rightarrow> hub \<Rightarrow> hub \<times> bool" where
  "Subscribe cid h =
     (if hb_consumers h cid \<noteq> None then (h, False)
      else (put_consumer cid (new_consumer (hb_bufsize h)) h, True))"

text \<open>The goroutine delivers what is still buffered before \<open>Unsubscribe\<close> returns.\<close>

definition Unsubscribe :: "string \<Rightarrow> hub \<Rightarrow> hub \<times> hub_out list" where
  "Unsubscribe cid h =
     (case hb_consumers h cid of
        None \<Rightarrow> (h, [])
      | Some e \<Rightarrow> (h\<lparr>hb_consumers := (hb_consumers h)(cid := None)\<rparr>, map (Delivered cid) (ce_ch e)))"

text \<open>One turn of \<open>drain\<close>.\<close>

definition receive :: "string \<Rightarrow> hub \<Rightarrow> hub \<times> hub_out list" where
  "receive cid h =
     (case hb_consumers h cid of
        None \<Rightarrow> (h, [])
      | Some e \<Rightarrow> (case ce_ch e of
            [] \<Rightarrow> (h, [])
          | f # q \<Rightarrow> (put_consumer cid (e\<lparr>ce_ch := q\<rparr>) h, [Delivered cid f])))"

section \<open>Distribution\<close>

text \<open>\<open>trySendIDR n ks cap msg q\<close>: \<open>n\<close> iterations are left; the result is the frames the consumer
  took meanwhile and the queue.  Each pair of the schedule is for one iteration.\<close>

fun trySendIDR :: "nat \<Rightarrow> (nat \<times> nat) list \<Rightarrow> nat \<Rightarrow> frame \<Rightarrow> frame list \<Rightarrow> frame list \<times> frame list" where
  "trySendIDR 0 ks cap msg q =
     (let a = (case ks of [] \<Rightarrow> 0 | k # _ \<Rightarrow> fst k); q' = drop a q
      in (take a q, if length q' < cap then q' @ [msg] else q'))"
| "trySendIDR (Suc n) ks cap msg q =
     (let (a, b) = (case ks of [] \<Rightarrow> (0, 0) | k # _ \<Rightarrow> k) in
      case drop a q of
        [] \<Rightarrow> (take a q, [])
      | old # q1 \<Rightarrow>
          let q2 = drop b q1; taken = take a q @ take b q1 in
          if fm_idr old then
            (if length q2 < cap
             then (case trySendIDR n (tl ks) cap msg (q2 @ [old]) of (t, q3) \<Rightarrow> (taken @ t, q3))
             else (taken, q2))
          else (taken, if length q2 < cap then q2 @ [msg] else q2))"

definition checkDropRate :: "rat \<Rightarrow> string \<Rightarrow> consumer \<Rightarrow> hub_out list" where
  "checkDropRate warn cid e =
     (let n = ce_drops e + ce_sends e in
      if ce_drops e mod 100 \<noteq> 0 \<or> n = 0 then []
      else if of_int (ce_drops e) / of_int n > warn then [OnDropRate cid (of_int (ce_drops e) / of_int n)]
      else [])"

definition send_entry :: "rat \<Rightarrow> (nat \<times> nat) list \<Rightarrow> string \<Rightarrow> frame \<Rightarrow> consumer \<Rightarrow> consumer \<times> hub_out list" where
  "send_entry warn ks cid msg e =
     (if length (ce_ch e) < ce_cap e
      then (e\<lparr>ce_ch := ce_ch e @ [msg], ce_sends := ce_sends e + 1\<rparr>, [])
      else if fm_idr msg
      then (case trySendIDR (ce_cap e) ks (ce_cap e) msg (ce_ch e) of
              (t, q) \<Rightarrow> (e\<lparr>ce_ch := q\<rparr>, map (Delivered cid) t))
      else let e = e\<lparr>ce_drops := ce_drops e + 1\<rparr> in (e, OnDrop cid # checkDropRate warn cid e))"

definition send_one :: "(string \<Rightarrow> (nat \<times> nat) list) \<Rightarrow> string \<Rightarrow> frame \<Rightarrow> hub \<Rightarrow> hub \<times> hub_out list" where
  "send_one sched cid msg h =
     (case hb_consumers h cid of
        None \<Rightarrow> (h, [])
      | Some e \<Rightarrow>
          if ce_closed e then (h, [])
          else (case send_entry (hb_warn h) (sched cid) cid msg e of
                  (e, out) \<Rightarrow> (put_consumer cid e h, out @ [OnBufferDepth cid (length (ce_ch e))])))"

fun distributeFrame :: "(string \<Rightarrow> (nat \<times> nat) list) \<Rightarrow> string list \<Rightarrow> frame \<Rightarrow> hub \<Rightarrow> hub \<times> hub_out list" where
  "distributeFrame sched [] msg h = (h, [])"
| "distributeFrame sched (cid # ids) msg h =
     (case send_one sched cid msg h of
        (h, o1) \<Rightarrow> (case distributeFrame sched ids msg h of (h, o2) \<Rightarrow> (h, o1 @ o2)))"

section \<open>Jitter buffer\<close>

text \<open>\<open>sort.Slice\<close> on at most twelve elements is insertion sort, so equal time stamps keep their
  order.  A frame without data (a nil slice) is not distributed.\<close>

definition detectDisorder :: "int \<Rightarrow> hub \<Rightarrow> hub \<times> bool \<times> hub_out list" where
  "detectDisorder pts h =
     (if hb_jlast h > 0 \<and> pts < hb_jlast h
      then (h\<lparr>hb_reorders := hb_reorders h + 1, hb_jitter := True, hb_jlast := 0\<rparr>, True, [OnJitterReorder])
      else (h\<lparr>hb_jlast := pts\<rparr>, False, []))"

definition flushJitterBuffer :: "hub \<Rightarrow> hub \<times> frame list \<times> hub_out list" where
  "flushJitterBuffer h =
     (if hb_jbuf h = [] then (h, [], [])
      else (h\<lparr>hb_jbuf := [], hb_timer := False\<rparr>, sort_key fm_pts (hb_jbuf h),
            [OnJitterFlush (length (hb_jbuf h)), OnJitterDepth 0]))"

fun distribute_all :: "(string \<Rightarrow> (nat \<times> nat) list) \<Rightarrow> string list \<Rightarrow> frame list \<Rightarrow> hub \<Rightarrow> hub \<times> hub_out list" where
  "distribute_all sched ids [] h = (h, [])"
| "distribute_all sched ids (f # fs) h =
     (case (if fm_au f \<noteq> None then distributeFrame sched ids f h else (h, [])) of
        (h, o1) \<Rightarrow> (case distribute_all sched ids fs h of (h, o2) \<Rightarrow> (h, o1 @ o2)))"

definition flush_and_send :: "(string \<Rightarrow> (nat \<times> nat) list) \<Rightarrow> string list \<Rightarrow> hub \<Rightarrow> hub \<times> hub_out list" where
  "flush_and_send sched ids h =
     (case flushJitterBuffer h of
        (h, fs, o1) \<Rightarrow> (case distribute_all sched ids fs h of (h, o2) \<Rightarrow> (h, o1 @ o2)))"

definition bufferAndMaybeFlush ::
  "(string \<Rightarrow> (nat \<times> nat) list) \<Rightarrow> string list \<Rightarrow> frame \<Rightarrow> hub \<Rightarrow> hub \<times> hub_out list" where
  "bufferAndMaybeFlush sched ids f h =
     (let h = h\<lparr>hb_jbuf := hb_jbuf h @ [f]\<rparr>; o1 = [OnJitterDepth (length (hb_jbuf h))] in
      if length (hb_jbuf h) \<ge> hb_jsize h
      then (case flush_and_send sched ids h of (h, o2) \<Rightarrow> (h, o1 @ o2))
      else (h\<lparr>hb_timer := (hb_jbuf h \<noteq> [])\<rparr>, o1))"

definition Broadcast ::
  "(string \<Rightarrow> (nat \<times> nat) list) \<Rightarrow> string list \<Rightarrow> frame \<Rightarrow> hub \<Rightarrow> hub \<times> hub_out list" where
  "Broadcast sched ids f h =
     (let (h, buffered, o1) = (if hb_jitter h then (h, True, []) else detectDisorder (fm_pts f) h);
          (h, o2) = (if buffered then bufferAndMaybeFlush sched ids f h else distributeFrame sched ids f h)
      in (h, OnBroadcast (fm_idr f) # o1 @ o2))"

text \<open>The timer of \<open>resetJitterBufferTimer\<close> fires.\<close>

definition timer_fires :: "(string \<Rightarrow> (nat \<times> nat) list) \<Rightarrow> string list \<Rightarrow> hub \<Rightarrow> hub \<times> hub_out list" where
  "timer_fires sched ids h = (if hb_timer h then flush_and_send sched ids h else (h, []))"

section \<open>Counters and audio\<close>

definition Drops :: "string \<Rightarrow> hub \<Rightarrow> int" where
  "Drops cid h = (case hb_consumers h cid of None \<Rightarrow> 0 | Some e \<Rightarrow> ce_drops e)"

definition Sends :: "string \<Rightarrow> hub \<Rightarrow> int" where
  "Sends cid h = (case hb_consumers h cid of None \<Rightarrow> 0 | Some e \<Rightarrow> ce_sends e)"

definition DropRate :: "string \<Rightarrow> hub \<Rightarrow> rat" where
  "DropRate cid h =
     (case hb_consumers h cid of
        None \<Rightarrow> 0
      | Some e \<Rightarrow> let n = ce_drops e + ce_sends e in
          if n = 0 then 0 else of_int (ce_drops e) / of_int n)"

definition SubscribeAudio :: "string \<Rightarrow> hub \<Rightarrow> hub \<times> bool" where
  "SubscribeAudio cid h =
     (if hb_audio h cid \<noteq> None then (h, False)
      else (h\<lparr>hb_audio := (hb_audio h)(cid \<mapsto> \<lparr>ac_ch = [], ac_drops = 0, ac_closed = False\<rparr>)\<rparr>, True))"

definition UnsubscribeAudio :: "string \<Rightarrow> hub \<Rightarrow> hub \<times> hub_out list" where
  "UnsubscribeAudio cid h =
     (case hb_audio h cid of
        None \<Rightarrow> (h, [])
      | Some e \<Rightarrow> (h\<lparr>hb_audio := (hb_audio h)(cid := None)\<rparr>, map (AudioDelivered cid) (ac_ch e)))"

definition audioBuffer :: nat where "audioBuffer = 50"

fun BroadcastAudio :: "string list \<Rightarrow> audio_frame \<Rightarrow> hub \<Rightarrow> hub \<times> hub_out list" where
  "BroadcastAudio [] f h = (h, [])"
| "BroadcastAudio (cid # ids) f h =
     (let (h, o1) =
        (case hb_audio h cid of
           None \<Rightarrow> (h, [])
         | Some e \<Rightarrow>
             if ac_closed e then (h, [])
             else if length (ac_ch e) < audioBuffer
             then (h\<lparr>hb_audio := (hb_audio h)(cid \<mapsto> e\<lparr>ac_ch := ac_ch e @ [f]\<rparr>)\<rparr>, [])
             else (h\<lparr>hb_audio := (hb_audio h)(cid \<mapsto> e\<lparr>ac_drops := ac_drops e + 1\<rparr>)\<rparr>, [OnDrop cid]));
        (h, o2) = BroadcastAudio ids f h
      in (h, o1 @ o2))"

definition AudioDrops :: "string \<Rightarrow> hub \<Rightarrow> int" where
  "AudioDrops cid h = (case hb_audio h cid of None \<Rightarrow> 0 | Some e \<Rightarrow> ac_drops e)"

section \<open>Runs\<close>

datatype hub_op =
    Sub string
  | Unsub string
  | Recv string
  | Cast "string \<Rightarrow> (nat \<times> nat) list" "string list" frame
  | Timer "string \<Rightarrow> (nat \<times> nat) list" "string list"
  | SubAudio string
  | UnsubAudio string
  | CastAudio "string list" audio_frame

fun hub_step :: "hub_op \<Rightarrow> hub \<Rightarrow> hub \<times> hub_out list" where
  "hub_step (Sub cid) h = (fst (Subscribe cid h), [])"
| "hub_step (Unsub cid) h = Unsubscribe cid h"
| "hub_step (Recv cid) h = receive cid h"
| "hub_step (Cast sched ids f) h = Broadcast sched ids f h"
| "hub_step (Timer sched ids) h = timer_fires sched ids h"
| "hub_step (SubAudio cid) h = (fst (SubscribeAudio cid h), [])"
| "hub_step (UnsubAudio cid) h = UnsubscribeAudio cid h"
| "hub_step (CastAudio ids f) h = BroadcastAudio ids f h"

definition hub_next :: "hub_op \<Rightarrow> hub \<Rightarrow> hub" where
  "hub_next e h = fst (hub_step e h)"

definition hub_run :: "hub_op list \<Rightarrow> hub" where
  "hub_run es = fold hub_next es NewStreamHub"

section \<open>Making room for an IDR frame\<close>

abbreviation idrs :: "frame list \<Rightarrow> frame multiset" where
  "idrs q \<equiv> mset (filter fm_idr q)"

lemma idrs_take_drop: "idrs (take a q) + idrs (drop a q) = idrs q"
proof -
  have "idrs (take a q @ drop a q) = idrs (take a q) + idrs (drop a q)"
    by (simp only: filter_append mset_append)
  then show ?thesis by simp
qed

lemma drop_shorter:
  assumes "drop a q = old # q1" and "length q \<le> cap"
  shows "length (drop b q1) < cap"
proof -
  have "length q1 < length q" using arg_cong[OF assms(1), of length] by simp
  then show ?thesis using assms(2) by simp
qed

text \<open>The shape of an iteration, with the channel operations that cannot fail resolved.\<close>

lemma trySendIDR_cases:
  assumes "length q \<le> cap"
  obtains (empty) a where "drop a q = []" and "trySendIDR (Suc n) ks cap msg q = (take a q, [])"
  | (idr) a b old q1 where "drop a q = old # q1" and "fm_idr old" and "length (drop b q1 @ [old]) \<le> cap"
      and "trySendIDR (Suc n) ks cap msg q =
        (let r = trySendIDR n (tl ks) cap msg (drop b q1 @ [old]) in (take a q @ take b q1 @ fst r, snd r))"
  | (other) a b old q1 where "drop a q = old # q1" and "\<not> fm_idr old" and "length (drop b q1 @ [msg]) \<le> cap"
      and "trySendIDR (Suc n) ks cap msg q = (take a q @ take b q1, drop b q1 @ [msg])"
proof -
  obtain a b where ab: "(case ks of [] \<Rightarrow> (0, 0) | k # _ \<Rightarrow> k) = (a, b)" by fastforce
  show ?thesis
  proof (cases "drop a q")
    case Nil
    then show ?thesis using empty[of a] ab by simp
  next
    case (Cons old q1)
    have l: "length (drop b q1) < cap" by (rule drop_shorter[OF Cons assms])
    then have l': "length (drop b q1 @ [m]) \<le> cap" for m by simp
    show ?thesis
    proof (cases "fm_idr old")
      case True
      show ?thesis
        by (rule idr[OF Cons True l']) (use ab Cons True l in \<open>simp add: Let_def split: prod.split\<close>)
    next
      case False
      show ?thesis
        by (rule other[OF Cons False l']) (use ab Cons False l in \<open>simp add: Let_def\<close>)
    qed
  qed
qed

lemma trySendIDR_length:
  "length q \<le> cap \<Longrightarrow> length (snd (trySendIDR n ks cap msg q)) \<le> cap"
proof (induction n arbitrary: ks q)
  case 0
  have "length (drop a q) \<le> cap" for a using 0 by simp
  then show ?case unfolding trySendIDR.simps Let_def by (simp add: Suc_le_eq del: length_drop)
next
  case (Suc n)
  from Suc.prems show ?case
    by (cases rule: trySendIDR_cases[of q cap n ks msg]) (simp_all add: Suc.IH Let_def del: trySendIDR.simps)
qed

lemma trySendIDR_keeps:
  "length q \<le> cap \<Longrightarrow>
   idrs q \<subseteq># idrs (fst (trySendIDR n ks cap msg q)) + idrs (snd (trySendIDR n ks cap msg q))"
proof (induction n arbitrary: ks q)
  case 0
  have "idrs q \<subseteq># idrs (take a q) + idrs (if length (drop a q) < cap then drop a q @ [msg] else drop a q)" for a
    using idrs_take_drop[of a q] by simp
  then show ?case unfolding trySendIDR.simps Let_def fst_conv snd_conv .
next
  case (Suc n)
  from Suc.prems show ?case
  proof (cases rule: trySendIDR_cases[of q cap n ks msg])
    case (empty a)
    then show ?thesis using idrs_take_drop[of a q] by simp
  next
    case (idr a b old q1)
    have "idrs (drop b q1 @ [old]) \<subseteq># idrs (fst (trySendIDR n (tl ks) cap msg (drop b q1 @ [old])))
        + idrs (snd (trySendIDR n (tl ks) cap msg (drop b q1 @ [old])))"
      by (rule Suc.IH[OF idr(3)])
    then have "idrs (take a q) + idrs (take b q1) + idrs (drop b q1 @ [old])
        \<subseteq># idrs (take a q) + idrs (take b q1) + (idrs (fst (trySendIDR n (tl ks) cap msg (drop b q1 @ [old])))
        + idrs (snd (trySendIDR n (tl ks) cap msg (drop b q1 @ [old]))))"
      by (rule subset_mset.add_left_mono)
    moreover have "idrs q = idrs (take a q) + idrs (take b q1) + idrs (drop b q1 @ [old])"
      using idrs_take_drop[of a q] idrs_take_drop[of b q1] idr(1,2) by (simp add: ac_simps)
    ultimately show ?thesis unfolding idr(4) Let_def by (simp add: ac_simps)
  next
    case (other a b old q1)
    have "idrs q = idrs (take a q) + (idrs (take b q1) + idrs (drop b q1))"
      using idrs_take_drop[of a q] idrs_take_drop[of b q1] other(1,2) by simp
    then show ?thesis unfolding other(4) by simp
  qed
qed

text \<open>Without a consumer in between: the first frame that is not an IDR goes, and the IDR frames in
  front of it move behind the rest.\<close>

lemma trySendIDR_quiet:
  assumes "length (p @ x # q) \<le> cap" and "\<forall>f\<in>set p. fm_idr f" and "\<not> fm_idr x" and "length p < n"
  shows "trySendIDR n [] cap msg (p @ x # q) = ([], q @ p @ [msg])"
  using assms
proof (induction p arbitrary: q n)
  case Nil
  then show ?case by (cases n) simp_all
next
  case (Cons f p)
  then obtain m where n: "n = Suc m" "length p < m" by (cases n) auto
  have "trySendIDR m [] cap msg (p @ x # (q @ [f])) = ([], (q @ [f]) @ p @ [msg])"
    using Cons.prems n by (intro Cons.IH) simp_all
  then show ?case using Cons.prems n by simp
qed

lemma trySendIDR_all_idr:
  assumes "length (p @ q) = cap" and "\<forall>f\<in>set (p @ q). fm_idr f"
  shows "trySendIDR (length p) [] cap msg (p @ q) = ([], q @ p)"
  using assms
proof (induction p arbitrary: q)
  case Nil
  then show ?case by simp
next
  case (Cons f p)
  have "trySendIDR (length p) [] cap msg (p @ (q @ [f])) = ([], (q @ [f]) @ p)"
    using Cons.prems by (intro Cons.IH) simp_all
  then show ?case using Cons.prems by simp
qed

section \<open>Invariant\<close>

text \<open>Every queue respects its capacity, and the jitter buffer is never full between two steps and
  holds frames exactly when the timer that will flush it is armed.\<close>

definition hub_inv :: "hub \<Rightarrow> bool" where
  "hub_inv h \<longleftrightarrow>
     (\<forall>cid e. hb_consumers h cid = Some e \<longrightarrow> length (ce_ch e) \<le> ce_cap e \<and> \<not> ce_closed e)
     \<and> (\<forall>cid e. hb_audio h cid = Some e \<longrightarrow> length (ac_ch e) \<le> audioBuffer)
     \<and> length (hb_jbuf h) < hb_jsize h \<and> (hb_timer h \<longleftrightarrow> hb_jbuf h \<noteq> [])"

definition consumers_ok :: "hub \<Rightarrow> bool" where
  "consumers_ok h \<longleftrightarrow>
     (\<forall>cid e. hb_consumers h cid = Some e \<longrightarrow> length (ce_ch e) \<le> ce_cap e \<and> \<not> ce_closed e)"

definition rest_of :: "hub \<Rightarrow> (string \<rightharpoonup> audio_consumer) \<times> nat \<times> frame list \<times> bool" where
  "rest_of h = (hb_audio h, hb_jsize h, hb_jbuf h, hb_timer h)"

lemma send_entry_ok:
  assumes "length (ce_ch e) \<le> ce_cap e" and "\<not> ce_closed e" and "send_entry warn ks cid msg e = (e', out)"
  shows "length (ce_ch e') \<le> ce_cap e' \<and> \<not> ce_closed e'"
  using assms trySendIDR_length[OF assms(1), of "ce_cap e" ks msg]
  by (auto simp: send_entry_def Let_def split: if_splits prod.splits)

lemma send_one_ok: "consumers_ok h \<Longrightarrow> consumers_ok (fst (send_one sched cid msg h))"
  by (auto simp: send_one_def consumers_ok_def put_consumer_def split: option.splits prod.splits if_splits
      dest!: send_entry_ok[rotated 2])

lemma send_one_rest [simp]: "rest_of (fst (send_one sched cid msg h)) = rest_of h"
  by (simp add: send_one_def rest_of_def put_consumer_def split: option.splits prod.splits)

lemma distributeFrame_Cons [simp]:
  "fst (distributeFrame sched (cid # ids) msg h) = fst (distributeFrame sched ids msg (fst (send_one sched cid msg h)))"
  by (simp split: prod.split)

lemma distributeFrame_ok: "consumers_ok h \<Longrightarrow> consumers_ok (fst (distributeFrame sched ids msg h))"
  by (induction ids arbitrary: h) (simp_all add: send_one_ok del: distributeFrame.simps(2))

lemma distributeFrame_rest [simp]: "rest_of (fst (distributeFrame sched ids msg h)) = rest_of h"
  by (induction ids arbitrary: h) (simp_all del: distributeFrame.simps(2))

lemma distribute_all_Cons [simp]:
  "fst (distribute_all sched ids (f # fs) h) =
     fst (distribute_all sched ids fs (if fm_au f \<noteq> None then fst (distributeFrame sched ids f h) else h))"
  by (auto split: prod.split)

lemma distribute_all_ok: "consumers_ok h \<Longrightarrow> consumers_ok (fst (distribute_all sched ids fs h))"
  by (induction fs arbitrary: h) (simp_all add: distributeFrame_ok del: distribute_all.simps(2))

lemma distribute_all_rest [simp]: "rest_of (fst (distribute_all sched ids fs h)) = rest_of h"
  by (induction fs arbitrary: h) (simp_all del: distribute_all.simps(2))

lemma consumers_ok_upd [simp]:
  "consumers_ok (h\<lparr>hb_jbuf := b\<rparr>) = consumers_ok h" "consumers_ok (h\<lparr>hb_timer := t\<rparr>) = consumers_ok h"
  "consumers_ok (h\<lparr>hb_jlast := l\<rparr>) = consumers_ok h" "consumers_ok (h\<lparr>hb_audio := a\<rparr>) = consumers_ok h"
  by (simp_all add: consumers_ok_def)

lemma flush_and_send_fst:
  "fst (flush_and_send sched ids h) =
     (if hb_jbuf h = [] then h
      else fst (distribute_all sched ids (sort_key fm_pts (hb_jbuf h)) (h\<lparr>hb_jbuf := [], hb_timer := False\<rparr>)))"
  by (simp add: flush_and_send_def flushJitterBuffer_def split: prod.split)

lemma bufferAndMaybeFlush_fst:
  "fst (bufferAndMaybeFlush sched ids f h) =
     (if length (hb_jbuf h) + 1 \<ge> hb_jsize h
      then fst (flush_and_send sched ids (h\<lparr>hb_jbuf := hb_jbuf h @ [f]\<rparr>))
      else h\<lparr>hb_jbuf := hb_jbuf h @ [f], hb_timer := True\<rparr>)"
  by (simp add: bufferAndMaybeFlush_def Let_def split: prod.split)

lemma Broadcast_fst:
  "fst (Broadcast sched ids f h) =
     (if hb_jitter h then fst (bufferAndMaybeFlush sched ids f h)
      else case detectDisorder (fm_pts f) h of (h, buffered, _) \<Rightarrow>
        if buffered then fst (bufferAndMaybeFlush sched ids f h) else fst (distributeFrame sched ids f h))"
  by (simp add: Broadcast_def Let_def split: prod.split)

text \<open>The invariant in two halves: the queues, and the rest of the state.\<close>

definition rest_ok :: "(string \<rightharpoonup> audio_consumer) \<times> nat \<times> frame list \<times> bool \<Rightarrow> bool" where
  "rest_ok r = (case r of (au, n, b, t) \<Rightarrow>
     (\<forall>cid e. au cid = Some e \<longrightarrow> length (ac_ch e) \<le> audioBuffer) \<and> length b < n \<and> (t \<longleftrightarrow> b \<noteq> []))"

lemma hub_inv_halves: "hub_inv h \<longleftrightarrow> consumers_ok h \<and> rest_ok (rest_of h)"
  by (auto simp: hub_inv_def consumers_ok_def rest_ok_def rest_of_def)

lemma hub_inv_rest:
  "consumers_ok h' \<Longrightarrow> rest_of h' = rest_of h \<Longrightarrow> hub_inv h \<Longrightarrow> hub_inv h'"
  by (simp add: hub_inv_halves)

lemma flush_and_send_inv:
  assumes "consumers_ok h" and "rest_ok (hb_audio h, hb_jsize h, [], False)" and "hb_timer h \<longrightarrow> hb_jbuf h \<noteq> []"
  shows "hub_inv (fst (flush_and_send sched ids h))"
proof (cases "hb_jbuf h = []")
  case True
  then show ?thesis using assms by (simp add: flush_and_send_fst hub_inv_halves rest_of_def)
next
  case False
  let ?h = "h\<lparr>hb_jbuf := [], hb_timer := False\<rparr>"
  have "rest_of ?h = (hb_audio h, hb_jsize h, [], False)" by (simp add: rest_of_def)
  then show ?thesis
    using False assms(1,2) distribute_all_ok[of ?h] by (simp add: flush_and_send_fst hub_inv_halves)
qed

lemma rest_ok_empty: "rest_ok (au, n, b, t) \<Longrightarrow> rest_ok (au, n, [], False)"
  by (auto simp: rest_ok_def)

lemma bufferAndMaybeFlush_inv:
  assumes "hub_inv h"
  shows "hub_inv (fst (bufferAndMaybeFlush sched ids f h))"
proof -
  have c: "consumers_ok h" and r: "rest_ok (hb_audio h, hb_jsize h, hb_jbuf h, hb_timer h)"
    using assms by (simp_all add: hub_inv_halves rest_of_def)
  show ?thesis
  proof (cases "length (hb_jbuf h) + 1 \<ge> hb_jsize h")
    case True
    then show ?thesis
      using c rest_ok_empty[OF r] by (simp add: bufferAndMaybeFlush_fst flush_and_send_inv)
  next
    case False
    then show ?thesis
      using c r by (simp add: bufferAndMaybeFlush_fst hub_inv_halves rest_of_def rest_ok_def)
  qed
qed

lemma detectDisorder_inv:
  "hub_inv h \<Longrightarrow> hub_inv (fst (detectDisorder pts h))"
  by (simp add: detectDisorder_def hub_inv_def)

lemma Broadcast_inv:
  assumes "hub_inv h"
  shows "hub_inv (fst (Broadcast sched ids f h))"
proof -
  obtain h' b o1 where d: "detectDisorder (fm_pts f) h = (h', b, o1)" by (metis prod_cases3)
  have "hub_inv h'" using detectDisorder_inv[OF assms, of "fm_pts f"] d by simp
  then have "hub_inv (fst (distributeFrame sched ids f h'))"
    by (rule hub_inv_rest[rotated 2]) (use \<open>hub_inv h'\<close> in \<open>simp_all add: hub_inv_halves distributeFrame_ok\<close>)
  then show ?thesis
    using assms d \<open>hub_inv h'\<close> by (simp add: Broadcast_fst bufferAndMaybeFlush_inv)
qed

lemma BroadcastAudio_inv: "hub_inv h \<Longrightarrow> hub_inv (fst (BroadcastAudio ids f h))"
proof (induction ids arbitrary: h)
  case Nil
  then show ?case by simp
next
  case (Cons cid ids)
  show ?case
  proof (cases "hb_audio h cid")
    case None
    then show ?thesis using Cons.IH[OF Cons.prems] by (simp split: prod.split)
  next
    case (Some e)
    let ?sent = "h\<lparr>hb_audio := (hb_audio h)(cid \<mapsto> e\<lparr>ac_ch := ac_ch e @ [f]\<rparr>)\<rparr>"
    let ?drop = "h\<lparr>hb_audio := (hb_audio h)(cid \<mapsto> e\<lparr>ac_drops := ac_drops e + 1\<rparr>)\<rparr>"
    have "length (ac_ch e) < audioBuffer \<Longrightarrow> hub_inv ?sent" and "hub_inv ?drop"
      using Cons.prems Some by (auto simp: hub_inv_def)
    then show ?thesis using Cons.IH[of ?sent] Cons.IH[of ?drop] Cons.IH[OF Cons.prems] Some
      by (auto split: prod.split)
  qed
qed

lemma subscriptions_inv:
  assumes "hub_inv h"
  shows "hub_inv (fst (Subscribe cid h))" and "hub_inv (fst (Unsubscribe cid h))" and "hub_inv (fst (receive cid h))"
    and "hub_inv (fst (SubscribeAudio cid h))" and "hub_inv (fst (UnsubscribeAudio cid h))"
proof -
  show "hub_inv (fst (Subscribe cid h))"
    using assms by (simp add: Subscribe_def put_consumer_def new_consumer_def hub_inv_def)
  show "hub_inv (fst (Unsubscribe cid h))"
    using assms by (simp add: Unsubscribe_def hub_inv_def split: option.split)
  show "hub_inv (fst (receive cid h))"
    using assms by (fastforce simp: receive_def put_consumer_def hub_inv_def split: option.split list.split)
  show "hub_inv (fst (SubscribeAudio cid h))"
    using assms by (simp add: SubscribeAudio_def hub_inv_def)
  show "hub_inv (fst (UnsubscribeAudio cid h))"
    using assms by (simp add: UnsubscribeAudio_def hub_inv_def split: option.split)
qed

lemma timer_fires_inv:
  assumes "hub_inv h"
  shows "hub_inv (fst (timer_fires sched ids h))"
proof -
  have "hub_inv (fst (flush_and_send sched ids h))"
    using assms by (intro flush_and_send_inv) (auto simp: hub_inv_def consumers_ok_def rest_ok_def)
  then show ?thesis using assms by (simp add: timer_fires_def)
qed

lemma hub_next_inv: "hub_inv h \<Longrightarrow> hub_inv (hub_next e h)"
  by (cases e)
    (simp_all add: hub_next_def subscriptions_inv timer_fires_inv Broadcast_inv BroadcastAudio_inv)

lemma NewStreamHub_inv: "hub_inv NewStreamHub"
  by (simp add: hub_inv_def NewStreamHub_def)

interpretation hub_machine: inv_machine hub_next "\<lambda>_ _. True" hub_inv
  by unfold_locales (rule hub_next_inv)

lemma hub_run_inv: "hub_inv (hub_run es)"
  unfolding hub_run_def by (rule hub_machine.run_inv_always) (simp_all add: NewStreamHub_inv)

section \<open>What a consumer gets\<close>

fun delivered_one :: "string \<Rightarrow> hub_out \<Rightarrow> frame list" where
  "delivered_one cid (Delivered c f) = (if c = cid then [f] else [])"
| "delivered_one cid _ = []"

definition delivered :: "string \<Rightarrow> hub_out list \<Rightarrow> frame list" where
  "delivered cid out = concat (map (delivered_one cid) out)"

definition queue :: "string \<Rightarrow> hub \<Rightarrow> frame list" where
  "queue cid h = (case hb_consumers h cid of None \<Rightarrow> [] | Some e \<Rightarrow> ce_ch e)"

lemma delivered_simps [simp]:
  "delivered cid [] = []" "delivered cid (x # out) = delivered_one cid x @ delivered cid out"
  "delivered cid (o1 @ o2) = delivered cid o1 @ delivered cid o2"
  by (simp_all add: delivered_def)

lemma delivered_map [simp]: "delivered cid (map (Delivered c) fs) = (if c = cid then fs else [])"
  by (induction fs) simp_all

lemma delivered_rate [simp]: "delivered cid (checkDropRate w c e) = []"
  by (simp add: checkDropRate_def Let_def)

text \<open>No IDR frame is lost: what was queued is delivered or still queued.\<close>

definition keeps :: "hub \<Rightarrow> hub \<times> hub_out list \<Rightarrow> bool" where
  "keeps h r \<longleftrightarrow> (\<forall>cid. idrs (queue cid h) \<subseteq># idrs (delivered cid (snd r)) + idrs (queue cid (fst r)))"

lemma keeps_refl: "keeps h (h, out)"
  by (simp add: keeps_def)

lemma keeps_trans:
  assumes "keeps h (h1, o1)" and "keeps h1 (h2, o2)"
  shows "keeps h (h2, o1 @ o2)"
  unfolding keeps_def
proof
  fix cid
  have "idrs (queue cid h) \<subseteq># idrs (delivered cid o1) + idrs (queue cid h1)"
    using assms(1) by (simp add: keeps_def)
  also have "\<dots> \<subseteq># idrs (delivered cid o1) + (idrs (delivered cid o2) + idrs (queue cid h2))"
    using assms(2) by (intro subset_mset.add_left_mono) (simp add: keeps_def)
  finally show "idrs (queue cid h) \<subseteq># idrs (delivered cid (snd (h2, o1 @ o2))) + idrs (queue cid (fst (h2, o1 @ o2)))"
    by (simp add: ac_simps)
qed

lemma keeps_same: "hb_consumers h' = hb_consumers h \<Longrightarrow> keeps h (h', out)"
  by (simp add: keeps_def queue_def)

lemma keeps_put:
  assumes "hb_consumers h cid = Some e"
    and "idrs (ce_ch e) \<subseteq># idrs (delivered cid out) + idrs (ce_ch e')"
  shows "keeps h (put_consumer cid e' h, out)"
  using assms by (auto simp: keeps_def queue_def put_consumer_def)

lemma send_one_keeps:
  assumes "consumers_ok h"
  shows "keeps h (send_one sched cid msg h)"
proof (cases "hb_consumers h cid")
  case None
  then show ?thesis by (simp add: send_one_def keeps_refl)
next
  case (Some e)
  with assms have l: "length (ce_ch e) \<le> ce_cap e" "\<not> ce_closed e" by (auto simp: consumers_ok_def)
  obtain e' out where s: "send_entry (hb_warn h) (sched cid) cid msg e = (e', out)" by fastforce
  have "idrs (ce_ch e) \<subseteq># idrs (delivered cid out) + idrs (ce_ch e')"
    using s trySendIDR_keeps[OF l(1), of "ce_cap e" "sched cid" msg]
    by (auto simp: send_entry_def Let_def split: if_splits prod.splits)
  then have "keeps h (put_consumer cid e' h, out @ [OnBufferDepth cid (length (ce_ch e'))])"
    by (intro keeps_put[OF Some]) simp
  then show ?thesis using Some l s by (simp add: send_one_def)
qed

lemma distributeFrame_keeps: "consumers_ok h \<Longrightarrow> keeps h (distributeFrame sched ids msg h)"
proof (induction ids arbitrary: h)
  case Nil
  then show ?case by (simp add: keeps_refl)
next
  case (Cons cid ids)
  obtain h1 o1 h2 o2 where s: "send_one sched cid msg h = (h1, o1)" and d: "distributeFrame sched ids msg h1 = (h2, o2)"
    by fastforce
  have "keeps h (h1, o1)" using send_one_keeps[OF Cons.prems, of sched cid msg] s by simp
  moreover have "keeps h1 (h2, o2)"
    using Cons.IH[of h1] d send_one_ok[OF Cons.prems, of sched cid msg] s by simp
  ultimately show ?case using s d by (simp add: keeps_trans)
qed

lemma distribute_all_keeps: "consumers_ok h \<Longrightarrow> keeps h (distribute_all sched ids fs h)"
proof (induction fs arbitrary: h)
  case Nil
  then show ?case by (simp add: keeps_refl)
next
  case (Cons f fs)
  let ?r = "if fm_au f \<noteq> None then distributeFrame sched ids f h else (h, [])"
  obtain h1 o1 h2 o2 where s: "?r = (h1, o1)" and d: "distribute_all sched ids fs h1 = (h2, o2)" by fastforce
  have "keeps h ?r" using distributeFrame_keeps[OF Cons.prems] by (simp add: keeps_refl)
  then have "keeps h (h1, o1)" using s by simp
  moreover have "consumers_ok (fst ?r)" using distributeFrame_ok[OF Cons.prems] Cons.prems by simp
  then have "keeps h1 (h2, o2)" using Cons.IH[of h1] d s by simp
  ultimately have "keeps h (h2, o1 @ o2)" by (rule keeps_trans)
  then show ?case using s d by (simp only: distribute_all.simps prod.case)
qed

lemma flush_and_send_keeps:
  assumes "consumers_ok h"
  shows "keeps h (flush_and_send sched ids h)"
proof -
  obtain h1 fs o1 where f: "flushJitterBuffer h = (h1, fs, o1)" by (metis prod_cases3)
  obtain h2 o2 where d: "distribute_all sched ids fs h1 = (h2, o2)" by fastforce
  have "hb_consumers h1 = hb_consumers h" using f by (auto simp: flushJitterBuffer_def split: if_splits)
  then have "consumers_ok h1" "keeps h (h1, o1)" using assms by (simp_all add: consumers_ok_def keeps_same)
  then have "keeps h (h2, o1 @ o2)" using distribute_all_keeps[of h1 sched ids fs] d keeps_trans by metis
  then show ?thesis using f d by (simp add: flush_and_send_def)
qed

lemma keeps_from:
  "hb_consumers h1 = hb_consumers h \<Longrightarrow> keeps h1 (h2, o2) \<Longrightarrow> keeps h (h2, o1 @ o2)"
  by (rule keeps_trans[of h h1 o1]) (simp_all add: keeps_same)

lemma bufferAndMaybeFlush_keeps:
  assumes "consumers_ok h"
  shows "keeps h (bufferAndMaybeFlush sched ids f h)"
proof -
  let ?h = "h\<lparr>hb_jbuf := hb_jbuf h @ [f]\<rparr>"
  obtain h2 o2 where r: "flush_and_send sched ids ?h = (h2, o2)" by fastforce
  have "keeps ?h (h2, o2)" using flush_and_send_keeps[of ?h sched ids] assms r by simp
  then have "keeps h (h2, [OnJitterDepth (length (hb_jbuf ?h))] @ o2)" by (rule keeps_from[rotated]) simp
  then show ?thesis using r by (simp add: bufferAndMaybeFlush_def Let_def keeps_same)
qed

lemma Broadcast_keeps:
  assumes "consumers_ok h"
  shows "keeps h (Broadcast sched ids f h)"
proof -
  obtain h1 b o1 where d: "(if hb_jitter h then (h, True, []) else detectDisorder (fm_pts f) h) = (h1, b, o1)"
    by (metis prod_cases3)
  then have c: "hb_consumers h1 = hb_consumers h" by (auto simp: detectDisorder_def split: if_splits)
  then have ok: "consumers_ok h1" using assms by (simp add: consumers_ok_def)
  obtain h2 o2 where r: "(if b then bufferAndMaybeFlush sched ids f h1 else distributeFrame sched ids f h1) = (h2, o2)"
    by fastforce
  have "keeps h1 (h2, o2)"
    unfolding r[symmetric] using bufferAndMaybeFlush_keeps[OF ok] distributeFrame_keeps[OF ok] by simp
  then have "keeps h (h2, (OnBroadcast (fm_idr f) # o1) @ o2)" by (rule keeps_from[OF c])
  then show ?thesis using d r by (simp add: Broadcast_def Let_def)
qed

lemma BroadcastAudio_consumers: "hb_consumers (fst (BroadcastAudio ids f h)) = hb_consumers h"
proof (induction ids arbitrary: h)
  case Nil
  then show ?case by simp
next
  case (Cons cid ids)
  have "BroadcastAudio ids f h' = (x, y) \<Longrightarrow> hb_consumers x = hb_consumers h'" for h' x y
    using Cons.IH[of h'] by simp
  then show ?case by (auto simp: Let_def split: prod.splits option.splits if_splits)
qed

lemma hub_step_keeps:
  assumes "hub_inv h"
  shows "keeps h (hub_step e h)"
proof -
  have ok: "consumers_ok h" using assms by (simp add: hub_inv_halves)
  show ?thesis
  proof (cases e)
    case (CastAudio ids f)
    then show ?thesis
      using keeps_same[OF BroadcastAudio_consumers[of ids f h], of "snd (BroadcastAudio ids f h)"] by simp
  next
    case (Sub cid)
    then show ?thesis by (auto simp: Subscribe_def keeps_def queue_def put_consumer_def)
  next
    case (Unsub cid)
    then show ?thesis by (auto simp: Unsubscribe_def keeps_def queue_def split: option.split)
  next
    case (Recv cid)
    then show ?thesis by (auto simp: receive_def keeps_def queue_def put_consumer_def split: option.split list.split)
  next
    case (SubAudio cid)
    then show ?thesis by (simp add: SubscribeAudio_def keeps_same)
  next
    case (UnsubAudio cid)
    then show ?thesis by (simp add: UnsubscribeAudio_def keeps_same split: option.split)
  next
    case (Timer sched ids)
    then show ?thesis using flush_and_send_keeps[OF ok] by (simp add: timer_fires_def keeps_refl)
  next
    case (Cast sched ids f)
    then show ?thesis using Broadcast_keeps[OF ok] by simp
  qed
qed

fun hub_log :: "hub_op list \<Rightarrow> hub \<Rightarrow> hub_out list" where
  "hub_log [] h = []"
| "hub_log (e # es) h = snd (hub_step e h) @ hub_log es (hub_next e h)"

lemma hub_log_keeps: "hub_inv h \<Longrightarrow> keeps h (fold hub_next es h, hub_log es h)"
proof (induction es arbitrary: h)
  case Nil
  then show ?case by (simp add: keeps_refl)
next
  case (Cons e es)
  have "keeps h (hub_next e h, snd (hub_step e h))" using hub_step_keeps[OF Cons.prems] by (simp add: hub_next_def)
  from keeps_trans[OF this Cons.IH[OF hub_next_inv[OF Cons.prems]]] show ?case by simp
qed

section \<open>The order after a flush\<close>

lemma send_one_room:
  assumes "hb_consumers h cid = Some e" and "\<not> ce_closed e"
    and "length (ce_ch e) < ce_cap e"
  shows "\<exists>e'. hb_consumers (fst (send_one sched c msg h)) cid = Some e' \<and> \<not> ce_closed e' \<and> ce_cap e' = ce_cap e
    \<and> ce_ch e' = (if c = cid then ce_ch e @ [msg] else ce_ch e)"
  using assms
  by (auto simp: send_one_def send_entry_def put_consumer_def split: option.split prod.split)

lemma send_one_other:
  "c \<noteq> cid \<Longrightarrow> hb_consumers (fst (send_one sched c msg h)) cid = hb_consumers h cid"
  by (simp add: send_one_def put_consumer_def split: option.split prod.split)

lemma distributeFrame_other:
  "cid \<notin> set ids \<Longrightarrow> hb_consumers (fst (distributeFrame sched ids msg h)) cid = hb_consumers h cid"
  by (induction ids arbitrary: h) (auto simp: send_one_other simp del: distributeFrame.simps(2))

lemma distributeFrame_room:
  assumes "hb_consumers h cid = Some e" and "\<not> ce_closed e" and "length (ce_ch e) < ce_cap e"
    and "cid \<in> set ids" and "distinct ids"
  shows "\<exists>e'. hb_consumers (fst (distributeFrame sched ids msg h)) cid = Some e' \<and> \<not> ce_closed e'
    \<and> ce_cap e' = ce_cap e \<and> ce_ch e' = ce_ch e @ [msg]"
  using assms
proof (induction ids arbitrary: h e)
  case Nil
  then show ?case by simp
next
  case (Cons c ids)
  show ?case
  proof (cases "c = cid")
    case True
    with Cons.prems have "cid \<notin> set ids" by simp
    then show ?thesis
      using send_one_room[OF Cons.prems(1-3), of sched c msg] True
      by (simp add: distributeFrame_other del: distributeFrame.simps(2))
  next
    case False
    with Cons.prems show ?thesis
      using Cons.IH[of "fst (send_one sched c msg h)" e]
      by (simp add: send_one_other del: distributeFrame.simps(2))
  qed
qed

lemma distribute_all_room:
  assumes "hb_consumers h cid = Some e" and "\<not> ce_closed e" and "length (ce_ch e) + length fs \<le> ce_cap e"
    and "cid \<in> set ids" and "distinct ids" and "\<forall>f\<in>set fs. fm_au f \<noteq> None"
  shows "queue cid (fst (distribute_all sched ids fs h)) = ce_ch e @ fs"
  using assms
proof (induction fs arbitrary: h e)
  case Nil
  then show ?case by (simp add: queue_def)
next
  case (Cons f fs)
  have "length (ce_ch e) < ce_cap e" using Cons.prems(3) by simp
  from distributeFrame_room[OF Cons.prems(1,2) this Cons.prems(4,5), of sched f]
  obtain e' where e': "hb_consumers (fst (distributeFrame sched ids f h)) cid = Some e'" "\<not> ce_closed e'"
    "ce_cap e' = ce_cap e" "ce_ch e' = ce_ch e @ [f]" by blast
  have "length (ce_ch e') + length fs \<le> ce_cap e'" using e' Cons.prems(3) by simp
  from Cons.IH[OF e'(1,2) this Cons.prems(4,5)] show ?case
    using Cons.prems(6) e'(4) by (simp del: distribute_all.simps(2))
qed

definition cast_all :: "(string \<Rightarrow> (nat \<times> nat) list) \<Rightarrow> string list \<Rightarrow> frame list \<Rightarrow> hub \<Rightarrow> hub" where
  "cast_all sched ids fs h = fold (\<lambda>f h. fst (Broadcast sched ids f h)) fs h"

lemma cast_all_buffers:
  assumes "hb_jitter h" and "length (hb_jbuf h) + length fs < hb_jsize h"
  shows "cast_all sched ids fs h = (if fs = [] then h else h\<lparr>hb_jbuf := hb_jbuf h @ fs, hb_timer := True\<rparr>)"
  using assms
  by (induction fs arbitrary: h) (simp_all add: cast_all_def Broadcast_fst bufferAndMaybeFlush_fst)

lemma cast_all_flushes:
  assumes "hb_jitter h" and "hb_jbuf h = []" and "length fs = hb_jsize h" and "fs \<noteq> []"
    and "hb_consumers h cid = Some e" and "\<not> ce_closed e" and "length (ce_ch e) + length fs \<le> ce_cap e"
    and "cid \<in> set ids" and "distinct ids" and "\<forall>f\<in>set fs. fm_au f \<noteq> None"
  shows "queue cid (cast_all sched ids fs h) = ce_ch e @ sort_key fm_pts fs"
proof -
  obtain gs g where fs: "fs = gs @ [g]" using assms(4) by (cases fs rule: rev_cases) auto
  let ?h = "if gs = [] then h else h\<lparr>hb_jbuf := hb_jbuf h @ gs, hb_timer := True\<rparr>"
  have b: "cast_all sched ids gs h = ?h" using assms(1-3) fs by (intro cast_all_buffers) simp_all
  have h: "hb_jbuf ?h = gs" "hb_jitter ?h" "hb_jsize ?h = hb_jsize h" "hb_consumers ?h = hb_consumers h"
    using assms(1,2) by simp_all
  have "cast_all sched ids fs h = fst (Broadcast sched ids g ?h)"
    using b by (simp add: fs cast_all_def)
  also have "\<dots> = fst (distribute_all sched ids (sort_key fm_pts fs) (?h\<lparr>hb_jbuf := [], hb_timer := False\<rparr>))"
    using h assms(3) fs by (simp add: Broadcast_fst bufferAndMaybeFlush_fst flush_and_send_fst)
  finally show ?thesis
    using distribute_all_room[of "?h\<lparr>hb_jbuf := [], hb_timer := False\<rparr>" cid e "sort_key fm_pts fs" ids sched]
      assms(5-10) h(4) by simp
qed

section \<open>Properties\<close>


text \<open>C15: the queue of every consumer stays within its capacity, and between two operations the jitter
  buffer is not full and its timer is armed exactly when frames wait in it, so none is stranded.\<close>

theorem hub_stays_bounded:
  "(\<forall>e. hb_consumers (hub_run es) cid = Some e \<longrightarrow> length (ce_ch e) \<le> ce_cap e)
   \<and> length (hb_jbuf (hub_run es)) < hb_jsize (hub_run es)
   \<and> (hb_timer (hub_run es) \<longleftrightarrow> hb_jbuf (hub_run es) \<noteq> [])"
  using hub_run_inv[of es] by (auto simp: hub_inv_def)

theorem hub_stays_bounded_witness:
  "\<exists>e. hb_consumers (hub_run [Sub ''a'']) ''a'' = Some e \<and> length (ce_ch e) \<le> ce_cap e"
proof -
  have "\<exists>e. hb_consumers (hub_run [Sub ''a'']) ''a'' = Some e"
    by (simp add: hub_run_def hub_next_def Subscribe_def NewStreamHub_def put_consumer_def)
  then show ?thesis using hub_stays_bounded[of "[Sub ''a'']" "''a''"] by blast
qed

text \<open>C16: once disorder was seen, the next frames are held until the jitter buffer is full and then
  reach a consumer with room in the order of their time stamps, each exactly once.\<close>

theorem jitter_buffer_sorts:
  assumes "hb_jitter h" and "hb_jbuf h = []" and "length fs = hb_jsize h" and "fs \<noteq> []"
    and "hb_consumers h cid = Some e" and "\<not> ce_closed e" and "length (ce_ch e) + length fs \<le> ce_cap e"
    and "cid \<in> set ids" and "distinct ids" and "\<forall>f\<in>set fs. fm_au f \<noteq> None"
  shows "\<exists>gs. queue cid (cast_all sched ids fs h) = ce_ch e @ gs \<and> sorted (map fm_pts gs) \<and> mset gs = mset fs"
  by (rule exI[of _ "sort_key fm_pts fs"]) (simp add: cast_all_flushes[OF assms])

definition demo_frame :: "int \<Rightarrow> bool \<Rightarrow> frame" where
  "demo_frame t idr = \<lparr>fm_pts = t, fm_au = Some [[1]], fm_idr = idr\<rparr>"

theorem jitter_buffer_witness:
  "\<exists>gs. queue ''a'' (cast_all (\<lambda>_. []) [''a''] (map (\<lambda>t. demo_frame t False) [5, 3, 4, 2, 1])
      ((put_consumer ''a'' (new_consumer 150) NewStreamHub)\<lparr>hb_jitter := True\<rparr>)) = gs
    \<and> sorted (map fm_pts gs)"
proof -
  have "\<exists>gs. queue ''a'' (cast_all (\<lambda>_. []) [''a''] (map (\<lambda>t. demo_frame t False) [5, 3, 4, 2, 1])
      ((put_consumer ''a'' (new_consumer 150) NewStreamHub)\<lparr>hb_jitter := True\<rparr>)) = ce_ch (new_consumer 150) @ gs
    \<and> sorted (map fm_pts gs) \<and> mset gs = mset (map (\<lambda>t. demo_frame t False) [5, 3, 4, 2, 1])"
    by (rule jitter_buffer_sorts)
      (simp_all add: NewStreamHub_def put_consumer_def new_consumer_def demo_frame_def)
  then show ?thesis by (auto simp: new_consumer_def)
qed

text \<open>when an IDR frame arrives at a full queue, the IDR frames at its head are moved behind the
  frames queued after them, so the consumer gets them out of order; the frame that is evicted is
  the first that is not an IDR, and neither it nor the frame sent is counted.\<close>

theorem idr_eviction_reorders:
  assumes "ce_ch e = p @ x # q" and "length (ce_ch e) = ce_cap e"
    and "\<forall>f\<in>set p. fm_idr f" and "\<not> fm_idr x" and "fm_idr msg"
  shows "send_entry warn [] cid msg e = (e\<lparr>ce_ch := q @ p @ [msg]\<rparr>, [])"
proof -
  have "trySendIDR (ce_cap e) [] (ce_cap e) msg (p @ x # q) = ([], q @ p @ [msg])"
    using assms by (intro trySendIDR_quiet) (simp_all flip: assms(2))
  then show ?thesis using assms by (simp add: send_entry_def)
qed

theorem idr_eviction_witness:
  "ce_ch (fst (send_entry 1 [] ''a'' (demo_frame 4 True)
      ((new_consumer 3)\<lparr>ce_ch := [demo_frame 1 True, demo_frame 2 False, demo_frame 3 False]\<rparr>)))
   = [demo_frame 3 False, demo_frame 1 True, demo_frame 4 True]"
  using idr_eviction_reorders[of "(new_consumer 3)\<lparr>ce_ch := [demo_frame 1 True, demo_frame 2 False, demo_frame 3 False]\<rparr>"
      "[demo_frame 1 True]" "demo_frame 2 False" "[demo_frame 3 False]" "demo_frame 4 True" 1 "''a''"]
  by (simp add: new_consumer_def demo_frame_def)

end
