(* ===== verification/Bounded_Log.thy ===== *)
theory Bounded_Log
  imports Go_Prelude
begin

text \<open>
  The contract of a bounded buffer that never refuses an entry: it shows the last entries that
  were put into it, oldest first, as many as it has room for.  The ring of the service log and the
  channels of the event bus implement it.
\<close>

definition last_n :: "nat \<Rightarrow> 'a list \<Rightarrow> 'a list" where
  "last_n n xs = drop (length xs - n) xs"

lemma length_last_n [simp]: "length (last_n n xs) = min n (length xs)"
  by (simp add: last_n_def)

lemma last_n_all [simp]: "length xs \<le> n \<Longrightarrow> last_n n xs = xs"
  by (simp add: last_n_def)

lemma last_n_absorb: "last_n n (last_n n xs @ ys) = last_n n (xs @ ys)"
  by (cases "length xs \<le> n") (simp_all add: last_n_def add.commute[of "length ys"])

lemma last_n_suffix: "\<exists>p. xs = p @ last_n n xs"
  unfolding last_n_def by (metis append_take_drop_id)

lemma last_n_snoc:
  "0 < n \<Longrightarrow> last_n n (xs @ [x]) = (if length xs < n then xs else drop (Suc (length xs) - n) xs) @ [x]"
  by (auto simp: last_n_def)

locale bounded_log =
  fixes push :: "'a \<Rightarrow> 's \<Rightarrow> 's"
    and shown :: "'s \<Rightarrow> 'b list"
    and entry :: "'s \<Rightarrow> 'a \<Rightarrow> 'b"
    and room :: "'s \<Rightarrow> nat"
    and inv :: "'s \<Rightarrow> bool"
  assumes push_inv: "inv s \<Longrightarrow> inv (push x s)"
    and push_room: "inv s \<Longrightarrow> room (push x s) = room s"
    and push_shown: "inv s \<Longrightarrow> shown (push x s) = last_n (room s) (shown s @ [entry s x])"
    and shown_fits: "inv s \<Longrightarrow> length (shown s) \<le> room s"
begin

text \<open>The entries of a run, each as the buffer completes it when it arrives.\<close>

fun entries :: "'a list \<Rightarrow> 's \<Rightarrow> 'b list" where
  "entries [] s = []"
| "entries (x # xs) s = entry s x # entries xs (push x s)"

lemma run_inv: "inv s \<Longrightarrow> inv (fold push xs s)"
  by (induction xs arbitrary: s) (simp_all add: push_inv)

lemma run_room: "inv s \<Longrightarrow> room (fold push xs s) = room s"
  by (induction xs arbitrary: s) (simp_all add: push_inv push_room)

lemma run_shown: "inv s \<Longrightarrow> shown (fold push xs s) = last_n (room s) (shown s @ entries xs s)"
proof (induction xs arbitrary: s)
  case Nil
  then show ?case by (simp add: shown_fits)
next
  case (Cons x xs)
  then show ?case by (simp add: push_inv push_room push_shown last_n_absorb)
qed

lemma run_bounded: "inv s \<Longrightarrow> length (shown (fold push xs s)) \<le> room s"
  by (simp add: run_shown)

end

end
