(* ===== verification/Log_Ring.thy ===== *)
theory Log_Ring
  imports Go_Strings Bounded_Log
begin

text \<open>
  The in-memory service log of \<open>internal/middleware/logring.go\<close>: the ring buffer and its
  subscribers, the query over it, and the handlers that feed it.  A time is nanoseconds since the
  zero \<open>time.Time\<close>.  An attribute is kept with the text \<open>fmt.Sprint\<close> prints for its value: that
  text is all the queries look at.
\<close>

section \<open>State\<close>

record log_entry =
  lg_seq :: "64 word"
  lg_time :: int
  lg_level :: string
  lg_msg :: string
  lg_attrs :: "string \<rightharpoonup> string"

record log_filter =
  lf_min :: int
  lf_query :: string
  lf_after :: "64 word"
  lf_since :: int
  lf_limit :: int

text \<open>The channels of the subscribers are queues of at most 64 entries, by an address.\<close>

record log_ring =
  lr_buf :: "log_entry list"
  lr_cap :: nat
  lr_head :: nat
  lr_size :: nat
  lr_seq :: "64 word"
  lr_subs :: "nat \<rightharpoonup> log_entry list"

definition defaultLogRingCapacity :: int where "defaultLogRingCapacity = 8000"

definition zero_entry :: log_entry where
  "zero_entry = \<lparr>lg_seq = 0, lg_time = 0, lg_level = [], lg_msg = [], lg_attrs = Map.empty\<rparr>"

definition NewLogRing :: "int \<Rightarrow> log_ring" where
  "NewLogRing capacity =
     (let c = nat (if capacity < 1 then defaultLogRingCapacity else capacity) in
      \<lparr>lr_buf = replicate c zero_entry, lr_cap = c, lr_head = 0, lr_size = 0, lr_seq = 0, lr_subs = Map.empty\<rparr>)"

section \<open>Operations\<close>

definition stamp :: "64 word \<Rightarrow> int \<Rightarrow> log_entry \<Rightarrow> log_entry" where
  "stamp n now e = e\<lparr>lg_seq := n, lg_time := (if lg_time e = 0 then now else lg_time e)\<rparr>"

definition subBuffer :: nat where "subBuffer = 64"

definition fan_out :: "log_entry \<Rightarrow> (nat \<rightharpoonup> log_entry list) \<Rightarrow> (nat \<rightharpoonup> log_entry list)" where
  "fan_out e subs = (\<lambda>ch. map_option (\<lambda>q. if length q < subBuffer then q @ [e] else q) (subs ch))"

definition Append :: "int \<times> log_entry \<Rightarrow> log_ring \<Rightarrow> log_ring" where
  "Append ne r =
     (let e = stamp (lr_seq r + 1) (fst ne) (snd ne) in
      r\<lparr>lr_seq := lr_seq r + 1, lr_buf := (lr_buf r)[lr_head r := e],
        lr_head := (lr_head r + 1) mod lr_cap r,
        lr_size := (if lr_size r < lr_cap r then lr_size r + 1 else lr_size r),
        lr_subs := fan_out e (lr_subs r)\<rparr>)"

definition retained :: "log_ring \<Rightarrow> log_entry list" where
  "retained r =
     (let start = (if lr_size r = lr_cap r then lr_head r else 0)
      in map (\<lambda>i. lr_buf r ! ((start + i) mod lr_cap r)) [0..<lr_size r])"

text \<open>The levels of \<open>slog\<close>: debug -4, info 0, warn 4, error 8.\<close>

definition ParseLogLevel :: "string \<Rightarrow> int" where
  "ParseLogLevel level =
     (let l = to_lower (trim_space level) in
      if l = ''debug'' then - 4 else if l = ''warn'' \<or> l = ''warning'' then 4
      else if l = ''error'' then 8 else 0)"

definition logLevelAtLeast :: "string \<Rightarrow> int \<Rightarrow> bool" where
  "logLevelAtLeast level m = (ParseLogLevel level \<ge> m)"

text \<open>The keys of the attributes in the order of the map iteration.\<close>

definition logEntryMatches :: "string list \<Rightarrow> log_entry \<Rightarrow> string \<Rightarrow> bool" where
  "logEntryMatches keys e q =
     (contains (to_lower (lg_msg e)) q \<or> contains (to_lower (lg_level e)) q
      \<or> list_ex (\<lambda>k. case lg_attrs e k of
            None \<Rightarrow> False
          | Some v \<Rightarrow> contains (to_lower k) q \<or> contains (to_lower v) q) keys)"

definition selected :: "(log_entry \<Rightarrow> string list) \<Rightarrow> log_filter \<Rightarrow> log_entry \<Rightarrow> bool" where
  "selected keys f e =
     (let q = to_lower (trim_space (lf_query f)) in
      lf_after f < lg_seq e \<and> \<not> (lf_since f \<noteq> 0 \<and> lg_time e < lf_since f)
      \<and> logLevelAtLeast (lg_level e) (lf_min f) \<and> \<not> (q \<noteq> [] \<and> \<not> logEntryMatches (keys e) e q))"

definition Snapshot :: "(log_entry \<Rightarrow> string list) \<Rightarrow> log_filter \<Rightarrow> log_ring \<Rightarrow> log_entry list" where
  "Snapshot keys f r =
     (let limit = (if lf_limit f \<le> 0 then 200 else lf_limit f);
          matched = filter (selected keys f) (retained r)
      in if int (length matched) > limit then drop (length matched - nat limit) matched else matched)"

text \<open>A subscriber gets the address of a fresh channel.\<close>

definition log_Subscribe :: "nat \<Rightarrow> log_ring \<Rightarrow> log_ring" where
  "log_Subscribe ch r = r\<lparr>lr_subs := (lr_subs r)(ch \<mapsto> [])\<rparr>"

definition log_Unsubscribe :: "nat \<Rightarrow> log_ring \<Rightarrow> log_ring" where
  "log_Unsubscribe ch r = r\<lparr>lr_subs := (lr_subs r)(ch := None)\<rparr>"

section \<open>Handlers\<close>

text \<open>A value of \<open>slog\<close> is a group or a scalar, which is represented by its text.\<close>

datatype log_value = Scalar string | Group "(string \<times> log_value) list"

record ring_handler =
  rh_level :: int
  rh_attrs :: "(string \<times> log_value) list"
  rh_group :: string

fun flattenLogAttr :: "string \<Rightarrow> log_value \<Rightarrow> (string \<rightharpoonup> string) \<Rightarrow> (string \<rightharpoonup> string)" where
  "flattenLogAttr key (Scalar v) m = m(key \<mapsto> v)"
| "flattenLogAttr key (Group gs) m = fold (\<lambda>(k, v). flattenLogAttr (key @ ''.'' @ k) v) gs m"

definition handler_enabled :: "int \<Rightarrow> ring_handler \<Rightarrow> bool" where
  "handler_enabled level h = (level \<ge> rh_level h)"

definition flatten_all :: "string \<Rightarrow> (string \<times> log_value) list \<Rightarrow> (string \<rightharpoonup> string) \<Rightarrow> (string \<rightharpoonup> string)" where
  "flatten_all prefix attrs m = fold (\<lambda>(k, v). flattenLogAttr (prefix @ k) v) attrs m"

text \<open>The record has a time, the name of its level, a message and its own attributes.\<close>

definition handle_record ::
  "int \<Rightarrow> string \<Rightarrow> string \<Rightarrow> (string \<times> log_value) list \<Rightarrow> ring_handler \<Rightarrow> log_entry" where
  "handle_record time level msg attrs h =
     zero_entry\<lparr>lg_time := time, lg_level := level, lg_msg := msg,
       lg_attrs := flatten_all (rh_group h) attrs (flatten_all (rh_group h) (rh_attrs h) Map.empty)\<rparr>"

definition WithAttrs :: "(string \<times> log_value) list \<Rightarrow> ring_handler \<Rightarrow> ring_handler" where
  "WithAttrs attrs h = h\<lparr>rh_attrs := rh_attrs h @ attrs\<rparr>"

definition WithGroup :: "string \<Rightarrow> ring_handler \<Rightarrow> ring_handler" where
  "WithGroup name h = (if name = [] then h else h\<lparr>rh_group := rh_group h @ name @ ''.''\<rparr>)"

section \<open>The ring implements the bounded log\<close>

definition ring_inv :: "log_ring \<Rightarrow> bool" where
  "ring_inv r \<longleftrightarrow> length (lr_buf r) = lr_cap r \<and> lr_head r < lr_cap r \<and> lr_size r \<le> lr_cap r
     \<and> (lr_size r < lr_cap r \<longrightarrow> lr_head r = lr_size r)"

lemma NewLogRing_inv: "ring_inv (NewLogRing c)"
  by (simp add: ring_inv_def NewLogRing_def Let_def defaultLogRingCapacity_def)

lemma Append_inv: "ring_inv r \<Longrightarrow> ring_inv (Append x r)"
  by (auto simp: ring_inv_def Append_def Let_def mod_Suc)

lemma length_retained [simp]: "length (retained r) = lr_size r"
  by (simp add: retained_def Let_def)

lemma retained_nth:
  "i < lr_size r \<Longrightarrow> retained r ! i = lr_buf r ! (((if lr_size r = lr_cap r then lr_head r else 0) + i) mod lr_cap r)"
  by (simp add: retained_def Let_def)

lemma mod_wrap: "h < n \<Longrightarrow> i < n \<Longrightarrow> (h + i) mod n = (if h + i < n then h + i else h + i - n)" for h i n :: nat
  by (simp add: mod_if)

lemma Append_retained:
  assumes "ring_inv r"
  shows "retained (Append x r) = last_n (lr_cap r) (retained r @ [stamp (lr_seq r + 1) (fst x) (snd x)])"
proof (rule nth_equalityI)
  let ?e = "stamp (lr_seq r + 1) (fst x) (snd x)"
  from assms have c: "length (lr_buf r) = lr_cap r" "lr_head r < lr_cap r" "lr_size r \<le> lr_cap r"
    and p: "lr_size r < lr_cap r \<Longrightarrow> lr_head r = lr_size r" by (simp_all add: ring_inv_def)
  have sz: "lr_size (Append x r) = (if lr_size r < lr_cap r then lr_size r + 1 else lr_size r)"
    and buf: "lr_buf (Append x r) = (lr_buf r)[lr_head r := ?e]" and cap: "lr_cap (Append x r) = lr_cap r"
    and hd: "lr_head (Append x r) = (lr_head r + 1) mod lr_cap r" by (simp_all add: Append_def Let_def)
  show "length (retained (Append x r)) = length (last_n (lr_cap r) (retained r @ [?e]))"
    using c by (simp add: sz)
  fix i
  assume "i < length (retained (Append x r))"
  then have i: "i < lr_size (Append x r)" by simp
  show "retained (Append x r) ! i = last_n (lr_cap r) (retained r @ [?e]) ! i"
  proof (cases "lr_size r < lr_cap r")
    case True
    then have "i \<le> lr_size r" using i sz by simp
    moreover have "(if lr_size (Append x r) = lr_cap r then lr_head (Append x r) else 0) = 0"
      using True p[OF True] sz hd by simp
    ultimately have "retained (Append x r) ! i = (lr_buf r)[lr_size r := ?e] ! i"
      using i True p[OF True] by (simp add: retained_nth buf cap)
    then show ?thesis
      using True c(1) \<open>i \<le> lr_size r\<close> by (auto simp: nth_append retained_nth nth_list_update)
  next
    case False
    then have s: "lr_size r = lr_cap r" "lr_size (Append x r) = lr_cap r" using c sz by simp_all
    have h': "lr_head (Append x r) < lr_cap r" using hd c by simp
    have "retained (Append x r) ! i = (lr_buf r)[lr_head r := ?e] ! ((lr_head (Append x r) + i) mod lr_cap r)"
      using i s by (simp add: retained_nth buf cap)
    also have "(lr_head (Append x r) + i) mod lr_cap r = (lr_head r + Suc i) mod lr_cap r"
      using hd by (simp add: mod_add_left_eq)
    finally have l: "retained (Append x r) ! i = (lr_buf r)[lr_head r := ?e] ! ((lr_head r + Suc i) mod lr_cap r)" .
    show ?thesis
    proof (cases "Suc i < lr_cap r")
      case T: True
      then have "(lr_head r + Suc i) mod lr_cap r \<noteq> lr_head r" "(lr_head r + Suc i) mod lr_cap r < lr_cap r"
        using mod_wrap[OF c(2) T] c(2) by auto
      then have "retained (Append x r) ! i = retained r ! Suc i"
        using l T s by (simp add: retained_nth)
      then show ?thesis using T s by (simp add: last_n_def nth_append)
    next
      case F: False
      then have "Suc i = lr_cap r" using i s by simp
      then show ?thesis using l c s by (simp add: last_n_def nth_append)
    qed
  qed
qed

interpretation ring_log: bounded_log Append retained "\<lambda>r x. stamp (lr_seq r + 1) (fst x) (snd x)" lr_cap ring_inv
proof unfold_locales
  fix r x
  assume r: "ring_inv r"
  show "ring_inv (Append x r)" by (rule Append_inv[OF r])
  show "lr_cap (Append x r) = lr_cap r" by (simp add: Append_def Let_def)
  show "retained (Append x r) = last_n (lr_cap r) (retained r @ [stamp (lr_seq r + 1) (fst x) (snd x)])"
    by (rule Append_retained[OF r])
  show "length (retained r) \<le> lr_cap r" using r by (simp add: ring_inv_def)
qed

section \<open>Properties\<close>

fun stamped :: "64 word \<Rightarrow> (int \<times> log_entry) list \<Rightarrow> log_entry list" where
  "stamped n [] = []"
| "stamped n (x # xs) = stamp n (fst x) (snd x) # stamped (n + 1) xs"

lemma ring_entries: "ring_log.entries xs r = stamped (lr_seq r + 1) xs"
  by (induction xs arbitrary: r) (simp_all add: Append_def Let_def)

lemma retained_run:
  "retained (fold Append xs (NewLogRing c)) = last_n (lr_cap (NewLogRing c)) (stamped 1 xs)"
proof -
  have "retained (NewLogRing c) = []" "lr_seq (NewLogRing c) = 0"
    by (simp_all add: retained_def NewLogRing_def Let_def)
  then show ?thesis
    using ring_log.run_shown[OF NewLogRing_inv, of xs c] by (simp add: ring_entries)
qed

text \<open>C18: the ring with its head, size and wrapping index is the list of the newest entries: a query
  answers from the last entries appended, as many as the capacity, each with its sequence number
  and time, oldest first, and returns the newest of those that match, at most the limit.\<close>

theorem log_ring_refines_list:
  "Snapshot keys f (fold Append xs (NewLogRing c)) =
     last_n (nat (if lf_limit f \<le> 0 then 200 else lf_limit f))
       (filter (selected keys f) (last_n (lr_cap (NewLogRing c)) (stamped 1 xs)))"
  by (auto simp: Snapshot_def Let_def retained_run last_n_def)

text \<open>A group opened later also renames the attributes that were bound before it.\<close>

lemma group_renames_bound_attrs:
  assumes "g \<noteq> []" and "rh_attrs h = []" and "rh_group h = []"
  shows "lg_attrs (handle_record t l m [] (WithGroup g (WithAttrs [(k, Scalar v)] h))) = [g @ ''.'' @ k \<mapsto> v]"
  using assms by (simp add: handle_record_def WithGroup_def WithAttrs_def flatten_all_def)

end
