(* ===== verification/Event_Bus.thy ===== *)
theory Event_Bus
  imports Complex_Main Go_Strings Bounded_Log
begin

text \<open>
  The publish and subscribe bus of \<open>internal/event/bus.go\<close> and the fan-out of \<open>live.go\<close>.  The bus is a
  step relation: a publisher is a thread that goes through the subscribers it copied, and for each
  holds that subscriber's mutex over the test of the channel's length, the receive that makes room
  and the send; consumers receive and other threads run in between.  The body of \<open>Subscribe\<close> and that
  of \<open>Unsubscribe\<close> are one step each (they hold the lock of the bus).
\<close>

section \<open>Events and state\<close>

text \<open>\<open>float32\<close> fields are rationals and \<open>TrackID\<close>, a pointer, is an option.\<close>

record segment_completed =
  sc_camera :: string
  sc_file :: string
  sc_format :: string
  sc_started :: string
  sc_ended :: string
  sc_size :: int
  sc_recording :: string

record recorder_reconnected =
  rr_camera :: string
  rr_disconnected :: string
  rr_reconnected :: string
  rr_downtime :: string
  rr_retries :: int
  rr_reason :: string
  rr_recording :: string

record ai_detection_object =
  ao_label :: string
  ao_confidence :: rat
  ao_box :: "rat \<times> rat \<times> rat \<times> rat"
  ao_track :: "int option"
  ao_zone :: string

record ai_detection =
  ad_camera :: string
  ad_pts :: int
  ad_timestamp :: int
  ad_detections :: "ai_detection_object list"

record mqtt_trigger =
  mt_camera :: string
  mt_action :: string
  mt_at :: int

datatype event_data =
    SegmentCompleted segment_completed
  | RecorderReconnected recorder_reconnected
  | AIDetection ai_detection
  | MQTTTrigger mqtt_trigger

record bus_event =
  be_topic :: string
  be_data :: event_data

datatype phase = AtNext | AtDrop | AtSend

record publisher =
  pb_event :: bus_event
  pb_todo :: "nat list"
  pb_phase :: phase

text \<open>Subscribers, channels and publishing threads live at addresses; a channel has its capacity.\<close>

record bus =
  bs_topics :: "string \<Rightarrow> nat list"
  bs_chan_of :: "nat \<Rightarrow> nat"
  bs_closed :: "nat \<Rightarrow> bool"
  bs_locked :: "nat \<Rightarrow> bool"
  bs_fresh :: nat
  bs_cap :: "nat \<Rightarrow> nat"
  bs_queue :: "nat \<Rightarrow> bus_event list"
  bs_pubs :: "nat \<rightharpoonup> publisher"

definition NewEventBus :: "(nat \<Rightarrow> nat) \<Rightarrow> bus" where
  "NewEventBus cap = \<lparr>bs_topics = (\<lambda>_. []), bs_chan_of = (\<lambda>_. 0), bs_closed = (\<lambda>_. False), bs_locked = (\<lambda>_. False),
     bs_fresh = 0, bs_cap = cap, bs_queue = (\<lambda>_. []), bs_pubs = Map.empty\<rparr>"

datatype bus_error = ErrDuplicateSubscriber | ErrInvalidSubscriber

section \<open>Operations\<close>

text \<open>\<open>Subscribe\<close>; \<open>None\<close> is the nil channel.\<close>

definition bus_Subscribe :: "string \<Rightarrow> nat option \<Rightarrow> bus \<Rightarrow> (bus_error, bus) res" where
  "bus_Subscribe topic och b =
     (case och of
        None \<Rightarrow> Err ErrInvalidSubscriber
      | Some ch \<Rightarrow>
          if bs_cap b ch = 0 then Err ErrInvalidSubscriber
          else if list_ex (\<lambda>s. bs_chan_of b s = ch \<and> \<not> bs_closed b s) (bs_topics b topic)
            then Err ErrDuplicateSubscriber
          else let s = bs_fresh b in
            Ok (b\<lparr>bs_topics := (bs_topics b)(topic := bs_topics b topic @ [s]),
                  bs_chan_of := (bs_chan_of b)(s := ch), bs_closed := (bs_closed b)(s := False),
                  bs_locked := (bs_locked b)(s := False), bs_fresh := s + 1\<rparr>))"

definition matching :: "string \<Rightarrow> nat \<Rightarrow> bus \<Rightarrow> nat list" where
  "matching topic ch b = filter (\<lambda>s. bs_chan_of b s = ch) (bs_topics b topic)"

text \<open>\<open>Unsubscribe\<close> marks the matching subscribers closed, each under its mutex.\<close>

definition bus_Unsubscribe :: "string \<Rightarrow> nat \<Rightarrow> bus \<Rightarrow> bus" where
  "bus_Unsubscribe topic ch b =
     b\<lparr>bs_topics := (bs_topics b)(topic := filter (\<lambda>s. bs_chan_of b s \<noteq> ch) (bs_topics b topic)),
       bs_closed := (\<lambda>s. bs_closed b s \<or> s \<in> set (matching topic ch b))\<rparr>"

definition set_pub :: "nat \<Rightarrow> publisher option \<Rightarrow> bus \<Rightarrow> bus" where
  "set_pub t p b = b\<lparr>bs_pubs := (bs_pubs b)(t := p)\<rparr>"

definition set_queue :: "nat \<Rightarrow> bus_event list \<Rightarrow> bus \<Rightarrow> bus" where
  "set_queue ch q b = b\<lparr>bs_queue := (bs_queue b)(ch := q)\<rparr>"

definition set_lock :: "nat \<Rightarrow> bool \<Rightarrow> bus \<Rightarrow> bus" where
  "set_lock s l b = b\<lparr>bs_locked := (bs_locked b)(s := l)\<rparr>"

datatype bus_label = Joined "nat option" | Env | Consume nat | Pub nat | SendVia nat

text \<open>The steps; \<open>Joined\<close> is a subscription of that channel, \<open>SendVia s\<close> is the send of an event to subscriber \<open>s\<close>, \<open>Pub t\<close> any other step of
  publisher \<open>t\<close>.\<close>

inductive bus_step :: "bus \<Rightarrow> bus_label \<Rightarrow> bus \<Rightarrow> bool" where
  subscribe: "bus_Subscribe topic och b = Ok b' \<Longrightarrow> bus_step b (Joined och) b'"
| unsubscribe: "\<forall>s\<in>set (matching topic ch b). \<not> bs_locked b s \<Longrightarrow> bus_step b Env (bus_Unsubscribe topic ch b)"
| publish: "bs_pubs b t = None \<Longrightarrow> be_topic ev = topic \<Longrightarrow>
    bus_step b Env (set_pub t (Some \<lparr>pb_event = ev, pb_todo = bs_topics b topic, pb_phase = AtNext\<rparr>) b)"
| consume: "bs_queue b ch = e # q \<Longrightarrow> bus_step b (Consume ch) (set_queue ch q b)"
| finish: "bs_pubs b t = Some p \<Longrightarrow> pb_todo p = [] \<Longrightarrow> bus_step b (Pub t) (set_pub t None b)"
| cancelled: "bs_pubs b t = Some p \<Longrightarrow> pb_phase p = AtNext \<Longrightarrow> bus_step b (Pub t) (set_pub t None b)"
| skip: "bs_pubs b t = Some p \<Longrightarrow> pb_phase p = AtNext \<Longrightarrow> pb_todo p = s # todo \<Longrightarrow> \<not> bs_locked b s \<Longrightarrow>
    bs_closed b s \<Longrightarrow> bus_step b (Pub t) (set_pub t (Some (p\<lparr>pb_todo := todo\<rparr>)) b)"
| full: "bs_pubs b t = Some p \<Longrightarrow> pb_phase p = AtNext \<Longrightarrow> pb_todo p = s # todo \<Longrightarrow> \<not> bs_locked b s \<Longrightarrow>
    \<not> bs_closed b s \<Longrightarrow> length (bs_queue b (bs_chan_of b s)) = bs_cap b (bs_chan_of b s) \<Longrightarrow>
    bus_step b (Pub t) (set_lock s True (set_pub t (Some (p\<lparr>pb_phase := AtDrop\<rparr>)) b))"
| has_room: "bs_pubs b t = Some p \<Longrightarrow> pb_phase p = AtNext \<Longrightarrow> pb_todo p = s # todo \<Longrightarrow> \<not> bs_locked b s \<Longrightarrow>
    \<not> bs_closed b s \<Longrightarrow> length (bs_queue b (bs_chan_of b s)) \<noteq> bs_cap b (bs_chan_of b s) \<Longrightarrow>
    bus_step b (Pub t) (set_lock s True (set_pub t (Some (p\<lparr>pb_phase := AtSend\<rparr>)) b))"
| drop_oldest: "bs_pubs b t = Some p \<Longrightarrow> pb_phase p = AtDrop \<Longrightarrow> pb_todo p = s # todo \<Longrightarrow>
    bs_queue b (bs_chan_of b s) = e # q \<Longrightarrow>
    bus_step b (Pub t) (set_queue (bs_chan_of b s) q (set_pub t (Some (p\<lparr>pb_phase := AtSend\<rparr>)) b))"
| send: "bs_pubs b t = Some p \<Longrightarrow> pb_phase p = AtSend \<Longrightarrow> pb_todo p = s # todo \<Longrightarrow>
    length (bs_queue b (bs_chan_of b s)) < bs_cap b (bs_chan_of b s) \<Longrightarrow>
    bus_step b (SendVia s) (set_lock s False (set_queue (bs_chan_of b s) (bs_queue b (bs_chan_of b s) @ [pb_event p])
      (set_pub t (Some (p\<lparr>pb_todo := todo, pb_phase := AtNext\<rparr>)) b)))"

inductive bus_steps :: "bus \<Rightarrow> bus_label list \<Rightarrow> bus \<Rightarrow> bool" where
  stop: "bus_steps b [] b"
| more_steps: "bus_step b l b' \<Longrightarrow> bus_steps b' ls b'' \<Longrightarrow> bus_steps b (l # ls) b''"

inductive_cases bus_stepE: "bus_step b l b'"
inductive_simps bus_steps_Nil [simp]: "bus_steps b [] b'"
inductive_simps bus_steps_Cons: "bus_steps b (l # ls) b'"

section \<open>Invariant\<close>

text \<open>A publisher that holds a mutex is at the head of its list, and that subscriber is open; a
  mutex has one holder.\<close>

definition holds :: "bus \<Rightarrow> nat \<Rightarrow> nat \<Rightarrow> bool" where
  "holds b t s \<longleftrightarrow> (\<exists>p todo. bs_pubs b t = Some p \<and> pb_phase p \<noteq> AtNext \<and> pb_todo p = s # todo)"

definition bus_inv :: "bus \<Rightarrow> bool" where
  "bus_inv b \<longleftrightarrow>
     (\<forall>ch. length (bs_queue b ch) \<le> bs_cap b ch)
     \<and> (\<forall>t s. holds b t s \<longrightarrow> bs_locked b s \<and> \<not> bs_closed b s)
     \<and> (\<forall>t t' s. holds b t s \<longrightarrow> holds b t' s \<longrightarrow> t = t')
     \<and> (\<forall>topic. \<forall>s\<in>set (bs_topics b topic). s < bs_fresh b)
     \<and> (\<forall>t p. bs_pubs b t = Some p \<longrightarrow> (\<forall>s\<in>set (pb_todo p). s < bs_fresh b))"

lemma bus_invD:
  assumes "bus_inv b"
  shows "length (bs_queue b ch) \<le> bs_cap b ch" and "holds b t s \<Longrightarrow> bs_locked b s"
    and "holds b t s \<Longrightarrow> \<not> bs_closed b s" and "holds b t s \<Longrightarrow> holds b t' s \<Longrightarrow> t = t'"
    and "s \<in> set (bs_topics b topic) \<Longrightarrow> s < bs_fresh b"
    and "bs_pubs b t = Some p \<Longrightarrow> s \<in> set (pb_todo p) \<Longrightarrow> s < bs_fresh b"
  using assms by (auto simp: bus_inv_def)

lemma NewEventBus_inv: "bus_inv (NewEventBus cap)"
  by (simp add: bus_inv_def NewEventBus_def holds_def)

lemma holds_set_pub:
  "holds (set_pub t po b) u s \<longleftrightarrow>
     (if u = t then (\<exists>p todo. po = Some p \<and> pb_phase p \<noteq> AtNext \<and> pb_todo p = s # todo) else holds b u s)"
  by (simp add: holds_def set_pub_def)

lemma holds_other [simp]:
  "holds (set_queue ch q b) = holds b" "holds (set_lock s l b) = holds b"
  "holds (bus_Unsubscribe topic ch b) = holds b"
  by (simp_all add: holds_def set_queue_def set_lock_def bus_Unsubscribe_def fun_eq_iff)

lemma field_simps_bus [simp]:
  "bs_locked (set_pub t po b) = bs_locked b" "bs_closed (set_pub t po b) = bs_closed b"
  "bs_queue (set_pub t po b) = bs_queue b" "bs_cap (set_pub t po b) = bs_cap b"
  "bs_topics (set_pub t po b) = bs_topics b" "bs_fresh (set_pub t po b) = bs_fresh b"
  "bs_chan_of (set_pub t po b) = bs_chan_of b" "bs_pubs (set_pub t po b) = (bs_pubs b)(t := po)"
  "bs_locked (set_queue ch q b) = bs_locked b" "bs_closed (set_queue ch q b) = bs_closed b"
  "bs_queue (set_queue ch q b) = (bs_queue b)(ch := q)" "bs_cap (set_queue ch q b) = bs_cap b"
  "bs_topics (set_queue ch q b) = bs_topics b" "bs_fresh (set_queue ch q b) = bs_fresh b"
  "bs_chan_of (set_queue ch q b) = bs_chan_of b" "bs_pubs (set_queue ch q b) = bs_pubs b"
  "bs_locked (set_lock s l b) = (bs_locked b)(s := l)" "bs_closed (set_lock s l b) = bs_closed b"
  "bs_queue (set_lock s l b) = bs_queue b" "bs_cap (set_lock s l b) = bs_cap b"
  "bs_topics (set_lock s l b) = bs_topics b" "bs_fresh (set_lock s l b) = bs_fresh b"
  "bs_chan_of (set_lock s l b) = bs_chan_of b" "bs_pubs (set_lock s l b) = bs_pubs b"
  by (simp_all add: set_pub_def set_queue_def set_lock_def)

lemma bus_Subscribe_OkD:
  assumes "bus_Subscribe topic och b = Ok b'"
  obtains ch where "och = Some ch" and "b' = b\<lparr>bs_topics := (bs_topics b)(topic := bs_topics b topic @ [bs_fresh b]),
    bs_chan_of := (bs_chan_of b)(bs_fresh b := ch), bs_closed := (bs_closed b)(bs_fresh b := False),
    bs_locked := (bs_locked b)(bs_fresh b := False), bs_fresh := bs_fresh b + 1\<rparr>"
  using assms by (auto simp: bus_Subscribe_def Let_def split: option.splits if_splits)

lemma subscribe_inv:
  assumes "bus_inv b" and "bus_Subscribe topic och b = Ok b'"
  shows "bus_inv b'"
proof -
  from assms(2) obtain ch where b': "b' = b\<lparr>bs_topics := (bs_topics b)(topic := bs_topics b topic @ [bs_fresh b]),
    bs_chan_of := (bs_chan_of b)(bs_fresh b := ch), bs_closed := (bs_closed b)(bs_fresh b := False),
    bs_locked := (bs_locked b)(bs_fresh b := False), bs_fresh := bs_fresh b + 1\<rparr>" by (rule bus_Subscribe_OkD)
  have h: "holds b' = holds b" by (simp add: b' holds_def fun_eq_iff)
  have "s < bs_fresh b" if "holds b t s" for t s
    using that bus_invD(6)[OF assms(1)] by (fastforce simp: holds_def)
  then have "bs_locked b' s \<and> \<not> bs_closed b' s" if "holds b t s" for t s
    using that bus_invD(2,3)[OF assms(1)] by (fastforce simp: b')
  moreover have "s < bs_fresh b'" if "s \<in> set (bs_topics b' tp)" for s tp
    using that bus_invD(5)[OF assms(1), of s] by (force simp: b' split: if_splits)
  moreover have "s < bs_fresh b'" if "bs_pubs b' t = Some p" "s \<in> set (pb_todo p)" for s t p
    using that bus_invD(6)[OF assms(1), of t p s] by (simp add: b')
  moreover have "length (bs_queue b' c) \<le> bs_cap b' c" for c using bus_invD(1)[OF assms(1)] by (simp add: b')
  ultimately show ?thesis
    using bus_invD(4)[OF assms(1)] unfolding bus_inv_def h by blast
qed

text \<open>A publisher that moves on: what its new state holds, if anything, is locked and open and held
  by no one else.\<close>

lemma set_pub_inv:
  assumes "bus_inv b"
    and "\<And>p. po = Some p \<Longrightarrow> \<forall>s\<in>set (pb_todo p). s < bs_fresh b"
    and "\<And>p s todo. po = Some p \<Longrightarrow> pb_phase p \<noteq> AtNext \<Longrightarrow> pb_todo p = s # todo \<Longrightarrow>
      bs_locked b s \<and> \<not> bs_closed b s \<and> (\<forall>u. u \<noteq> t \<longrightarrow> \<not> holds b u s)"
  shows "bus_inv (set_pub t po b)"
proof -
  let ?b = "set_pub t po b"
  have l: "bs_locked ?b s \<and> \<not> bs_closed ?b s" if "holds ?b u s" for u s
    using that assms(3)[of _ s] bus_invD(2,3)[OF assms(1), of u s] by (auto simp: holds_set_pub split: if_splits)
  have u: "u = v" if "holds ?b u s" "holds ?b v s" for u v s
    using that assms(3)[of _ s] bus_invD(4)[OF assms(1), of u s v] by (auto simp: holds_set_pub split: if_splits)
  have f: "s < bs_fresh ?b" if "bs_pubs ?b u = Some p" "s \<in> set (pb_todo p)" for u p s
    using that assms(2)[of p] bus_invD(6)[OF assms(1), of u p s] by (auto split: if_splits)
  show ?thesis
    unfolding bus_inv_def using l u f bus_invD(1,5)[OF assms(1)] by simp
qed

lemma set_queue_inv: "bus_inv b \<Longrightarrow> length q \<le> bs_cap b ch \<Longrightarrow> bus_inv (set_queue ch q b)"
  by (simp add: bus_inv_def)

lemma set_lock_True_inv: "bus_inv b \<Longrightarrow> bus_inv (set_lock s True b)"
  by (simp add: bus_inv_def)

lemma set_lock_False_inv: "bus_inv b \<Longrightarrow> \<forall>t. \<not> holds b t s \<Longrightarrow> bus_inv (set_lock s False b)"
  by (auto simp: bus_inv_def)

lemma holds_lock_free: "bus_inv b \<Longrightarrow> \<not> bs_locked b s \<Longrightarrow> \<not> holds b t s"
  by (auto dest: bus_invD(2))

lemma set_lock_pub: "set_lock s l (set_pub t po b) = set_pub t po (set_lock s l b)"
  by (cases b) (simp add: set_pub_def set_lock_def)

lemma lock_step_inv:
  assumes "bus_inv b" and "bs_pubs b t = Some p" and "pb_todo p = s # todo" and "\<not> bs_locked b s" and "\<not> bs_closed b s"
  shows "bus_inv (set_lock s True (set_pub t (Some (p\<lparr>pb_phase := ph\<rparr>)) b))"
proof -
  have "bus_inv (set_pub t (Some (p\<lparr>pb_phase := ph\<rparr>)) (set_lock s True b))"
    using assms bus_invD(6)[OF assms(1,2)] holds_lock_free[OF assms(1,4)]
    by (intro set_pub_inv set_lock_True_inv) auto
  then show ?thesis by (simp only: set_lock_pub)
qed

lemma drop_step_inv:
  assumes "bus_inv b" and "bs_pubs b t = Some p" and "pb_phase p = AtDrop" and "pb_todo p = s # todo"
    and "bs_queue b ch = e # q"
  shows "bus_inv (set_queue ch q (set_pub t (Some (p\<lparr>pb_phase := AtSend\<rparr>)) b))"
proof -
  have h: "holds b t s" using assms(2-4) by (simp add: holds_def)
  have "bus_inv (set_pub t (Some (p\<lparr>pb_phase := AtSend\<rparr>)) b)"
    using assms(2-4) bus_invD(2,3)[OF assms(1) h] bus_invD(6)[OF assms(1,2)] bus_invD(4)[OF assms(1) h]
    by (intro set_pub_inv[OF assms(1)]) auto
  then show ?thesis using bus_invD(1)[OF assms(1), of ch] assms(5) by (intro set_queue_inv) simp_all
qed

lemma send_step_inv:
  assumes "bus_inv b" and "bs_pubs b t = Some p" and "pb_phase p = AtSend" and "pb_todo p = s # todo"
    and "length (bs_queue b ch) < bs_cap b ch"
  shows "bus_inv (set_lock s False (set_queue ch (bs_queue b ch @ [e])
    (set_pub t (Some (p\<lparr>pb_todo := todo, pb_phase := AtNext\<rparr>)) b)))"
proof -
  have h: "holds b t s" using assms(2-4) by (simp add: holds_def)
  let ?b = "set_pub t (Some (p\<lparr>pb_todo := todo, pb_phase := AtNext\<rparr>)) b"
  have "bus_inv ?b" using assms(4) bus_invD(6)[OF assms(1,2)] by (intro set_pub_inv[OF assms(1)]) auto
  then have "bus_inv (set_queue ch (bs_queue b ch @ [e]) ?b)" using assms(5) by (intro set_queue_inv) simp_all
  moreover have "\<not> holds ?b u s" for u
    using bus_invD(4)[OF assms(1) h, of u] by (auto simp: holds_set_pub)
  ultimately show ?thesis by (intro set_lock_False_inv) simp_all
qed

lemma bus_step_inv:
  assumes "bus_step b l b'" and "bus_inv b"
  shows "bus_inv b'"
  using assms
proof (induction rule: bus_step.induct)
  case (subscribe topic och b b')
  then show ?case by (blast intro: subscribe_inv)
next
  case (unsubscribe topic ch b)
  then have "holds b t s \<Longrightarrow> s \<notin> set (matching topic ch b)" for t s by (auto dest: bus_invD(2))
  then show ?case using unsubscribe.prems by (auto simp: bus_inv_def) (auto simp: bus_Unsubscribe_def split: if_splits)
next
  case (publish b t ev topic)
  then show ?case using bus_invD(5)[OF publish.prems] by (intro set_pub_inv) auto
next
  case (consume b ch e q)
  then show ?case using bus_invD(1)[OF consume.prems, of ch] by (intro set_queue_inv) simp_all
next
  case (finish b t p)
  then show ?case by (intro set_pub_inv) simp_all
next
  case (cancelled b t p)
  then show ?case by (intro set_pub_inv) simp_all
next
  case (skip b t p s todo)
  then show ?case using bus_invD(6)[OF skip.prems skip.hyps(1)] by (intro set_pub_inv) auto
next
  case (full b t p s todo)
  then show ?case by (blast intro: lock_step_inv)
next
  case (has_room b t p s todo)
  then show ?case by (blast intro: lock_step_inv)
next
  case (drop_oldest b t p s todo e q)
  then show ?case by (blast intro: drop_step_inv)
next
  case (send b t p s todo)
  then show ?case by (blast intro: send_step_inv)
qed

lemma bus_steps_inv: "bus_steps b ls b' \<Longrightarrow> bus_inv b \<Longrightarrow> bus_inv b'"
  by (induction rule: bus_steps.induct) (auto intro: bus_step_inv)

section \<open>Closed subscribers\<close>

lemma bus_step_closed:
  assumes "bus_step b l b'" and "bs_closed b s" and "s < bs_fresh b"
  shows "bs_closed b' s \<and> s < bs_fresh b'"
  using assms
  by (induction rule: bus_step.induct) (auto simp: bus_Unsubscribe_def elim!: bus_Subscribe_OkD)

lemma bus_step_send:
  assumes "bus_step b (SendVia s) b'" and "bus_inv b"
  shows "\<not> bs_closed b s"
proof -
  from assms(1) obtain t p todo where "bs_pubs b t = Some p" "pb_phase p = AtSend" "pb_todo p = s # todo"
    by (cases rule: bus_step.cases) auto
  then have "holds b t s" by (simp add: holds_def)
  then show ?thesis by (rule bus_invD(3)[OF assms(2)])
qed

lemma closed_gets_nothing:
  assumes "bus_steps b ls b'" and "bus_inv b" and "bs_closed b s" and "s < bs_fresh b"
  shows "SendVia s \<notin> set ls"
  using assms
proof (induction rule: bus_steps.induct)
  case (stop b)
  then show ?case by simp
next
  case (more_steps b l b' ls b'')
  then show ?case using bus_step_closed bus_step_inv bus_step_send by (metis set_ConsD)
qed

section \<open>A blocked publisher\<close>

text \<open>The publisher saw a full channel and waits to receive from it, but the consumer emptied it.\<close>

definition stuck :: "nat \<Rightarrow> nat \<Rightarrow> bus \<Rightarrow> bool" where
  "stuck t s b \<longleftrightarrow>
     (\<exists>p todo. bs_pubs b t = Some p \<and> pb_phase p = AtDrop \<and> pb_todo p = s # todo)
     \<and> bs_queue b (bs_chan_of b s) = []
     \<and> (\<forall>s' < bs_fresh b. bs_chan_of b s' = bs_chan_of b s \<longrightarrow> s' = s)"

lemma stuck_holds: "stuck t s b \<Longrightarrow> holds b t s"
  by (auto simp: stuck_def holds_def)

lemma stuck_fresh:
  assumes "stuck t s b" and "bus_inv b"
  shows "s < bs_fresh b"
proof -
  from assms(1) obtain p todo where "bs_pubs b t = Some p" "pb_todo p = s # todo" by (auto simp: stuck_def)
  then show ?thesis using bus_invD(6)[OF assms(2), of t p s] by simp
qed

lemma subscribe_stuck:
  assumes "stuck t s b" and "bus_inv b" and "bus_Subscribe topic och b = Ok b'" and "och \<noteq> Some (bs_chan_of b s)"
  shows "stuck t s b' \<and> bs_chan_of b' s = bs_chan_of b s"
proof -
  note f = stuck_fresh[OF assms(1,2)]
  from assms(3) obtain ch where och: "och = Some ch" and b': "b' = b\<lparr>bs_topics := (bs_topics b)(topic := bs_topics b topic @ [bs_fresh b]),
    bs_chan_of := (bs_chan_of b)(bs_fresh b := ch), bs_closed := (bs_closed b)(bs_fresh b := False),
    bs_locked := (bs_locked b)(bs_fresh b := False), bs_fresh := bs_fresh b + 1\<rparr>" by (rule bus_Subscribe_OkD)
  have c: "bs_chan_of b' s = bs_chan_of b s" using f by (simp add: b')
  have "s' = s" if "s' < bs_fresh b'" "bs_chan_of b' s' = bs_chan_of b s" for s'
    using that assms(1,4) och by (auto simp: b' stuck_def less_Suc_eq split: if_splits)
  then show ?thesis using assms(1) c by (auto simp: stuck_def b')
qed

lemma stuck_no_send:
  assumes "stuck t s b" and "bus_inv b" and "bs_pubs b u = Some p" and "pb_phase p = AtSend" and "pb_todo p = s' # todo"
  shows "bs_chan_of b s' \<noteq> bs_chan_of b s"
proof
  assume "bs_chan_of b s' = bs_chan_of b s"
  moreover have "s' < bs_fresh b" using bus_invD(6)[OF assms(2,3)] assms(5) by simp
  ultimately have "s' = s" using assms(1) by (auto simp: stuck_def)
  then have "holds b u s" using assms(3-5) by (simp add: holds_def)
  then have "u = t" using bus_invD(4)[OF assms(2)] stuck_holds[OF assms(1)] by blast
  then show False using assms(1,3,4) by (auto simp: stuck_def)
qed

lemma stuck_step:
  assumes "bus_step b l b'" and "stuck t s b" and "bus_inv b" and "l \<noteq> Joined (Some (bs_chan_of b s))"
  shows "stuck t s b' \<and> bs_chan_of b' s = bs_chan_of b s \<and> l \<noteq> Pub t \<and> l \<noteq> SendVia s"
  using assms
proof (induction rule: bus_step.induct)
  case (subscribe topic och b b')
  then show ?case using subscribe_stuck by blast
next
  case (send b u p s' todo)
  then have "bs_chan_of b s' \<noteq> bs_chan_of b s" by (blast dest: stuck_no_send)
  moreover have "u \<noteq> t" using send by (auto simp: stuck_def)
  ultimately show ?case using send.prems(1) by (auto simp: stuck_def)
next
  case (drop_oldest b u p s' todo e q)
  moreover have "u \<noteq> t" using drop_oldest by (auto simp: stuck_def)
  moreover have "bs_chan_of b s' \<noteq> bs_chan_of b s" using drop_oldest by (auto simp: stuck_def)
  ultimately show ?case by (auto simp: stuck_def)
qed (auto simp: stuck_def bus_Unsubscribe_def)

lemma stuck_forever:
  assumes "bus_steps b ls b'" and "stuck t s b" and "bus_inv b" and "Joined (Some (bs_chan_of b s)) \<notin> set ls"
  shows "stuck t s b' \<and> Pub t \<notin> set ls \<and> SendVia s \<notin> set ls"
  using assms
proof (induction rule: bus_steps.induct)
  case (stop b)
  then show ?case by simp
next
  case (more_steps b l b' ls b'')
  have "stuck t s b' \<and> bs_chan_of b' s = bs_chan_of b s \<and> l \<noteq> Pub t \<and> l \<noteq> SendVia s"
    by (rule stuck_step[OF more_steps.hyps(1) more_steps.prems(1,2)]) (use more_steps.prems(3) in auto)
  then show ?case using more_steps.IH bus_step_inv[OF more_steps.hyps(1) more_steps.prems(2)] more_steps.prems(3) by auto
qed

section \<open>An undisturbed publisher\<close>

definition deliver :: "bus_event \<Rightarrow> nat \<times> bus_event list \<Rightarrow> nat \<times> bus_event list" where
  "deliver ev c = (fst c, (if length (snd c) = fst c then drop 1 (snd c) else snd c) @ [ev])"

interpretation bus_channel: bounded_log deliver snd "\<lambda>_ ev. ev" fst "\<lambda>c. 0 < fst c \<and> length (snd c) \<le> fst c"
  by unfold_locales (auto simp: deliver_def last_n_snoc)

lemma deliver_steps:
  assumes "bs_pubs b t = Some p" and "pb_phase p = AtNext" and "pb_todo p = s # todo" and "\<not> bs_locked b s"
    and "\<not> bs_closed b s" and "ch = bs_chan_of b s" and "0 < bs_cap b ch" and "length (bs_queue b ch) \<le> bs_cap b ch"
  shows "\<exists>ls b'. bus_steps b ls b' \<and> bs_queue b' ch = snd (deliver (pb_event p) (bs_cap b ch, bs_queue b ch))
    \<and> bs_pubs b' t = Some (p\<lparr>pb_todo := todo, pb_phase := AtNext\<rparr>)"
proof (cases "length (bs_queue b ch) = bs_cap b ch")
  case False
  let ?b1 = "set_lock s True (set_pub t (Some (p\<lparr>pb_phase := AtSend\<rparr>)) b)"
  have "bus_step b (Pub t) ?b1" by (rule bus_step.has_room) (use assms False in simp_all)
  moreover have "bus_step ?b1 (SendVia s) (set_lock s False (set_queue ch (bs_queue b ch @ [pb_event p])
      (set_pub t (Some (p\<lparr>pb_todo := todo, pb_phase := AtNext\<rparr>)) ?b1)))"
    using bus_step.send[of ?b1 t "p\<lparr>pb_phase := AtSend\<rparr>" s todo] assms False by simp
  ultimately have "bus_steps b [Pub t, SendVia s] (set_lock s False (set_queue ch (bs_queue b ch @ [pb_event p])
      (set_pub t (Some (p\<lparr>pb_todo := todo, pb_phase := AtNext\<rparr>)) ?b1)))"
    by (auto simp: bus_steps_Cons)
  then show ?thesis
    by (intro exI conjI) (assumption, simp_all add: deliver_def False)
next
  case True
  let ?b1 = "set_lock s True (set_pub t (Some (p\<lparr>pb_phase := AtDrop\<rparr>)) b)"
  from True assms(7) obtain e q where q: "bs_queue b ch = e # q" by (cases "bs_queue b ch") auto
  let ?b2 = "set_queue ch q (set_pub t (Some (p\<lparr>pb_phase := AtSend\<rparr>)) ?b1)"
  have "bus_step b (Pub t) ?b1" by (rule bus_step.full) (use assms True in simp_all)
  moreover have "bus_step ?b1 (Pub t) ?b2"
    using bus_step.drop_oldest[of ?b1 t "p\<lparr>pb_phase := AtDrop\<rparr>" s todo e q] assms q by simp
  moreover have "bus_step ?b2 (SendVia s) (set_lock s False (set_queue ch (q @ [pb_event p])
      (set_pub t (Some (p\<lparr>pb_todo := todo, pb_phase := AtNext\<rparr>)) ?b2)))"
    using bus_step.send[of ?b2 t "p\<lparr>pb_phase := AtSend\<rparr>" s todo] assms q True by simp
  ultimately have "bus_steps b [Pub t, Pub t, SendVia s] (set_lock s False (set_queue ch (q @ [pb_event p])
      (set_pub t (Some (p\<lparr>pb_todo := todo, pb_phase := AtNext\<rparr>)) ?b2)))"
    by (auto simp: bus_steps_Cons)
  then show ?thesis
    by (intro exI conjI) (assumption, use True q in \<open>simp_all add: deliver_def\<close>)
qed

section \<open>Live events\<close>

text \<open>\<open>LiveHub\<close> offers an event to every subscriber's channel of 32; a full one misses it.\<close>

definition liveBuffer :: nat where "liveBuffer = 32"

definition live_Subscribe :: "nat \<Rightarrow> (nat \<rightharpoonup> 'e list) \<Rightarrow> (nat \<rightharpoonup> 'e list)" where
  "live_Subscribe ch subs = subs(ch \<mapsto> [])"

definition live_Unsubscribe :: "nat \<Rightarrow> (nat \<rightharpoonup> 'e list) \<Rightarrow> (nat \<rightharpoonup> 'e list)" where
  "live_Unsubscribe ch subs = subs(ch := None)"

definition live_Publish :: "'e \<Rightarrow> (nat \<rightharpoonup> 'e list) \<Rightarrow> (nat \<rightharpoonup> 'e list)" where
  "live_Publish ev subs = (\<lambda>ch. map_option (\<lambda>q. if length q < liveBuffer then q @ [ev] else q) (subs ch))"

section \<open>A bus with one subscriber\<close>

definition demo_bus :: bus where
  "demo_bus = (NewEventBus (\<lambda>_. 1))\<lparr>bs_topics := (\<lambda>_. [])(''t'' := [0]), bs_fresh := 1\<rparr>"

lemma demo_bus_reached: "bus_steps (NewEventBus (\<lambda>_. 1)) [Joined (Some 0)] demo_bus"
proof -
  have "bus_Subscribe ''t'' (Some 0) (NewEventBus (\<lambda>_. 1)) = Ok demo_bus"
    by (auto simp: bus_Subscribe_def NewEventBus_def demo_bus_def Let_def fun_eq_iff)
  then have "bus_step (NewEventBus (\<lambda>_. 1)) (Joined (Some 0)) demo_bus" by (rule bus_step.subscribe)
  then show ?thesis by (simp add: bus_steps_Cons)
qed

definition demo_event :: bus_event where
  "demo_event = \<lparr>be_topic = ''t'', be_data = MQTTTrigger \<lparr>mt_camera = ''c'', mt_action = ''record'', mt_at = 0\<rparr>\<rparr>"

definition demo_pub :: "nat list \<Rightarrow> phase \<Rightarrow> publisher" where
  "demo_pub todo ph = \<lparr>pb_event = demo_event, pb_todo = todo, pb_phase = ph\<rparr>"

lemma demo_published:
  "bus_steps (NewEventBus (\<lambda>_. 1)) [Joined (Some 0), Env] (set_pub 0 (Some (demo_pub [0] AtNext)) demo_bus)"
proof -
  have "bus_step demo_bus Env (set_pub 0 (Some (demo_pub [0] AtNext)) demo_bus)"
    using bus_step.publish[of demo_bus 0 demo_event "''t''"]
    by (simp add: demo_bus_def NewEventBus_def demo_pub_def demo_event_def)
  then show ?thesis using demo_bus_reached by (auto simp: bus_steps_Cons)
qed

section \<open>Properties\<close>

text \<open>once a channel is unsubscribed from a topic, no publisher sends to that subscription again,
  not even one that had copied the list of subscribers before, in every interleaving.\<close>

theorem unsubscribed_gets_nothing:
  assumes "bus_steps (NewEventBus cap) ls0 b" and "\<forall>s\<in>set (matching topic ch b). \<not> bs_locked b s"
    and "s \<in> set (matching topic ch b)" and "bus_steps (bus_Unsubscribe topic ch b) ls b'"
  shows "SendVia s \<notin> set ls"
proof (rule closed_gets_nothing[OF assms(4)])
  have i: "bus_inv b" by (rule bus_steps_inv[OF assms(1) NewEventBus_inv])
  show "bus_inv (bus_Unsubscribe topic ch b)"
    by (rule bus_step_inv[OF bus_step.unsubscribe[OF assms(2)] i])
  show "bs_closed (bus_Unsubscribe topic ch b) s" using assms(3) by (simp add: bus_Unsubscribe_def)
  show "s < bs_fresh (bus_Unsubscribe topic ch b)"
    using bus_invD(5)[OF i] assms(3) by (auto simp: bus_Unsubscribe_def matching_def)
qed

theorem unsubscribed_witness:
  "\<exists>b'. bus_steps (bus_Unsubscribe ''t'' 0 (set_pub 0 (Some (demo_pub [0] AtNext)) demo_bus)) [Pub 0] b'
     \<and> SendVia 0 \<notin> set [Pub 0]"
proof -
  let ?b = "bus_Unsubscribe ''t'' 0 (set_pub 0 (Some (demo_pub [0] AtNext)) demo_bus)"
  have m: "matching ''t'' 0 (set_pub 0 (Some (demo_pub [0] AtNext)) demo_bus) = [0]"
    by (simp add: matching_def demo_bus_def NewEventBus_def)
  have "bus_step ?b (Pub 0) (set_pub 0 (Some (demo_pub [] AtNext)) ?b)"
    using bus_step.skip[of ?b 0 "demo_pub [0] AtNext" 0 "[]"] m
    by (simp add: bus_Unsubscribe_def demo_pub_def demo_bus_def NewEventBus_def)
  then have s: "bus_steps ?b [Pub 0] (set_pub 0 (Some (demo_pub [] AtNext)) ?b)" by (auto simp: bus_steps_Cons)
  have "SendVia 0 \<notin> set [Pub 0]"
    by (rule unsubscribed_gets_nothing[OF demo_published _ _ s]) (simp_all only: m, simp_all add: demo_bus_def NewEventBus_def)
  with s show ?thesis by blast
qed



text \<open>a publisher may wait for ever.  It tested a channel and found it full; if the consumer
  empties the channel before the receive that was to make room, then, as long as nobody else
  subscribes that channel, the publisher never takes another step nor sends.\<close>

theorem publisher_blocks_forever:
  assumes "bus_steps (NewEventBus cap) ls0 b" and "stuck t s b"
    and "bus_steps b ls b'" and "Joined (Some (bs_chan_of b s)) \<notin> set ls"
  shows "stuck t s b' \<and> Pub t \<notin> set ls \<and> SendVia s \<notin> set ls"
  by (rule stuck_forever[OF assms(3,2) bus_steps_inv[OF assms(1) NewEventBus_inv] assms(4)])

lemma bus_steps_append: "bus_steps b ls b' \<Longrightarrow> bus_steps b' ls' b'' \<Longrightarrow> bus_steps b (ls @ ls') b''"
  by (induction rule: bus_steps.induct) (auto simp: bus_steps_Cons)

definition demo_stuck :: bus where
  "demo_stuck = set_queue 0 [] (set_lock 0 True (set_pub 1 (Some (demo_pub [0] AtDrop))
     (set_pub 1 (Some (demo_pub [0] AtNext)) (set_lock 0 False (set_queue 0 [demo_event]
       (set_pub 0 (Some (demo_pub [] AtNext)) (set_lock 0 True (set_pub 0 (Some (demo_pub [0] AtSend))
         (set_pub 0 (Some (demo_pub [0] AtNext)) demo_bus)))))))))"

lemma demo_stuck_reached:
  "bus_steps (NewEventBus (\<lambda>_. 1)) ([Joined (Some 0), Env] @ [Pub 0, SendVia 0, Env, Pub 1, Consume 0]) demo_stuck"
proof -
  note defs = demo_bus_def NewEventBus_def demo_pub_def demo_event_def
  let ?b2 = "set_pub 0 (Some (demo_pub [0] AtNext)) demo_bus"
  let ?b3 = "set_lock 0 True (set_pub 0 (Some (demo_pub [0] AtSend)) ?b2)"
  let ?b4 = "set_lock 0 False (set_queue 0 [demo_event] (set_pub 0 (Some (demo_pub [] AtNext)) ?b3))"
  let ?b5 = "set_pub 1 (Some (demo_pub [0] AtNext)) ?b4"
  let ?b6 = "set_lock 0 True (set_pub 1 (Some (demo_pub [0] AtDrop)) ?b5)"
  have "bus_step ?b2 (Pub 0) ?b3"
    using bus_step.has_room[of ?b2 0 "demo_pub [0] AtNext" 0 "[]"] by (simp add: defs)
  moreover have "bus_step ?b3 (SendVia 0) ?b4"
    using bus_step.send[of ?b3 0 "demo_pub [0] AtSend" 0 "[]"] by (simp add: defs)
  moreover have "bus_step ?b4 Env ?b5"
    using bus_step.publish[of ?b4 1 demo_event "''t''"] by (simp add: defs)
  moreover have "bus_step ?b5 (Pub 1) ?b6"
    using bus_step.full[of ?b5 1 "demo_pub [0] AtNext" 0 "[]"] by (simp add: defs)
  moreover have "bus_step ?b6 (Consume 0) (set_queue 0 [] ?b6)"
    using bus_step.consume[of ?b6 0 demo_event "[]"] by (simp add: defs)
  ultimately have "bus_steps ?b2 [Pub 0, SendVia 0, Env, Pub 1, Consume 0] demo_stuck"
    unfolding demo_stuck_def by (auto simp: bus_steps_Cons)
  then show ?thesis by (rule bus_steps_append[OF demo_published])
qed

theorem publisher_blocks_witness:
  "\<exists>b b'. bus_steps (NewEventBus (\<lambda>_. 1)) [Joined (Some 0), Env, Pub 0, SendVia 0, Env, Pub 1, Consume 0] b
     \<and> bus_steps b [Env] b' \<and> stuck 1 0 b'"
proof -
  let ?b = "set_pub 2 (Some \<lparr>pb_event = demo_event, pb_todo = [0], pb_phase = AtNext\<rparr>) demo_stuck"
  have "bus_step demo_stuck Env ?b"
    using bus_step.publish[of demo_stuck 2 demo_event "''t''"]
    by (simp add: demo_stuck_def demo_bus_def NewEventBus_def demo_event_def)
  then have s: "bus_steps demo_stuck [Env] ?b" by (auto simp: bus_steps_Cons)
  have "stuck 1 0 demo_stuck"
    by (simp add: stuck_def demo_stuck_def demo_pub_def demo_bus_def NewEventBus_def)
  then have "stuck 1 0 ?b" using publisher_blocks_forever[OF demo_stuck_reached _ s] by simp
  with s show ?thesis using demo_stuck_reached by auto
qed

end
