(* ===== verification/Auth_Media.thy ===== *)
theory Auth_Media
  imports Go_Strings "HOL-Library.AList"
begin

text \<open>
  Who may publish and play a stream: \<open>MediaAuthorizer\<close> (\<open>internal/auth/media.go\<close>,
  \<open>media_internal.go\<close>) and the hooks of the media server in \<open>internal/ban/manager.go\<close>.  The token
  maps are association lists.  The ban table is a parameter, \<open>bans\<close>: an error of the
  database, or the reason of the ban if there is one.
\<close>

section \<open>State\<close>

record media_grant =
  gr_publish :: string
  gr_playback :: string

record authorizer =
  ma_tokens :: "((string \<times> string) \<times> (string \<times> string) list) list"
  ma_internal :: "string \<rightharpoonup> media_grant"

datatype auth_error =
    NotConfigured string string string
  | InvalidInternal
  | InvalidToken string string string
  | BadGrant
  | AlreadyReserved
  | HasCredentials
  | BadQuery
  | BanLookupFailed
  | Banned string

definition NewMediaAuthorizer :: authorizer where
  "NewMediaAuthorizer = \<lparr>ma_tokens = [], ma_internal = Map.empty\<rparr>"

definition no_grant :: media_grant where
  "no_grant = \<lparr>gr_publish = [], gr_playback = []\<rparr>"

definition dirPublish :: string where "dirPublish = ''publish''"
definition dirPlayback :: string where "dirPlayback = ''playback''"

section \<open>Tokens\<close>

definition normalizeProtocol :: "string \<Rightarrow> string" where
  "normalizeProtocol p = to_lower (trim_space p)"

fun clone_tokens :: "(string \<times> string) list \<Rightarrow> (string \<times> string) list \<Rightarrow> (string \<times> string) list" where
  "clone_tokens [] m = m"
| "clone_tokens ((sid, tok) # rest) m =
     clone_tokens rest (if trim_space sid \<noteq> [] \<and> tok \<noteq> [] then AList.update (trim_space sid) tok m else m)"

definition setTokens :: "string \<Rightarrow> string \<Rightarrow> (string \<times> string) list \<Rightarrow> authorizer \<Rightarrow> authorizer" where
  "setTokens dir proto toks a =
     a\<lparr>ma_tokens := AList.update (dir, normalizeProtocol proto) (clone_tokens toks []) (ma_tokens a)\<rparr>"

definition SetPublishTokens :: "string \<Rightarrow> (string \<times> string) list \<Rightarrow> authorizer \<Rightarrow> authorizer" where
  "SetPublishTokens = setTokens dirPublish"

definition SetPlaybackTokens :: "string \<Rightarrow> (string \<times> string) list \<Rightarrow> authorizer \<Rightarrow> authorizer" where
  "SetPlaybackTokens = setTokens dirPlayback"

text \<open>A missing entry of the nested maps reads as the empty string.\<close>

definition token_of :: "string \<Rightarrow> string \<Rightarrow> string \<Rightarrow> authorizer \<Rightarrow> string" where
  "token_of dir proto sid a =
     (case map_of (ma_tokens a) (dir, proto) of
        None \<Rightarrow> []
      | Some streams \<Rightarrow> (case map_of streams sid of None \<Rightarrow> [] | Some t \<Rightarrow> t))"

definition wanted :: "string \<Rightarrow> string \<Rightarrow> string \<Rightarrow> authorizer \<Rightarrow> string" where
  "wanted dir proto sid a =
     (let w = token_of dir proto sid a in if w = [] then token_of dir ''media'' sid a else w)"

definition authorize :: "string \<Rightarrow> string \<Rightarrow> string \<Rightarrow> string \<Rightarrow> authorizer \<Rightarrow> (auth_error, unit) res" where
  "authorize dir protocol streamID token a =
     (let proto = normalizeProtocol protocol; sid = trim_space streamID in
      case ma_internal a sid of
        Some g \<Rightarrow>
          let want = (if dir = dirPublish then gr_publish g else gr_playback g) in
          if want = [] \<or> \<not> ConstantTimeEqual token want then Err InvalidInternal else Ok ()
      | None \<Rightarrow>
          let want = wanted dir proto sid a in
          if want = [] then Err (NotConfigured proto dir sid)
          else if \<not> ConstantTimeEqual token want then Err (InvalidToken proto dir sid)
          else Ok ())"

definition AuthorizePublish :: "string \<Rightarrow> string \<Rightarrow> string \<Rightarrow> authorizer \<Rightarrow> (auth_error, unit) res" where
  "AuthorizePublish = authorize dirPublish"

definition AuthorizePlayback :: "string \<Rightarrow> string \<Rightarrow> string \<Rightarrow> authorizer \<Rightarrow> (auth_error, unit) res" where
  "AuthorizePlayback = authorize dirPlayback"

definition PlaybackRequired :: "authorizer \<Rightarrow> bool" where
  "PlaybackRequired a = list_ex (\<lambda>(k, streams). fst k = dirPlayback \<and> streams \<noteq> []) (ma_tokens a)"

definition SharedPublishRequired :: "authorizer \<Rightarrow> bool" where
  "SharedPublishRequired a =
     (case map_of (ma_tokens a) (dirPublish, ''media'') of None \<Rightarrow> False | Some streams \<Rightarrow> streams \<noteq> [])"

section \<open>Internal streams\<close>

definition ReserveInternalStream ::
  "string \<Rightarrow> string \<Rightarrow> string \<Rightarrow> authorizer \<Rightarrow> authorizer \<times> (auth_error, unit) res" where
  "ReserveInternalStream sid publish playback a =
     (if sid = [] \<or> publish = [] \<or> playback = [] then (a, Err BadGrant)
      else if (case ma_internal a sid of Some g \<Rightarrow> gr_publish g \<noteq> [] \<or> gr_playback g \<noteq> [] | None \<Rightarrow> False)
        then (a, Err AlreadyReserved)
      else if list_ex (\<lambda>(k, streams). map_of streams sid \<noteq> None) (ma_tokens a) then (a, Err HasCredentials)
      else (a\<lparr>ma_internal := (ma_internal a)(sid \<mapsto> \<lparr>gr_publish = publish, gr_playback = playback\<rparr>)\<rparr>, Ok ()))"

definition RevokeInternalStream :: "string \<Rightarrow> authorizer \<Rightarrow> authorizer" where
  "RevokeInternalStream sid a =
     (if ma_internal a sid \<noteq> None then a\<lparr>ma_internal := (ma_internal a)(sid \<mapsto> no_grant)\<rparr> else a)"

definition RestoreInternalStream :: "string \<Rightarrow> authorizer \<Rightarrow> authorizer" where
  "RestoreInternalStream sid a =
     (if sid = [] then a
      else if ma_internal a sid = None then a\<lparr>ma_internal := (ma_internal a)(sid \<mapsto> no_grant)\<rparr> else a)"

definition InternalPlaybackRequired :: "string \<Rightarrow> authorizer \<Rightarrow> bool" where
  "InternalPlaybackRequired sid a = (ma_internal a sid \<noteq> None)"

section \<open>Query strings\<close>

text \<open>\<open>url.ParseQuery\<close>: pairs are separated by ampersands, a semicolon or a bad escape is an
  error, \<open>Get\<close> reads the first value.\<close>

definition hex_val :: "char \<Rightarrow> nat option" where
  "hex_val c =
     (let n = (of_char c :: nat) in
      if 48 \<le> n \<and> n \<le> 57 then Some (n - 48)
      else if 97 \<le> n \<and> n \<le> 102 then Some (n - 87)
      else if 65 \<le> n \<and> n \<le> 70 then Some (n - 55) else None)"

fun query_unescape :: "string \<Rightarrow> string option" where
  "query_unescape [] = Some []"
| "query_unescape (c # s) =
     (if c = CHR ''%'' then
        (case s of
           h # l # s' \<Rightarrow>
             (case (hex_val h, hex_val l) of
                (Some x, Some y) \<Rightarrow> map_option (\<lambda>t. char_of (16 * x + y) # t) (query_unescape s')
              | _ \<Rightarrow> None)
         | _ \<Rightarrow> None)
      else map_option (\<lambda>t. (if c = CHR ''+'' then CHR '' '' else c) # t) (query_unescape s))"

fun parse_pairs :: "string list \<Rightarrow> (string \<times> string) list option" where
  "parse_pairs [] = Some []"
| "parse_pairs (seg # segs) =
     (if CHR '';'' \<in> set seg then None
      else if seg = [] then parse_pairs segs
      else case cut (CHR ''='') seg of (k, v, _) \<Rightarrow>
        (case (query_unescape k, query_unescape v) of
           (Some k', Some v') \<Rightarrow> map_option (\<lambda>ps. (k', v') # ps) (parse_pairs segs)
         | _ \<Rightarrow> None))"

definition QueryToken :: "string \<Rightarrow> string \<Rightarrow> (auth_error, string) res" where
  "QueryToken raw param =
     (case parse_pairs (split_on (CHR ''&'') raw) of
        None \<Rightarrow> Err BadQuery
      | Some ps \<Rightarrow> Ok (case map_of ps param of None \<Rightarrow> [] | Some v \<Rightarrow> v))"

section \<open>The hooks of the media server\<close>

record ban_manager =
  bm_auth :: authorizer
  bm_rtmp :: bool
  bm_rtsp :: bool

definition NewManager :: "authorizer \<Rightarrow> ban_manager" where
  "NewManager a = \<lparr>bm_auth = a, bm_rtmp = True, bm_rtsp = True\<rparr>"

type_synonym ban_table = "string \<Rightarrow> (unit, string option) res"

definition rejectBannedStream :: "ban_table \<Rightarrow> string \<Rightarrow> bool \<Rightarrow> (auth_error, unit) res" where
  "rejectBannedStream bans sid failClosed =
     (case bans sid of
        Ok None \<Rightarrow> Ok ()
      | Ok (Some reason) \<Rightarrow> Err (Banned (if reason = [] then ''banned'' else reason))
      | _ \<Rightarrow> if failClosed then Err BanLookupFailed else Ok ())"

definition ban_AuthorizePublish ::
  "ban_table \<Rightarrow> string \<Rightarrow> string \<Rightarrow> string \<Rightarrow> ban_manager \<Rightarrow> (auth_error, unit) res" where
  "ban_AuthorizePublish bans protocol sid token m =
     bind (AuthorizePublish (normalizeProtocol protocol) sid token (bm_auth m))
       (\<lambda>_. rejectBannedStream bans sid True)"

definition OnPubStart ::
  "ban_table \<Rightarrow> string \<Rightarrow> string \<Rightarrow> string \<Rightarrow> ban_manager \<Rightarrow> (auth_error, unit) res" where
  "OnPubStart bans protocol sid urlParam m =
     (if equal_fold protocol ''RTMP'' then
        (if \<not> bm_rtmp m \<and> \<not> InternalPlaybackRequired sid (bm_auth m) then rejectBannedStream bans sid True
         else bind (QueryToken urlParam ''stream_key'') (\<lambda>token. ban_AuthorizePublish bans ''rtmp'' sid token m))
      else if equal_fold protocol ''RTSP'' then
        (if \<not> bm_rtsp m \<and> \<not> InternalPlaybackRequired sid (bm_auth m) then rejectBannedStream bans sid True
         else if SharedPublishRequired (bm_auth m) \<or> InternalPlaybackRequired sid (bm_auth m)
         then bind (QueryToken urlParam ''token'') (\<lambda>token. ban_AuthorizePublish bans ''rtsp'' sid token m)
         else rejectBannedStream bans sid False)
      else rejectBannedStream bans sid False)"

definition OnSubStart :: "string \<Rightarrow> string \<Rightarrow> string \<Rightarrow> ban_manager \<Rightarrow> (auth_error, unit) res" where
  "OnSubStart protocol sid urlParam m =
     (if \<not> PlaybackRequired (bm_auth m) \<and> \<not> InternalPlaybackRequired sid (bm_auth m) then Ok ()
      else bind (QueryToken urlParam ''token'') (\<lambda>token. AuthorizePlayback protocol sid token (bm_auth m)))"

definition OnHls :: "string \<Rightarrow> string \<Rightarrow> ban_manager \<Rightarrow> (auth_error, unit) res" where
  "OnHls sid urlParam m =
     (if \<not> PlaybackRequired (bm_auth m) \<and> \<not> InternalPlaybackRequired sid (bm_auth m) then Ok ()
      else bind (QueryToken urlParam ''token'') (\<lambda>token. AuthorizePlayback ''hls'' sid token (bm_auth m)))"

section \<open>Runs\<close>

datatype auth_op =
    SetTokens bool string "(string \<times> string) list"
  | Reserve string string string
  | Revoke string
  | Restore string

fun auth_step :: "auth_op \<Rightarrow> authorizer \<Rightarrow> authorizer" where
  "auth_step (SetTokens publish proto toks) a =
     (if publish then SetPublishTokens proto toks a else SetPlaybackTokens proto toks a)"
| "auth_step (Reserve sid p q) a = fst (ReserveInternalStream sid p q a)"
| "auth_step (Revoke sid) a = RevokeInternalStream sid a"
| "auth_step (Restore sid) a = RestoreInternalStream sid a"

fun reserves :: "string \<Rightarrow> auth_op \<Rightarrow> bool" where
  "reserves sid (Reserve s p q) = (s = sid)"
| "reserves sid _ = False"

section \<open>Facts\<close>

lemma dirs_differ [simp]: "dirPlayback \<noteq> dirPublish" "dirPublish \<noteq> dirPlayback"
  by (simp_all add: dirPublish_def dirPlayback_def)

lemma internal_after_step:
  assumes "\<not> reserves sid e" and "ma_internal a sid = Some no_grant"
  shows "ma_internal (auth_step e a) sid = Some no_grant"
  using assms
  by (cases e) (auto simp: SetPublishTokens_def SetPlaybackTokens_def setTokens_def ReserveInternalStream_def
      RevokeInternalStream_def RestoreInternalStream_def)

lemma internal_after_run:
  assumes "list_all (\<lambda>e. \<not> reserves sid e) es" and "ma_internal a sid = Some no_grant"
  shows "ma_internal (fold auth_step es a) sid = Some no_grant"
  using assms by (induction es arbitrary: a) (simp_all add: internal_after_step)

lemma authorize_no_grant:
  assumes "ma_internal a (trim_space sid) = Some no_grant"
  shows "authorize dir proto sid tok a = Err InvalidInternal"
  using assms by (simp add: authorize_def no_grant_def Let_def)

lemma authorize_Ok_iff:
  "authorize dir proto sid tok a = Ok () \<longleftrightarrow>
     tok \<noteq> [] \<and>
     (case ma_internal a (trim_space sid) of
        Some g \<Rightarrow> tok = (if dir = dirPublish then gr_publish g else gr_playback g)
      | None \<Rightarrow> tok = wanted dir (normalizeProtocol proto) (trim_space sid) a)"
  by (auto simp: authorize_def Let_def ConstantTimeEqual_def split: option.splits)

lemma rejectBannedStream_Ok_iff:
  "rejectBannedStream bans sid True = Ok () \<longleftrightarrow> bans sid = Ok None"
  by (auto simp: rejectBannedStream_def split: res.splits option.splits)

lemma normalizeProtocol_lower [simp]: "normalizeProtocol ''rtmp'' = ''rtmp''" "normalizeProtocol ''rtsp'' = ''rtsp''"
  by code_simp+

lemma OnPubStart_RTMP_Ok:
  assumes "equal_fold protocol ''RTMP''" and "bm_rtmp m \<or> InternalPlaybackRequired sid (bm_auth m)"
  shows "OnPubStart bans protocol sid q m = Ok () \<longleftrightarrow>
    (\<exists>tok. QueryToken q ''stream_key'' = Ok tok \<and> authorize dirPublish ''rtmp'' sid tok (bm_auth m) = Ok ()
       \<and> bans sid = Ok None)"
  using assms
  by (auto simp: OnPubStart_def ban_AuthorizePublish_def AuthorizePublish_def bind_eq_Ok rejectBannedStream_Ok_iff)

lemma internal_denied:
  assumes "ma_internal (bm_auth m) sid = Some no_grant" and "trim_space sid = sid"
  shows "authorize dir proto sid tok (bm_auth m) = Err InvalidInternal"
    and "OnSubStart protocol sid q m \<noteq> Ok ()" and "OnHls sid q m \<noteq> Ok ()"
    and "equal_fold protocol ''RTMP'' \<or> equal_fold protocol ''RTSP'' \<Longrightarrow> OnPubStart bans protocol sid q m \<noteq> Ok ()"
proof -
  have d: "authorize dir proto sid tok (bm_auth m) = Err InvalidInternal" for dir proto tok
    by (rule authorize_no_grant) (simp add: assms)
  then show "authorize dir proto sid tok (bm_auth m) = Err InvalidInternal" .
  have i: "InternalPlaybackRequired sid (bm_auth m)" using assms(1) by (simp add: InternalPlaybackRequired_def)
  show "OnSubStart protocol sid q m \<noteq> Ok ()" and "OnHls sid q m \<noteq> Ok ()"
    using d i by (auto simp: OnSubStart_def OnHls_def AuthorizePlayback_def bind_eq_Ok)
  show "equal_fold protocol ''RTMP'' \<or> equal_fold protocol ''RTSP'' \<Longrightarrow> OnPubStart bans protocol sid q m \<noteq> Ok ()"
    using d i by (auto simp: OnPubStart_def ban_AuthorizePublish_def AuthorizePublish_def bind_eq_Ok)
qed

section \<open>Properties\<close>

text \<open>C12: a revoked internal stream, or one restored after a restart, stays denied for publishing,
  playback and HLS until it is reserved again: no token and no reload of the configured tokens,
  not even one that names the stream, opens it.\<close>

theorem revoked_stays_denied:
  assumes "a = RevokeInternalStream sid a0 \<and> ma_internal a0 sid \<noteq> None
      \<or> a = RestoreInternalStream sid NewMediaAuthorizer \<and> sid \<noteq> []"
    and "list_all (\<lambda>e. \<not> reserves sid e) es" and "trim_space sid = sid" and "bm_auth m = fold auth_step es a"
  shows "authorize dir proto sid tok (bm_auth m) = Err InvalidInternal
    \<and> OnSubStart protocol sid q m \<noteq> Ok () \<and> OnHls sid q m \<noteq> Ok ()
    \<and> (equal_fold protocol ''RTMP'' \<or> equal_fold protocol ''RTSP'' \<longrightarrow> OnPubStart bans protocol sid q m \<noteq> Ok ())"
proof -
  have "ma_internal a sid = Some no_grant"
    using assms(1) by (auto simp: RevokeInternalStream_def RestoreInternalStream_def NewMediaAuthorizer_def)
  from internal_after_run[OF assms(2) this] have "ma_internal (bm_auth m) sid = Some no_grant" by (simp add: assms(4))
  from internal_denied[OF this assms(3)] show ?thesis by blast
qed

theorem revoked_stays_denied_witness:
  "OnHls ''s'' ''token=x'' (NewManager (fold auth_step [SetTokens False ''hls'' [(''s'', ''x'')]]
     (RestoreInternalStream ''s'' NewMediaAuthorizer))) \<noteq> Ok ()"
proof -
  have "trim_space ''s'' = ''s''" by code_simp
  then show ?thesis
    using revoked_stays_denied[of "RestoreInternalStream ''s'' NewMediaAuthorizer" "''s''" NewMediaAuthorizer
        "[SetTokens False ''hls'' [(''s'', ''x'')]]" "NewManager (fold auth_step [SetTokens False ''hls'' [(''s'', ''x'')]]
          (RestoreInternalStream ''s'' NewMediaAuthorizer))"]
    by (simp add: NewManager_def)
qed

text \<open>with credential checks on, an RTMP publisher is let in exactly when its query parses, its
  non-empty stream key is the token wanted for the stream (the one configured for RTMP, else
  the shared one), and the ban table answers that the stream is not banned.\<close>

theorem rtmp_publish_iff:
  assumes "equal_fold protocol ''RTMP''" and "bm_rtmp m" and "ma_internal (bm_auth m) (trim_space sid) = None"
  shows "OnPubStart bans protocol sid q m = Ok () \<longleftrightarrow>
    (\<exists>key. QueryToken q ''stream_key'' = Ok key \<and> key \<noteq> []
       \<and> key = wanted dirPublish ''rtmp'' (trim_space sid) (bm_auth m) \<and> bans sid = Ok None)"
  using assms by (simp add: OnPubStart_RTMP_Ok authorize_Ok_iff)

theorem rtmp_publish_witness:
  "OnPubStart (\<lambda>_. Ok None) ''rtmp'' ''s'' ''a=1&stream_key=k%31''
     (NewManager (SetPublishTokens ''rtmp'' [(''s'', ''k1'')] NewMediaAuthorizer)) = Ok ()"
proof -
  let ?m = "NewManager (SetPublishTokens ''rtmp'' [(''s'', ''k1'')] NewMediaAuthorizer)"
  have f: "equal_fold ''rtmp'' ''RTMP''" by code_simp
  have q: "QueryToken ''a=1&stream_key=k%31'' ''stream_key'' = Ok ''k1''" by code_simp
  have w: "wanted dirPublish ''rtmp'' (trim_space ''s'') (bm_auth ?m) = ''k1''" by code_simp
  have i: "bm_rtmp ?m" "ma_internal (bm_auth ?m) (trim_space ''s'') = None"
    by (simp_all add: NewManager_def SetPublishTokens_def setTokens_def NewMediaAuthorizer_def)
  show ?thesis unfolding rtmp_publish_iff[OF f i] using q w by auto
qed

end
