(* ===== verification/Auth_Digest.thy ===== *)
theory Auth_Digest
  imports Md5 "HOL-Library.AList"
begin

text \<open>
  Digest authentication: the parser, the response and the builder of \<open>internal/auth/digest.go\<close> and
  the nonce store of \<open>digest_nonce.go\<close>.  Random bytes and the clock are arguments.
\<close>

section \<open>Parsing\<close>

definition trim_left_blank :: "string \<Rightarrow> string" where
  "trim_left_blank s = dropWhile (\<lambda>c. c = CHR '' '' \<or> c = CHR 0x09) s"

text \<open>A quoted value after its opening quote: the unescaped value and what follows.\<close>

fun parse_quoted :: "string \<Rightarrow> (string \<times> string) option" where
  "parse_quoted [] = None"
| "parse_quoted (c # s) =
     (if c = CHR 0x5C then
        (case s of [] \<Rightarrow> None | d # s' \<Rightarrow> map_option (\<lambda>(v, r). (d # v, r)) (parse_quoted s'))
      else if c = CHR 0x22 then Some ([], s)
      else map_option (\<lambda>(v, r). (c # v, r)) (parse_quoted s))"

definition parse_value :: "string \<Rightarrow> (string \<times> string) option" where
  "parse_value rest =
     (if has_prefix rest [CHR 0x22] then parse_quoted (tl rest)
      else case cut (CHR '','') rest of (v, r, _) \<Rightarrow> Some (trim_space v, if r \<noteq> [] then CHR '','' # r else []))"

lemma trim_left_blank_length: "length (trim_left_blank s) \<le> length s"
  by (simp add: trim_left_blank_def length_dropWhile_le)

lemma trim_space_length: "length (trim_space s) \<le> length s"
proof -
  have "length (dropWhile is_space (rev (dropWhile is_space s))) \<le> length (dropWhile is_space s)"
    by (metis length_dropWhile_le length_rev)
  then show ?thesis using length_dropWhile_le[of is_space s] by (simp add: trim_space_def)
qed

lemma parse_quoted_length: "parse_quoted s = Some (v, r) \<Longrightarrow> length r < length s"
  by (induction s arbitrary: v r rule: parse_quoted.induct) (fastforce split: if_splits list.splits)+

lemma cut_length: "cut c s = (a, b, f) \<Longrightarrow> (if f then length b < length s else b = [])"
  by (drule cut_parts) (auto split: if_splits)

lemma parse_value_length: "parse_value s = Some (v, r) \<Longrightarrow> length r \<le> length s"
  by (auto simp: parse_value_def split: if_splits prod.splits dest!: parse_quoted_length cut_length)

lemma params_shrink:
  assumes "cut (CHR ''='') rest = (k, val, True)" and "parse_value (trim_left_blank val) = Some (p, r)"
    and "trim_left_blank r \<noteq> []"
  shows "length (trim_space (tl (trim_left_blank r))) < length rest"
proof -
  have "length val < length rest" using cut_length[OF assms(1)] by simp
  moreover have "length r \<le> length val"
    using parse_value_length[OF assms(2)] trim_left_blank_length[of val] by simp
  moreover have "length (trim_space (tl (trim_left_blank r))) < length (trim_left_blank r)"
    using assms(3) trim_space_length[of "tl (trim_left_blank r)"]
    by (cases "trim_left_blank r") (simp_all add: less_Suc_eq_le)
  ultimately show ?thesis using trim_left_blank_length[of r] by simp
qed

text \<open>The loop over the parameters; \<open>rest\<close> is trimmed.\<close>

function parse_params :: "string \<Rightarrow> (string \<rightharpoonup> string) \<Rightarrow> (string \<rightharpoonup> string) option" where
  "parse_params rest params =
     (if rest = [] then Some params
      else case cut (CHR ''='') rest of (k, value, found) \<Rightarrow>
        let key = to_lower (trim_space k) in
        if \<not> found then None
        else if key = [] then None
        else (case parse_value (trim_left_blank value) of
            None \<Rightarrow> None
          | Some (parsed, r) \<Rightarrow>
              if params key \<noteq> None then None
              else let r' = trim_left_blank r; params' = params(key \<mapsto> parsed) in
                if r' = [] then Some params'
                else if hd r' \<noteq> CHR '','' then None
                else parse_params (trim_space (tl r')) params'))"
  by pat_completeness auto
termination
proof (relation "measure (length \<circ> fst)")
  show "wf (measure (length \<circ> fst))" by simp
qed (simp only: in_measure comp_apply fst_conv not_not, metis params_shrink)

declare parse_params.simps [simp del]

definition ParseDigestAuthorization :: "string \<Rightarrow> (string \<rightharpoonup> string) option" where
  "ParseDigestAuthorization header =
     (case cut (CHR '' '') (trim_space header) of (scheme, rest, found) \<Rightarrow>
        if \<not> found \<or> \<not> equal_fold scheme ''Digest'' then None
        else parse_params (trim_space rest) Map.empty)"

text \<open>A missing parameter reads as the empty string.\<close>

definition param :: "(string \<rightharpoonup> string) \<Rightarrow> string \<Rightarrow> string" where
  "param p k = (case p k of None \<Rightarrow> [] | Some v \<Rightarrow> v)"

section \<open>Responses\<close>

definition colon :: "string list \<Rightarrow> string" where
  "colon xs = concat (map (\<lambda>x. CHR '':'' # x) xs)"

text \<open>The names of the identity: user and realm, and the password.\<close>

type_synonym ident = string
type_synonym secret = string

definition DigestResponse ::
  "string \<Rightarrow> ident \<Rightarrow> ident \<Rightarrow> secret \<Rightarrow> string \<Rightarrow> string \<Rightarrow> string \<Rightarrow> string \<Rightarrow> string \<Rightarrow> string" where
  "DigestResponse method user realm pw uri nonce qop nc cnonce =
     (let ha1 = md5Hex (user @ colon [realm, pw]); ha2 = md5Hex (method @ colon [uri]) in
      if qop \<noteq> [] then md5Hex (ha1 @ colon [nonce, nc, cnonce, qop, ha2])
      else md5Hex (ha1 @ colon [nonce, ha2]))"

definition NormalizeDigestQop :: "string \<Rightarrow> string option" where
  "NormalizeDigestQop qop =
     (if trim_space qop = [] then Some []
      else if list_ex (\<lambda>opt. equal_fold (trim_space opt) ''auth'') (split_on (CHR '','') (trim_space qop)) then Some ''auth''
      else None)"

text \<open>\<open>strconv.ParseUint(nc, 16, 32)\<close> on eight characters.\<close>

fun parse_hex :: "nat \<Rightarrow> string \<Rightarrow> nat option" where
  "parse_hex acc [] = Some acc"
| "parse_hex acc (c # s) = (case hex_value c of None \<Rightarrow> None | Some x \<Rightarrow> parse_hex (16 * acc + x) s)"

definition DigestNonceCount :: "(string \<rightharpoonup> string) \<Rightarrow> 32 word \<times> bool" where
  "DigestNonceCount p =
     (if to_lower (param p ''qop'') = [] then (0, True)
      else if length (param p ''nc'') \<noteq> 8 then (0, False)
      else case parse_hex 0 (param p ''nc'') of
        None \<Rightarrow> (0, False)
      | Some n \<Rightarrow> (of_nat n, n > 0))"

text \<open>The response is a digest of 16 bytes in hexadecimal; the bytes are compared.\<close>

definition response_matches :: "string \<Rightarrow> string \<Rightarrow> bool" where
  "response_matches response want =
     (case hex_decode response of
        None \<Rightarrow> False
      | Some got \<Rightarrow> length got = 16 \<and>
          (let w = (case hex_decode want of None \<Rightarrow> [] | Some w \<Rightarrow> w)
           in length w = length got \<and> ConstantTimeEqual (string_of_bytes got) (string_of_bytes w)))"

definition VerifyDigestResponse ::
  "string \<Rightarrow> ident \<Rightarrow> ident \<Rightarrow> secret \<Rightarrow> string \<Rightarrow> string \<Rightarrow> string \<Rightarrow> bool" where
  "VerifyDigestResponse method user realm pw uri nonce response =
     (if method = [] \<or> user = [] \<or> realm = [] \<or> uri = [] \<or> nonce = [] then False
      else response_matches response (DigestResponse method user realm pw uri nonce [] [] []))"

definition bad_algorithm :: "(string \<rightharpoonup> string) \<Rightarrow> bool" where
  "bad_algorithm p = (param p ''algorithm'' \<noteq> [] \<and> \<not> equal_fold (param p ''algorithm'') ''MD5'')"

definition VerifyDigestAuthorization :: "string \<Rightarrow> string \<Rightarrow> string \<Rightarrow> string \<Rightarrow> string \<Rightarrow> bool" where
  "VerifyDigestAuthorization method user realm pw header =
     (case ParseDigestAuthorization header of
        None \<Rightarrow> False
      | Some p \<Rightarrow>
          if param p ''username'' \<noteq> user \<or> param p ''realm'' \<noteq> realm \<or> param p ''qop'' \<noteq> [] then False
          else if bad_algorithm p then False
          else VerifyDigestResponse method user realm pw (param p ''uri'') (param p ''nonce'') (param p ''response''))"

definition VerifyDigest :: "string \<Rightarrow> string \<Rightarrow> string \<Rightarrow> string \<Rightarrow> (string \<rightharpoonup> string) \<Rightarrow> bool" where
  "VerifyDigest method user realm pw p =
     (let qop = to_lower (param p ''qop'') in
      if param p ''username'' \<noteq> user \<or> param p ''realm'' \<noteq> realm \<or> param p ''uri'' = [] \<or> param p ''nonce'' = []
      then False
      else if qop \<noteq> [] \<and> qop \<noteq> ''auth'' then False
      else if qop = ''auth'' \<and> (param p ''nc'' = [] \<or> param p ''cnonce'' = []) then False
      else if qop = ''auth'' \<and> \<not> snd (DigestNonceCount p) then False
      else if bad_algorithm p then False
      else response_matches (param p ''response'')
        (DigestResponse method user realm pw (param p ''uri'') (param p ''nonce'') qop (param p ''nc'') (param p ''cnonce'')))"

section \<open>Building\<close>

definition escapeDigest :: "string \<Rightarrow> string" where
  "escapeDigest v = concat (map (\<lambda>c. if c = CHR 0x5C \<or> c = CHR 0x22 then [CHR 0x5C, c] else [c]) v)"

definition quoted_field :: "string \<Rightarrow> string \<Rightarrow> string" where
  "quoted_field k v = k @ CHR ''='' # CHR 0x22 # escapeDigest v @ [CHR 0x22]"

fun join_fields :: "string list \<Rightarrow> string" where
  "join_fields [] = []"
| "join_fields [x] = x"
| "join_fields (x # y # xs) = x @ '', '' @ join_fields (y # xs)"

text \<open>\<open>%08x\<close>\<close>

definition hex8 :: "32 word \<Rightarrow> string" where
  "hex8 n = hex_encode (be_bytes 4 n)"

definition BuildDigestAuthorizationWithNonceCount ::
  "byte list \<Rightarrow> string \<Rightarrow> string \<Rightarrow> ident \<Rightarrow> secret \<Rightarrow> ident \<Rightarrow> string \<Rightarrow> string \<Rightarrow> 32 word \<Rightarrow> string option" where
  "BuildDigestAuthorizationWithNonceCount random method uri user pw realm nonce qop nonceCount =
     (if method = [] \<or> uri = [] \<or> user = [] \<or> realm = [] \<or> nonce = [] then None
      else case NormalizeDigestQop qop of
        None \<Rightarrow> None
      | Some qop \<Rightarrow>
          let fields = [quoted_field ''username'' user, quoted_field ''realm'' realm,
                        quoted_field ''nonce'' nonce, quoted_field ''uri'' uri];
              finish = (\<lambda>extra response. Some (''Digest '' @ join_fields
                (fields @ extra @ [quoted_field ''response'' response, ''algorithm=MD5''])))
          in if qop = ''auth'' then
               (if nonceCount = 0 then None
                else let cnonce = hex_encode random; nc = hex8 nonceCount in
                  finish [''qop=auth'', ''nc='' @ nc, quoted_field ''cnonce'' cnonce]
                    (DigestResponse method user realm pw uri nonce qop nc cnonce))
             else finish [] (DigestResponse method user realm pw uri nonce [] [] []))"

definition BuildDigestAuthorization ::
  "byte list \<Rightarrow> string \<Rightarrow> string \<Rightarrow> ident \<Rightarrow> secret \<Rightarrow> ident \<Rightarrow> string \<Rightarrow> string \<Rightarrow> string option" where
  "BuildDigestAuthorization random method uri user pw realm nonce qop =
     BuildDigestAuthorizationWithNonceCount random method uri user pw realm nonce qop 1"

section \<open>The parser reads what the builder writes\<close>

lemma parse_quoted_escape: "parse_quoted (escapeDigest v @ CHR 0x22 # r) = Some (v, r)"
  by (induction v) (simp_all add: escapeDigest_def)

text \<open>A key is a nonempty word of small letters; a field is its key, an equals sign and a value that
  \<open>parse_value\<close> reads up to the comma.\<close>

definition word_key :: "string \<Rightarrow> bool" where
  "word_key k \<longleftrightarrow> k \<noteq> [] \<and> list_all (\<lambda>c. 97 \<le> (of_char c :: nat) \<and> of_char c \<le> (122 :: nat)) k"

definition reads :: "string \<Rightarrow> string \<Rightarrow> bool" where
  "reads text v \<longleftrightarrow> (\<forall>r. r = [] \<or> (\<exists>r'. r = CHR '','' # r' \<and> r' \<noteq> []) \<longrightarrow> parse_value (trim_left_blank (text @ r)) = Some (v, r))"

lemma reads_quoted: "reads (CHR 0x22 # escapeDigest v @ [CHR 0x22]) v"
  by (simp add: reads_def parse_value_def trim_left_blank_def has_prefix_def parse_quoted_escape)

lemma cut_absent: "c \<notin> set s \<Longrightarrow> cut c s = (s, [], False)"
  by (induction s) auto

lemma reads_token:
  assumes "t \<noteq> []" and "CHR '','' \<notin> set t" and "hd t \<noteq> CHR 0x22" and "trim_left_blank t = t" and "trim_space t = t"
  shows "reads t t"
  unfolding reads_def
proof (intro allI impI)
  fix r :: string
  assume r: "r = [] \<or> (\<exists>r'. r = CHR '','' # r' \<and> r' \<noteq> [])"
  obtain x xs where t: "t = x # xs" using assms(1) by (cases t) auto
  have b: "trim_left_blank (t @ r) = t @ r"
    using assms(4) dropWhile_eq_self_iff[of "\<lambda>c. c = CHR '' '' \<or> c = CHR 0x09" t]
    by (simp add: t trim_left_blank_def)
  have p: "\<not> has_prefix (t @ r) [CHR 0x22]" using assms(3) by (simp add: t has_prefix_def)
  show "parse_value (trim_left_blank (t @ r)) = Some (t, r)"
  proof (cases r)
    case Nil
    then show ?thesis using b p assms(2,5) by (simp add: parse_value_def cut_absent)
  next
    case (Cons c r')
    with r have "r = CHR '','' # r'" "r' \<noteq> []" by simp_all
    then show ?thesis using b p assms(2,5) by (simp add: parse_value_def cut_append)
  qed
qed

lemma small_letter:
  assumes "97 \<le> (of_char c :: nat)" and "of_char c \<le> (122 :: nat)"
  shows "\<not> is_space c" and "lower_char c = c" and "c \<noteq> CHR ''=''"
  using assms by (auto simp: is_space_def lower_char_def Let_def)

lemma trim_space_tight:
  assumes "s \<noteq> []" and "\<not> is_space (hd s)" and "\<not> is_space (last s)"
  shows "trim_space s = s"
proof -
  have "dropWhile is_space s = s" using assms(1,2) by (simp add: dropWhile_eq_self_iff)
  moreover have "dropWhile is_space (rev s) = rev s" using assms(1,3) by (simp add: dropWhile_eq_self_iff hd_rev)
  ultimately show ?thesis by (simp add: trim_space_def)
qed

lemma word_keyD:
  assumes "word_key k"
  shows "CHR ''='' \<notin> set k" and "to_lower (trim_space k) = k" and "k \<noteq> []" and "\<not> is_space (hd k)"
proof -
  show ne: "k \<noteq> []" using assms by (simp add: word_key_def)
  have all: "\<forall>c\<in>set k. \<not> is_space c \<and> lower_char c = c \<and> c \<noteq> CHR ''=''"
    using assms small_letter by (auto simp: word_key_def list_all_iff)
  then show "CHR ''='' \<notin> set k" by blast
  show "\<not> is_space (hd k)" using all ne by simp
  have "trim_space k = k" by (rule trim_space_tight) (use all ne in simp_all)
  then show "to_lower (trim_space k) = k" using all by (simp add: to_lower_def map_idI)
qed

type_synonym field = "string \<times> string \<times> string"

definition field_ok :: "field \<Rightarrow> bool" where
  "field_ok f = (case f of (k, t, v) \<Rightarrow> word_key k \<and> reads t v \<and> t \<noteq> [] \<and> \<not> is_space (last t))"

definition field_text :: "field \<Rightarrow> string" where
  "field_text f = (case f of (k, t, v) \<Rightarrow> k @ CHR ''='' # t)"

definition field_put :: "field \<Rightarrow> (string \<rightharpoonup> string) \<Rightarrow> (string \<rightharpoonup> string)" where
  "field_put f p = (case f of (k, t, v) \<Rightarrow> p(k \<mapsto> v))"

lemma field_put_simp [simp]: "field_put (k, t, v) p = p(k \<mapsto> v)"
  by (simp add: field_put_def)

lemma join_fields_Cons: "fs \<noteq> [] \<Longrightarrow> join_fields (x # fs) = x @ '', '' @ join_fields fs"
  by (cases fs) simp_all

lemma join_fields_tight:
  assumes "fs \<noteq> []" and "list_all field_ok fs"
  shows "join_fields (map field_text fs) \<noteq> []" and "\<not> is_space (hd (join_fields (map field_text fs)))"
    and "\<not> is_space (last (join_fields (map field_text fs)))"
proof -
  have "join_fields (map field_text fs) \<noteq> [] \<and> \<not> is_space (hd (join_fields (map field_text fs)))
      \<and> \<not> is_space (last (join_fields (map field_text fs)))"
    using assms
  proof (induction fs)
    case Nil
    then show ?case by simp
  next
    case (Cons f fs)
    obtain k t v where f: "f = (k, t, v)" by (metis prod_cases3)
    have k: "k \<noteq> []" "\<not> is_space (hd k)" "t \<noteq> []" "\<not> is_space (last t)"
      using Cons.prems(2) word_keyD[of k] by (simp_all add: f field_ok_def)
    show ?case
    proof (cases "fs = []")
      case True
      then show ?thesis using k by (simp add: f field_text_def)
    next
      case False
      then show ?thesis using k Cons.IH Cons.prems(2) by (simp add: f field_text_def join_fields_Cons)
    qed
  qed
  then show "join_fields (map field_text fs) \<noteq> []" and "\<not> is_space (hd (join_fields (map field_text fs)))"
    and "\<not> is_space (last (join_fields (map field_text fs)))" by blast+
qed

lemma parse_params_field:
  assumes "word_key k" and "reads t v" and "params k = None"
  shows "parse_params (k @ CHR ''='' # t) params = Some (params(k \<mapsto> v))"
    and "more \<noteq> [] \<Longrightarrow> trim_space more = more \<Longrightarrow> \<not> is_space (hd more) \<Longrightarrow>
      parse_params ((k @ CHR ''='' # t) @ '', '' @ more) params = parse_params more (params(k \<mapsto> v))"
proof -
  note w = word_keyD[OF assms(1)]
  have "parse_value (trim_left_blank t) = Some (v, [])" using assms(2) unfolding reads_def by (metis append_Nil2)
  then show "parse_params (k @ CHR ''='' # t) params = Some (params(k \<mapsto> v))"
    using w assms(3) by (subst parse_params.simps) (simp add: cut_append trim_left_blank_def)
  assume m: "more \<noteq> []" "trim_space more = more" "\<not> is_space (hd more)"
  have pv: "parse_value (trim_left_blank (t @ '', '' @ more)) = Some (v, '', '' @ more)"
    using assms(2) unfolding reads_def by simp
  have ts: "trim_space (CHR '' '' # more) = more"
    using m by (simp add: trim_space_def is_space_def)
  show "parse_params ((k @ CHR ''='' # t) @ '', '' @ more) params = parse_params more (params(k \<mapsto> v))"
    using w assms(3) pv ts m
    by (subst parse_params.simps) (simp add: cut_append trim_left_blank_def)
qed

lemma parse_params_join:
  assumes "list_all field_ok fs" and "distinct (map fst fs)" and "\<forall>k\<in>set (map fst fs). params k = None" and "fs \<noteq> []"
  shows "parse_params (join_fields (map field_text fs)) params = Some (fold field_put fs params)"
  using assms
proof (induction fs arbitrary: params)
  case Nil
  then show ?case by simp
next
  case (Cons f fs)
  obtain k t v where f: "f = (k, t, v)" by (metis prod_cases3)
  have k: "word_key k" "reads t v" "params k = None" using Cons.prems by (simp_all add: f field_ok_def)
  show ?case
  proof (cases "fs = []")
    case True
    have "parse_params (join_fields (map field_text (f # fs))) params = parse_params (k @ CHR ''='' # t) params"
      by (simp add: True f field_text_def)
    also have "\<dots> = Some (params(k \<mapsto> v))" by (rule parse_params_field(1)) (fact k)+
    finally show ?thesis by (simp only: True f fold_simps field_put_simp)
  next
    case False
    have ok: "list_all field_ok fs" using Cons.prems by simp
    note j = join_fields_tight[OF False ok]
    have "parse_params (join_fields (map field_text (f # fs))) params
        = parse_params (join_fields (map field_text fs)) (params(k \<mapsto> v))"
      using parse_params_field(2)[of k t v params "join_fields (map field_text fs)", OF k j(1) trim_space_tight[OF j] j(2)] False
      by (simp add: f field_text_def join_fields_Cons)
    also have "\<dots> = Some (fold field_put fs (params(k \<mapsto> v)))"
      using Cons.prems False by (intro Cons.IH) (auto simp: f)
    finally show ?thesis by (simp add: f)
  qed
qed

lemma Parse_fields:
  assumes "list_all field_ok fs" and "distinct (map fst fs)" and "fs \<noteq> []"
  shows "ParseDigestAuthorization (''Digest '' @ join_fields (map field_text fs)) = Some (fold field_put fs Map.empty)"
proof -
  note j = join_fields_tight[OF assms(3,1)]
  have "trim_space (''Digest '' @ join_fields (map field_text fs)) = ''Digest '' @ join_fields (map field_text fs)"
    by (rule trim_space_tight) (use j in \<open>simp_all add: is_space_def\<close>)
  moreover have "cut (CHR '' '') (''Digest '' @ join_fields (map field_text fs))
      = (''Digest'', join_fields (map field_text fs), True)"
    using cut_append[of "CHR '' ''" "''Digest''"] by simp
  moreover have "equal_fold ''Digest'' ''Digest''" by (simp add: equal_fold_def)
  ultimately show ?thesis
    using parse_params_join[OF assms(1,2) _ assms(3), of Map.empty] trim_space_tight[OF j]
    by (simp add: ParseDigestAuthorization_def)
qed

section \<open>Built headers verify\<close>

lemma hex_digit_char: "n < 16 \<Longrightarrow> of_char (hex_digit n) = (if n < 10 then 48 + n else 87 + n)"
  by (simp add: hex_digit_def of_char_of)

lemma hex_encode_chars:
  assumes "c \<in> set (hex_encode bs)"
  shows "\<exists>n<16. c = hex_digit n"
proof -
  from assms obtain b :: byte where "c = hex_digit (unat b div 16) \<or> c = hex_digit (unat b mod 16)"
    by (auto simp: hex_encode_def)
  moreover have "unat b < 2 ^ LENGTH(8)" by (rule unsigned_less)
  then have "unat b div 16 < 16" by simp
  moreover have "unat b mod 16 < 16" by simp
  ultimately show ?thesis by blast
qed

lemma hex_digit_plain:
  assumes "n < 16"
  shows "\<not> is_space (hex_digit n)" and "hex_digit n \<noteq> CHR '',''" and "hex_digit n \<noteq> CHR 0x22"
    and "hex_digit n \<noteq> CHR '' ''" and "hex_digit n \<noteq> CHR 0x09"
  using hex_digit_char[OF assms] by (auto simp: is_space_def split: if_splits)

lemma hex_encode_nonempty [simp]: "hex_encode bs = [] \<longleftrightarrow> bs = []"
  by (cases bs) (simp_all add: hex_encode_def)

lemma length_hex_encode [simp]: "length (hex_encode bs) = 2 * length bs"
  by (induction bs) (simp_all add: hex_encode_def)

lemma reads_hex:
  assumes "bs \<noteq> []"
  shows "reads (hex_encode bs) (hex_encode bs)" and "\<not> is_space (last (hex_encode bs))"
proof -
  let ?t = "hex_encode bs"
  have ne: "?t \<noteq> []" using assms by simp
  have all: "\<not> is_space c \<and> c \<noteq> CHR '','' \<and> c \<noteq> CHR 0x22 \<and> c \<noteq> CHR '' '' \<and> c \<noteq> CHR 0x09" if "c \<in> set ?t" for c
  proof -
    obtain n where n: "n < 16" "c = hex_digit n" using hex_encode_chars[OF \<open>c \<in> set ?t\<close>] by blast
    show ?thesis unfolding n(2) using hex_digit_plain[OF n(1)] by blast
  qed
  note h = all[OF hd_in_set[OF ne]] and l = all[OF last_in_set[OF ne]]
  show "\<not> is_space (last ?t)" by (rule conjunct1[OF l])
  show "reads ?t ?t"
  proof (rule reads_token)
    show "CHR '','' \<notin> set ?t" using all by blast
    show "trim_left_blank ?t = ?t"
      unfolding trim_left_blank_def dropWhile_eq_self_iff using h by blast
    show "trim_space ?t = ?t" by (rule trim_space_tight[OF ne conjunct1[OF h] conjunct1[OF l]])
    show "hd ?t \<noteq> CHR 0x22" using h by blast
  qed (rule ne)
qed

text \<open>The number that hexadecimal digits denote.\<close>

definition be_number :: "byte list \<Rightarrow> nat \<Rightarrow> nat" where
  "be_number bs acc = fold (\<lambda>b a. 256 * a + unat b) bs acc"

lemma be_number_simps [simp]:
  "be_number [] acc = acc" "be_number (b # bs) acc = be_number bs (256 * acc + unat b)"
  by (simp_all add: be_number_def)

lemma word_nibbles: "16 * q + r = u \<Longrightarrow> 16 * (16 * acc + q) + r = 256 * acc + (u :: nat)"
  by simp

lemma parse_hex_encode: "parse_hex acc (hex_encode bs) = Some (be_number bs acc)"
proof (induction bs arbitrary: acc)
  case Nil
  then show ?case by (simp add: hex_encode_def)
next
  case (Cons b bs)
  have "unat b < 2 ^ LENGTH(8)" by (rule unsigned_less)
  then have d: "unat b div 16 < 16" "unat b mod 16 < 16" by simp_all
  have e: "hex_encode (b # bs) = hex_digit (unat b div 16) # hex_digit (unat b mod 16) # hex_encode bs"
    by (simp add: hex_encode_def)
  have "16 * (16 * acc + unat b div 16) + unat b mod 16 = 256 * acc + unat b"
    by (rule word_nibbles) (rule mult_div_mod_eq)
  then show ?case using d by (simp add: e Cons.IH add.commute)
qed

lemma be_number_zero: "be_number bs acc = 0 \<longleftrightarrow> acc = 0 \<and> list_all (\<lambda>b. b = 0) bs"
proof (induction bs arbitrary: acc)
  case Nil
  then show ?case by simp
next
  case (Cons b bs)
  have "be_number (b # bs) acc = 0 \<longleftrightarrow> 256 * acc + unat b = 0 \<and> list_all (\<lambda>b. b = 0) bs"
    by (simp only: be_number_simps Cons.IH)
  also have "256 * acc + unat b = 0 \<longleftrightarrow> acc = 0 \<and> b = 0" by (simp add: unat_eq_zero)
  finally show ?case by simp
qed

lemma be_word_zeros: "list_all (\<lambda>b. b = 0) bs \<Longrightarrow> be_word bs = 0"
  by (induction bs) simp_all

lemma hex8_count:
  assumes "w \<noteq> 0"
  shows "\<exists>n. parse_hex 0 (hex8 w) = Some n \<and> n > 0"
proof -
  have "be_word (be_bytes 4 w) = w" by simp
  then have "\<not> list_all (\<lambda>b. b = 0) (be_bytes 4 w)" using assms be_word_zeros by metis
  then have "be_number (be_bytes 4 w) 0 \<noteq> 0" unfolding be_number_zero by blast
  then show ?thesis unfolding hex8_def parse_hex_encode by blast
qed

lemma response_matches_same [simp]: "response_matches (md5Hex x) (md5Hex x)"
proof -
  have "md5 (bytes_of_string x) \<noteq> []" by (metis length_md5 list.size(3) zero_neq_numeral)
  then show ?thesis
    by (simp add: response_matches_def md5Hex_def Let_def ConstantTimeEqual_def string_of_bytes_def)
qed

lemma response_is_hex: "\<exists>x. DigestResponse method user realm pw uri nonce qop nc cnonce = md5Hex x"
  by (auto simp: DigestResponse_def Let_def)

lemma quoted_ok: "word_key k \<Longrightarrow> field_ok (k, CHR 0x22 # escapeDigest v @ [CHR 0x22], v)"
  by (simp add: field_ok_def reads_quoted is_space_def)

lemma quoted_text: "quoted_field k v = field_text (k, CHR 0x22 # escapeDigest v @ [CHR 0x22], v)"
  by (simp add: quoted_field_def field_text_def)

lemma token_ok:
  "field_ok (''qop'', ''auth'', ''auth'')" "field_ok (''algorithm'', ''MD5'', ''MD5'')"
  "bs \<noteq> [] \<Longrightarrow> field_ok (''nc'', hex_encode bs, hex_encode bs)"
proof -
  have "reads ''auth'' ''auth''" "reads ''MD5'' ''MD5''"
    by (rule reads_token; simp add: trim_left_blank_def trim_space_def is_space_def)+
  then show "field_ok (''qop'', ''auth'', ''auth'')" "field_ok (''algorithm'', ''MD5'', ''MD5'')"
    by (simp_all add: field_ok_def word_key_def is_space_def)
  show "bs \<noteq> [] \<Longrightarrow> field_ok (''nc'', hex_encode bs, hex_encode bs)"
    using reads_hex[of bs] by (simp add: field_ok_def word_key_def)
qed

definition base_fields :: "string \<Rightarrow> string \<Rightarrow> string \<Rightarrow> string \<Rightarrow> field list" where
  "base_fields user realm nonce uri = map (\<lambda>(k, v). (k, CHR 0x22 # escapeDigest v @ [CHR 0x22], v))
     [(''username'', user), (''realm'', realm), (''nonce'', nonce), (''uri'', uri)]"

definition end_fields :: "string \<Rightarrow> field list" where
  "end_fields response = [(''response'', CHR 0x22 # escapeDigest response @ [CHR 0x22], response),
     (''algorithm'', ''MD5'', ''MD5'')]"

definition qop_fields :: "byte list \<Rightarrow> byte list \<Rightarrow> field list" where
  "qop_fields nc cnonce = [(''qop'', ''auth'', ''auth''), (''nc'', hex_encode nc, hex_encode nc),
     (''cnonce'', CHR 0x22 # escapeDigest (hex_encode cnonce) @ [CHR 0x22], hex_encode cnonce)]"

lemma fields_ok:
  "list_all field_ok (base_fields user realm nonce uri)" "list_all field_ok (end_fields response)"
  "nc \<noteq> [] \<Longrightarrow> list_all field_ok (qop_fields nc cnonce)"
  using token_ok
  by (simp_all add: base_fields_def end_fields_def qop_fields_def quoted_ok word_key_def)

lemma fields_keys:
  "map fst (base_fields user realm nonce uri) = [''username'', ''realm'', ''nonce'', ''uri'']"
  "map fst (end_fields response) = [''response'', ''algorithm'']"
  "map fst (qop_fields nc cnonce) = [''qop'', ''nc'', ''cnonce'']"
  by (simp_all add: base_fields_def end_fields_def qop_fields_def)

lemma Build_cases:
  assumes "BuildDigestAuthorizationWithNonceCount random method uri user pw realm nonce qop n = Some h"
  obtains (plain) "h = ''Digest '' @ join_fields (map field_text (base_fields user realm nonce uri
      @ end_fields (DigestResponse method user realm pw uri nonce [] [] [])))"
  | (auth) "n \<noteq> 0" and "h = ''Digest '' @ join_fields (map field_text (base_fields user realm nonce uri
      @ qop_fields (be_bytes 4 n) random
      @ end_fields (DigestResponse method user realm pw uri nonce ''auth'' (hex8 n) (hex_encode random))))"
proof (cases "NormalizeDigestQop qop")
  case None
  then show ?thesis using assms by (simp add: BuildDigestAuthorizationWithNonceCount_def split: if_splits)
next
  case (Some q)
  have shape: "[quoted_field ''username'' user, quoted_field ''realm'' realm, quoted_field ''nonce'' nonce,
      quoted_field ''uri'' uri] = map field_text (base_fields user realm nonce uri)"
    "[quoted_field ''response'' r, ''algorithm=MD5''] = map field_text (end_fields r)"
    "[''qop=auth'', ''nc='' @ hex8 n, quoted_field ''cnonce'' (hex_encode random)]
      = map field_text (qop_fields (be_bytes 4 n) random)" for r
    by (simp_all add: base_fields_def end_fields_def qop_fields_def quoted_text)
      (simp_all add: field_text_def hex8_def)
  show ?thesis
  proof (cases "q = ''auth''")
    case True
    then have "n \<noteq> 0" "h = ''Digest '' @ join_fields (map field_text (base_fields user realm nonce uri
      @ qop_fields (be_bytes 4 n) random
      @ end_fields (DigestResponse method user realm pw uri nonce ''auth'' (hex8 n) (hex_encode random))))"
      using assms Some unfolding BuildDigestAuthorizationWithNonceCount_def Let_def map_append shape[symmetric]
      by (simp_all split: if_splits)
    then show ?thesis by (rule auth)
  next
    case False
    then have "h = ''Digest '' @ join_fields (map field_text (base_fields user realm nonce uri
      @ end_fields (DigestResponse method user realm pw uri nonce [] [] [])))"
      using assms Some unfolding BuildDigestAuthorizationWithNonceCount_def Let_def map_append shape[symmetric]
      by (simp split: if_splits)
    then show ?thesis by (rule plain)
  qed
qed

lemma Build_nonempty:
  "BuildDigestAuthorizationWithNonceCount random method uri user pw realm nonce qop n = Some h \<Longrightarrow> uri \<noteq> [] \<and> nonce \<noteq> []"
  by (auto simp: BuildDigestAuthorizationWithNonceCount_def split: if_splits)

lemma Parse_Build_plain:
  "ParseDigestAuthorization (''Digest '' @ join_fields (map field_text (base_fields user realm nonce uri @ end_fields r)))
     = Some (fold field_put (base_fields user realm nonce uri @ end_fields r) Map.empty)"
  by (rule Parse_fields) (simp_all add: fields_ok fields_keys, simp add: base_fields_def)

lemma Parse_Build_auth:
  "nc \<noteq> [] \<Longrightarrow> ParseDigestAuthorization (''Digest '' @ join_fields (map field_text
     (base_fields user realm nonce uri @ qop_fields nc cn @ end_fields r)))
     = Some (fold field_put (base_fields user realm nonce uri @ qop_fields nc cn @ end_fields r) Map.empty)"
  by (rule Parse_fields) (simp_all add: fields_ok fields_keys, simp add: base_fields_def)

lemma Build_parses:
  assumes "BuildDigestAuthorizationWithNonceCount random method uri user pw realm nonce qop n = Some h"
    and "random \<noteq> []"
  shows "\<exists>p. ParseDigestAuthorization h = Some p \<and> VerifyDigest method user realm pw p
    \<and> param p ''uri'' = uri \<and> param p ''nonce'' = nonce"
proof -
  note ne = Build_nonempty[OF assms(1)]
  from assms(1) show ?thesis
  proof (cases rule: Build_cases)
    case plain
    let ?r = "DigestResponse method user realm pw uri nonce [] [] []"
    let ?p = "fold field_put (base_fields user realm nonce uri @ end_fields ?r) Map.empty"
    have q: "param ?p ''qop'' = []" "param ?p ''username'' = user" "param ?p ''realm'' = realm"
      "param ?p ''uri'' = uri" "param ?p ''nonce'' = nonce" "param ?p ''response'' = ?r"
      "param ?p ''algorithm'' = ''MD5''" "param ?p ''nc'' = []" "param ?p ''cnonce'' = []"
      by (simp_all add: base_fields_def end_fields_def param_def)
    obtain x where x: "?r = md5Hex x" using response_is_hex by blast
    have "DigestResponse method user realm pw uri nonce [] a b = ?r" for a b
      by (simp add: DigestResponse_def)
    then have "VerifyDigest method user realm pw ?p"
      using ne x q by (simp add: VerifyDigest_def bad_algorithm_def to_lower_def equal_fold_def)
    then show ?thesis using q(4,5) Parse_Build_plain[of user realm nonce uri ?r] unfolding plain by blast
  next
    case auth
    let ?nc = "be_bytes 4 n"
    let ?r = "DigestResponse method user realm pw uri nonce ''auth'' (hex8 n) (hex_encode random)"
    let ?p = "fold field_put (base_fields user realm nonce uri @ qop_fields ?nc random @ end_fields ?r) Map.empty"
    have q: "param ?p ''qop'' = ''auth''" "param ?p ''username'' = user" "param ?p ''realm'' = realm"
      "param ?p ''uri'' = uri" "param ?p ''nonce'' = nonce" "param ?p ''response'' = ?r"
      "param ?p ''algorithm'' = ''MD5''" "param ?p ''nc'' = hex8 n" "param ?p ''cnonce'' = hex_encode random"
      by (simp_all add: base_fields_def end_fields_def qop_fields_def param_def hex8_def)
    obtain x where x: "?r = md5Hex x" using response_is_hex by blast
    have l: "to_lower ''auth'' = ''auth''" by code_simp
    have nc: "length (hex8 n) = 8" "hex8 n \<noteq> []" "hex_encode random \<noteq> []"
      using assms(2) by (simp_all add: hex8_def del: be_bytes.simps) (metis length_be_bytes list.size(3) zero_neq_numeral)
    have c: "snd (DigestNonceCount ?p)"
      using hex8_count[OF auth(1)] nc l q(1,8) by (auto simp: DigestNonceCount_def)
    have "VerifyDigest method user realm pw ?p"
      using ne x q nc l c by (simp add: VerifyDigest_def bad_algorithm_def equal_fold_def)
    moreover have "?nc \<noteq> []" by (metis length_be_bytes list.size(3) zero_neq_numeral)
    ultimately show ?thesis using q(4,5) Parse_Build_auth[of ?nc user realm nonce uri random ?r] unfolding auth(2) by blast
  qed
qed

section \<open>The nonce store\<close>

record nonce_entry =
  ne_expires :: int
  ne_max :: "32 word"
  ne_consumed :: bool

text \<open>The entries as a list of distinct nonces; its order stands for the order of map iteration.\<close>

record nonce_store =
  ns_entries :: "(string \<times> nonce_entry) list"
  ns_ttl :: int
  ns_capacity :: int

definition defaultDigestNonceTTL :: int where "defaultDigestNonceTTL = 300000000000"
definition defaultDigestNonceCapacity :: int where "defaultDigestNonceCapacity = 8192"

definition NewDigestNonceStore :: "int \<Rightarrow> int \<Rightarrow> nonce_store" where
  "NewDigestNonceStore ttl capacity = \<lparr>ns_entries = [],
     ns_ttl = (if ttl \<le> 0 then defaultDigestNonceTTL else ttl),
     ns_capacity = (if capacity \<le> 0 then defaultDigestNonceCapacity else capacity)\<rparr>"

definition reapExpired :: "int \<Rightarrow> nonce_store \<Rightarrow> nonce_store" where
  "reapExpired now s = s\<lparr>ns_entries := filter (\<lambda>(_, e). now < ne_expires e) (ns_entries s)\<rparr>"

text \<open>The scan for the entry that expires first; the empty name stands for none found yet.\<close>

fun oldest_nonce :: "(string \<times> nonce_entry) list \<Rightarrow> string \<times> int \<Rightarrow> string" where
  "oldest_nonce [] (old, t) = old"
| "oldest_nonce ((n, e) # es) (old, t) =
     oldest_nonce es (if old = [] \<or> ne_expires e < t then (n, ne_expires e) else (old, t))"

definition Issue :: "int \<Rightarrow> string \<Rightarrow> nonce_store \<Rightarrow> nonce_store" where
  "Issue now nonce s =
     (let s = reapExpired now s;
          es = (if int (length (ns_entries s)) \<ge> ns_capacity s
                then AList.delete (oldest_nonce (ns_entries s) ([], 0)) (ns_entries s) else ns_entries s)
      in s\<lparr>ns_entries := AList.update nonce
             \<lparr>ne_expires = now + ns_ttl s, ne_max = 0, ne_consumed = False\<rparr> es\<rparr>)"

definition Use :: "int \<Rightarrow> string \<Rightarrow> 32 word \<Rightarrow> nonce_store \<Rightarrow> nonce_store \<times> bool" where
  "Use now nonce count s =
     (if nonce = [] then (s, False)
      else case map_of (ns_entries s) nonce of
        None \<Rightarrow> (s, False)
      | Some e \<Rightarrow>
          if \<not> now < ne_expires e then (s\<lparr>ns_entries := AList.delete nonce (ns_entries s)\<rparr>, False)
          else if count = 0 then
            (if ne_consumed e \<or> ne_max e \<noteq> 0 then (s, False)
             else (s\<lparr>ns_entries := AList.update nonce (e\<lparr>ne_consumed := True\<rparr>) (ns_entries s)\<rparr>, True))
          else if ne_consumed e \<or> count \<le> ne_max e then (s, False)
          else (s\<lparr>ns_entries := AList.update nonce (e\<lparr>ne_max := count\<rparr>) (ns_entries s)\<rparr>, True))"

definition Consume :: "int \<Rightarrow> string \<Rightarrow> nonce_store \<Rightarrow> nonce_store \<times> bool" where
  "Consume now nonce s = Use now nonce 0 s"

definition VerifyDigestAuthorizationAndConsumeNonce ::
  "int \<Rightarrow> string \<Rightarrow> string \<Rightarrow> string \<Rightarrow> string \<Rightarrow> string \<Rightarrow> nonce_store \<Rightarrow> nonce_store \<times> bool" where
  "VerifyDigestAuthorizationAndConsumeNonce now method user realm pw header s =
     (case ParseDigestAuthorization header of
        None \<Rightarrow> (s, False)
      | Some p \<Rightarrow> if VerifyDigestAuthorization method user realm pw header then Consume now (param p ''nonce'') s
          else (s, False))"

datatype nonce_op = IssueOp int string | UseOp int string "32 word"

fun nonce_step :: "nonce_op \<Rightarrow> nonce_store \<Rightarrow> nonce_store" where
  "nonce_step (IssueOp now n) s = Issue now n s"
| "nonce_step (UseOp now n c) s = fst (Use now n c s)"

text \<open>The counts with which a nonce was accepted.\<close>

fun accepted :: "string \<Rightarrow> nonce_op list \<Rightarrow> nonce_store \<Rightarrow> 32 word list" where
  "accepted n [] s = []"
| "accepted n (IssueOp now m # es) s = accepted n es (Issue now m s)"
| "accepted n (UseOp now m c # es) s =
     (if m = n \<and> snd (Use now m c s) then [c] else []) @ accepted n es (fst (Use now m c s))"

fun issues :: "string \<Rightarrow> nonce_op \<Rightarrow> bool" where
  "issues n (IssueOp now m) = (m = n)"
| "issues n (UseOp now m c) = False"

section \<open>No replay\<close>

definition nonce_inv :: "nonce_store \<Rightarrow> bool" where
  "nonce_inv s \<longleftrightarrow> distinct (map fst (ns_entries s)) \<and> int (length (ns_entries s)) \<le> ns_capacity s \<and> 0 < ns_capacity s"

lemma map_of_filter_distinct:
  "distinct (map fst xs) \<Longrightarrow> map_of (filter P xs) n =
     (case map_of xs n of None \<Rightarrow> None | Some v \<Rightarrow> if P (n, v) then Some v else None)"
proof (induction xs)
  case Nil
  then show ?case by simp
next
  case (Cons x xs)
  moreover have "fst x \<notin> set (map fst xs) \<Longrightarrow> map_of xs (fst x) = None" by (simp add: map_of_eq_None_iff)
  ultimately show ?case by (cases x) (auto split: option.splits)
qed

lemma distinct_filter_keys: "distinct (map fst xs) \<Longrightarrow> distinct (map fst (filter P xs))"
  by (induction xs) auto

lemma length_update_le: "length (AList.update k v xs) \<le> Suc (length xs)"
  by (induction xs) auto

lemma length_update_in: "k \<in> set (map fst xs) \<Longrightarrow> length (AList.update k v xs) = length xs"
  by (induction xs) auto

lemma length_delete_le: "length (AList.delete k xs) \<le> length xs"
  by (simp add: AList.delete_eq)

lemma length_delete_in: "k \<in> set (map fst xs) \<Longrightarrow> length (AList.delete k xs) < length xs"
proof -
  assume "k \<in> set (map fst xs)"
  then obtain v where "(k, v) \<in> set xs" by auto
  then show ?thesis unfolding AList.delete_eq by (rule length_filter_less) simp
qed

lemma oldest_nonce_in:
  "xs \<noteq> [] \<or> old \<in> K \<Longrightarrow> set (map fst xs) \<subseteq> K \<Longrightarrow> old \<in> K \<or> old = [] \<Longrightarrow> oldest_nonce xs (old, t) \<in> K"
proof (induction xs "(old, t)" arbitrary: old t rule: oldest_nonce.induct)
  case (1 old t)
  then show ?case by simp
next
  case (2 n e es old t)
  then show ?case by auto
qed

lemma Issue_inv:
  assumes "nonce_inv s"
  shows "nonce_inv (Issue now n s)"
proof -
  let ?r = "reapExpired now s"
  have r: "distinct (map fst (ns_entries ?r))" "int (length (ns_entries ?r)) \<le> ns_capacity s" "ns_capacity ?r = ns_capacity s"
    using assms by (auto simp: nonce_inv_def reapExpired_def distinct_filter_keys
        intro: order_trans[OF iffD2[OF of_nat_le_iff length_filter_le]])
  show ?thesis
  proof (cases "int (length (ns_entries ?r)) \<ge> ns_capacity s")
    case False
    then show ?thesis
      using r assms length_update_le[of n _ "ns_entries ?r"]
      by (simp add: nonce_inv_def Issue_def Let_def AList.distinct_update) (smt (verit) of_nat_le_iff of_nat_Suc length_update_le)
  next
    case True
    let ?o = "oldest_nonce (ns_entries ?r) ([], 0)"
    have "ns_entries ?r \<noteq> []" using True assms r by (auto simp: nonce_inv_def)
    then have "?o \<in> set (map fst (ns_entries ?r))" by (intro oldest_nonce_in) simp_all
    then have "length (AList.delete ?o (ns_entries ?r)) < length (ns_entries ?r)" by (rule length_delete_in)
    then have "length (AList.update n v (AList.delete ?o (ns_entries ?r))) \<le> length (ns_entries ?r)" for v
      using length_update_le[of n v "AList.delete ?o (ns_entries ?r)"] by linarith
    then have "int (length (AList.update n v (AList.delete ?o (ns_entries ?r)))) \<le> ns_capacity s" for v
      using r(2) by (meson of_nat_le_iff order_trans)
    then show ?thesis
      using True r assms by (simp add: nonce_inv_def Issue_def Let_def AList.distinct_update AList.distinct_delete)
  qed
qed

lemma Use_entries:
  assumes "nonce_inv s"
  shows "nonce_inv (fst (Use now n c s))"
proof -
  have u: "distinct (map fst (AList.update n v (ns_entries s)))" "distinct (map fst (AList.delete n (ns_entries s)))" for v
    using assms by (simp_all add: nonce_inv_def AList.distinct_update AList.distinct_delete)
  have l: "length (AList.update n v (ns_entries s)) = length (ns_entries s)" if "map_of (ns_entries s) n = Some e" for v e
    by (rule length_update_in) (use map_of_SomeD[OF that] in force)
  have d: "int (length (AList.delete n (ns_entries s))) \<le> ns_capacity s"
    using assms length_delete_le[of n "ns_entries s"] by (simp add: nonce_inv_def)
  show ?thesis
    using assms u l d by (auto simp: nonce_inv_def Use_def split: option.split)
qed

lemma New_inv: "nonce_inv (NewDigestNonceStore ttl capacity)"
  by (simp add: nonce_inv_def NewDigestNonceStore_def defaultDigestNonceCapacity_def)

interpretation nonce_machine: inv_machine nonce_step "\<lambda>_ _. True" nonce_inv
proof unfold_locales
  show "nonce_inv (nonce_step e s)" if "nonce_inv s" for s e
    using that by (cases e) (simp_all add: Issue_inv Use_entries)
qed

definition entry_of :: "string \<Rightarrow> nonce_store \<Rightarrow> nonce_entry option" where
  "entry_of n s = map_of (ns_entries s) n"

lemma entry_of_Issue:
  assumes "nonce_inv s" and "m \<noteq> n"
  shows "entry_of n (Issue now m s) = None \<or> entry_of n (Issue now m s) = entry_of n s"
proof -
  let ?r = "reapExpired now s"
  have r: "map_of (ns_entries ?r) n = None \<or> map_of (ns_entries ?r) n = map_of (ns_entries s) n"
    using assms(1) map_of_filter_distinct[of "ns_entries s" "\<lambda>(_, e). now < ne_expires e" n]
    by (simp add: nonce_inv_def reapExpired_def split: option.splits)
  show ?thesis
    using r assms(2)
    by (auto simp: entry_of_def Issue_def Let_def AList.update_conv' AList.delete_conv')
qed

text \<open>What the uses of a nonce that are still to come may look like, given its entry.\<close>

definition future_ok :: "nonce_entry option \<Rightarrow> 32 word list \<Rightarrow> bool" where
  "future_ok eo cs \<longleftrightarrow>
     (case eo of None \<Rightarrow> cs = []
      | Some e \<Rightarrow> if ne_consumed e then cs = []
          else cs = [0] \<and> ne_max e = 0 \<or> sorted_wrt (<) cs \<and> (\<forall>c\<in>set cs. ne_max e < c))"

lemma future_ok_None: "future_ok None cs \<Longrightarrow> future_ok eo cs"
  by (auto simp: future_ok_def split: option.split)

lemma Use_future:
  assumes "future_ok (entry_of n (fst (Use now m c s))) cs"
  shows "future_ok (entry_of n s) ((if m = n \<and> snd (Use now m c s) then [c] else []) @ cs)"
proof (cases "m = n")
  case False
  then have "entry_of n (fst (Use now m c s)) = entry_of n s"
    by (auto simp: entry_of_def Use_def AList.update_conv' AList.delete_conv' split: option.split)
  with assms False show ?thesis by simp
next
  case True
  show ?thesis
  proof (cases "entry_of n s")
    case None
    then show ?thesis using assms True by (auto simp: entry_of_def Use_def split: if_splits)
  next
    case (Some e)
    then have e: "map_of (ns_entries s) n = Some e" by (simp add: entry_of_def)
    show ?thesis
      using assms True e word_gt_0[of c]
      by (auto simp: entry_of_def Use_def future_ok_def AList.update_conv' AList.delete_conv' not_le
          split: if_splits)
  qed
qed

lemma accepted_future:
  "nonce_inv s \<Longrightarrow> list_all (\<lambda>e. \<not> issues n e) es \<Longrightarrow> future_ok (entry_of n s) (accepted n es s)"
proof (induction es arbitrary: s)
  case Nil
  then show ?case by (simp add: future_ok_def split: option.split)
next
  case (Cons e es)
  show ?case
  proof (cases e)
    case (IssueOp now m)
    with Cons.prems have "m \<noteq> n" by simp
    moreover have "future_ok (entry_of n (Issue now m s)) (accepted n es (Issue now m s))"
      using Cons by (simp add: Issue_inv)
    ultimately show ?thesis
      using entry_of_Issue[OF Cons.prems(1), of m n now] IssueOp by (auto dest: future_ok_None)
  next
    case (UseOp now m c)
    have "future_ok (entry_of n (fst (Use now m c s))) (accepted n es (fst (Use now m c s)))"
      using Cons UseOp by (simp add: Use_entries)
    from Use_future[OF this] show ?thesis by (simp add: UseOp)
  qed
qed

section \<open>Properties\<close>



text \<open>C11: as long as a nonce is not issued again, the counts it is accepted with grow strictly, and a
  use without a count is accepted only once and then alone, whatever is issued, evicted and used
  in between and however the clock moves.\<close>

theorem nonce_never_replayed:
  assumes "list_all (\<lambda>e. \<not> issues n e) es"
  shows "sorted_wrt (<) (accepted n es (fold nonce_step es0 (NewDigestNonceStore ttl capacity)))
    \<and> (0 \<in> set (accepted n es (fold nonce_step es0 (NewDigestNonceStore ttl capacity)))
       \<longrightarrow> accepted n es (fold nonce_step es0 (NewDigestNonceStore ttl capacity)) = [0])"
proof -
  let ?s = "fold nonce_step es0 (NewDigestNonceStore ttl capacity)"
  have "nonce_inv ?s" by (rule nonce_machine.run_inv_always) (simp_all add: New_inv)
  from accepted_future[OF this assms] show ?thesis
    by (auto simp: future_ok_def split: option.splits if_splits)
qed

theorem nonce_never_replayed_witness:
  "sorted_wrt (<) (accepted ''n'' [UseOp 2 ''n'' 1, UseOp 3 ''n'' 1, UseOp 4 ''n'' 5]
     (fold nonce_step [IssueOp 1 ''n''] (NewDigestNonceStore 100 2)))"
  by (rule conjunct1[OF nonce_never_replayed]) simp

end
