(* ===== verification/Recorder_Plan.thy ===== *)
theory Recorder_Plan
  imports Go_Strings
begin

text \<open>
  Recording plans: which streams should be recorded now, \<open>DesiredRecordingStreams\<close> and
  \<open>ScheduleWindowsActive\<close> of \<open>internal/storage/db_recording_plan.go\<close>, and the planner that
  keeps the answer, \<open>internal/recorder/planner.go\<close>.  The clock is a day of the week (0 to 6), an
  hour and a minute, as \<open>Weekday\<close> and \<open>Format("15:04")\<close> read it.
\<close>

section \<open>Plans\<close>

record plan_window =
  pw_day :: int
  pw_start :: string
  pw_end :: string

record recording_plan =
  rp_stream :: string
  rp_enabled :: bool
  rp_mode :: string
  rp_windows :: "plan_window list"

definition RecordingModeOff :: string where "RecordingModeOff = ''off''"
definition RecordingModeEvent :: string where "RecordingModeEvent = ''event''"
definition RecordingModeScheduled :: string where "RecordingModeScheduled = ''scheduled''"
definition RecordingModeAdaptive :: string where "RecordingModeAdaptive = ''adaptive''"

record clock =
  ck_day :: nat
  ck_hour :: nat
  ck_minute :: nat

text \<open>Strings are compared bytewise.\<close>

fun str_less :: "string \<Rightarrow> string \<Rightarrow> bool" where
  "str_less [] t = (t \<noteq> [])"
| "str_less (a # s) [] = False"
| "str_less (a # s) (b # t) = ((of_char a :: nat) < of_char b \<or> a = b \<and> str_less s t)"

definition two_digits :: "nat \<Rightarrow> string" where
  "two_digits n = [char_of (48 + n div 10), char_of (48 + n mod 10)]"

definition hhmm_of :: "nat \<Rightarrow> nat \<Rightarrow> string" where
  "hhmm_of h m = two_digits h @ '':'' @ two_digits m"

definition window_active :: "clock \<Rightarrow> plan_window \<Rightarrow> bool" where
  "window_active c w =
     (let day = int (ck_day c); hhmm = hhmm_of (ck_hour c) (ck_minute c); prev = (day + 6) mod 7 in
      if pw_start w = pw_end w then False
      else if str_less (pw_start w) (pw_end w)
        then pw_day w = day \<and> \<not> str_less hhmm (pw_start w) \<and> str_less hhmm (pw_end w)
      else if pw_day w = day \<and> \<not> str_less hhmm (pw_start w) then True
      else pw_day w = prev \<and> str_less hhmm (pw_end w))"

definition ScheduleWindowsActive :: "plan_window list \<Rightarrow> clock \<Rightarrow> bool" where
  "ScheduleWindowsActive ws c = list_ex (window_active c) ws"

definition plan_desired :: "clock \<Rightarrow> recording_plan \<Rightarrow> bool" where
  "plan_desired c p =
     (if \<not> rp_enabled p then False
      else if rp_mode p = RecordingModeOff \<or> rp_mode p = RecordingModeEvent then False
      else if rp_mode p = RecordingModeScheduled then ScheduleWindowsActive (rp_windows p) c
      else True)"

fun DesiredRecordingStreams :: "clock \<Rightarrow> recording_plan list \<Rightarrow> (string \<rightharpoonup> bool) \<Rightarrow> (string \<rightharpoonup> bool)" where
  "DesiredRecordingStreams c [] desired = desired"
| "DesiredRecordingStreams c (p # ps) desired =
     DesiredRecordingStreams c ps (desired(rp_stream p \<mapsto> plan_desired c p))"

section \<open>The planner\<close>

record planner =
  pl_desired :: "string \<rightharpoonup> bool"
  pl_modes :: "string \<rightharpoonup> string"
  pl_loaded :: bool

definition NewRecordingPlanner :: planner where
  "NewRecordingPlanner = \<lparr>pl_desired = Map.empty, pl_modes = Map.empty, pl_loaded = False\<rparr>"

text \<open>The database answers with the plans or an error, for each of its two queries.\<close>

definition Refresh :: "clock \<Rightarrow> recording_plan list option \<Rightarrow> recording_plan list option \<Rightarrow> planner \<Rightarrow> planner option" where
  "Refresh c q1 q2 p =
     (case q1 of None \<Rightarrow> None
      | Some ps \<Rightarrow> (case q2 of None \<Rightarrow> None
          | Some plans \<Rightarrow> Some (p\<lparr>pl_desired := DesiredRecordingStreams c ps Map.empty,
              pl_modes := fold (\<lambda>pl m. m(rp_stream pl \<mapsto> rp_mode pl)) plans Map.empty, pl_loaded := True\<rparr>)))"

definition Mode :: "string \<Rightarrow> planner \<Rightarrow> string \<times> bool" where
  "Mode sid p = (case pl_modes p sid of None \<Rightarrow> ([], False) | Some m \<Rightarrow> (m, True))"

text \<open>A missing stream reads as false.\<close>

definition wants :: "(string \<rightharpoonup> bool) \<Rightarrow> string \<Rightarrow> bool" where
  "wants d sid = (d sid = Some True)"

definition ShouldRecord :: "string \<Rightarrow> planner \<Rightarrow> bool \<times> bool" where
  "ShouldRecord sid p = (if \<not> pl_loaded p then (False, False) else (wants (pl_desired p) sid, True))"

section \<open>Windows as intervals of the week\<close>

definition week_minutes :: nat where "week_minutes = 7 * 1440"

definition minute_of_week :: "clock \<Rightarrow> nat" where
  "minute_of_week c = ck_day c * 1440 + ck_hour c * 60 + ck_minute c"

definition clock_valid :: "clock \<Rightarrow> bool" where
  "clock_valid c \<longleftrightarrow> ck_day c < 7 \<and> ck_hour c < 24 \<and> ck_minute c < 60"

text \<open>A window from minute \<open>s\<close> to minute \<open>e\<close> of day \<open>d\<close> covers the minutes from \<open>s\<close> on, round the
  midnight if \<open>e\<close> is before \<open>s\<close>.\<close>

definition covers :: "nat \<Rightarrow> nat \<Rightarrow> nat \<Rightarrow> nat \<Rightarrow> bool" where
  "covers d s e t \<longleftrightarrow>
     (\<exists>k < (if s \<le> e then e - s else e + 1440 - s). t = (d * 1440 + s + k) mod week_minutes)"

definition clock_text :: "nat \<Rightarrow> string" where
  "clock_text t = hhmm_of (t div 60) (t mod 60)"

lemma str_less_append: "length s = length s' \<Longrightarrow> str_less (s @ t) (s' @ t') \<longleftrightarrow> str_less s s' \<or> s = s' \<and> str_less t t'"
proof (induction s s' rule: list_induct2)
  case Nil
  then show ?case by (cases "t'") simp_all
next
  case (Cons x xs y ys)
  then show ?case by auto
qed

lemma digit_less:
  "a < 10 \<Longrightarrow> b < 10 \<Longrightarrow> (of_char (char_of (48 + a) :: char) :: nat) < of_char (char_of (48 + b) :: char) \<longleftrightarrow> a < (b :: nat)"
  by (simp add: of_char_of)

lemma digit_eq: "a < 10 \<Longrightarrow> b < 10 \<Longrightarrow> (char_of (48 + a) :: char) = char_of (48 + b) \<longleftrightarrow> a = (b :: nat)"
  using digit_less[of a b] digit_less[of b a] by (metis less_irrefl nat_neq_iff)

lemma two_digits_less:
  assumes "a < 100" and "b < 100"
  shows "str_less (two_digits a) (two_digits b) \<longleftrightarrow> a < b" and "two_digits a = two_digits b \<longleftrightarrow> a = b"
proof -
  have d: "a div 10 < 10" "b div 10 < 10" "a mod 10 < 10" "b mod 10 < 10" using assms by simp_all
  have e: "a = 10 * (a div 10) + a mod 10" "b = 10 * (b div 10) + b mod 10" by simp_all
  have "str_less (two_digits a) (two_digits b) \<longleftrightarrow> a div 10 < b div 10 \<or> a div 10 = b div 10 \<and> a mod 10 < b mod 10"
    unfolding two_digits_def str_less.simps digit_less[OF d(1,2)] digit_less[OF d(3,4)] digit_eq[OF d(1,2)] by simp
  also have "\<dots> \<longleftrightarrow> a < b" using d e by linarith
  finally show "str_less (two_digits a) (two_digits b) \<longleftrightarrow> a < b" .
  show "two_digits a = two_digits b \<longleftrightarrow> a = b"
    unfolding two_digits_def list.inject digit_eq[OF d(1,2)] digit_eq[OF d(3,4)] using e by metis
qed

lemma length_two_digits [simp]: "length (two_digits n) = 2"
  by (simp add: two_digits_def)

lemma hhmm_less:
  assumes "h < 100" and "m < 100" and "h' < 100" and "m' < 100"
  shows "str_less (hhmm_of h m) (hhmm_of h' m') \<longleftrightarrow> h < h' \<or> h = h' \<and> m < m'"
    and "hhmm_of h m = hhmm_of h' m' \<longleftrightarrow> h = h' \<and> m = m'"
proof -
  have "str_less ('':'' @ two_digits m) ('':'' @ two_digits m') = str_less (two_digits m) (two_digits m')"
    by simp
  then show "str_less (hhmm_of h m) (hhmm_of h' m') \<longleftrightarrow> h < h' \<or> h = h' \<and> m < m'"
    using assms by (simp add: hhmm_of_def str_less_append two_digits_less)
  show "hhmm_of h m = hhmm_of h' m' \<longleftrightarrow> h = h' \<and> m = m'"
    using assms by (simp add: hhmm_of_def two_digits_less)
qed

lemma clock_text_less:
  assumes "s < 1440" and "t < 1440"
  shows "str_less (clock_text s) (clock_text t) \<longleftrightarrow> s < t" and "clock_text s = clock_text t \<longleftrightarrow> s = t"
proof -
  have d: "s div 60 < 100" "s mod 60 < 100" "t div 60 < 100" "t mod 60 < 100" and m: "s mod 60 < 60" "t mod 60 < 60"
    using assms by (simp_all add: less_trans[of _ 60])
  have e: "s = 60 * (s div 60) + s mod 60" "t = 60 * (t div 60) + t mod 60" by simp_all
  show "str_less (clock_text s) (clock_text t) \<longleftrightarrow> s < t"
    unfolding clock_text_def hhmm_less(1)[OF d] using e m by linarith
  show "clock_text s = clock_text t \<longleftrightarrow> s = t"
    unfolding clock_text_def hhmm_less(2)[OF d] using e by metis
qed

lemma clock_text_now:
  assumes "clock_valid c"
  shows "hhmm_of (ck_hour c) (ck_minute c) = clock_text (ck_hour c * 60 + ck_minute c)"
  using assms by (simp add: clock_text_def clock_valid_def)

lemma day_unique:
  assumes "n * 1440 + u = d * 1440 + (v :: nat)" and "u < 1440" and "v < 1440"
  shows "n = d \<and> u = v"
proof -
  have "(n * 1440 + u) div 1440 = n" "(d * 1440 + v) div 1440 = d" using assms(2,3) by simp_all
  then have "n = d" using assms(1) by metis
  then show ?thesis using assms(1) by simp
qed

text \<open>The interval round the week, by the three ways a minute can lie in it.\<close>

lemma covers_day:
  assumes "d < 7" and "s \<le> e" and "e < 1440" and "n < 7" and "u < 1440"
  shows "covers d s e (n * 1440 + u) \<longleftrightarrow> d = n \<and> s \<le> u \<and> u < e"
proof
  assume "covers d s e (n * 1440 + u)"
  then obtain k where k: "k < e - s" "n * 1440 + u = (d * 1440 + s + k) mod week_minutes"
    using assms(2) by (auto simp: covers_def)
  have "d * 1440 + s + k < week_minutes" using k(1) assms by (simp add: week_minutes_def)
  then have "n * 1440 + u = d * 1440 + (s + k)" using k(2) by simp
  moreover have "s + k < 1440" using k(1) assms(3) by simp
  ultimately have "n = d \<and> u = s + k" using assms(5) by (auto dest: day_unique)
  then show "d = n \<and> s \<le> u \<and> u < e" using k(1) by auto
next
  assume h: "d = n \<and> s \<le> u \<and> u < e"
  then have "n * 1440 + u < week_minutes" using assms by (simp add: week_minutes_def)
  then show "covers d s e (n * 1440 + u)"
    using h assms(2) by (auto simp: covers_def intro!: exI[of _ "u - s"])
qed

lemma covers_night:
  assumes "d < 7" and "e < s" and "s < 1440" and "n < 7" and "u < 1440"
  shows "covers d s e (n * 1440 + u) \<longleftrightarrow> d = n \<and> s \<le> u \<or> (d + 1) mod 7 = n \<and> u < e"
proof
  assume "covers d s e (n * 1440 + u)"
  then obtain k where k: "k < e + 1440 - s" "n * 1440 + u = (d * 1440 + s + k) mod week_minutes"
    using assms(2) by (auto simp: covers_def)
  show "d = n \<and> s \<le> u \<or> (d + 1) mod 7 = n \<and> u < e"
  proof (cases "s + k < 1440")
    case True
    then have "d * 1440 + s + k < week_minutes" using assms(1) by (simp add: week_minutes_def)
    then have "n * 1440 + u = d * 1440 + (s + k)" using k(2) by simp
    then have "n = d \<and> u = s + k" using True assms(5) by (auto dest: day_unique)
    then show ?thesis by simp
  next
    case False
    obtain v where v: "s + k = 1440 + v" using False by (metis le_Suc_ex not_less)
    then have ve: "v < e" using k(1) assms(2) by linarith
    have "d * 1440 + s + k = (d + 1) * 1440 + v" using v by simp
    then have "n * 1440 + u = ((d + 1) * 1440 + v) mod week_minutes" using k(2) by presburger
    also have "\<dots> = (d + 1) mod 7 * 1440 + v"
      using ve assms by (auto simp: week_minutes_def mod_Suc split: if_splits)
    finally have "n = (d + 1) mod 7 \<and> u = v"
      using ve assms by (auto dest: day_unique)
    then show ?thesis using ve by simp
  qed
next
  assume h: "d = n \<and> s \<le> u \<or> (d + 1) mod 7 = n \<and> u < e"
  then show "covers d s e (n * 1440 + u)"
  proof
    assume h: "d = n \<and> s \<le> u"
    then have "n * 1440 + u < week_minutes" using assms by (simp add: week_minutes_def)
    then show ?thesis using h assms by (auto simp: covers_def intro!: exI[of _ "u - s"])
  next
    assume h: "(d + 1) mod 7 = n \<and> u < e"
    have "(d * 1440 + s + (1440 + u - s)) mod week_minutes = ((d + 1) * 1440 + u) mod week_minutes"
      using assms by (simp add: algebra_simps)
    also have "\<dots> = n * 1440 + u"
      using h assms by (auto simp: week_minutes_def mod_Suc split: if_splits)
    finally show ?thesis using h assms by (auto simp: covers_def intro!: exI[of _ "1440 + u - s"])
  qed
qed

text \<open>The day before, as the code computes it.\<close>

lemma prev_day:
  assumes "n < 7" and "d < 7"
  shows "int d = (int n + 6) mod 7 \<longleftrightarrow> (d + 1) mod 7 = n"
proof -
  have n: "(int n + 6) mod 7 = (if n = 0 then 6 else int n - 1)"
    using assms(1) mod_add_self2[of "int n - 1" 7] by (auto simp: algebra_simps)
  have "(d + 1) mod 7 = (if d = 6 then 0 else d + 1)" using assms(2) by (auto simp: mod_Suc)
  then show ?thesis unfolding n using assms by auto
qed

lemma window_active_covers:
  assumes "clock_valid c" and "d < 7" and "s < 1440" and "e < 1440"
  shows "window_active c \<lparr>pw_day = int d, pw_start = clock_text s, pw_end = clock_text e\<rparr>
    \<longleftrightarrow> covers d s e (minute_of_week c)"
proof -
  let ?u = "ck_hour c * 60 + ck_minute c" and ?n = "ck_day c"
  have n: "?n < 7" and u: "?u < 1440" using assms(1) by (auto simp: clock_valid_def)
  have m: "minute_of_week c = ?n * 1440 + ?u" by (simp add: minute_of_week_def)
  note text_facts = clock_text_now[OF assms(1)] clock_text_less[OF assms(3) assms(4)]
    clock_text_less[OF u assms(3)] clock_text_less[OF u assms(4)]
  show ?thesis
  proof (cases "s \<le> e")
    case True
    then show ?thesis
      unfolding m covers_day[OF assms(2) True assms(4) n u]
      by (auto simp: window_active_def Let_def text_facts)
  next
    case False
    then have "e < s" by simp
    from False show ?thesis
      unfolding m covers_night[OF assms(2) \<open>e < s\<close> assms(3) n u]
      by (auto simp: window_active_def Let_def text_facts prev_day[OF n assms(2)])
  qed
qed

text \<open>C19: The weekly schedule is an interval test.  For windows given by a day of the week and two
  times of the day, the comparison of the \<open>hh:mm\<close> texts in \<open>ScheduleWindowsActive\<close> answers yes
  exactly in the minutes of the week that lie in one of the windows, from its start up to but
  excluding its end, where a window that ends before it starts runs on through midnight (from
  Saturday into Sunday too) and one that ends when it starts is empty.\<close>

theorem schedule_is_interval:
  assumes "clock_valid c"
    and "\<forall>(d, s, e) \<in> set ws. d < 7 \<and> s < 1440 \<and> e < 1440"
  shows "ScheduleWindowsActive
      (map (\<lambda>(d, s, e). \<lparr>pw_day = int d, pw_start = clock_text s, pw_end = clock_text e\<rparr>) ws) c
    \<longleftrightarrow> (\<exists>(d, s, e) \<in> set ws. covers d s e (minute_of_week c))"
  unfolding ScheduleWindowsActive_def using assms(2)
proof (induction ws)
  case Nil
  then show ?case by simp
next
  case (Cons w ws)
  obtain d s e where w: "w = (d, s, e)" by (cases w)
  have b: "d < 7" "s < 1440" "e < 1440" and r: "\<forall>(d, s, e) \<in> set ws. d < 7 \<and> s < 1440 \<and> e < 1440"
    using Cons.prems by (simp_all add: w)
  show ?case using Cons.IH[OF r] window_active_covers[OF assms(1) b] by (simp add: w)
qed

theorem schedule_witness:
  "clock_valid \<lparr>ck_day = 0, ck_hour = 5, ck_minute = 59\<rparr>
   \<and> ScheduleWindowsActive
      (map (\<lambda>(d, s, e). \<lparr>pw_day = int d, pw_start = clock_text s, pw_end = clock_text e\<rparr>)
        [(3, 540, 1020), (6, 1320, 360)]) \<lparr>ck_day = 0, ck_hour = 5, ck_minute = 59\<rparr>"
proof (rule conjI)
  let ?c = "\<lparr>ck_day = 0, ck_hour = 5, ck_minute = 59\<rparr>"
  show v: "clock_valid ?c" by (simp add: clock_valid_def)
  have "covers 6 1320 360 (minute_of_week ?c)"
    unfolding covers_def minute_of_week_def week_minutes_def by (rule exI[of _ 479]) simp
  then have c: "\<exists>(d, s, e) \<in> set [(3, 540, 1020), (6, 1320, 360)]. covers d s e (minute_of_week ?c)" by simp
  show "ScheduleWindowsActive
      (map (\<lambda>(d, s, e). \<lparr>pw_day = int d, pw_start = clock_text s, pw_end = clock_text e\<rparr>)
        [(3, 540, 1020), (6, 1320, 360)]) ?c"
    by (rule iffD2[OF schedule_is_interval[OF v] c]) simp
qed

text \<open>What the planner answers after a refresh: the last plan of a stream decides.\<close>

lemma DesiredRecordingStreams_last:
  "DesiredRecordingStreams c ps m sid =
     (case List.find (\<lambda>p. rp_stream p = sid) (rev ps) of None \<Rightarrow> m sid | Some p \<Rightarrow> Some (plan_desired c p))"
proof (induction ps arbitrary: m)
  case Nil
  then show ?case by simp
next
  case (Cons p ps)
  have *: "List.find P (xs @ [x]) = (case List.find P xs of None \<Rightarrow> if P x then Some x else None | Some y \<Rightarrow> Some y)"
    for P :: "recording_plan \<Rightarrow> bool" and xs x by (induction xs) simp_all
  show ?case by (simp add: Cons.IH * split: option.split)
qed

lemma Refresh_ShouldRecord:
  assumes "Refresh c (Some ps) (Some plans) p = Some p'"
  shows "ShouldRecord sid p' =
    (case List.find (\<lambda>p. rp_stream p = sid) (rev ps) of None \<Rightarrow> False | Some pl \<Rightarrow> plan_desired c pl, True)"
  using assms
  by (auto simp: Refresh_def ShouldRecord_def wants_def DesiredRecordingStreams_last split: option.splits)

end
