(* ===== verification/Recorder_Gate.thy ===== *)
theory Recorder_Gate
  imports Go_Strings "HOL-Library.Multiset"
begin

text \<open>
  The small decision makers of the recorders in \<open>internal/recorder\<close>: the delays and reasons of
  \<open>backoff.go\<close>, the gate of adaptive recording (\<open>adaptive.go\<close>), the ring of frames from before an
  event (\<open>preroll.go\<close>) and the check of time stamps (\<open>pts_check.go\<close>).  Durations and instants are
  nanoseconds, the zero instant is 0.
\<close>

definition ns_second :: int where "ns_second = 1000000000"

section \<open>Backoff\<close>

definition TieredBackoff :: "int \<Rightarrow> int" where
  "TieredBackoff attempt =
     (if attempt < 5 then ns_second
      else if attempt < 10 then 5 * ns_second
      else if attempt < 20 then 10 * ns_second
      else 60 * ns_second)"

text \<open>\<open>r\<close> is what \<open>rand.Int63n\<close> returned.\<close>

definition TieredBackoffWithJitter :: "int \<Rightarrow> int \<Rightarrow> int" where
  "TieredBackoffWithJitter r attempt = TieredBackoff attempt + r"

definition classifyDisconnectReason :: "string option \<Rightarrow> string" where
  "classifyDisconnectReason err =
     (case err of None \<Rightarrow> ''unknown''
      | Some msg \<Rightarrow>
        if contains msg ''watchdog'' then ''frame_watchdog''
        else if contains msg ''DESCRIBE'' \<or> contains msg ''SETUP'' \<or> contains msg ''PLAY'' then ''rtsp_negotiation''
        else if contains msg ''connection refused'' \<or> contains msg ''no route to host'' then ''connection_refused''
        else if contains msg ''timeout'' \<or> contains msg ''deadline'' then ''connection_timeout''
        else if contains msg ''EOF'' \<or> contains msg ''closed'' then ''connection_lost''
        else ''connection_error'')"

lemma TieredBackoff_mono: "a \<le> b \<Longrightarrow> TieredBackoff a \<le> TieredBackoff b"
  by (simp add: TieredBackoff_def ns_second_def)

lemma TieredBackoff_bounds: "ns_second \<le> TieredBackoff a \<and> TieredBackoff a \<le> 60 * ns_second"
  by (simp add: TieredBackoff_def ns_second_def)

section \<open>The adaptive gate\<close>

definition adaptiveWindow :: nat where "adaptiveWindow = 32"

record adaptive_gate =
  ag_interval :: int
  ag_spike :: int
  ag_sizes :: "int list"
  ag_last_idr :: int
  ag_active_until :: int

definition NewAdaptiveGate :: "int \<Rightarrow> adaptive_gate" where
  "NewAdaptiveGate interval =
     \<lparr>ag_interval = (if interval < 5 * ns_second then 30 * ns_second else interval), ag_spike = 5,
      ag_sizes = [], ag_last_idr = 0, ag_active_until = 0\<rparr>"

definition extend_active :: "int \<Rightarrow> adaptive_gate \<Rightarrow> adaptive_gate" where
  "extend_active until g = (if ag_active_until g < until then g\<lparr>ag_active_until := until\<rparr> else g)"

definition Trigger_gate :: "int \<Rightarrow> int \<Rightarrow> adaptive_gate \<Rightarrow> adaptive_gate" where
  "Trigger_gate now hold g = extend_active (now + (if hold \<le> 0 then 30 * ns_second else hold)) g"

text \<open>The insertion sort of \<open>medianInt\<close>: the inner loop moves the element at \<open>j\<close> to the left over
  the greater ones, the outer loop does so for \<open>i\<close>, \<open>i + 1\<close> and so on, \<open>n\<close> rounds.\<close>

fun sift :: "nat \<Rightarrow> int list \<Rightarrow> int list" where
  "sift 0 cp = cp"
| "sift (Suc j) cp =
     (if cp ! Suc j < cp ! j then sift j (cp[Suc j := cp ! j, j := cp ! Suc j]) else cp)"

fun sort_from :: "nat \<Rightarrow> nat \<Rightarrow> int list \<Rightarrow> int list" where
  "sort_from i 0 cp = cp"
| "sort_from i (Suc n) cp = sort_from (Suc i) n (sift i cp)"

definition medianInt :: "int list \<Rightarrow> int" where
  "medianInt vals =
     (if vals = [] then 0 else sort_from 1 (length vals - 1) vals ! (length vals div 2))"

text \<open>The comparison with the spike factor is made in \<open>float64\<close>, exactly for the sizes of frames.\<close>

definition ObservePFrame :: "int \<Rightarrow> int \<Rightarrow> adaptive_gate \<Rightarrow> adaptive_gate" where
  "ObservePFrame now sz g =
     (if sz \<le> 0 then g
      else let sizes = ag_sizes g @ [sz];
               sizes = (if length sizes > adaptiveWindow then drop (length sizes - adaptiveWindow) sizes else sizes);
               g = g\<lparr>ag_sizes := sizes\<rparr>
           in if length sizes < 8 then g
              else let median = medianInt sizes
                   in if median > 0 \<and> sz \<ge> median * ag_spike g
                      then extend_active (now + 30 * ns_second) g else g)"

definition ShouldWrite :: "bool \<Rightarrow> int \<Rightarrow> adaptive_gate \<Rightarrow> adaptive_gate \<times> bool" where
  "ShouldWrite idr now g =
     (if now < ag_active_until g then (g, True)
      else if \<not> idr then (g, False)
      else if ag_last_idr g = 0 \<or> now - ag_last_idr g \<ge> ag_interval g
        then (g\<lparr>ag_last_idr := now\<rparr>, True)
      else (g, False))"

section \<open>The median\<close>

lemma sift_length [simp]: "length (sift j cp) = length cp"
  by (induction j arbitrary: cp) simp_all

lemma sift_mset: "j < length cp \<Longrightarrow> mset (sift j cp) = mset cp"
proof (induction j arbitrary: cp)
  case 0
  then show ?case by simp
next
  case (Suc j)
  have "mset (cp[Suc j := cp ! j, j := cp ! Suc j]) = mset cp"
    using Suc.prems by (simp add: mset_swap)
  then show ?case using Suc by simp
qed

lemma take_Suc_update: "Suc j < length cp \<Longrightarrow> take (Suc j) (cp[Suc j := x, j := y]) = take j cp @ [y]"
  by (simp add: take_Suc_conv_app_nth)

text \<open>One round: a sorted prefix grows by one element.\<close>

lemma sift_sorted:
  assumes "j < length cp" and "sorted (take j cp)"
  shows "sorted (take (Suc j) (sift j cp)) \<and> drop (Suc j) (sift j cp) = drop (Suc j) cp"
  using assms
proof (induction j arbitrary: cp)
  case 0
  then show ?case by (cases cp) simp_all
next
  case (Suc j)
  have t: "take (Suc (Suc j)) cp = take j cp @ [cp ! j, cp ! Suc j]" and t1: "take (Suc j) cp = take j cp @ [cp ! j]"
    using Suc.prems(1) by (simp_all add: take_Suc_conv_app_nth)
  show ?case
  proof (cases "cp ! Suc j < cp ! j")
    case False
    then have "sorted (take (Suc (Suc j)) cp)" using Suc.prems(2) by (auto simp: t t1 sorted_append)
    then show ?thesis using False by simp
  next
    case True
    let ?cp = "cp[Suc j := cp ! j, j := cp ! Suc j]"
    have "sorted (take j ?cp)" using Suc.prems(2) by (simp add: t1 sorted_append)
    then have IH: "sorted (take (Suc j) (sift j ?cp))" "drop (Suc j) (sift j ?cp) = drop (Suc j) ?cp"
      using Suc.IH[of ?cp] Suc.prems(1) by simp_all
    have d: "drop (Suc j) ?cp = cp ! j # drop (Suc (Suc j)) cp"
      using Suc.prems(1) by (simp add: Cons_nth_drop_Suc[symmetric] drop_update_swap)
    have m: "mset (take (Suc j) (sift j ?cp)) = mset (take (Suc j) ?cp)"
    proof -
      have "mset (take (Suc j) (sift j ?cp)) + mset (drop (Suc j) (sift j ?cp))
        = mset (take (Suc j) ?cp) + mset (drop (Suc j) ?cp)"
        using sift_mset[of j ?cp] Suc.prems(1) by (metis append_take_drop_id length_list_update mset_append Suc_lessD)
      then show ?thesis using IH(2) by simp
    qed
    have "set (take (Suc j) ?cp) = insert (cp ! Suc j) (set (take j cp))"
      using Suc.prems(1) by (simp add: take_Suc_update)
    then have le: "\<forall>x \<in> set (take (Suc j) (sift j ?cp)). x \<le> cp ! j"
      using Suc.prems(2) True mset_eq_setD[OF m] by (auto simp: t1 sorted_append)
    have s: "sift j ?cp = take (Suc j) (sift j ?cp) @ cp ! j # drop (Suc (Suc j)) cp"
      using IH(2) d append_take_drop_id[of "Suc j" "sift j ?cp"] by simp
    have l: "length (take (Suc j) (sift j ?cp)) = Suc j" using Suc.prems(1) by simp
    have "take (Suc (Suc j)) (sift j ?cp) = take (Suc j) (sift j ?cp) @ [cp ! j]"
      using Suc.prems(1) by (subst (1) s) (simp add: l min_def)
    moreover have "drop (Suc (Suc j)) (sift j ?cp) = drop (Suc (Suc j)) cp"
      using Suc.prems(1) by (subst s) (simp add: l min_def)
    ultimately show ?thesis using IH(1) le True by (simp add: sorted_append)
  qed
qed

lemma sort_from_sorts:
  "i + n = length cp \<Longrightarrow> sorted (take i cp) \<Longrightarrow> sorted (sort_from i n cp) \<and> mset (sort_from i n cp) = mset cp"
proof (induction n arbitrary: i cp)
  case 0
  then show ?case by simp
next
  case (Suc n)
  then have "i < length cp" by simp
  then show ?case using Suc sift_sorted[of i cp] sift_mset[of i cp] by simp
qed

lemma medianInt_sort: "vals \<noteq> [] \<Longrightarrow> medianInt vals = sort vals ! (length vals div 2)"
proof -
  assume "vals \<noteq> []"
  then have "sorted (take 1 vals)" and "1 + (length vals - 1) = length vals" by (cases vals; simp)+
  then have "sorted (sort_from 1 (length vals - 1) vals)" "mset (sort_from 1 (length vals - 1) vals) = mset vals"
    using sort_from_sorts[of 1 "length vals - 1" vals] by simp_all
  then have "sort vals = sort_from 1 (length vals - 1) vals" by (intro properties_for_sort) simp_all
  then show ?thesis using \<open>vals \<noteq> []\<close> by (simp add: medianInt_def)
qed

section \<open>A run of the gate\<close>

datatype gate_op = TriggerOp int int | ObserveOp int int | WriteOp bool int

definition gate_step :: "gate_op \<Rightarrow> adaptive_gate \<Rightarrow> adaptive_gate" where
  "gate_step op g =
     (case op of TriggerOp now hold \<Rightarrow> Trigger_gate now hold g
      | ObserveOp now sz \<Rightarrow> ObservePFrame now sz g
      | WriteOp idr now \<Rightarrow> fst (ShouldWrite idr now g))"

definition op_clock :: "gate_op \<Rightarrow> int" where
  "op_clock op = (case op of TriggerOp now hold \<Rightarrow> now | ObserveOp now sz \<Rightarrow> now | WriteOp idr now \<Rightarrow> now)"

text \<open>The frames written: whether the gate was active, whether it was a key frame, and when.\<close>

fun written :: "gate_op list \<Rightarrow> adaptive_gate \<Rightarrow> (bool \<times> bool \<times> int) list" where
  "written [] g = []"
| "written (op # ops) g =
     (case op of
        WriteOp idr now \<Rightarrow> if snd (ShouldWrite idr now g) then [(now < ag_active_until g, idr, now)] else []
      | _ \<Rightarrow> []) @ written ops (gate_step op g)"

definition calm_times :: "(bool \<times> bool \<times> int) list \<Rightarrow> int list" where
  "calm_times ws = map (snd \<circ> snd) (filter (\<lambda>w. \<not> fst w) ws)"

lemma calm_times_simps [simp]:
  "calm_times [] = []"
  "calm_times (w # ws) = (if fst w then calm_times ws else snd (snd w) # calm_times ws)"
  by (simp_all add: calm_times_def)

lemma gate_interval [simp]:
  "ag_interval (Trigger_gate now hold g) = ag_interval g" "ag_last_idr (Trigger_gate now hold g) = ag_last_idr g"
  "ag_interval (ObservePFrame now sz g) = ag_interval g" "ag_last_idr (ObservePFrame now sz g) = ag_last_idr g"
  "ag_interval (fst (ShouldWrite idr now g)) = ag_interval g"
  by (simp_all add: Trigger_gate_def extend_active_def ObservePFrame_def ShouldWrite_def Let_def)

lemma written_calm:
  "\<forall>op \<in> set ops. op_clock op > 0 \<Longrightarrow> ag_interval g > 0 \<Longrightarrow>
   sorted_wrt (\<lambda>a b. b - a \<ge> ag_interval g)
     ((if ag_last_idr g = 0 then [] else [ag_last_idr g]) @ calm_times (written ops g))
   \<and> (\<forall>w \<in> set (written ops g). fst w \<or> fst (snd w))"
proof (induction ops arbitrary: g)
  case Nil
  then show ?case by simp
next
  case (Cons op ops)
  have IH: "sorted_wrt (\<lambda>a b. b - a \<ge> ag_interval g)
      ((if ag_last_idr (gate_step op g) = 0 then [] else [ag_last_idr (gate_step op g)]) @ calm_times (written ops (gate_step op g)))
    \<and> (\<forall>w \<in> set (written ops (gate_step op g)). fst w \<or> fst (snd w))"
    using Cons.IH[of "gate_step op g"] Cons.prems by (cases op) (simp_all add: gate_step_def)
  show ?case
  proof (cases op)
    case (WriteOp idr now)
    have "now > 0" using Cons.prems(1) by (simp add: WriteOp op_clock_def)
    show ?thesis using IH \<open>now > 0\<close> Cons.prems(2)
      by (auto simp: WriteOp gate_step_def ShouldWrite_def split: if_splits)
  qed (use IH in \<open>auto simp: gate_step_def split: if_splits\<close>)
qed

section \<open>Frames from before an event\<close>

record preroll_frame =
  pf_data :: "byte list"
  pf_key :: bool

record preroll_ring =
  pr_max :: int
  pr_frames :: "preroll_frame list"
  pr_gops :: int

definition newPrerollRing :: "int \<Rightarrow> preroll_ring" where
  "newPrerollRing n = \<lparr>pr_max = (if n \<le> 0 then 2 else n), pr_frames = [], pr_gops = 0\<rparr>"

fun shrink :: "int \<Rightarrow> preroll_frame list \<Rightarrow> int \<Rightarrow> preroll_frame list \<times> int" where
  "shrink mx [] g = ([], g)"
| "shrink mx (f # fs) g =
     (if g > mx then shrink mx fs (if fs = [] \<or> pf_key (hd fs) then g - 1 else g) else (f # fs, g))"

definition Push :: "byte list \<Rightarrow> bool \<Rightarrow> preroll_ring \<Rightarrow> preroll_ring" where
  "Push d key r =
     (if d = [] then r
      else let r = (if \<not> key then r
                    else case shrink (pr_max r) (pr_frames r) (pr_gops r + 1) of
                      (fs, g) \<Rightarrow> r\<lparr>pr_frames := fs, pr_gops := (if g > pr_max r then pr_max r else g)\<rparr>)
           in r\<lparr>pr_frames := pr_frames r @ [\<lparr>pf_data = d, pf_key = key\<rparr>]\<rparr>)"

definition Drain :: "preroll_ring \<Rightarrow> preroll_ring \<times> byte list list" where
  "Drain r = (r\<lparr>pr_frames := [], pr_gops := 0\<rparr>, map pf_data (pr_frames r))"

text \<open>What the ring is for: the frames from the key frame on after which at most \<open>n\<close> groups follow.\<close>

definition n_keys :: "preroll_frame list \<Rightarrow> int" where
  "n_keys fs = int (length (filter pf_key fs))"

fun last_gops :: "int \<Rightarrow> preroll_frame list \<Rightarrow> preroll_frame list" where
  "last_gops n [] = []"
| "last_gops n (f # fs) = (if pf_key f \<and> n_keys (f # fs) \<le> n then f # fs else last_gops n fs)"

definition pushes :: "preroll_frame list \<Rightarrow> preroll_ring \<Rightarrow> preroll_ring" where
  "pushes fs r = fold (\<lambda>f. Push (pf_data f) (pf_key f)) fs r"

lemma n_keys_simps [simp]:
  "n_keys [] = 0" "n_keys (f # fs) = (if pf_key f then 1 else 0) + n_keys fs" "n_keys (fs @ gs) = n_keys fs + n_keys gs"
  by (simp_all add: n_keys_def)

lemma n_keys_nonneg [simp]: "0 \<le> n_keys fs"
  by (simp add: n_keys_def)

lemma last_gops_suffix: "\<exists>ds. fs = ds @ last_gops n fs"
proof (induction fs)
  case Nil
  then show ?case by simp
next
  case (Cons f fs)
  then obtain ds where "fs = ds @ last_gops n fs" by blast
  then have "f # fs = (if pf_key f \<and> n_keys (f # fs) \<le> n then [] else f # ds) @ last_gops n (f # fs)" by simp
  then show ?case by blast
qed

lemma last_gops_keys: "last_gops n fs = [] \<or> pf_key (hd (last_gops n fs)) \<and> n_keys (last_gops n fs) \<le> n"
  by (induction fs) auto

lemma last_gops_none: "n_keys fs = 0 \<Longrightarrow> last_gops n fs = []"
  by (induction fs) (auto simp: n_keys_def split: if_splits)

lemma last_gops_all: "pf_key f \<Longrightarrow> n_keys (f # fs) \<le> n \<Longrightarrow> last_gops n (f # fs) = f # fs"
  by simp

lemma last_gops_dropWhile: "n_keys fs \<le> n \<Longrightarrow> last_gops n fs = dropWhile (\<lambda>f. \<not> pf_key f) fs"
  by (induction fs) auto

lemma last_gops_snoc_frame: "\<not> pf_key f \<Longrightarrow> last_gops n fs \<noteq> [] \<Longrightarrow> last_gops n (fs @ [f]) = last_gops n fs @ [f]"
  by (induction fs) auto

lemma last_gops_snoc_key: "pf_key f \<Longrightarrow> 1 \<le> n \<Longrightarrow> last_gops n (fs @ [f]) = last_gops (n - 1) fs @ [f]"
  by (induction fs) auto

lemma last_gops_twice: "m \<le> n \<Longrightarrow> last_gops m (last_gops n fs) = last_gops m fs"
proof (induction fs)
  case (Cons f fs)
  then show ?case by auto
qed simp

lemma last_gops_nonempty: "fs \<noteq> [] \<Longrightarrow> pf_key (hd fs) \<Longrightarrow> 1 \<le> n \<Longrightarrow> last_gops n fs \<noteq> []"
proof (induction fs rule: rev_induct)
  case (snoc f fs)
  show ?case
  proof (cases "pf_key f")
    case True
    then show ?thesis using snoc.prems by (simp add: last_gops_snoc_key)
  next
    case False
    then have "fs \<noteq> []" "pf_key (hd fs)" using snoc.prems by (cases fs; simp)+
    then show ?thesis using snoc False by (simp add: last_gops_snoc_frame)
  qed
qed simp

text \<open>Making room drops one group from the front.\<close>

lemma shrink_group: "mx < g \<Longrightarrow> g - 1 \<le> mx \<Longrightarrow> shrink mx (f # fs) g = (dropWhile (\<lambda>f. \<not> pf_key f) fs, g - 1)"
  by (induction fs arbitrary: f) auto

lemma shrink_room: "g \<le> mx \<Longrightarrow> shrink mx fs g = (fs, g)"
  by (cases fs) simp_all

lemma shrink_aligned:
  assumes "fs = [] \<or> pf_key (hd fs)" and "n_keys fs \<le> mx" and "1 \<le> mx"
  shows "shrink mx fs (n_keys fs + 1) = (last_gops (mx - 1) fs, n_keys (last_gops (mx - 1) fs) + 1)"
proof (cases "n_keys fs + 1 \<le> mx")
  case True
  then show ?thesis using assms(1) by (cases fs) (simp_all add: shrink_room)
next
  case False
  then have n: "n_keys fs = mx" using assms(2) by simp
  then obtain f gs where fs: "fs = f # gs" using assms(3) by (cases fs) simp_all
  have k: "pf_key f" and g: "n_keys gs = mx - 1" using assms(1) n by (simp_all add: fs)
  have "last_gops (mx - 1) fs = dropWhile (\<lambda>f. \<not> pf_key f) gs"
    using n last_gops_dropWhile[of gs "mx - 1"] g by (simp add: fs)
  moreover have "n_keys (dropWhile (\<lambda>f. \<not> pf_key f) gs) = n_keys gs" by (induction gs) simp_all
  ultimately show ?thesis using shrink_group[of mx "mx + 1" f gs] n g by (simp add: fs k)
qed

lemma Push_frame:
  assumes "pf_data f \<noteq> []" and "1 \<le> pr_max r" and "fs = [] \<Longrightarrow> pf_key f" and "fs \<noteq> [] \<Longrightarrow> pf_key (hd fs)"
    and "pr_frames r = last_gops (pr_max r) fs" and "pr_gops r = n_keys (pr_frames r)"
  shows "pr_frames (Push (pf_data f) (pf_key f) r) = last_gops (pr_max r) (fs @ [f])
    \<and> pr_gops (Push (pf_data f) (pf_key f) r) = n_keys (pr_frames (Push (pf_data f) (pf_key f) r))"
proof (cases "pf_key f")
  case True
  have al: "pr_frames r = [] \<or> pf_key (hd (pr_frames r))" and le: "n_keys (pr_frames r) \<le> pr_max r"
    using last_gops_keys[of "pr_max r" fs] assms(2,5) by auto
  have s: "shrink (pr_max r) (pr_frames r) (pr_gops r + 1)
      = (last_gops (pr_max r - 1) fs, n_keys (last_gops (pr_max r - 1) fs) + 1)"
    using shrink_aligned[OF al le assms(2)] assms(5,6) by (simp add: last_gops_twice)
  have m: "n_keys (last_gops (pr_max r - 1) fs) + 1 \<le> pr_max r"
    using last_gops_keys[of "pr_max r - 1" fs] assms(2) by auto
  have f: "f = \<lparr>pf_data = pf_data f, pf_key = True\<rparr>" using True by simp
  show ?thesis using assms(1,2) True s m f by (simp add: Push_def Let_def last_gops_snoc_key)
next
  case False
  then have "last_gops (pr_max r) fs \<noteq> []" using assms(2-4) last_gops_nonempty by blast
  moreover have "f = \<lparr>pf_data = pf_data f, pf_key = False\<rparr>" using False by simp
  ultimately show ?thesis using assms(1,5,6) False by (simp add: Push_def last_gops_snoc_frame)
qed

lemma Push_max [simp]: "pr_max (Push d key r) = pr_max r"
  by (simp add: Push_def Let_def split: prod.split)

lemma pushes_max [simp]: "pr_max (pushes fs r) = pr_max r"
  unfolding pushes_def by (induction fs arbitrary: r) simp_all

lemma pushes_frames:
  assumes "\<forall>f \<in> set fs. pf_data f \<noteq> []" and "fs \<noteq> [] \<Longrightarrow> pf_key (hd fs)"
    and "1 \<le> pr_max r" and "pr_frames r = []" and "pr_gops r = 0"
  shows "pr_frames (pushes fs r) = last_gops (pr_max r) fs \<and> pr_gops (pushes fs r) = n_keys (pr_frames (pushes fs r))"
  using assms(1,2)
proof (induction fs rule: rev_induct)
  case Nil
  then show ?case using assms by (simp add: pushes_def)
next
  case (snoc f fs)
  have "pushes (fs @ [f]) r = Push (pf_data f) (pf_key f) (pushes fs r)" by (simp add: pushes_def)
  moreover have "fs \<noteq> [] \<Longrightarrow> pf_key (hd fs)" "fs = [] \<Longrightarrow> pf_key f" using snoc.prems(2) by auto
  ultimately show ?case using Push_frame[of f "pushes fs r" fs] snoc.IH snoc.prems(1) assms(3) by simp
qed

section \<open>Time stamps\<close>

definition pts90kHzClockRate :: int where "pts90kHzClockRate = 90000"
definition ptsMaxForwardJump :: int where "ptsMaxForwardJump = 10 * pts90kHzClockRate"
definition ptsMaxBackwardJump :: int where "ptsMaxBackwardJump = 2 * (pts90kHzClockRate div 25)"

datatype pts_anomaly = PtsNone | BackwardJump | ExcessiveForwardJump | WrapAround

definition pts_String :: "pts_anomaly \<Rightarrow> string" where
  "pts_String k =
     (case k of BackwardJump \<Rightarrow> ''backward_jump'' | ExcessiveForwardJump \<Rightarrow> ''excessive_forward_jump''
      | WrapAround \<Rightarrow> ''wrap_around'' | PtsNone \<Rightarrow> ''none'')"

record pts_result =
  pc_anomaly :: pts_anomaly
  pc_last :: int
  pc_cur :: int
  pc_delta :: int
  pc_first :: bool

definition no_anomaly :: pts_result where
  "no_anomaly = \<lparr>pc_anomaly = PtsNone, pc_last = 0, pc_cur = 0, pc_delta = 0, pc_first = False\<rparr>"

text \<open>The callers pass 32-bit time stamps, so no \<open>int64\<close> operation overflows.\<close>

definition checkPTSMonotonicity :: "int \<Rightarrow> int \<Rightarrow> pts_result" where
  "checkPTSMonotonicity last_pts cur_pts =
     (if last_pts = 0 then no_anomaly\<lparr>pc_first := True\<rparr>
      else let delta = cur_pts - last_pts;
               report = (\<lambda>k. \<lparr>pc_anomaly = k, pc_last = last_pts, pc_cur = cur_pts, pc_delta = delta, pc_first = False\<rparr>)
           in if delta < 0 then
                (let wrapped = cur_pts + 2 ^ 32 - last_pts
                 in if wrapped > 0 \<and> wrapped < ptsMaxForwardJump \<and> last_pts > 2 ^ 32 div 2 then report WrapAround
                    else if - delta > ptsMaxBackwardJump then report BackwardJump
                    else no_anomaly)
              else if delta > ptsMaxForwardJump then report ExcessiveForwardJump
              else no_anomaly)"

section \<open>Properties\<close>

text \<open>The median of the frame sizes is the middle element of the sorted list: the insertion sort of
  \<open>medianInt\<close>, swaps in place and all, agrees with the library's sort on every list.\<close>

theorem median_is_middle:
  "medianInt vals = (if vals = [] then 0 else sort vals ! (length vals div 2))"
proof (cases "vals = []")
  case True
  then show ?thesis by (simp add: medianInt_def)
qed (simp add: medianInt_sort)

text \<open>What adaptive recording writes: in any run of triggers, observed frame sizes and decisions with
  a clock after the zero instant, every frame written outside an active period is a key frame, and
  any two of these are at least the interval of the gate apart, which is never below five seconds.\<close>

theorem adaptive_writes_sparsely:
  assumes "\<forall>op \<in> set ops. op_clock op > 0"
  shows "sorted_wrt (\<lambda>a b. b - a \<ge> ag_interval (NewAdaptiveGate iv)) (calm_times (written ops (NewAdaptiveGate iv)))
    \<and> (\<forall>w \<in> set (written ops (NewAdaptiveGate iv)). fst w \<or> fst (snd w))
    \<and> ag_interval (NewAdaptiveGate iv) \<ge> 5 * ns_second"
proof -
  have i: "ag_interval (NewAdaptiveGate iv) \<ge> 5 * ns_second" and z: "ag_last_idr (NewAdaptiveGate iv) = 0"
    by (simp_all add: NewAdaptiveGate_def ns_second_def)
  then have "ag_interval (NewAdaptiveGate iv) > 0" by (simp add: ns_second_def)
  then show ?thesis using written_calm[OF assms, of "NewAdaptiveGate iv"] i z by simp
qed

theorem adaptive_writes_witness:
  "calm_times (written [WriteOp True (10 * ns_second), WriteOp False (11 * ns_second), WriteOp True (12 * ns_second),
      WriteOp True (16 * ns_second)] (NewAdaptiveGate (6 * ns_second))) = [10 * ns_second, 16 * ns_second]
   \<and> sorted_wrt (\<lambda>a b. b - a \<ge> ag_interval (NewAdaptiveGate (6 * ns_second)))
      (calm_times (written [WriteOp True (10 * ns_second), WriteOp False (11 * ns_second), WriteOp True (12 * ns_second),
        WriteOp True (16 * ns_second)] (NewAdaptiveGate (6 * ns_second))))"
proof (rule conjI)
  let ?ops = "[WriteOp True (10 * ns_second), WriteOp False (11 * ns_second), WriteOp True (12 * ns_second),
      WriteOp True (16 * ns_second)]"
  show "calm_times (written ?ops (NewAdaptiveGate (6 * ns_second))) = [10 * ns_second, 16 * ns_second]"
    by (simp add: NewAdaptiveGate_def ShouldWrite_def gate_step_def ns_second_def)
  have "\<forall>op \<in> set ?ops. op_clock op > 0" by (simp add: op_clock_def ns_second_def)
  then show "sorted_wrt (\<lambda>a b. b - a \<ge> ag_interval (NewAdaptiveGate (6 * ns_second)))
      (calm_times (written ?ops (NewAdaptiveGate (6 * ns_second))))"
    using adaptive_writes_sparsely[of ?ops "6 * ns_second"] by blast
qed



text \<open>Without that the ring hands out frames that cannot be decoded: what came before the first key
  frame is kept in front of it.\<close>

lemma preroll_starts_mid_group:
  "snd (Drain (pushes [\<lparr>pf_data = [1], pf_key = False\<rparr>, \<lparr>pf_data = [2], pf_key = True\<rparr>] (newPrerollRing 2)))
   = [[1], [2]]"
  by (simp add: pushes_def Push_def newPrerollRing_def Drain_def)

text \<open>The 32-bit time stamps of a stream that moves on by less than ten seconds never raise an alarm:
  a step that does not wrap is no anomaly and one that wraps is reported as wrap-around, not as a
  jump backward.\<close>

theorem pts_steps_are_silent:
  fixes last_ts d :: "32 word"
  assumes "last_ts \<noteq> 0" and "uint d < ptsMaxForwardJump"
  shows "pc_anomaly (checkPTSMonotonicity (uint last_ts) (uint (last_ts + d)))
    = (if uint last_ts + uint d < 2 ^ 32 then PtsNone else WrapAround)"
proof -
  have l: "0 < uint last_ts" "uint last_ts < 2 ^ 32"
    using assms(1) uint_lt2p[of last_ts] by (auto simp: word_greater_zero_iff[symmetric] word_less_def)
  have d: "0 \<le> uint d" "uint d < 900000" using assms(2) by (simp_all add: ptsMaxForwardJump_def pts90kHzClockRate_def)
  have a: "uint (last_ts + d) = (if uint last_ts + uint d < 2 ^ 32 then uint last_ts + uint d else uint last_ts + uint d - 2 ^ 32)"
    using uint_plus_if_size[of last_ts d] by (simp add: word_size)
  show ?thesis
    unfolding a using l d
    by (simp add: checkPTSMonotonicity_def no_anomaly_def Let_def ptsMaxForwardJump_def pts90kHzClockRate_def)
qed

theorem pts_steps_witness:
  "pc_anomaly (checkPTSMonotonicity (uint (- 1000 :: 32 word)) (uint (- 1000 + 3600 :: 32 word))) = WrapAround"
  using pts_steps_are_silent[of "- 1000" 3600] by (simp add: ptsMaxForwardJump_def pts90kHzClockRate_def)

end
