(* ===== verification/Recorder_Tasks.thy ===== *)
theory Recorder_Tasks
  imports Recorder_Plan Recorder_Gate "HOL-Library.AList"
begin

text \<open>
  The record tasks of \<open>internal/recorder/task.go\<close> and the scheduler of \<open>scheduler.go\<close> that starts and
  stops them.  A task is a recorder, named by a number, that was started for a stream; the table
  lists the streams in some order of Go's map.  \<open>Ensure\<close> and \<open>Stop\<close> are split where they hold no
  lock, so that calls of several threads interleave in the step relation \<open>task_step\<close>; the
  sequential calls of the scheduler are the compositions of these parts.
\<close>

section \<open>Tasks\<close>

record stream_owner =
  so_camera :: string
  so_name :: string
  so_encoding :: string
  so_audio :: bool
  so_url :: string

record recorder_config =
  rc_format :: string
  rc_camera :: string
  rc_stream :: string
  rc_url :: string
  rc_segment :: int
  rc_audio :: bool
  rc_frames :: bool
  rc_adaptive :: "adaptive_gate option"

text \<open>What the callbacks and the media engine answer in one call: the skip function, the owner of the
  stream, its playback URL, its recording mode and interval (None where no function is set or it
  has no answer), the codec of the engine's stream (None without an engine, \<open>Some None\<close> for an
  error), and whether the recorder starts.\<close>

record task_env =
  te_skip :: bool
  te_owner :: "stream_owner option"
  te_url :: "string option"
  te_mode :: "string option"
  te_interval :: "int option"
  te_codec :: "string option option"
  te_starts :: bool

datatype thread =
    Checked string task_env
  | Started string nat
  | Halting nat

record task_manager =
  tk_segment :: int
  tk_metrics :: bool
  tk_gauge :: int
  tk_tasks :: "(string \<times> nat) list"
  tk_fresh :: nat
  tk_live :: "nat set"
  tk_threads :: "nat \<rightharpoonup> thread"

datatype task_error = StreamRequired | NotRecordable | StartFailed

definition DefaultSegmentDur :: int where "DefaultSegmentDur = 600 * ns_second"

definition NewTaskManager :: "bool \<Rightarrow> int \<Rightarrow> task_manager" where
  "NewTaskManager metrics segment =
     \<lparr>tk_segment = (if segment \<le> 0 then DefaultSegmentDur else segment), tk_metrics = metrics, tk_gauge = 0,
      tk_tasks = [], tk_fresh = 0, tk_live = {}, tk_threads = Map.empty\<rparr>"

definition FormatH264 :: string where "FormatH264 = ''h264''"
definition FormatH265 :: string where "FormatH265 = ''h265''"

definition IsSubStreamID :: "string \<Rightarrow> bool" where
  "IsSubStreamID sid = (length ''_sub'' \<le> length sid \<and> drop (length sid - length ''_sub'') sid = ''_sub'')"

definition owner_of :: "task_env \<Rightarrow> string \<Rightarrow> stream_owner" where
  "owner_of e sid =
     (let ow = (case te_owner e of Some ow \<Rightarrow> ow
                | None \<Rightarrow> \<lparr>so_camera = sid, so_name = sid, so_encoding = [], so_audio = True, so_url = []\<rparr>);
          ow = (if so_camera ow = [] then ow\<lparr>so_camera := sid\<rparr> else ow)
      in case te_url e of Some u \<Rightarrow> if so_url ow = [] then ow\<lparr>so_url := u\<rparr> else ow | None \<Rightarrow> ow)"

definition adaptive_of :: "task_env \<Rightarrow> adaptive_gate option" where
  "adaptive_of e =
     (if te_mode e = Some RecordingModeAdaptive
      then Some (NewAdaptiveGate (case te_interval e of Some i \<Rightarrow> i | None \<Rightarrow> 0)) else None)"

definition encoding_of :: "task_env \<Rightarrow> stream_owner \<Rightarrow> string" where
  "encoding_of e ow =
     (let enc = to_lower (trim_space (so_encoding ow)) in
      case te_codec e of
        Some (Some codec) \<Rightarrow> let c = to_lower (trim_space codec) in if c \<noteq> [] then c else enc
      | _ \<Rightarrow> enc)"

definition newRecorder :: "int \<Rightarrow> task_env \<Rightarrow> string \<Rightarrow> recorder_config option" where
  "newRecorder segment e sid =
     (let ow = owner_of e sid; enc = encoding_of e ow in
      if enc \<noteq> FormatH264 \<and> enc \<noteq> FormatH265 then None
      else Some \<lparr>rc_format = enc, rc_camera = so_camera ow, rc_stream = sid, rc_url = so_url ow, rc_segment = segment,
                 rc_audio = so_audio ow, rc_frames = (te_codec e \<noteq> None), rc_adaptive = adaptive_of e\<rparr>)"

text \<open>The parts of \<open>Ensure\<close>: \<open>Ok None\<close> where there is nothing to do.\<close>

definition ensure_check :: "task_env \<Rightarrow> string \<Rightarrow> task_manager \<Rightarrow> (task_error, string option) res" where
  "ensure_check e sid0 s =
     (let sid = trim_space sid0 in
      if sid = [] then Err StreamRequired
      else if IsSubStreamID sid then Ok None
      else if te_skip e then Ok None
      else if map_of (tk_tasks s) sid \<noteq> None then Ok None
      else Ok (Some sid))"

definition ensure_start :: "task_env \<Rightarrow> string \<Rightarrow> task_manager \<Rightarrow> task_manager \<times> (task_error, nat) res" where
  "ensure_start e sid s =
     (case newRecorder (tk_segment s) e sid of
        None \<Rightarrow> (s, Err NotRecordable)
      | Some _ \<Rightarrow> if \<not> te_starts e then (s, Err StartFailed)
          else (s\<lparr>tk_fresh := tk_fresh s + 1, tk_live := insert (tk_fresh s) (tk_live s)\<rparr>, Ok (tk_fresh s)))"

definition ensure_commit :: "string \<Rightarrow> nat \<Rightarrow> task_manager \<Rightarrow> task_manager" where
  "ensure_commit sid r s =
     (if map_of (tk_tasks s) sid \<noteq> None then s\<lparr>tk_live := tk_live s - {r}\<rparr>
      else s\<lparr>tk_tasks := (sid, r) # tk_tasks s,
             tk_gauge := (if tk_metrics s then tk_gauge s + 1 else tk_gauge s)\<rparr>)"

definition Ensure :: "task_env \<Rightarrow> string \<Rightarrow> task_manager \<Rightarrow> task_manager \<times> (task_error, unit) res" where
  "Ensure e sid0 s =
     (case ensure_check e sid0 s of
        Ok (Some sid) \<Rightarrow> (case ensure_start e sid s of
            (s', Ok r) \<Rightarrow> (ensure_commit sid r s', Ok ())
          | (s', Err x) \<Rightarrow> (s', Err x)
          | (s', Panic) \<Rightarrow> (s', Panic))
      | Ok None \<Rightarrow> (s, Ok ())
      | Err x \<Rightarrow> (s, Err x)
      | Panic \<Rightarrow> (s, Panic))"

text \<open>The parts of \<open>Stop\<close>: the task leaves the table, then its recorder is stopped.\<close>

definition stop_take :: "string \<Rightarrow> task_manager \<Rightarrow> task_manager \<times> nat option" where
  "stop_take sid0 s =
     (let sid = trim_space sid0 in
      if sid = [] then (s, None)
      else case map_of (tk_tasks s) sid of
        None \<Rightarrow> (s, None)
      | Some r \<Rightarrow> (s\<lparr>tk_tasks := AList.delete sid (tk_tasks s),
                     tk_gauge := (if tk_metrics s then tk_gauge s - 1 else tk_gauge s)\<rparr>, Some r))"

definition stop_halt :: "nat \<Rightarrow> task_manager \<Rightarrow> task_manager" where
  "stop_halt r s = s\<lparr>tk_live := tk_live s - {r}\<rparr>"

definition Stop :: "string \<Rightarrow> task_manager \<Rightarrow> task_manager" where
  "Stop sid s = (case stop_take sid s of (s', None) \<Rightarrow> s' | (s', Some r) \<Rightarrow> stop_halt r s')"

definition Running :: "string \<Rightarrow> task_manager \<Rightarrow> bool" where
  "Running sid s = (map_of (tk_tasks s) sid \<noteq> None)"

definition RunningIDs :: "task_manager \<Rightarrow> string list" where
  "RunningIDs s = map fst (tk_tasks s)"

definition Count :: "task_manager \<Rightarrow> nat" where
  "Count s = length (tk_tasks s)"

definition StopAll :: "(string list \<Rightarrow> string list) \<Rightarrow> task_manager \<Rightarrow> task_manager" where
  "StopAll order s = fold Stop (order (RunningIDs s)) s"

text \<open>\<open>wants\<close> is the answer of the \<open>shouldRec\<close> function, None if there is none.\<close>

definition OnStreamUp :: "bool option \<Rightarrow> task_env \<Rightarrow> string \<Rightarrow> task_manager \<Rightarrow> task_manager" where
  "OnStreamUp wanted e sid s = (if wanted \<noteq> Some True then s else fst (Ensure e sid s))"

definition OnStreamDown :: "string \<Rightarrow> task_manager \<Rightarrow> task_manager" where
  "OnStreamDown sid s = Stop sid s"

section \<open>Interleaved calls\<close>

definition set_thread :: "nat \<Rightarrow> thread option \<Rightarrow> task_manager \<Rightarrow> task_manager" where
  "set_thread t th s = s\<lparr>tk_threads := (tk_threads s)(t := th)\<rparr>"

inductive task_step :: "task_manager \<Rightarrow> task_manager \<Rightarrow> bool" where
  check: "tk_threads s t = None \<Longrightarrow> ensure_check e sid0 s = Ok (Some sid) \<Longrightarrow>
    task_step s (set_thread t (Some (Checked sid e)) s)"
| start: "tk_threads s t = Some (Checked sid e) \<Longrightarrow> ensure_start e sid s = (s', Ok r) \<Longrightarrow>
    task_step s (set_thread t (Some (Started sid r)) s')"
| fail: "tk_threads s t = Some (Checked sid e) \<Longrightarrow> ensure_start e sid s = (s', Err x) \<Longrightarrow>
    task_step s (set_thread t None s')"
| commit: "tk_threads s t = Some (Started sid r) \<Longrightarrow> task_step s (set_thread t None (ensure_commit sid r s))"
| take: "tk_threads s t = None \<Longrightarrow> stop_take sid s = (s', Some r) \<Longrightarrow>
    task_step s (set_thread t (Some (Halting r)) s')"
| halt: "tk_threads s t = Some (Halting r) \<Longrightarrow> task_step s (set_thread t None (stop_halt r s))"

inductive task_steps :: "task_manager \<Rightarrow> task_manager \<Rightarrow> bool" where
  stay: "task_steps s s"
| move: "task_steps s s' \<Longrightarrow> task_step s' s'' \<Longrightarrow> task_steps s s''"

inductive_cases task_stepE: "task_step s s'"

section \<open>Invariant of the table\<close>

definition held :: "thread \<Rightarrow> nat set" where
  "held th = (case th of Checked sid e \<Rightarrow> {} | Started sid r \<Rightarrow> {r} | Halting r \<Rightarrow> {r})"

definition holders :: "task_manager \<Rightarrow> nat set" where
  "holders s = {r. \<exists>t th. tk_threads s t = Some th \<and> r \<in> held th}"

definition key_ok :: "string \<Rightarrow> bool" where
  "key_ok sid \<longleftrightarrow> sid \<noteq> [] \<and> trim_space sid = sid"

definition thread_ok :: "thread \<Rightarrow> bool" where
  "thread_ok th \<longleftrightarrow> (case th of Checked sid e \<Rightarrow> key_ok sid | Started sid r \<Rightarrow> key_ok sid | Halting r \<Rightarrow> True)"

text \<open>The gauge counts the tasks; a recorder that runs is in the table or held by one thread.\<close>

definition tasks_inv :: "task_manager \<Rightarrow> bool" where
  "tasks_inv s \<longleftrightarrow>
     distinct (map fst (tk_tasks s)) \<and> distinct (map snd (tk_tasks s)) \<and> (\<forall>x \<in> set (tk_tasks s). key_ok (fst x))
     \<and> tk_gauge s = (if tk_metrics s then int (length (tk_tasks s)) else 0)
     \<and> tk_live s = snd ` set (tk_tasks s) \<union> holders s \<and> snd ` set (tk_tasks s) \<inter> holders s = {}
     \<and> (\<forall>t t' th th'. tk_threads s t = Some th \<longrightarrow> tk_threads s t' = Some th' \<longrightarrow> t \<noteq> t' \<longrightarrow> held th \<inter> held th' = {})
     \<and> (\<forall>t th. tk_threads s t = Some th \<longrightarrow> thread_ok th) \<and> (\<forall>r \<in> tk_live s. r < tk_fresh s)"

lemma tasks_invI [intro?]:
  assumes "distinct (map fst (tk_tasks s))" "distinct (map snd (tk_tasks s))"
    and "\<And>k n. (k, n) \<in> set (tk_tasks s) \<Longrightarrow> key_ok k"
    and "tk_gauge s = (if tk_metrics s then int (length (tk_tasks s)) else 0)"
    and "tk_live s = snd ` set (tk_tasks s) \<union> holders s" "snd ` set (tk_tasks s) \<inter> holders s = {}"
    and "\<And>t t' th th'. tk_threads s t = Some th \<Longrightarrow> tk_threads s t' = Some th' \<Longrightarrow> t \<noteq> t' \<Longrightarrow> held th \<inter> held th' = {}"
    and "\<And>t th. tk_threads s t = Some th \<Longrightarrow> thread_ok th" "\<And>r. r \<in> tk_live s \<Longrightarrow> r < tk_fresh s"
  shows "tasks_inv s"
proof -
  have "\<forall>x \<in> set (tk_tasks s). key_ok (fst x)" "\<forall>r \<in> tk_live s. r < tk_fresh s"
    using assms(3,9) by auto
  then show ?thesis unfolding tasks_inv_def by - (intro conjI allI impI; (assumption | (rule assms; assumption)))
qed

lemma tasks_invD:
  assumes "tasks_inv s"
  shows "distinct (map fst (tk_tasks s))" "distinct (map snd (tk_tasks s))"
    and "(k, n) \<in> set (tk_tasks s) \<Longrightarrow> key_ok k"
    and "tk_gauge s = (if tk_metrics s then int (length (tk_tasks s)) else 0)"
    and "tk_live s = snd ` set (tk_tasks s) \<union> holders s" "snd ` set (tk_tasks s) \<inter> holders s = {}"
    and "tk_threads s t = Some th \<Longrightarrow> tk_threads s t' = Some th' \<Longrightarrow> t \<noteq> t' \<Longrightarrow> held th \<inter> held th' = {}"
    and "tk_threads s t = Some th \<Longrightarrow> thread_ok th" "r \<in> tk_live s \<Longrightarrow> r < tk_fresh s"
proof -
  show "(k, n) \<in> set (tk_tasks s) \<Longrightarrow> key_ok k" using assms unfolding tasks_inv_def by force
qed (use assms in \<open>(unfold tasks_inv_def, blast)+\<close>)

lemma set_thread_fields [simp]:
  "tk_tasks (set_thread t th s) = tk_tasks s" "tk_gauge (set_thread t th s) = tk_gauge s"
  "tk_metrics (set_thread t th s) = tk_metrics s" "tk_live (set_thread t th s) = tk_live s"
  "tk_fresh (set_thread t th s) = tk_fresh s" "tk_threads (set_thread t th s) = (tk_threads s)(t := th)"
  by (simp_all add: set_thread_def)

text \<open>What the other threads hold, and what a change of one thread does.\<close>

definition others :: "nat \<Rightarrow> task_manager \<Rightarrow> nat set" where
  "others t s = {r. \<exists>t' th. t' \<noteq> t \<and> tk_threads s t' = Some th \<and> r \<in> held th}"

definition hold_of :: "thread option \<Rightarrow> nat set" where
  "hold_of th = (case th of None \<Rightarrow> {} | Some th \<Rightarrow> held th)"

lemma othersI: "tk_threads s t' = Some th \<Longrightarrow> t' \<noteq> t \<Longrightarrow> r \<in> held th \<Longrightarrow> r \<in> others t s"
  by (auto simp: others_def)

lemma holders_split: "holders s = others t s \<union> hold_of (tk_threads s t)"
proof (rule set_eqI)
  fix r
  show "r \<in> holders s \<longleftrightarrow> r \<in> others t s \<union> hold_of (tk_threads s t)"
    by (auto simp: holders_def hold_of_def others_def split: option.splits) (metis option.distinct(1) option.inject)+
qed

lemma holders_set: "holders (set_thread t th s) = others t s \<union> hold_of th"
  by (auto simp: holders_def others_def hold_of_def split: option.splits if_splits)

lemma others_disjoint: "tasks_inv s \<Longrightarrow> others t s \<inter> hold_of (tk_threads s t) = {}"
  unfolding others_def hold_of_def by (auto dest: tasks_invD(7) split: option.splits)

text \<open>A step of thread \<open>t\<close> keeps the invariant if the table and what \<open>t\<close> holds account for the
  recorders that the other threads do not hold.\<close>

lemma step_inv:
  assumes i: "tasks_inv s"
    and th: "tk_threads s' = tk_threads s"
    and ok: "\<And>x. th = Some x \<Longrightarrow> thread_ok x"
    and d: "distinct (map fst (tk_tasks s'))" "distinct (map snd (tk_tasks s'))"
    and k: "\<And>k n. (k, n) \<in> set (tk_tasks s') \<Longrightarrow> key_ok k"
    and g: "tk_gauge s' = (if tk_metrics s' then int (length (tk_tasks s')) else 0)"
    and l: "tk_live s' = snd ` set (tk_tasks s') \<union> others t s \<union> hold_of th"
    and n: "snd ` set (tk_tasks s') \<inter> others t s = {}" "snd ` set (tk_tasks s') \<inter> hold_of th = {}"
      "others t s \<inter> hold_of th = {}"
    and b: "\<And>r. r \<in> tk_live s' \<Longrightarrow> r < tk_fresh s'"
  shows "tasks_inv (set_thread t th s')"
proof
  have o: "others t s' = others t s" by (simp add: others_def th)
  show "tk_live (set_thread t th s') = snd ` set (tk_tasks (set_thread t th s')) \<union> holders (set_thread t th s')"
    using l by (auto simp: holders_set o)
  show "snd ` set (tk_tasks (set_thread t th s')) \<inter> holders (set_thread t th s') = {}"
    using n by (auto simp: holders_set o)
  show "held a \<inter> held a' = {}"
    if "tk_threads (set_thread t th s') u = Some a" "tk_threads (set_thread t th s') u' = Some a'" "u \<noteq> u'" for u u' a a'
    using that n(3) tasks_invD(7)[OF i, of u a u' a'] othersI[of s u a t] othersI[of s u' a' t]
    by (auto simp: th hold_of_def split: if_splits)
  show "thread_ok a" if "tk_threads (set_thread t th s') u = Some a" for u a
    using that ok tasks_invD(8)[OF i, of u a] by (auto simp: th split: if_splits)
qed (use d k g b in auto)

lemma ensure_check_key: "ensure_check e sid0 s = Ok (Some sid) \<Longrightarrow> key_ok sid"
  by (auto simp: ensure_check_def key_ok_def Let_def split: if_splits)

lemma live_split: "tasks_inv s \<Longrightarrow> tk_live s = snd ` set (tk_tasks s) \<union> others t s \<union> hold_of (tk_threads s t)"
  using tasks_invD(5)[of s] holders_split[of s t] by auto

lemma table_disjoint:
  assumes "tasks_inv s"
  shows "snd ` set (tk_tasks s) \<inter> others t s = {}" and "snd ` set (tk_tasks s) \<inter> hold_of (tk_threads s t) = {}"
  using tasks_invD(6)[OF assms] holders_split[of s t] by auto

lemma fresh_unused: "tasks_inv s \<Longrightarrow> tk_fresh s \<notin> tk_live s"
  using tasks_invD(9)[of s "tk_fresh s"] by auto

lemma check_inv:
  assumes i: "tasks_inv s" and t: "tk_threads s t = None" and c: "ensure_check e sid0 s = Ok (Some sid)"
  shows "tasks_inv (set_thread t (Some (Checked sid e)) s)"
  using tasks_invD[OF i] live_split[OF i, of t] table_disjoint[OF i, of t] ensure_check_key[OF c] t
  by (intro step_inv[OF i]) (auto simp: hold_of_def held_def thread_ok_def)

lemma start_inv:
  assumes i: "tasks_inv s" and t: "tk_threads s t = Some (Checked sid e)" and c: "ensure_start e sid s = (s', r)"
  shows "r = Ok n \<Longrightarrow> tasks_inv (set_thread t (Some (Started sid n)) s')"
    and "r = Err x \<Longrightarrow> tasks_inv (set_thread t None s')"
proof -
  note facts = tasks_invD[OF i] live_split[OF i, of t] table_disjoint[OF i, of t] fresh_unused[OF i] t c
  have k: "key_ok sid" using tasks_invD(8)[OF i t] by (simp add: thread_ok_def)
  have f: "tk_fresh s \<notin> others t s" "tk_fresh s \<notin> snd ` set (tk_tasks s)"
    using live_split[OF i, of t] fresh_unused[OF i] by auto
  show "tasks_inv (set_thread t (Some (Started sid n)) s')" if r: "r = Ok n"
  proof (rule step_inv[OF i])
    have s': "s' = s\<lparr>tk_fresh := tk_fresh s + 1, tk_live := insert (tk_fresh s) (tk_live s)\<rparr>" and n: "n = tk_fresh s"
      using c r by (auto simp: ensure_start_def split: option.splits if_splits)
    show "tk_live s' = snd ` set (tk_tasks s') \<union> others t s \<union> hold_of (Some (Started sid n))"
      using live_split[OF i, of t] t by (auto simp: s' n hold_of_def held_def)
    show "\<And>r. r \<in> tk_live s' \<Longrightarrow> r < tk_fresh s'" using tasks_invD(9)[OF i] by (auto simp: s' intro: less_SucI)
    show "snd ` set (tk_tasks s') \<inter> hold_of (Some (Started sid n)) = {}" "others t s \<inter> hold_of (Some (Started sid n)) = {}"
      using f by (auto simp: s' n hold_of_def held_def)
    show "snd ` set (tk_tasks s') \<inter> others t s = {}" using table_disjoint(1)[OF i, of t] by (simp add: s')
    show "tk_threads s' = tk_threads s" by (simp add: s')
    show "tk_gauge s' = (if tk_metrics s' then int (length (tk_tasks s')) else 0)" using tasks_invD(4)[OF i] by (simp add: s')
    show "\<And>x. Some (Started sid n) = Some x \<Longrightarrow> thread_ok x" using k by (auto simp: thread_ok_def)
  qed (use c r tasks_invD(1-3)[OF i] table_disjoint(1)[OF i, of t]
       in \<open>auto simp: ensure_start_def split: option.splits if_splits\<close>)
  show "tasks_inv (set_thread t None s')" if r: "r = Err x"
  proof (rule step_inv[OF i])
    have s': "s' = s" using c r by (auto simp: ensure_start_def split: option.splits if_splits)
    show "tk_live s' = snd ` set (tk_tasks s') \<union> others t s \<union> hold_of None"
      using live_split[OF i, of t] t by (auto simp: s' hold_of_def held_def)
    show "\<And>r. r \<in> tk_live s' \<Longrightarrow> r < tk_fresh s'" using tasks_invD(9)[OF i] by (auto simp: s')
    show "tk_gauge s' = (if tk_metrics s' then int (length (tk_tasks s')) else 0)" using tasks_invD(4)[OF i] by (simp add: s')
  qed (use c r tasks_invD(1-3)[OF i] table_disjoint(1)[OF i, of t]
       in \<open>auto simp: ensure_start_def hold_of_def split: option.splits if_splits\<close>)
qed

lemma commit_inv:
  assumes i: "tasks_inv s" and t: "tk_threads s t = Some (Started sid r)"
  shows "tasks_inv (set_thread t None (ensure_commit sid r s))"
proof -
  have k: "key_ok sid" using tasks_invD(8)[OF i t] by (simp add: thread_ok_def)
  have l: "tk_live s = snd ` set (tk_tasks s) \<union> others t s \<union> {r}" and d: "r \<notin> snd ` set (tk_tasks s)" "r \<notin> others t s"
    using live_split[OF i, of t] table_disjoint(2)[OF i, of t] others_disjoint[OF i, of t] t
    by (auto simp: hold_of_def held_def)
  have new: "map_of (tk_tasks s) sid = None \<longleftrightarrow> sid \<notin> fst ` set (tk_tasks s)" by (simp add: map_of_eq_None_iff)
  show ?thesis
    by (rule step_inv[OF i])
      (use tasks_invD(1-4,9)[OF i] table_disjoint(1)[OF i, of t] l d k
       in \<open>auto simp: ensure_commit_def hold_of_def new image_iff split: if_splits\<close>)
qed

lemma delete_table:
  assumes "map_of xs k = Some r" and "distinct (map fst xs)" and "distinct (map snd xs)"
  shows "snd ` set (AList.delete k xs) = snd ` set xs - {r}" and "length xs = Suc (length (AList.delete k xs))"
  using assms
  by (induction xs) (auto simp: delete_id image_iff dest: map_of_SomeD split: if_splits)

lemma take_inv:
  assumes i: "tasks_inv s" and t: "tk_threads s t = None" and c: "stop_take sid s = (s', Some r)"
  shows "tasks_inv (set_thread t (Some (Halting r)) s')"
proof -
  have m: "map_of (tk_tasks s) (trim_space sid) = Some r"
    and s': "s' = s\<lparr>tk_tasks := AList.delete (trim_space sid) (tk_tasks s),
                     tk_gauge := (if tk_metrics s then tk_gauge s - 1 else tk_gauge s)\<rparr>"
    using c by (auto simp: stop_take_def Let_def split: if_splits option.splits)
  note del = delete_table[OF m tasks_invD(1,2)[OF i]]
  have r: "r \<in> snd ` set (tk_tasks s)" using m by (force dest: map_of_SomeD)
  show ?thesis
  proof (rule step_inv[OF i])
    show "tk_gauge s' = (if tk_metrics s' then int (length (tk_tasks s')) else 0)"
      using tasks_invD(4)[OF i] del(2) by (simp add: s')
    show "tk_live s' = snd ` set (tk_tasks s') \<union> others t s \<union> hold_of (Some (Halting r))"
      using live_split[OF i, of t] del(1) r by (auto simp: s' hold_of_def held_def t)
    show "others t s \<inter> hold_of (Some (Halting r)) = {}"
      using r table_disjoint(1)[OF i, of t] by (auto simp: hold_of_def held_def)
    show "snd ` set (tk_tasks s') \<inter> others t s = {}" using table_disjoint(1)[OF i, of t] del(1) by (auto simp: s')
    show "snd ` set (tk_tasks s') \<inter> hold_of (Some (Halting r)) = {}" using del(1) by (simp add: s' hold_of_def held_def)
    show "\<And>k n. (k, n) \<in> set (tk_tasks s') \<Longrightarrow> key_ok k"
      using tasks_invD(3)[OF i] by (auto simp: s' AList.delete_eq)
    show "distinct (map snd (tk_tasks s'))"
      using tasks_invD(2)[OF i] by (simp add: s' AList.delete_eq distinct_map inj_on_def)
  qed (use tasks_invD(1,9)[OF i] in \<open>auto simp: s' thread_ok_def AList.distinct_delete\<close>)
qed

lemma halt_inv:
  assumes i: "tasks_inv s" and t: "tk_threads s t = Some (Halting r)"
  shows "tasks_inv (set_thread t None (stop_halt r s))"
proof -
  have l: "tk_live s = snd ` set (tk_tasks s) \<union> others t s \<union> {r}" and d: "r \<notin> snd ` set (tk_tasks s)" "r \<notin> others t s"
    using live_split[OF i, of t] table_disjoint(2)[OF i, of t] others_disjoint[OF i, of t] t
    by (auto simp: hold_of_def held_def)
  show ?thesis
  proof (rule step_inv[OF i])
    show "tk_live (stop_halt r s) = snd ` set (tk_tasks (stop_halt r s)) \<union> others t s \<union> hold_of None"
      using l d by (auto simp: stop_halt_def hold_of_def)
  qed (use tasks_invD(1-4,9)[OF i] table_disjoint(1)[OF i, of t] in \<open>auto simp: stop_halt_def hold_of_def\<close>)
qed

lemma task_step_inv: "tasks_inv s \<Longrightarrow> task_step s s' \<Longrightarrow> tasks_inv s'"
  by (erule task_stepE) (simp_all add: check_inv start_inv commit_inv take_inv halt_inv)

lemma task_steps_inv: "task_steps s s' \<Longrightarrow> tasks_inv s \<Longrightarrow> tasks_inv s'"
  by (induction rule: task_steps.induct) (auto intro: task_step_inv)

lemma NewTaskManager_inv: "tasks_inv (NewTaskManager metrics segment)"
  by rule (auto simp: NewTaskManager_def holders_def)

section \<open>Sequential calls\<close>

text \<open>Whether \<open>Ensure\<close> would start a task that is not in the table.\<close>

definition startable :: "int \<Rightarrow> task_env \<Rightarrow> string \<Rightarrow> bool" where
  "startable segment e sid \<longleftrightarrow>
     \<not> IsSubStreamID sid \<and> \<not> te_skip e \<and> newRecorder segment e sid \<noteq> None \<and> te_starts e"

lemma Ensure_ids:
  assumes "key_ok sid"
  shows "fst ` set (tk_tasks (fst (Ensure e sid s)))
    = (if startable (tk_segment s) e sid then insert sid (fst ` set (tk_tasks s)) else fst ` set (tk_tasks s))"
  using assms
  by (auto simp: Ensure_def ensure_check_def ensure_start_def ensure_commit_def startable_def key_ok_def Let_def
      map_of_eq_None_iff image_iff split: option.splits)

lemma Stop_ids:
  assumes "key_ok sid"
  shows "fst ` set (tk_tasks (Stop sid s)) = fst ` set (tk_tasks s) - {sid}"
proof (cases "map_of (tk_tasks s) sid")
  case None
  then have "sid \<notin> fst ` set (tk_tasks s)" by (simp add: map_of_eq_None_iff)
  then show ?thesis using assms None by (simp add: Stop_def stop_take_def key_ok_def)
next
  case (Some r)
  have "fst ` set (AList.delete sid (tk_tasks s)) = fst ` set (tk_tasks s) - {sid}"
    by (auto simp: AList.delete_eq image_iff)
  then show ?thesis using assms Some by (simp add: Stop_def stop_take_def stop_halt_def key_ok_def)
qed

lemma Ensure_segment [simp]: "tk_segment (fst (Ensure e sid s)) = tk_segment s"
  by (auto simp: Ensure_def ensure_start_def ensure_commit_def split: res.split option.split)

lemma Stop_segment [simp]: "tk_segment (Stop sid s) = tk_segment s"
  by (auto simp: Stop_def stop_take_def stop_halt_def Let_def split: option.split)

text \<open>A sequential call is a run of the steps of one thread that ends without holding anything.\<close>

lemma two_steps: "task_step s s' \<Longrightarrow> task_step s' s'' \<Longrightarrow> task_steps s s''"
  by (rule task_steps.move[OF task_steps.move[OF task_steps.stay]])

lemma idle_thread [simp]: "tk_threads s t = None \<Longrightarrow> set_thread t None s = s"
  by (simp add: set_thread_def fun_upd_idem)

lemma set_thread_twice [simp]: "set_thread t a (set_thread t b s) = set_thread t a s"
  by (simp add: set_thread_def)

lemma parts_of_thread [simp]:
  "ensure_start e sid (set_thread t th s) = (set_thread t th (fst (ensure_start e sid s)), snd (ensure_start e sid s))"
  "ensure_commit sid r (set_thread t th s) = set_thread t th (ensure_commit sid r s)"
  "stop_halt r (set_thread t th s) = set_thread t th (stop_halt r s)"
  by (auto simp: ensure_start_def ensure_commit_def stop_halt_def set_thread_def split: option.split)

lemma parts_threads [simp]:
  "tk_threads (fst (ensure_start e sid s)) = tk_threads s"
  "tk_threads (ensure_commit sid r s) = tk_threads s"
  "tk_threads (stop_halt r s) = tk_threads s"
  by (auto simp: ensure_start_def ensure_commit_def stop_halt_def split: option.split)

lemma Ensure_steps:
  assumes "tk_threads s t = None"
  shows "task_steps s (fst (Ensure e sid0 s))"
proof (cases "ensure_check e sid0 s")
  case (Ok o')
  then show ?thesis
  proof (cases o')
    case (Some sid)
    let ?s1 = "set_thread t (Some (Checked sid e)) s"
    have c: "task_step s ?s1" using assms Ok Some by (auto intro: task_step.check)
    obtain s' r where st: "ensure_start e sid s = (s', r)" by (cases "ensure_start e sid s")
    have th: "tk_threads s' t = None" using parts_threads(1)[of e sid s] assms by (simp add: st)
    show ?thesis
    proof (cases r)
      case r: (Ok n)
      have "ensure_start e sid ?s1 = (set_thread t (Some (Checked sid e)) s', Ok n)" using st r by simp
      then have b: "task_step ?s1 (set_thread t (Some (Started sid n)) (set_thread t (Some (Checked sid e)) s'))"
        by (intro task_step.start) simp_all
      have "task_step (set_thread t (Some (Started sid n)) s') (set_thread t None (ensure_commit sid n (set_thread t (Some (Started sid n)) s')))"
        by (rule task_step.commit) simp
      then have "task_steps s (ensure_commit sid n s')"
        using task_steps.move[OF two_steps[OF c b]] th by simp
      then show ?thesis by (simp add: Ensure_def Ok Some st r)
    next
      case r: (Err x)
      have "ensure_start e sid ?s1 = (set_thread t (Some (Checked sid e)) s', Err x)" using st r by simp
      then have "task_step ?s1 (set_thread t None (set_thread t (Some (Checked sid e)) s'))"
        by (intro task_step.fail) simp_all
      then have "task_steps s s'" using two_steps[OF c] th by simp
      then show ?thesis by (simp add: Ensure_def Ok Some st r)
    next
      case Panic
      then show ?thesis using st by (auto simp: ensure_start_def split: option.splits if_splits)
    qed
  qed (simp add: Ensure_def Ok task_steps.stay)
qed (simp_all add: Ensure_def task_steps.stay)

lemma Stop_steps:
  assumes "tk_threads s t = None"
  shows "task_steps s (Stop sid s)"
proof -
  obtain s' r where st: "stop_take sid s = (s', r)" by (cases "stop_take sid s")
  show ?thesis
  proof (cases r)
    case None
    then have "s' = s" using st by (auto simp: stop_take_def Let_def split: if_splits option.splits)
    then show ?thesis using st None by (simp add: Stop_def task_steps.stay)
  next
    case (Some n)
    have th: "tk_threads s' t = None"
      using st assms by (auto simp: stop_take_def Let_def split: if_splits option.splits)
    have a: "task_step s (set_thread t (Some (Halting n)) s')" using assms st Some by (auto intro: task_step.take)
    have "task_step (set_thread t (Some (Halting n)) s') (set_thread t None (stop_halt n (set_thread t (Some (Halting n)) s')))"
      by (rule task_step.halt) simp
    then have "task_steps s (stop_halt n s')" using two_steps[OF a] th by simp
    then show ?thesis by (simp add: Stop_def st Some)
  qed
qed

end
