(* ===== verification/Recorder_Scheduler.thy ===== *)
theory Recorder_Scheduler
  imports Recorder_Tasks
begin

text \<open>
  The recording scheduler of \<open>internal/recorder/scheduler.go\<close>: one pass compares the plans and the
  event windows with the streams that are alive and starts and stops record tasks.  The scheduler
  uses the tasks through the contract \<open>task_owner\<close>, which the table of \<open>Recorder_Tasks\<close> satisfies.
\<close>

section \<open>The contract of a task table\<close>

text \<open>\<open>can\<close> tells which streams a task can be started for, \<open>known\<close> which names the contract covers.\<close>

locale task_owner =
  fixes running :: "'s \<Rightarrow> string set"
    and ensure :: "string \<Rightarrow> 's \<Rightarrow> 's"
    and stop :: "string \<Rightarrow> 's \<Rightarrow> 's"
    and can :: "'s \<Rightarrow> string \<Rightarrow> bool"
    and known :: "string \<Rightarrow> bool"
  assumes ensure_running: "known sid \<Longrightarrow> running (ensure sid s) = running s \<union> (if can s sid then {sid} else {})"
    and stop_running: "known sid \<Longrightarrow> running (stop sid s) = running s - {sid}"
    and can_ensure: "can (ensure sid s) = can s"
begin

lemma ensure_all:
  assumes "\<forall>sid \<in> set ids. known sid"
  shows "running (fold (\<lambda>sid s. if p sid then ensure sid s else s) ids s)
    = running s \<union> {sid \<in> set ids. p sid \<and> can s sid}"
  using assms by (induction ids arbitrary: s) (auto simp: ensure_running can_ensure)

lemma stop_all:
  assumes "\<forall>sid \<in> set ids. known sid"
  shows "running (fold (\<lambda>sid s. if p sid then stop sid s else s) ids s) = running s - {sid \<in> set ids. p sid}"
  using assms by (induction ids arbitrary: s) (auto simp: stop_running)

text \<open>Starting what \<open>p\<close> asks for and stopping what \<open>q\<close> condemns among all that run then.\<close>

lemma reconcile:
  assumes "\<forall>sid \<in> set ids. known sid" and "\<forall>sid \<in> set ids'. known sid"
    and "s1 = fold (\<lambda>sid s. if p sid then ensure sid s else s) ids s" and "set ids' = running s1"
    and "s2 = fold (\<lambda>sid s. if q sid then stop sid s else s) ids' s1"
  shows "running s2 = {sid. \<not> q sid \<and> (sid \<in> running s \<or> sid \<in> set ids \<and> p sid \<and> can s sid)}"
  using ensure_all[OF assms(1), of p s] stop_all[OF assms(2), of q s1] assms(3-5) by auto

end

text \<open>\<open>e sid\<close> is what the callbacks and the engine answer for that stream.\<close>

interpretation tasks: task_owner "\<lambda>s. fst ` set (tk_tasks s)" "\<lambda>sid s. fst (Ensure (e sid) sid s)" Stop
  "\<lambda>s sid. startable (tk_segment s) (e sid) sid" key_ok
  for e :: "string \<Rightarrow> task_env"
  by unfold_locales (auto simp: Ensure_ids Stop_ids)

section \<open>The scheduler\<close>

datatype alive_answer = NoAliveFn | AliveError | AliveStreams "string list"

record scheduler =
  sd_planner :: "planner option"
  sd_tasks :: "task_manager option"

text \<open>The world during one pass: the clock and the two answers of the database to the planner, its
  answer without a planner, the streams alive, the event windows, the write switch (which is false
  where none is set), what each stream's recorder needs, and the order in which Go iterates over a
  map.  Neither changes during the pass.\<close>

record pass_env =
  ps_clock :: clock
  ps_desired :: "recording_plan list option"
  ps_plans :: "recording_plan list option"
  ps_db :: "(string \<rightharpoonup> bool) option"
  ps_alive :: alive_answer
  ps_event :: "string \<Rightarrow> bool"
  ps_switch :: "string \<Rightarrow> bool \<Rightarrow> bool"
  ps_task :: "string \<Rightarrow> task_env"
  ps_order :: "string list \<Rightarrow> string list"

definition desiredState :: "pass_env \<Rightarrow> planner option \<Rightarrow> (string \<rightharpoonup> bool)" where
  "desiredState e pl =
     (case pl of Some p \<Rightarrow> pl_desired p
      | None \<Rightarrow> (case ps_db e of None \<Rightarrow> Map.empty | Some d \<Rightarrow> d))"

definition want_of :: "pass_env \<Rightarrow> planner option \<Rightarrow> string \<Rightarrow> bool" where
  "want_of e pl sid = (wants (desiredState e pl) sid \<or> ps_event e sid)"

definition alive_set :: "pass_env \<Rightarrow> string list option" where
  "alive_set e =
     (case ps_alive e of AliveStreams ids \<Rightarrow> Some (remdups (filter (\<lambda>sid. sid \<noteq> []) ids)) | _ \<Rightarrow> None)"

definition refreshed :: "pass_env \<Rightarrow> planner option \<Rightarrow> planner option option" where
  "refreshed e pl =
     (case pl of None \<Rightarrow> Some None
      | Some p \<Rightarrow> map_option Some (Refresh (ps_clock e) (ps_desired e) (ps_plans e) p))"

definition start_wanted :: "pass_env \<Rightarrow> planner option \<Rightarrow> string list \<Rightarrow> task_manager \<Rightarrow> task_manager" where
  "start_wanted e pl ids tm =
     fold (\<lambda>sid tm. if \<not> ps_switch e sid (want_of e pl sid) \<and> want_of e pl sid
                    then fst (Ensure (ps_task e sid) sid tm) else tm) ids tm"

definition stop_unwanted :: "pass_env \<Rightarrow> planner option \<Rightarrow> string list option \<Rightarrow> string list \<Rightarrow> task_manager \<Rightarrow> task_manager" where
  "stop_unwanted e pl alive ids tm =
     fold (\<lambda>sid tm. if (case alive of Some xs \<Rightarrow> sid \<notin> set xs | None \<Rightarrow> False) \<or> \<not> want_of e pl sid
                    then Stop sid tm else tm) ids tm"

definition check :: "pass_env \<Rightarrow> scheduler \<Rightarrow> scheduler" where
  "check e d =
     (case sd_tasks d of None \<Rightarrow> d
      | Some tm \<Rightarrow> (case refreshed e (sd_planner d) of None \<Rightarrow> d
        | Some pl \<Rightarrow>
          let alive = alive_set e;
              tm1 = (case alive of Some ids \<Rightarrow> start_wanted e pl (ps_order e ids) tm | None \<Rightarrow> tm);
              tm2 = stop_unwanted e pl alive (ps_order e (RunningIDs tm1)) tm1
          in d\<lparr>sd_planner := pl, sd_tasks := Some tm2\<rparr>))"

section \<open>One pass\<close>

text \<open>The keys of the table that matter here: they are names as \<open>Ensure\<close> trims them.\<close>

definition table_keys_ok :: "task_manager \<Rightarrow> bool" where
  "table_keys_ok tm \<longleftrightarrow> (\<forall>sid \<in> set (RunningIDs tm). key_ok sid)"

lemma check_tasks:
  assumes "sd_tasks d = Some tm" and "refreshed e (sd_planner d) = Some pl" and "alive_set e = Some ids"
    and ord: "\<And>xs. set (ps_order e xs) = set xs" and k: "\<forall>sid \<in> set ids. key_ok sid" and t: "table_keys_ok tm"
  shows "\<exists>tm'. sd_tasks (check e d) = Some tm' \<and> sd_planner (check e d) = pl \<and>
    set (RunningIDs tm') = {sid \<in> set ids. want_of e pl sid \<and>
      (sid \<in> set (RunningIDs tm) \<or> \<not> ps_switch e sid True \<and> startable (tk_segment tm) (ps_task e sid) sid)}"
proof -
  let ?tm1 = "start_wanted e pl (ps_order e ids) tm"
  let ?tm2 = "stop_unwanted e pl (Some ids) (ps_order e (RunningIDs ?tm1)) ?tm1"
  let ?p = "\<lambda>sid. \<not> ps_switch e sid (want_of e pl sid) \<and> want_of e pl sid"
  have r1: "set (RunningIDs ?tm1) = set (RunningIDs tm) \<union> {sid \<in> set ids. ?p sid \<and> startable (tk_segment tm) (ps_task e sid) sid}"
    using tasks.ensure_all[where ids = "ps_order e ids" and e = "ps_task e" and p = ?p and s = tm] k ord
    by (simp add: RunningIDs_def start_wanted_def)
  have k1: "\<forall>sid \<in> set (ps_order e (RunningIDs ?tm1)). key_ok sid"
    using k t unfolding ord r1 table_keys_ok_def by auto
  have "fst ` set (tk_tasks ?tm2) = {sid. \<not> (sid \<notin> set ids \<or> \<not> want_of e pl sid) \<and> (sid \<in> fst ` set (tk_tasks tm) \<or>
      sid \<in> set (ps_order e ids) \<and> ?p sid \<and> startable (tk_segment tm) (ps_task e sid) sid)}"
    using k ord k1
    by (intro tasks.reconcile[where ids = "ps_order e ids" and ids' = "ps_order e (RunningIDs ?tm1)" and ?s1.0 = ?tm1 and p = ?p and e = "ps_task e"])
      (simp_all add: start_wanted_def stop_unwanted_def RunningIDs_def)
  moreover have "sd_tasks (check e d) = Some ?tm2" "sd_planner (check e d) = pl"
    using assms(1-3) by (simp_all add: check_def Let_def)
  ultimately show ?thesis by (auto simp: RunningIDs_def ord)
qed

text \<open>Without the list of streams nothing is started, and only the plans stop tasks.\<close>

lemma check_blind:
  assumes "sd_tasks d = Some tm" and "refreshed e (sd_planner d) = Some pl" and "alive_set e = None"
    and ord: "\<And>xs. set (ps_order e xs) = set xs" and t: "table_keys_ok tm"
  shows "\<exists>tm'. sd_tasks (check e d) = Some tm' \<and>
    set (RunningIDs tm') = {sid \<in> set (RunningIDs tm). want_of e pl sid}"
proof -
  have "fst ` set (tk_tasks (stop_unwanted e pl None (ps_order e (RunningIDs tm)) tm))
    = fst ` set (tk_tasks tm) - {sid \<in> set (ps_order e (RunningIDs tm)). \<not> want_of e pl sid}"
    using tasks.stop_all[where ids = "ps_order e (RunningIDs tm)" and p = "\<lambda>sid. \<not> want_of e pl sid" and s = tm] t ord
    by (simp add: stop_unwanted_def table_keys_ok_def)
  then show ?thesis using assms(1-3) by (auto simp: check_def Let_def RunningIDs_def ord)
qed

section \<open>Properties\<close>

text \<open>C21: Recorders are never lost: however calls of \<open>Ensure\<close> and \<open>Stop\<close> by any number of threads
  interleave, the gauge of active recordings equals the number of tasks, every recorder that was
  started and not stopped is either the task of exactly one stream or in the hands of exactly one
  call that is still running, and so with no call running the live recorders are the tasks.\<close>

theorem recorders_accounted:
  assumes "task_steps (NewTaskManager mt seg) s"
  shows "tk_gauge s = (if mt then int (Count s) else 0)
    \<and> distinct (RunningIDs s) \<and> distinct (map snd (tk_tasks s))
    \<and> tk_live s = snd ` set (tk_tasks s) \<union> holders s \<and> snd ` set (tk_tasks s) \<inter> holders s = {}
    \<and> (if \<forall>t. tk_threads s t = None then tk_live s = snd ` set (tk_tasks s) else True)"
proof -
  have i: "tasks_inv s" by (rule task_steps_inv[OF assms NewTaskManager_inv])
  have "tk_metrics s = mt" using assms
    by (induction "NewTaskManager mt seg" s rule: task_steps.induct)
      (auto simp: NewTaskManager_def ensure_start_def ensure_commit_def stop_take_def stop_halt_def Let_def
        elim!: task_stepE split: option.splits if_splits)
  then show ?thesis
    using tasks_invD[OF i] by (auto simp: Count_def RunningIDs_def holders_def)
qed

definition demo_env :: task_env where
  "demo_env = \<lparr>te_skip = False, te_owner = None, te_url = None, te_mode = None, te_interval = None,
     te_codec = Some (Some ''H264''), te_starts = True\<rparr>"

definition demo_tasks :: task_manager where
  "demo_tasks = fst (Ensure demo_env ''b'' (NewTaskManager True 0))"

lemma demo_tasks_reached: "task_steps (NewTaskManager True 0) demo_tasks"
  unfolding demo_tasks_def by (rule Ensure_steps[of _ 0]) (simp add: NewTaskManager_def)

lemma demo_names:
  "to_lower (trim_space ''H264'') = ''h264''" "trim_space ''b'' = ''b''" "trim_space ''a'' = ''a''"
  "\<not> IsSubStreamID ''b''" "\<not> IsSubStreamID ''a''"
  by code_simp+

lemma demo_recorder: "newRecorder segment demo_env sid \<noteq> None"
  by (simp add: newRecorder_def encoding_of_def demo_env_def demo_names Let_def FormatH264_def)

lemma demo_tasks_eq:
  "tk_tasks demo_tasks = [(''b'', 0)] \<and> tk_live demo_tasks = {0} \<and> tk_segment demo_tasks = DefaultSegmentDur"
proof -
  obtain rc where "newRecorder DefaultSegmentDur demo_env ''b'' = Some rc" using demo_recorder by blast
  moreover have "\<not> te_skip demo_env" "te_starts demo_env" by (simp_all add: demo_env_def)
  ultimately show ?thesis
    by (simp add: demo_tasks_def Ensure_def ensure_check_def ensure_start_def ensure_commit_def NewTaskManager_def
        demo_names Let_def)
qed

theorem recorders_accounted_witness:
  "tk_tasks demo_tasks = [(''b'', 0)] \<and> tk_gauge demo_tasks = int (Count demo_tasks)
   \<and> tk_live demo_tasks = snd ` set (tk_tasks demo_tasks) \<union> holders demo_tasks"
  using recorders_accounted[OF demo_tasks_reached] demo_tasks_eq by simp

definition planned :: "clock \<Rightarrow> recording_plan list \<Rightarrow> string \<Rightarrow> bool" where
  "planned c plans sid =
     (case List.find (\<lambda>p. rp_stream p = sid) (rev plans) of None \<Rightarrow> False | Some p \<Rightarrow> plan_desired c p)"

text \<open>C20: What one pass of the scheduler achieves, from the plans to the tasks: if the plans and the list
  of live streams can be read, afterwards exactly those streams have a record task that are alive,
  are wanted now (the last plan of the stream is active at this minute or an event window is open),
  and either had a task before or could be given one, the write switch not having taken them.\<close>

theorem scheduler_follows_plans:
  assumes "task_steps (NewTaskManager mt seg) tm" and "sd_tasks d = Some tm"
    and "sd_planner d = Some p" and "ps_desired e = Some plans" and "ps_plans e = Some plans'"
    and "ps_alive e = AliveStreams ids" and "\<forall>sid \<in> set ids. key_ok sid" and "\<forall>xs. set (ps_order e xs) = set xs"
  shows "\<exists>tm'. sd_tasks (check e d) = Some tm' \<and>
    set (RunningIDs tm') = {sid \<in> set ids. (planned (ps_clock e) plans sid \<or> ps_event e sid) \<and>
      (sid \<in> set (RunningIDs tm) \<or> \<not> ps_switch e sid True \<and> startable (tk_segment tm) (ps_task e sid) sid)}"
proof -
  have "tasks_inv tm" by (rule task_steps_inv[OF assms(1) NewTaskManager_inv])
  then have t: "table_keys_ok tm" by (auto simp: table_keys_ok_def RunningIDs_def dest: tasks_invD(3))
  obtain p' where p': "refreshed e (sd_planner d) = Some (Some p')"
    and r: "Refresh (ps_clock e) (Some plans) (Some plans') p = Some p'"
    using assms(3-5) by (simp add: refreshed_def Refresh_def)
  have w: "want_of e (Some p') sid = (planned (ps_clock e) plans sid \<or> ps_event e sid)" for sid
    using Refresh_ShouldRecord[OF r, of sid] r
    by (auto simp: want_of_def desiredState_def planned_def ShouldRecord_def Refresh_def split: option.splits)
  have "alive_set e = Some (remdups (filter (\<lambda>sid. sid \<noteq> []) ids))" using assms(6) by (simp add: alive_set_def)
  then show ?thesis
    using check_tasks[OF assms(2) p', of "remdups (filter (\<lambda>sid. sid \<noteq> []) ids)"] assms(7,8) t
    by (auto simp: w key_ok_def)
qed

definition demo_pass :: pass_env where
  "demo_pass = \<lparr>ps_clock = \<lparr>ck_day = 1, ck_hour = 8, ck_minute = 30\<rparr>,
     ps_desired = Some [\<lparr>rp_stream = ''a'', rp_enabled = True, rp_mode = ''continuous'', rp_windows = []\<rparr>],
     ps_plans = Some [], ps_db = None, ps_alive = AliveStreams [''a'', ''b''], ps_event = (\<lambda>_. False),
     ps_switch = (\<lambda>_ _. False), ps_task = (\<lambda>_. demo_env), ps_order = (\<lambda>xs. xs)\<rparr>"

theorem scheduler_witness:
  "\<exists>tm'. sd_tasks (check demo_pass \<lparr>sd_planner = Some NewRecordingPlanner, sd_tasks = Some demo_tasks\<rparr>) = Some tm'
    \<and> set (RunningIDs tm') = {''a''}"
proof -
  let ?plans = "[\<lparr>rp_stream = ''a'', rp_enabled = True, rp_mode = ''continuous'', rp_windows = []\<rparr>]"
  let ?d = "\<lparr>sd_planner = Some NewRecordingPlanner, sd_tasks = Some demo_tasks\<rparr>"
  have keys: "\<forall>sid \<in> set [''a'', ''b'']. key_ok sid" by (simp add: key_ok_def demo_names)
  have "\<exists>tm'. sd_tasks (check demo_pass ?d) = Some tm' \<and>
    set (RunningIDs tm') = {sid \<in> set [''a'', ''b'']. (planned (ps_clock demo_pass) ?plans sid \<or> ps_event demo_pass sid) \<and>
      (sid \<in> set (RunningIDs demo_tasks) \<or> \<not> ps_switch demo_pass sid True
        \<and> startable (tk_segment demo_tasks) (ps_task demo_pass sid) sid)}"
    by (rule scheduler_follows_plans[OF demo_tasks_reached, where p = NewRecordingPlanner and plans' = "[]"])
      (use keys in \<open>simp_all add: demo_pass_def\<close>)
  moreover have "planned (ps_clock demo_pass) ?plans ''a''" "\<not> planned (ps_clock demo_pass) ?plans ''b''"
    by (simp_all add: planned_def plan_desired_def RecordingModeOff_def RecordingModeEvent_def RecordingModeScheduled_def)
  moreover have "startable (tk_segment demo_tasks) demo_env ''a''"
    using demo_recorder by (simp add: startable_def demo_names demo_env_def)
  ultimately show ?thesis by (auto simp: demo_pass_def)
qed

end
