(* ===== verification/Event_Windows.thy ===== *)
theory Event_Windows
  imports Recorder_Gate
begin

text \<open>
  The event recording windows of \<open>internal/recorder/event_manager.go\<close>.  A timer of
  \<open>time.AfterFunc\<close> is armed with an instant and a camera; once it has fired its call of \<open>End\<close>
  waits for the mutex and can no longer be stopped, so fired calls are kept in a list of their own.
\<close>

section \<open>State and operations\<close>

record event_session =
  es_source :: string
  es_started :: int
  es_expires :: int
  es_timer :: nat

text \<open>\<open>em_mode\<close> answers the \<open>isEventMode\<close> function; a nil one is always true.  The recording that
  \<open>resume\<close> and \<open>pause\<close> switch on and off is the output.\<close>

record event_manager =
  em_post :: int
  em_max :: int
  em_mode :: "string \<Rightarrow> bool"
  em_sessions :: "string \<rightharpoonup> event_session"
  em_armed :: "nat \<rightharpoonup> int \<times> string"
  em_due :: "string list"
  em_fresh :: nat

datatype event_out = Resume string | Pause string

definition ns_milli :: int where "ns_milli = 1000000"

definition NewEventManager :: "int \<Rightarrow> int \<Rightarrow> (string \<Rightarrow> bool) \<Rightarrow> event_manager" where
  "NewEventManager post mx md =
     \<lparr>em_post = (if post \<le> 0 then 30 * ns_second else post), em_max = (if mx \<le> 0 then 300 * ns_second else mx),
      em_mode = md, em_sessions = Map.empty, em_armed = Map.empty, em_due = [], em_fresh = 0\<rparr>"

definition IsActive :: "int \<Rightarrow> string \<Rightarrow> event_manager \<Rightarrow> bool" where
  "IsActive now cam m = (case em_sessions m cam of None \<Rightarrow> False | Some s \<Rightarrow> now < es_expires s)"

definition Trigger :: "int \<Rightarrow> string \<Rightarrow> string \<Rightarrow> event_manager \<Rightarrow> event_manager \<times> event_out list" where
  "Trigger now cam src m =
     (if cam = [] \<or> \<not> em_mode m cam then (m, [])
      else let started = (case em_sessions m cam of Some s \<Rightarrow> es_started s | None \<Rightarrow> now);
               armed = (case em_sessions m cam of Some s \<Rightarrow> (em_armed m)(es_timer s := None) | None \<Rightarrow> em_armed m);
               deadline = min (now + em_post m) (started + em_max m);
               delay = max (deadline - now) ns_milli;
               t = em_fresh m
           in (m\<lparr>em_sessions := (em_sessions m)(cam \<mapsto>
                   \<lparr>es_source = src, es_started = started, es_expires = deadline, es_timer = t\<rparr>),
                 em_armed := armed(t \<mapsto> (now + delay, cam)), em_fresh := t + 1\<rparr>, [Resume cam]))"

definition End :: "string \<Rightarrow> event_manager \<Rightarrow> event_manager \<times> event_out list" where
  "End cam m =
     (if cam = [] then (m, [])
      else case em_sessions m cam of
        None \<Rightarrow> (m, [])
      | Some s \<Rightarrow> (m\<lparr>em_sessions := (em_sessions m)(cam := None), em_armed := (em_armed m)(es_timer s := None)\<rparr>, [Pause cam]))"

definition Stop_events :: "event_manager \<Rightarrow> event_manager" where
  "Stop_events m =
     m\<lparr>em_sessions := Map.empty,
       em_armed := (\<lambda>t. if \<exists>cam \<in> dom (em_sessions m). es_timer (the (em_sessions m cam)) = t then None else em_armed m t)\<rparr>"

text \<open>The runtime fires a timer: its call joins the waiting ones, and one of these runs.\<close>

definition fire :: "nat \<Rightarrow> event_manager \<Rightarrow> event_manager" where
  "fire t m = (case em_armed m t of None \<Rightarrow> m
     | Some (at, cam) \<Rightarrow> m\<lparr>em_armed := (em_armed m)(t := None), em_due := cam # em_due m\<rparr>)"

definition run_due :: "string \<Rightarrow> event_manager \<Rightarrow> event_manager \<times> event_out list" where
  "run_due cam m = End cam (m\<lparr>em_due := remove1 cam (em_due m)\<rparr>)"

section \<open>Runs\<close>

datatype event_op =
    TriggerAt int string string
  | FireAt int nat
  | RunDue string
  | EndOp string
  | StopOp

definition event_step :: "event_op \<Rightarrow> event_manager \<Rightarrow> event_manager" where
  "event_step op m =
     (case op of TriggerAt now cam src \<Rightarrow> fst (Trigger now cam src m)
      | FireAt now t \<Rightarrow> fire t m
      | RunDue cam \<Rightarrow> fst (run_due cam m)
      | EndOp cam \<Rightarrow> fst (End cam m)
      | StopOp \<Rightarrow> Stop_events m)"

text \<open>A timer fires only when its time has come, and a waiting call is one that fired.\<close>

definition event_good :: "event_op \<Rightarrow> event_manager \<Rightarrow> bool" where
  "event_good op m =
     (case op of FireAt now t \<Rightarrow> (case em_armed m t of Some (at, cam) \<Rightarrow> at \<le> now | None \<Rightarrow> False)
      | RunDue cam \<Rightarrow> cam \<in> set (em_due m)
      | _ \<Rightarrow> True)"

text \<open>Every open window is no longer than allowed, and its end is armed, at its expiry or a
  millisecond after the trigger, or already waiting; every armed timer belongs to an open window.\<close>

definition event_inv :: "event_manager \<Rightarrow> bool" where
  "event_inv m \<longleftrightarrow>
     (\<forall>cam s. em_sessions m cam = Some s \<longrightarrow>
        cam \<noteq> [] \<and> es_expires s \<le> es_started s + em_max m \<and> es_timer s < em_fresh m
        \<and> ((\<exists>at. em_armed m (es_timer s) = Some (at, cam) \<and> es_expires s \<le> at) \<or> cam \<in> set (em_due m)))
     \<and> (\<forall>t at cam. em_armed m t = Some (at, cam) \<longrightarrow> (\<exists>s. em_sessions m cam = Some s \<and> es_timer s = t))
     \<and> (\<forall>cam cam' s s'. em_sessions m cam = Some s \<longrightarrow> em_sessions m cam' = Some s' \<longrightarrow>
          es_timer s = es_timer s' \<longrightarrow> cam = cam')"

lemma event_invI:
  assumes "\<And>cam s. em_sessions m cam = Some s \<Longrightarrow>
        cam \<noteq> [] \<and> es_expires s \<le> es_started s + em_max m \<and> es_timer s < em_fresh m
        \<and> ((\<exists>at. em_armed m (es_timer s) = Some (at, cam) \<and> es_expires s \<le> at) \<or> cam \<in> set (em_due m))"
    and "\<And>t at cam. em_armed m t = Some (at, cam) \<Longrightarrow> \<exists>s. em_sessions m cam = Some s \<and> es_timer s = t"
    and "\<And>cam cam' s s'. em_sessions m cam = Some s \<Longrightarrow> em_sessions m cam' = Some s' \<Longrightarrow>
      es_timer s = es_timer s' \<Longrightarrow> cam = cam'"
  shows "event_inv m"
  unfolding event_inv_def using assms by blast

lemma event_invD:
  assumes "event_inv m"
  shows "em_sessions m cam = Some s \<Longrightarrow>
        cam \<noteq> [] \<and> es_expires s \<le> es_started s + em_max m \<and> es_timer s < em_fresh m
        \<and> ((\<exists>at. em_armed m (es_timer s) = Some (at, cam) \<and> es_expires s \<le> at) \<or> cam \<in> set (em_due m))"
    and "em_armed m t = Some (at, cam) \<Longrightarrow> \<exists>s. em_sessions m cam = Some s \<and> es_timer s = t"
    and "em_sessions m cam = Some s \<Longrightarrow> em_sessions m cam' = Some s' \<Longrightarrow> es_timer s = es_timer s' \<Longrightarrow> cam = cam'"
  using assms unfolding event_inv_def by blast+

lemma Trigger_inv:
  assumes i: "event_inv m"
  shows "event_inv (fst (Trigger now cam src m))"
proof (cases "cam = [] \<or> \<not> em_mode m cam")
  case True
  then show ?thesis using i by (auto simp: Trigger_def)
next
  case False
  let ?m = "fst (Trigger now cam src m)"
  let ?started = "case em_sessions m cam of Some s \<Rightarrow> es_started s | None \<Rightarrow> now"
  let ?deadline = "min (now + em_post m) (?started + em_max m)"
  let ?at = "now + max (?deadline - now) ns_milli"
  have sess: "em_sessions ?m = (em_sessions m)(cam \<mapsto>
      \<lparr>es_source = src, es_started = ?started, es_expires = ?deadline, es_timer = em_fresh m\<rparr>)"
    and fresh: "em_fresh ?m = em_fresh m + 1" and due: "em_due ?m = em_due m" and mx: "em_max ?m = em_max m"
    using False by (simp_all add: Trigger_def Let_def)
  have armed: "em_armed ?m t = (if t = em_fresh m then Some (?at, cam)
      else if \<exists>s. em_sessions m cam = Some s \<and> es_timer s = t then None else em_armed m t)" for t
    using False by (auto simp: Trigger_def Let_def split: option.split)
  show ?thesis
  proof (rule event_invI)
    fix c s
    assume s: "em_sessions ?m c = Some s"
    show "c \<noteq> [] \<and> es_expires s \<le> es_started s + em_max ?m \<and> es_timer s < em_fresh ?m
        \<and> ((\<exists>at. em_armed ?m (es_timer s) = Some (at, c) \<and> es_expires s \<le> at) \<or> c \<in> set (em_due ?m))"
    proof (cases "c = cam")
      case True
      then show ?thesis using s False unfolding sess by (auto simp: fresh mx armed)
    next
      case c: False
      then have old: "em_sessions m c = Some s" using s by (simp add: sess)
      note o = event_invD(1)[OF i old]
      have "em_armed ?m (es_timer s) = Some (at, c)" if "em_armed m (es_timer s) = Some (at, c)" for at
        using that o c event_invD(3)[OF i old, of cam] by (auto simp: armed)
      then show ?thesis using o by (auto simp: fresh mx due)
    qed
  next
    fix t at c
    assume a: "em_armed ?m t = Some (at, c)"
    show "\<exists>s. em_sessions ?m c = Some s \<and> es_timer s = t"
    proof (cases "t = em_fresh m")
      case True
      then show ?thesis using a unfolding sess by (auto simp: armed)
    next
      case False
      then have old: "em_armed m t = Some (at, c)" and n: "\<not> (\<exists>s. em_sessions m cam = Some s \<and> es_timer s = t)"
        using a by (auto simp: armed split: if_splits)
      obtain s where "em_sessions m c = Some s" "es_timer s = t" using event_invD(2)[OF i old] by blast
      then show ?thesis using n by (cases "c = cam") (auto simp: sess)
    qed
  next
    have tm: "if c = cam then es_timer s = em_fresh m else em_sessions m c = Some s \<and> es_timer s < em_fresh m"
      if "em_sessions ?m c = Some s" for c s
    proof (cases "c = cam")
      case True
      then show ?thesis using that unfolding sess by auto
    next
      case False
      then have "em_sessions m c = Some s" using that unfolding sess by simp
      then show ?thesis using event_invD(1)[OF i] False by simp
    qed
    fix c c' s s'
    assume a: "em_sessions ?m c = Some s" "em_sessions ?m c' = Some s'" and e: "es_timer s = es_timer s'"
    have t: "if c = cam then es_timer s = em_fresh m else em_sessions m c = Some s \<and> es_timer s < em_fresh m"
      "if c' = cam then es_timer s' = em_fresh m else em_sessions m c' = Some s' \<and> es_timer s' < em_fresh m"
      by (rule tm[OF a(1)], rule tm[OF a(2)])
    show "c = c'"
    proof (cases "c = cam \<or> c' = cam")
      case True
      then show ?thesis using t e by (metis less_irrefl)
    next
      case False
      then have "em_sessions m c = Some s" "em_sessions m c' = Some s'" using t by simp_all
      then show ?thesis using e by (rule event_invD(3)[OF i])
    qed
  qed
qed

lemma End_inv: "event_inv m \<Longrightarrow> event_inv (fst (End cam m))"
proof (cases "em_sessions m cam")
  case None
  then show "event_inv m \<Longrightarrow> ?thesis" by (simp add: End_def)
next
  case (Some s)
  assume i: "event_inv m"
  have c: "cam \<noteq> []" using event_invD(1)[OF i Some] by simp
  show ?thesis
  proof (rule event_invI)
    fix c' s'
    assume "em_sessions (fst (End cam m)) c' = Some s'"
    then have old: "em_sessions m c' = Some s'" and ne: "c' \<noteq> cam" using Some c by (auto simp: End_def split: if_splits)
    have "es_timer s \<noteq> es_timer s'" using event_invD(3)[OF i Some old] ne by auto
    then show "c' \<noteq> [] \<and> es_expires s' \<le> es_started s' + em_max (fst (End cam m)) \<and> es_timer s' < em_fresh (fst (End cam m))
        \<and> ((\<exists>at. em_armed (fst (End cam m)) (es_timer s') = Some (at, c') \<and> es_expires s' \<le> at) \<or> c' \<in> set (em_due (fst (End cam m))))"
      using event_invD(1)[OF i old] Some c by (auto simp: End_def)
  next
    fix t at c'
    assume "em_armed (fst (End cam m)) t = Some (at, c')"
    then have "em_armed m t = Some (at, c')" "t \<noteq> es_timer s" using Some c by (auto simp: End_def split: if_splits)
    then show "\<exists>s. em_sessions (fst (End cam m)) c' = Some s \<and> es_timer s = t"
      using event_invD(2)[OF i, of t at c'] Some c by (auto simp: End_def)
  next
    fix c1 c2 s1 s2
    assume "em_sessions (fst (End cam m)) c1 = Some s1" "em_sessions (fst (End cam m)) c2 = Some s2" "es_timer s1 = es_timer s2"
    then show "c1 = c2"
      using event_invD(3)[OF i, of c1 s1 c2 s2] Some c by (auto simp: End_def split: if_splits)
  qed
qed

lemma fire_inv: "event_inv m \<Longrightarrow> event_inv (fire t m)"
proof (cases "em_armed m t")
  case (Some a)
  assume i: "event_inv m"
  obtain at cam where a: "a = (at, cam)" by (cases a)
  show ?thesis
  proof (rule event_invI)
    fix c s
    assume "em_sessions (fire t m) c = Some s"
    then have old: "em_sessions m c = Some s" by (simp add: fire_def Some a)
    show "c \<noteq> [] \<and> es_expires s \<le> es_started s + em_max (fire t m) \<and> es_timer s < em_fresh (fire t m)
        \<and> ((\<exists>at. em_armed (fire t m) (es_timer s) = Some (at, c) \<and> es_expires s \<le> at) \<or> c \<in> set (em_due (fire t m)))"
      using event_invD(1)[OF i old] Some by (auto simp: fire_def a)
  qed (use event_invD(2,3)[OF i] in \<open>auto simp: fire_def Some a split: if_splits\<close>)
qed (simp add: fire_def)

lemma run_due_inv: "event_inv m \<Longrightarrow> event_inv (fst (run_due cam m))"
proof -
  assume i: "event_inv m"
  let ?m = "m\<lparr>em_due := remove1 cam (em_due m)\<rparr>"
  have e: "fst (run_due cam m) = (fst (End cam m))\<lparr>em_due := remove1 cam (em_due m)\<rparr>"
    by (simp add: run_due_def End_def split: option.split)
  have j: "event_inv (fst (End cam m))" by (rule End_inv[OF i])
  have none: "cam = [] \<or> em_sessions (fst (End cam m)) cam = None" by (auto simp: End_def split: option.split)
  have d: "em_due (fst (End cam m)) = em_due m" by (simp add: End_def split: option.split)
  show ?thesis unfolding e
  proof (rule event_invI)
    fix c s
    assume "em_sessions ((fst (End cam m))\<lparr>em_due := remove1 cam (em_due m)\<rparr>) c = Some s"
    then have s: "em_sessions (fst (End cam m)) c = Some s" by simp
    have "c \<noteq> cam" using event_invD(1)[OF j s] none s by auto
    then show "c \<noteq> [] \<and> es_expires s \<le> es_started s + em_max ((fst (End cam m))\<lparr>em_due := remove1 cam (em_due m)\<rparr>)
        \<and> es_timer s < em_fresh ((fst (End cam m))\<lparr>em_due := remove1 cam (em_due m)\<rparr>)
        \<and> ((\<exists>at. em_armed ((fst (End cam m))\<lparr>em_due := remove1 cam (em_due m)\<rparr>) (es_timer s) = Some (at, c) \<and> es_expires s \<le> at)
          \<or> c \<in> set (em_due ((fst (End cam m))\<lparr>em_due := remove1 cam (em_due m)\<rparr>)))"
      using event_invD(1)[OF j s] by (simp add: d)
  qed (use event_invD(2,3)[OF j] in auto)
qed

lemma Stop_events_inv: "event_inv m \<Longrightarrow> event_inv (Stop_events m)"
  by (rule event_invI) (force simp: Stop_events_def dest: event_invD(2) split: if_splits)+

lemma event_step_inv: "event_inv m \<Longrightarrow> event_good op m \<Longrightarrow> event_inv (event_step op m)"
  by (cases op) (simp_all add: event_step_def Trigger_inv End_inv fire_inv run_due_inv Stop_events_inv)

interpretation events: inv_machine event_step event_good event_inv
  by unfold_locales (rule event_step_inv)

lemma NewEventManager_inv: "event_inv (NewEventManager post mx md)"
  by (rule event_invI) (simp_all add: NewEventManager_def)

lemma event_max [simp]: "em_max (event_step op m) = em_max m"
  by (cases op) (auto simp: event_step_def Trigger_def End_def fire_def run_due_def Stop_events_def Let_def split: option.split)

lemma event_run_max [simp]: "em_max (fold event_step ops m) = em_max m"
  by (induction ops arbitrary: m) simp_all

section \<open>Properties\<close>

text \<open>Event windows end: in any run of triggers, timers and calls of \<open>End\<close> and \<open>Stop\<close>, in any
  interleaving, a window that is open runs for at most the maximal duration from its first trigger,
  and its end is under way, by a timer armed for its expiry or later or by a call that fired.\<close>

theorem event_windows_end:
  assumes "events.good_run ops (NewEventManager post mx md)"
    and "m = fold event_step ops (NewEventManager post mx md)" and "em_sessions m cam = Some s"
  shows "es_expires s - es_started s \<le> em_max (NewEventManager post mx md)
    \<and> ((\<exists>at. em_armed m (es_timer s) = Some (at, cam) \<and> es_expires s \<le> at) \<or> cam \<in> set (em_due m))"
proof -
  have i: "event_inv m" unfolding assms(2) by (rule events.run_inv[OF NewEventManager_inv assms(1)])
  have "em_max m = em_max (NewEventManager post mx md)" by (simp add: assms(2))
  then show ?thesis using event_invD(1)[OF i assms(3)] by auto
qed

definition demo_triggers :: "event_op list" where
  "demo_triggers = [TriggerAt 0 ''c'' ''mqtt'', TriggerAt (20 * ns_second) ''c'' ''onvif'']"

theorem event_windows_witness:
  "em_sessions (fold event_step demo_triggers (NewEventManager (30 * ns_second) (40 * ns_second) (\<lambda>_. True))) ''c''
     = Some \<lparr>es_source = ''onvif'', es_started = 0, es_expires = 40 * ns_second, es_timer = 1\<rparr>
   \<and> (\<exists>at. em_armed (fold event_step demo_triggers (NewEventManager (30 * ns_second) (40 * ns_second) (\<lambda>_. True))) 1
        = Some (at, ''c'') \<and> 40 * ns_second \<le> at)"
proof -
  let ?init = "NewEventManager (30 * ns_second) (40 * ns_second) (\<lambda>_. True)" and ?m = "fold event_step demo_triggers (NewEventManager (30 * ns_second) (40 * ns_second) (\<lambda>_. True))"
  have s: "em_sessions ?m ''c'' = Some \<lparr>es_source = ''onvif'', es_started = 0, es_expires = 40 * ns_second, es_timer = 1\<rparr>"
    by (simp add: demo_triggers_def event_step_def Trigger_def NewEventManager_def ns_second_def ns_milli_def Let_def)
  have d: "em_due ?m = []"
    by (simp add: demo_triggers_def event_step_def Trigger_def NewEventManager_def Let_def)
  have g: "events.good_run demo_triggers ?init" by (simp add: demo_triggers_def event_good_def)
  show ?thesis using event_windows_end[OF g refl s] s d by simp
qed

text \<open>A trigger can be lost: a timeout that has fired but waits for the mutex while a new trigger
  extends the window ends the extended window all the same, and pauses the recording although the
  event has just happened; before the call ran the camera counted as active until the new expiry.\<close>

theorem event_extension_lost:
  assumes "0 < post" and "2 * post \<le> mx" and "ns_milli \<le> post" and "cam \<noteq> []" and "md cam"
  shows "let ops = [TriggerAt 0 cam a, FireAt post 0, TriggerAt post cam b];
             m = fold event_step ops (NewEventManager post mx md)
         in events.good_run (ops @ [RunDue cam]) (NewEventManager post mx md)
            \<and> IsActive (2 * post - 1) cam m
            \<and> \<not> IsActive (post + 1) cam (fst (run_due cam m)) \<and> snd (run_due cam m) = [Pause cam]"
  using assms
  by (simp add: event_step_def event_good_def Trigger_def fire_def run_due_def End_def IsActive_def
      NewEventManager_def Let_def max_def min_def)

theorem event_extension_witness:
  "\<not> IsActive (30 * ns_second + 1) ''c'' (fst (run_due ''c'' (fold event_step
      [TriggerAt 0 ''c'' ''mqtt'', FireAt (30 * ns_second) 0, TriggerAt (30 * ns_second) ''c'' ''mqtt'']
      (NewEventManager (30 * ns_second) (300 * ns_second) (\<lambda>_. True)))))"
  using event_extension_lost[of "30 * ns_second" "300 * ns_second" "''c''" "\<lambda>_. True" "''mqtt''" "''mqtt''"]
  by (simp add: ns_second_def ns_milli_def Let_def)

end
