(* ===== verification/Civil_Codes.thy ===== *)
theory Civil_Codes
  imports Go_Strings
begin

text \<open>
  The table of administrative divisions, \<open>internal/civilcode/civilcode.go\<close>.  The embedded file
  \<open>civilCode.csv\<close> is data: it is the argument of \<open>load\<close>.  The walk up the parents may in principle
  run for ever, so it is a partial function whose value is None where the loop does not return.
\<close>

section \<open>The table\<close>

record civil_code =
  cc_code :: string
  cc_name :: string
  cc_parent :: string

type_synonym civil_table = "string \<rightharpoonup> civil_code"

text \<open>The lines of \<open>bufio.Scanner\<close>: cut at newlines, one carriage return before it dropped, and no
  empty line after the last newline.\<close>

definition drop_cr :: "string \<Rightarrow> string" where
  "drop_cr l = (if l \<noteq> [] \<and> last l = CHR 0x0D then butlast l else l)"

definition scan_lines :: "string \<Rightarrow> string list" where
  "scan_lines s = map drop_cr (let ls = split_on (CHR 0x0A) s in if last ls = [] then butlast ls else ls)"

definition parse_line :: "string \<Rightarrow> civil_code option" where
  "parse_line line =
     (if trim_space line = [] then None
      else case split_on (CHR '','') line of
        p0 # p1 # ps \<Rightarrow>
          let code = trim_space p0 in
          if code = [] then None
          else Some \<lparr>cc_code = code, cc_name = trim_space p1,
                     cc_parent = (case ps of [] \<Rightarrow> [] | p2 # _ \<Rightarrow> trim_space p2)\<rparr>
      | _ \<Rightarrow> None)"

fun load_lines :: "string list \<Rightarrow> civil_table \<Rightarrow> civil_table" where
  "load_lines [] tbl = tbl"
| "load_lines (l # ls) tbl =
     load_lines ls (case parse_line l of None \<Rightarrow> tbl | Some c \<Rightarrow> tbl(cc_code c \<mapsto> c))"

text \<open>The first line is the header.\<close>

definition load :: "string \<Rightarrow> civil_table" where
  "load csv = load_lines (drop 1 (scan_lines csv)) Map.empty"

section \<open>Queries\<close>

definition Get :: "civil_table \<Rightarrow> string \<Rightarrow> civil_code option" where
  "Get tbl code = tbl code"

definition parentByLength :: "string \<Rightarrow> string" where
  "parentByLength code =
     (if length code \<ge> 8 then take 6 code
      else if length code \<ge> 6 then take 4 code
      else if length code \<ge> 4 then take 2 code
      else [])"

definition Parent :: "civil_table \<Rightarrow> string \<Rightarrow> civil_code option" where
  "Parent tbl code =
     (case (case tbl code of None \<Rightarrow> None
            | Some c \<Rightarrow> if cc_parent c \<noteq> [] then tbl (cc_parent c) else None) of
        Some p \<Rightarrow> Some p
      | None \<Rightarrow> let pc = parentByLength code in if pc = [] then None else tbl pc)"

partial_function (option) AllParents :: "civil_table \<Rightarrow> string \<Rightarrow> civil_code list option" where
  "AllParents tbl code =
     (case Parent tbl code of
        None \<Rightarrow> Some []
      | Some p \<Rightarrow> Option.bind (AllParents tbl (cc_code p)) (\<lambda>chain. Some (p # chain)))"

text \<open>\<open>codes\<close> is the order in which Go iterates over the table.\<close>

definition Children :: "civil_table \<Rightarrow> string list \<Rightarrow> string \<Rightarrow> civil_code list" where
  "Children tbl codes parent = filter (\<lambda>c. cc_parent c = parent) (List.map_filter tbl codes)"

fun join_slash :: "string list \<Rightarrow> string" where
  "join_slash [] = []"
| "join_slash [p] = p"
| "join_slash (p # q # ps) = p @ ''/'' @ join_slash (q # ps)"

definition Description :: "civil_table \<Rightarrow> string \<Rightarrow> string option" where
  "Description tbl code =
     (case tbl code of None \<Rightarrow> Some []
      | Some c \<Rightarrow> map_option (\<lambda>ps. join_slash (fold (\<lambda>p parts. cc_name p # parts) ps [cc_name c])) (AllParents tbl code))"

section \<open>Tables whose parents are shorter\<close>

text \<open>Checked on the lines of a file: no record names a parent that is not shorter than itself.\<close>

definition line_ok :: "string \<Rightarrow> bool" where
  "line_ok l = (case parse_line l of None \<Rightarrow> True | Some c \<Rightarrow> cc_parent c = [] \<or> length (cc_parent c) < length (cc_code c))"

definition csv_ok :: "string \<Rightarrow> bool" where
  "csv_ok csv = list_all line_ok (drop 1 (scan_lines csv))"

definition table_ok :: "civil_table \<Rightarrow> bool" where
  "table_ok tbl \<longleftrightarrow> (\<forall>code c. tbl code = Some c \<longrightarrow>
     cc_code c = code \<and> code \<noteq> [] \<and> (cc_parent c = [] \<or> length (cc_parent c) < length code))"

lemma parse_line_code: "parse_line l = Some c \<Longrightarrow> cc_code c \<noteq> []"
  by (auto simp: parse_line_def Let_def split: if_splits list.splits)

lemma load_lines_ok: "table_ok tbl \<Longrightarrow> list_all line_ok ls \<Longrightarrow> table_ok (load_lines ls tbl)"
proof (induction ls arbitrary: tbl)
  case Nil
  then show ?case by simp
next
  case (Cons l ls)
  have "table_ok (case parse_line l of None \<Rightarrow> tbl | Some c \<Rightarrow> tbl(cc_code c \<mapsto> c))"
    using Cons.prems parse_line_code[of l] by (auto simp: table_ok_def line_ok_def split: option.splits)
  then show ?case using Cons by simp
qed

lemma load_ok: "csv_ok csv \<Longrightarrow> table_ok (load csv)"
  unfolding load_def csv_ok_def by (rule load_lines_ok) (simp add: table_ok_def)

lemma parentByLength_shorter: "parentByLength code \<noteq> [] \<Longrightarrow> length (parentByLength code) < length code"
  by (auto simp: parentByLength_def split: if_splits)

lemma Parent_shorter:
  assumes "table_ok tbl" and "Parent tbl code = Some p"
  shows "length (cc_code p) < length code \<and> tbl (cc_code p) = Some p"
proof -
  have *: "cc_code p = k \<and> k \<noteq> []" if "tbl k = Some p" for k using assms(1) that by (auto simp: table_ok_def)
  consider c where "tbl code = Some c" "cc_parent c \<noteq> []" "tbl (cc_parent c) = Some p"
    | "parentByLength code \<noteq> []" "tbl (parentByLength code) = Some p"
    using assms(2) by (auto simp: Parent_def Let_def split: option.splits if_splits)
  then show ?thesis
  proof cases
    case 1
    then have "length (cc_parent c) < length code" using assms(1) by (auto simp: table_ok_def)
    then show ?thesis using 1 *[of "cc_parent c"] by simp
  next
    case 2
    then show ?thesis using parentByLength_shorter[of code] *[of "parentByLength code"] by simp
  qed
qed

text \<open>The records of a file, and the check that each names the parent that is found for it.\<close>

definition csv_records :: "string \<Rightarrow> civil_code list" where
  "csv_records csv = List.map_filter parse_line (drop 1 (scan_lines csv))"

definition csv_named :: "string \<Rightarrow> bool" where
  "csv_named csv = list_all (\<lambda>c. case Parent (load csv) (cc_code c) of None \<Rightarrow> True | Some p \<Rightarrow> cc_parent c = cc_code p)
     (csv_records csv)"

lemma load_lines_range: "load_lines ls tbl code = Some c \<Longrightarrow> c \<in> set (List.map_filter parse_line ls) \<or> tbl code = Some c"
proof (induction ls arbitrary: tbl)
  case (Cons l ls)
  then show ?case
    by (cases "parse_line l") (force simp: map_filter_simps split: if_splits)+
qed simp

lemma load_records: "load csv code = Some c \<Longrightarrow> c \<in> set (csv_records csv)"
  using load_lines_range unfolding load_def csv_records_def by fastforce

text \<open>A chain of parents, from the nearest to one that has none.\<close>

fun parent_chain :: "civil_table \<Rightarrow> string \<Rightarrow> civil_code list \<Rightarrow> bool" where
  "parent_chain tbl code [] = (Parent tbl code = None)"
| "parent_chain tbl code (p # ps) = (Parent tbl code = Some p \<and> parent_chain tbl (cc_code p) ps)"

lemma AllParents_chain: "parent_chain tbl code ps \<Longrightarrow> AllParents tbl code = Some ps"
  by (induction ps arbitrary: code) (subst AllParents.simps, simp)+

lemma AllParents_returns: "table_ok tbl \<Longrightarrow> \<exists>ps. parent_chain tbl code ps \<and> length ps \<le> length code
   \<and> (\<forall>p \<in> set ps. length (cc_code p) < length code \<and> tbl (cc_code p) = Some p)"
proof (induction "length code" arbitrary: code rule: less_induct)
  case less
  show ?case
  proof (cases "Parent tbl code")
    case None
    then show ?thesis by (intro exI[of _ "[]"]) simp
  next
    case (Some p)
    have s: "length (cc_code p) < length code" "tbl (cc_code p) = Some p" using Parent_shorter[OF less.prems Some] by auto
    obtain ps where ps: "parent_chain tbl (cc_code p) ps" "length ps \<le> length (cc_code p)"
      "\<forall>q \<in> set ps. length (cc_code q) < length (cc_code p) \<and> tbl (cc_code q) = Some q"
      using less.hyps[OF s(1) less.prems] by blast
    then have "parent_chain tbl code (p # ps) \<and> length (p # ps) \<le> length code
      \<and> (\<forall>q \<in> set (p # ps). length (cc_code q) < length code \<and> tbl (cc_code q) = Some q)"
      using Some s by auto
    then show ?thesis by blast
  qed
qed

section \<open>Properties\<close>

text \<open>The walk up the parents ends: for a file in which no record names a parent as long as itself
  (the embedded one is such a file) \<open>AllParents\<close> returns for every code, known or not, after at most
  as many rounds as the code has characters, with the chain of parents, each a record of the table.\<close>

theorem all_parents_returns:
  assumes "csv_ok csv"
  shows "\<exists>ps. AllParents (load csv) code = Some ps \<and> parent_chain (load csv) code ps
    \<and> length ps \<le> length code \<and> (\<forall>p \<in> set ps. load csv (cc_code p) = Some p)"
  using AllParents_returns[OF load_ok[OF assms], of code] AllParents_chain by blast

definition demo_csv :: string where
  "demo_csv = ''code,name,up'' @ [CHR 0x0A] @ ''44,Guangdong,'' @ [CHR 0x0D, CHR 0x0A] @ ''4401,Guangzhou,44'' @ [CHR 0x0A]
     @ ''440106,Tianhe,4401'' @ [CHR 0x0A]"

theorem all_parents_witness:
  "csv_ok demo_csv \<and> (\<exists>ps. AllParents (load demo_csv) ''44010600'' = Some ps
     \<and> parent_chain (load demo_csv) ''44010600'' ps)"
proof -
  have "csv_ok demo_csv" by code_simp
  then show ?thesis using all_parents_returns[of demo_csv "''44010600''"] by blast
qed

text \<open>A table with a record that is its own parent would make the loop run for ever.\<close>

lemma AllParents_Some: "AllParents tbl code = Some ps \<Longrightarrow> parent_chain tbl code ps"
proof (rule AllParents.raw_induct[where P = parent_chain], goal_cases)
  case (1 allp tbl code ps)
  then show ?case by (cases "Parent tbl code") (auto split: bind_splits)
qed

lemma self_parent_loops:
  assumes "Parent tbl code = Some p" and "cc_code p = code"
  shows "AllParents tbl code = None"
proof -
  have "\<not> parent_chain tbl code ps" for ps using assms by (induction ps) auto
  then show ?thesis using AllParents_Some[of tbl code] by (cases "AllParents tbl code") blast+
qed

end
