(* ===== verification/Gb_Regions.thy ===== *)
theory Gb_Regions
  imports Civil_Codes "HOL-Library.AList" "HOL-Library.List_Lexorder" "HOL-Library.Char_ord" "HOL-Library.Product_Lexorder"
begin

text \<open>
  The tree of administrative regions, \<open>internal/storage/db_gb_region.go\<close>: nodes that name their parent
  by its code and by its row, the creation of missing nodes with all their parents, and the
  deletion of a node with what hangs below it (\<open>handleGBRegionDelete\<close> of
  \<open>internal/api/handlers_gb_region.go\<close>).  The SQL table is a list of rows with the counter of
  \<open>AUTOINCREMENT\<close>; a statement on it is the function its text describes.  Only the statements that
  violate the unique code fail.
\<close>

section \<open>The table\<close>

record region =
  rg_id :: nat
  rg_device :: string
  rg_name :: string
  rg_parent_device :: string
  rg_parent :: nat

record region_db =
  rd_rows :: "region list"
  rd_next :: nat

definition empty_regions :: region_db where
  "empty_regions = \<lparr>rd_rows = [], rd_next = 1\<rparr>"

definition GetGBRegion :: "nat \<Rightarrow> region_db \<Rightarrow> region option" where
  "GetGBRegion i db = List.find (\<lambda>r. rg_id r = i) (rd_rows db)"

definition GetGBRegionByDeviceID :: "string \<Rightarrow> region_db \<Rightarrow> region option" where
  "GetGBRegionByDeviceID dev db = List.find (\<lambda>r. rg_device r = dev) (rd_rows db)"

definition ListGBRegionsByParent :: "nat \<Rightarrow> region_db \<Rightarrow> region list" where
  "ListGBRegionsByParent i db = sort_key rg_device (filter (\<lambda>r. rg_parent r = i) (rd_rows db))"

text \<open>The three statements of \<open>CreateGBRegion\<close>: look the parent up, insert, adopt the waiting children.\<close>

definition CreateGBRegion :: "string \<Rightarrow> string \<Rightarrow> string \<Rightarrow> nat \<Rightarrow> region_db \<Rightarrow> region_db option" where
  "CreateGBRegion dev name pdev pid db =
     (let pid = (if pdev \<noteq> [] \<and> pid = 0
                 then (case GetGBRegionByDeviceID pdev db of Some p \<Rightarrow> rg_id p | None \<Rightarrow> 0) else pid);
          i = rd_next db
      in if GetGBRegionByDeviceID dev db \<noteq> None then None
         else Some \<lparr>rd_rows = map (\<lambda>r. if rg_parent_device r = dev \<and> rg_parent r = 0 then r\<lparr>rg_parent := i\<rparr> else r)
                     (rd_rows db @ [\<lparr>rg_id = i, rg_device = dev, rg_name = name, rg_parent_device = pdev, rg_parent = pid\<rparr>]),
                   rd_next = i + 1\<rparr>)"

text \<open>The recursion of \<open>GetGBRegionDescendants\<close> with a bound on its depth; None is a call that is
  still running.\<close>

fun concat_all :: "'a list option list \<Rightarrow> 'a list option" where
  "concat_all [] = Some []"
| "concat_all (None # xs) = None"
| "concat_all (Some x # xs) = map_option (\<lambda>y. x @ y) (concat_all xs)"

fun GetGBRegionDescendants :: "nat \<Rightarrow> region_db \<Rightarrow> nat \<Rightarrow> region list option" where
  "GetGBRegionDescendants 0 db i = None"
| "GetGBRegionDescendants (Suc n) db i =
     concat_all (map (\<lambda>c. map_option (\<lambda>sub. c # sub) (GetGBRegionDescendants n db (rg_id c))) (ListGBRegionsByParent i db))"

definition DeleteGBRegions :: "nat list \<Rightarrow> region_db \<Rightarrow> region_db" where
  "DeleteGBRegions ids db = db\<lparr>rd_rows := filter (\<lambda>r. rg_id r \<notin> set ids) (rd_rows db)\<rparr>"

definition handleGBRegionDelete :: "nat \<Rightarrow> nat \<Rightarrow> region_db \<Rightarrow> region_db option" where
  "handleGBRegionDelete fuel i db =
     (case GetGBRegion i db of None \<Rightarrow> Some db
      | Some r \<Rightarrow> map_option (\<lambda>ds. DeleteGBRegions (rg_id r # map rg_id ds) db) (GetGBRegionDescendants fuel db i))"

definition handleGBRegionCreate :: "string \<Rightarrow> string \<Rightarrow> string \<Rightarrow> region_db \<Rightarrow> region_db" where
  "handleGBRegionCreate dev name pdev db =
     (if dev = [] \<or> name = [] then db
      else if GetGBRegionByDeviceID dev db \<noteq> None then db
      else case CreateGBRegion dev name pdev 0 db of None \<Rightarrow> db | Some db' \<Rightarrow> db')"

section \<open>Missing regions\<close>

definition trim_right_blank :: "string \<Rightarrow> string" where
  "trim_right_blank s = rev (dropWhile (\<lambda>c. c = CHR '' '') (rev s))"

definition parentCivilCode :: "string \<Rightarrow> string" where
  "parentCivilCode code = parentByLength (trim_right_blank code)"

definition own_record :: "civil_table \<Rightarrow> string \<Rightarrow> civil_code" where
  "own_record tbl code =
     (case Get tbl code of Some c \<Rightarrow> c
      | None \<Rightarrow> \<lparr>cc_code = code, cc_name = code, cc_parent = parentCivilCode code\<rparr>)"

fun needed :: "civil_table \<Rightarrow> string list \<Rightarrow> (string \<times> civil_code) list \<Rightarrow> (string \<times> civil_code) list option" where
  "needed tbl [] m = Some m"
| "needed tbl (code # codes) m =
     (if code = [] then needed tbl codes m
      else case AllParents tbl code of
        None \<Rightarrow> None
      | Some ps \<Rightarrow> needed tbl codes (fold (\<lambda>p m. AList.update (cc_code p) p m) ps (AList.update code (own_record tbl code) m)))"

definition by_length :: "civil_code list \<Rightarrow> civil_code list" where
  "by_length cs = sort_key (\<lambda>c. (length (cc_code c), cc_code c)) cs"

fun create_missing :: "civil_code list \<Rightarrow> nat \<Rightarrow> region_db \<Rightarrow> region_db \<times> nat" where
  "create_missing [] n db = (db, n)"
| "create_missing (c # cs) n db =
     (if GetGBRegionByDeviceID (cc_code c) db \<noteq> None then create_missing cs n db
      else case CreateGBRegion (cc_code c) (if cc_name c = [] then cc_code c else cc_name c) (cc_parent c) 0 db of
        None \<Rightarrow> (db, n)
      | Some db' \<Rightarrow> create_missing cs (n + 1) db')"

definition ensureRegions :: "civil_table \<Rightarrow> string list \<Rightarrow> region_db \<Rightarrow> (region_db \<times> nat) option" where
  "ensureRegions tbl codes db =
     (if codes = [] then Some (db, 0)
      else map_option (\<lambda>m. create_missing (by_length (map snd m)) 0 db) (needed tbl codes []))"

definition AddRegionByCivilCode :: "civil_table \<Rightarrow> string \<Rightarrow> region_db \<Rightarrow> (region_db \<times> nat) option" where
  "AddRegionByCivilCode tbl code db = (if code = [] then Some (db, 0) else ensureRegions tbl [code] db)"

section \<open>Invariant\<close>

definition devices :: "region_db \<Rightarrow> string set" where
  "devices db = rg_device ` set (rd_rows db)"

definition link_of :: "region_db \<Rightarrow> string \<Rightarrow> nat" where
  "link_of db pdev =
     (if pdev = [] then 0 else case GetGBRegionByDeviceID pdev db of Some p \<Rightarrow> rg_id p | None \<Rightarrow> 0)"

text \<open>Codes and rows are unique, and the two ways a node names its parent agree.\<close>

definition db_ok :: "region_db \<Rightarrow> bool" where
  "db_ok db \<longleftrightarrow>
     0 < rd_next db \<and> distinct (map rg_device (rd_rows db)) \<and> distinct (map rg_id (rd_rows db))
     \<and> (\<forall>r \<in> set (rd_rows db). 0 < rg_id r \<and> rg_id r < rd_next db \<and> rg_device r \<noteq> []
          \<and> rg_parent r = link_of db (rg_parent_device r))"

lemma Get_device_Some:
  assumes "GetGBRegionByDeviceID dev db = Some r"
  shows "r \<in> set (rd_rows db) \<and> rg_device r = dev"
  using assms by (auto simp: GetGBRegionByDeviceID_def find_Some_iff)

lemma Get_device_None: "GetGBRegionByDeviceID dev db = None \<longleftrightarrow> dev \<notin> devices db"
  by (auto simp: GetGBRegionByDeviceID_def find_None_iff devices_def)

lemma Get_device_row:
  assumes "db_ok db" and "r \<in> set (rd_rows db)"
  shows "GetGBRegionByDeviceID (rg_device r) db = Some r"
proof -
  obtain r' where r': "GetGBRegionByDeviceID (rg_device r) db = Some r'"
    using Get_device_None[of "rg_device r" db] assms(2) by (auto simp: devices_def)
  then have "r' = r" using Get_device_Some[OF r'] assms
    by (auto simp: db_ok_def distinct_map dest: inj_onD)
  then show ?thesis using r' by simp
qed

lemma Get_row:
  assumes "db_ok db" and "r \<in> set (rd_rows db)"
  shows "GetGBRegion (rg_id r) db = Some r"
proof -
  have "GetGBRegion (rg_id r) db \<noteq> None" using assms(2) by (auto simp: GetGBRegion_def find_None_iff)
  then obtain r' where r': "GetGBRegion (rg_id r) db = Some r'" by auto
  then have "r' \<in> set (rd_rows db)" "rg_id r' = rg_id r" by (auto simp: GetGBRegion_def find_Some_iff)
  then have "r' = r" using assms by (auto simp: db_ok_def distinct_map dest: inj_onD)
  then show ?thesis using r' by simp
qed

lemma link_of_row: "db_ok db \<Longrightarrow> p \<in> set (rd_rows db) \<Longrightarrow> link_of db (rg_device p) = rg_id p"
  by (simp add: link_of_def Get_device_row) (auto simp: db_ok_def)

text \<open>A child is linked to the row of the code it names.\<close>

lemma link_parent:
  assumes "db_ok db" and "r \<in> set (rd_rows db)" and "p \<in> set (rd_rows db)"
  shows "rg_parent r = rg_id p \<longleftrightarrow> rg_parent_device r = rg_device p"
proof
  assume "rg_parent r = rg_id p"
  then have l: "link_of db (rg_parent_device r) = rg_id p" and pos: "0 < rg_id p"
    using assms by (auto simp: db_ok_def)
  then obtain p' where p': "GetGBRegionByDeviceID (rg_parent_device r) db = Some p'" "rg_id p' = rg_id p"
    by (auto simp: link_of_def split: if_splits option.splits)
  then have "p' = p" using Get_device_Some[OF p'(1)] assms by (auto simp: db_ok_def distinct_map dest: inj_onD)
  then show "rg_parent_device r = rg_device p" using Get_device_Some[OF p'(1)] by simp
next
  assume "rg_parent_device r = rg_device p"
  then show "rg_parent r = rg_id p" using link_of_row[OF assms(1,3)] assms by (auto simp: db_ok_def)
qed

lemma empty_regions_ok: "db_ok empty_regions"
  by (simp add: db_ok_def empty_regions_def)

section \<open>Creating\<close>

definition adopt :: "string \<Rightarrow> nat \<Rightarrow> region \<Rightarrow> region" where
  "adopt dev i r = (if rg_parent_device r = dev \<and> rg_parent r = 0 then r\<lparr>rg_parent := i\<rparr> else r)"

lemma adopt_fields [simp]:
  "rg_id (adopt dev i r) = rg_id r" "rg_device (adopt dev i r) = rg_device r"
  "rg_parent_device (adopt dev i r) = rg_parent_device r"
  by (simp_all add: adopt_def)

lemma CreateGBRegion_rows:
  assumes "dev \<notin> devices db"
  shows "\<exists>new. CreateGBRegion dev name pdev 0 db =
      Some \<lparr>rd_rows = map (adopt dev (rd_next db)) (rd_rows db @ [new]), rd_next = rd_next db + 1\<rparr>
    \<and> rg_id new = rd_next db \<and> rg_device new = dev \<and> rg_parent_device new = pdev \<and> rg_parent new = link_of db pdev"
proof -
  let ?new = "\<lparr>rg_id = rd_next db, rg_device = dev, rg_name = name, rg_parent_device = pdev, rg_parent = link_of db pdev\<rparr>"
  have "CreateGBRegion dev name pdev 0 db =
      Some \<lparr>rd_rows = map (adopt dev (rd_next db)) (rd_rows db @ [?new]), rd_next = rd_next db + 1\<rparr>"
    using assms by (auto simp: CreateGBRegion_def Let_def Get_device_None link_of_def adopt_def)
  then show ?thesis by (intro exI[of _ ?new]) simp
qed

lemma link_of_create:
  assumes "db_ok db" and "dev \<notin> devices db" and "dev \<noteq> []" and "rg_device new = dev" and "rg_id new = i"
    and "rd_rows db' = map (adopt dev i) (rd_rows db @ [new])"
  shows "link_of db' pdev = (if pdev = dev then i else link_of db pdev)"
proof -
  have f: "List.find (\<lambda>r. rg_device r = d) (map (adopt dev i) xs) = map_option (adopt dev i) (List.find (\<lambda>r. rg_device r = d) xs)"
    for d xs by (induction xs) simp_all
  have a: "List.find P (xs @ ys) = (case List.find P xs of None \<Rightarrow> List.find P ys | Some x \<Rightarrow> Some x)"
    for P :: "region \<Rightarrow> bool" and xs ys by (induction xs) simp_all
  have n: "GetGBRegionByDeviceID dev db = None" using assms(2) by (simp add: Get_device_None)
  show ?thesis
    using n assms(3-5) by (auto simp: link_of_def GetGBRegionByDeviceID_def assms(6) f a split: option.splits)
qed

lemma CreateGBRegion_ok:
  assumes i: "db_ok db" and d: "dev \<notin> devices db" and "dev \<noteq> []" and c: "CreateGBRegion dev name pdev 0 db = Some db'"
  shows "db_ok db'" and "devices db' = insert dev (devices db)"
    and "\<forall>r \<in> set (rd_rows db'). (rg_device r = dev \<and> rg_parent_device r = pdev) \<or>
      (\<exists>r0 \<in> set (rd_rows db). rg_device r = rg_device r0 \<and> rg_parent_device r = rg_parent_device r0)"
proof -
  obtain new where new: "rg_id new = rd_next db" "rg_device new = dev" "rg_parent_device new = pdev" "rg_parent new = link_of db pdev"
    and db': "rd_rows db' = map (adopt dev (rd_next db)) (rd_rows db @ [new])" "rd_next db' = rd_next db + 1"
    using CreateGBRegion_rows[OF d, of name pdev] c by auto
  note l = link_of_create[OF i d assms(3) new(2) new(1) db'(1)]
  have z: "link_of db dev = 0" using d Get_device_None[of dev db] by (simp add: link_of_def)
  have par: "rg_parent (adopt dev (rd_next db) r) = link_of db' (rg_parent_device r)"
    if "rg_parent r = link_of db (rg_parent_device r)" for r
    using that z by (simp add: adopt_def l)
  show "devices db' = insert dev (devices db)"
    by (simp add: devices_def db'(1) new image_image)
  show "\<forall>r \<in> set (rd_rows db'). (rg_device r = dev \<and> rg_parent_device r = pdev) \<or>
      (\<exists>r0 \<in> set (rd_rows db). rg_device r = rg_device r0 \<and> rg_parent_device r = rg_parent_device r0)"
    by (auto simp: db'(1) new)
  have m: "map rg_device (rd_rows db') = map rg_device (rd_rows db) @ [dev]" "map rg_id (rd_rows db') = map rg_id (rd_rows db) @ [rd_next db]"
    by (simp_all add: db'(1) new comp_def)
  show "db_ok db'"
    unfolding db_ok_def m
  proof (intro conjI ballI)
    show "distinct (map rg_device (rd_rows db) @ [dev])" using i d by (auto simp: db_ok_def devices_def)
    show "distinct (map rg_id (rd_rows db) @ [rd_next db])" using i by (auto simp: db_ok_def)
    fix r assume "r \<in> set (rd_rows db')"
    then obtain r0 where r0: "r0 = new \<or> r0 \<in> set (rd_rows db)" "r = adopt dev (rd_next db) r0" by (auto simp: db'(1))
    show "rg_parent r = link_of db' (rg_parent_device r)"
      using r0 par[of r0] new i by (auto simp: db_ok_def)
    show "rg_id r < rd_next db'" "rg_device r \<noteq> []" "0 < rg_id r" using r0 new i db'(2) assms(3) by (auto simp: db_ok_def)
  qed (use db'(2) in simp)
qed

text \<open>A row of the new table is one of the old ones, as far as codes go, or one of the records.\<close>

definition from_records :: "region_db \<Rightarrow> civil_code list \<Rightarrow> region_db \<Rightarrow> bool" where
  "from_records db cs db' \<longleftrightarrow>
     (\<forall>r \<in> set (rd_rows db'). (\<exists>c \<in> set cs. rg_device r = cc_code c \<and> rg_parent_device r = cc_parent c) \<or>
        (\<exists>r0 \<in> set (rd_rows db). rg_device r = rg_device r0 \<and> rg_parent_device r = rg_parent_device r0))"

lemma create_missing_ok:
  assumes "db_ok db" and "\<forall>c \<in> set cs. cc_code c \<noteq> []"
  shows "db_ok (fst (create_missing cs n db))
    \<and> devices (fst (create_missing cs n db)) = devices db \<union> cc_code ` set cs
    \<and> from_records db cs (fst (create_missing cs n db))"
  using assms
proof (induction cs arbitrary: n db)
  case Nil
  then show ?case by (auto simp: from_records_def)
next
  case (Cons c cs)
  show ?case
  proof (cases "GetGBRegionByDeviceID (cc_code c) db")
    case (Some r)
    then have "cc_code c \<in> devices db" using Get_device_None[of "cc_code c" db] by auto
    then show ?thesis using Cons Some by (auto simp: from_records_def)
  next
    case None
    then have d: "cc_code c \<notin> devices db" by (simp add: Get_device_None)
    obtain db' where c: "CreateGBRegion (cc_code c) (if cc_name c = [] then cc_code c else cc_name c) (cc_parent c) 0 db = Some db'"
      using CreateGBRegion_rows[OF d] by blast
    have ne: "cc_code c \<noteq> []" using Cons.prems(2) by simp
    note new = CreateGBRegion_ok[OF Cons.prems(1) d ne c]
    have p: "\<forall>c \<in> set cs. cc_code c \<noteq> []" using Cons.prems(2) by simp
    note IH = Cons.IH[OF new(1) p, of "n + 1"]
    have e: "create_missing (c # cs) n db = create_missing cs (n + 1) db'" using None c by simp
    have "from_records db (c # cs) (fst (create_missing cs (n + 1) db'))"
      unfolding from_records_def
    proof
      fix r assume "r \<in> set (rd_rows (fst (create_missing cs (n + 1) db')))"
      then consider "\<exists>c \<in> set cs. rg_device r = cc_code c \<and> rg_parent_device r = cc_parent c"
        | r0 where "r0 \<in> set (rd_rows db')" "rg_device r = rg_device r0" "rg_parent_device r = rg_parent_device r0"
        using IH unfolding from_records_def by blast
      then show "(\<exists>c \<in> set (c # cs). rg_device r = cc_code c \<and> rg_parent_device r = cc_parent c) \<or>
          (\<exists>r0 \<in> set (rd_rows db). rg_device r = rg_device r0 \<and> rg_parent_device r = rg_parent_device r0)"
      proof cases
        case 1
        then show ?thesis by auto
      next
        case 2
        then show ?thesis using new(3) by force
      qed
    qed
    then show ?thesis unfolding e using IH Cons.prems(2) new(2) by auto
  qed
qed

section \<open>What is needed\<close>

definition chain_of :: "civil_table \<Rightarrow> string \<Rightarrow> civil_code list" where
  "chain_of tbl code = (case AllParents tbl code of Some ps \<Rightarrow> ps | None \<Rightarrow> [])"

text \<open>The records of a list of needed codes are those of their own codes.\<close>

definition own_map :: "civil_table \<Rightarrow> (string \<times> civil_code) list \<Rightarrow> bool" where
  "own_map tbl m \<longleftrightarrow> (\<forall>(k, c) \<in> set m. k \<noteq> [] \<and> c = own_record tbl k)"

lemma update_own: "own_map tbl m \<Longrightarrow> k \<noteq> [] \<Longrightarrow> own_map tbl (AList.update k (own_record tbl k) m)"
  unfolding own_map_def by (induction m) auto

lemma fold_update_own:
  "own_map tbl m \<Longrightarrow> \<forall>p \<in> set ps. cc_code p \<noteq> [] \<and> p = own_record tbl (cc_code p) \<Longrightarrow>
   own_map tbl (fold (\<lambda>p m. AList.update (cc_code p) p m) ps m)
   \<and> fst ` set (fold (\<lambda>p m. AList.update (cc_code p) p m) ps m) = fst ` set m \<union> cc_code ` set ps"
proof (induction ps arbitrary: m)
  case (Cons p ps)
  then have "own_map tbl (AList.update (cc_code p) p m)" using update_own[of tbl m "cc_code p"] by simp
  then show ?case using Cons by (auto simp: dom_update)
qed simp

lemma chain_facts:
  assumes "table_ok tbl"
  shows "AllParents tbl code = Some (chain_of tbl code)" and "parent_chain tbl code (chain_of tbl code)"
    and "\<forall>p \<in> set (chain_of tbl code). length (cc_code p) < length code \<and> cc_code p \<noteq> [] \<and> p = own_record tbl (cc_code p)"
proof -
  obtain ps where ps: "parent_chain tbl code ps" "\<forall>p \<in> set ps. length (cc_code p) < length code \<and> tbl (cc_code p) = Some p"
    using AllParents_returns[OF assms, of code] by blast
  then have c: "chain_of tbl code = ps" by (simp add: chain_of_def AllParents_chain)
  show "AllParents tbl code = Some (chain_of tbl code)" "parent_chain tbl code (chain_of tbl code)"
    using ps(1) AllParents_chain[OF ps(1)] by (simp_all add: c)
  show "\<forall>p \<in> set (chain_of tbl code). length (cc_code p) < length code \<and> cc_code p \<noteq> [] \<and> p = own_record tbl (cc_code p)"
    using ps(2) assms unfolding c own_record_def Get_def table_ok_def by auto
qed

definition needed_codes :: "civil_table \<Rightarrow> string list \<Rightarrow> string set" where
  "needed_codes tbl codes = (\<Union>code \<in> set codes - {[]}. insert code (cc_code ` set (chain_of tbl code)))"

lemma needed_returns:
  assumes "table_ok tbl" and "own_map tbl m"
  shows "\<exists>m'. needed tbl codes m = Some m' \<and> own_map tbl m' \<and> fst ` set m' = fst ` set m \<union> needed_codes tbl codes"
  using assms(2)
proof (induction codes arbitrary: m)
  case Nil
  then show ?case by (simp add: needed_codes_def)
next
  case (Cons code codes)
  show ?case
  proof (cases "code = []")
    case True
    then show ?thesis using Cons by (simp add: needed_codes_def)
  next
    case False
    let ?m = "fold (\<lambda>p m. AList.update (cc_code p) p m) (chain_of tbl code) (AList.update code (own_record tbl code) m)"
    have "own_map tbl ?m" "fst ` set ?m = insert code (fst ` set m) \<union> cc_code ` set (chain_of tbl code)"
      using fold_update_own[OF update_own[OF Cons.prems False], of "chain_of tbl code"] chain_facts(3)[OF assms(1), of code]
      by (auto simp: dom_update)
    then obtain m' where "needed tbl codes ?m = Some m'" "own_map tbl m'" "fst ` set m' = fst ` set ?m \<union> needed_codes tbl codes"
      using Cons.IH by blast
    then show ?thesis using False chain_facts(1)[OF assms(1), of code] \<open>fst ` set ?m = _\<close>
      by (auto simp: needed_codes_def)
  qed
qed

text \<open>What one call does to the table: it returns, and the rows are the old ones and those of the
  codes needed, each with the parent of its own record.\<close>

lemma ensureRegions_ok:
  assumes "table_ok tbl" and "db_ok db"
  shows "\<exists>db' n. ensureRegions tbl codes db = Some (db', n) \<and> db_ok db' \<and> devices db' = devices db \<union> needed_codes tbl codes
    \<and> (\<forall>r \<in> set (rd_rows db'). rg_parent_device r = cc_parent (own_record tbl (rg_device r)) \<or>
        (\<exists>r0 \<in> set (rd_rows db). rg_device r = rg_device r0 \<and> rg_parent_device r = rg_parent_device r0))"
proof (cases "codes = []")
  case True
  then show ?thesis using assms by (auto simp: ensureRegions_def needed_codes_def)
next
  case False
  obtain m where m: "needed tbl codes [] = Some m" "own_map tbl m" "fst ` set m = needed_codes tbl codes"
    using needed_returns[OF assms(1), of "[]" codes] by (auto simp: own_map_def)
  let ?cs = "by_length (map snd m)"
  have cs: "set ?cs = snd ` set m" by (simp add: by_length_def)
  have code: "cc_code (own_record tbl k) = k" for k
    using assms(1) by (auto simp: own_record_def Get_def table_ok_def split: option.splits)
  have own: "\<forall>c \<in> set ?cs. cc_code c \<noteq> [] \<and> c = own_record tbl (cc_code c)"
    using m(2) unfolding cs own_map_def by (auto simp: code)
  have keys: "cc_code ` set ?cs = fst ` set m"
    using m(2) unfolding cs own_map_def by (force simp: code image_iff)
  obtain db' n where new: "create_missing ?cs 0 db = (db', n)" by (cases "create_missing ?cs 0 db") blast
  have ok: "db_ok db'" "devices db' = devices db \<union> fst ` set m" and fr: "from_records db ?cs db'"
    using create_missing_ok[OF assms(2), of ?cs 0] own by (simp_all add: new keys)
  have "rg_parent_device r = cc_parent (own_record tbl (rg_device r)) \<or>
        (\<exists>r0 \<in> set (rd_rows db). rg_device r = rg_device r0 \<and> rg_parent_device r = rg_parent_device r0)"
    if r: "r \<in> set (rd_rows db')" for r
  proof -
    consider c where "c \<in> set ?cs" "rg_device r = cc_code c" "rg_parent_device r = cc_parent c"
      | "\<exists>r0 \<in> set (rd_rows db). rg_device r = rg_device r0 \<and> rg_parent_device r = rg_parent_device r0"
      using fr r unfolding from_records_def by blast
    then show ?thesis
    proof cases
      case 1
      then have "c = own_record tbl (rg_device r)" using own by simp
      then show ?thesis using 1 by simp
    qed simp
  qed
  moreover have "ensureRegions tbl codes db = Some (db', n)" using False m(1) new by (simp add: ensureRegions_def)
  ultimately show ?thesis using ok m(3) by auto
qed

section \<open>Descendants and deletion\<close>

lemma concat_all_Some: "concat_all xs = Some y \<Longrightarrow> None \<notin> set xs \<and> set y = (\<Union>x \<in> set xs. set (the x))"
  by (induction xs arbitrary: y rule: concat_all.induct) auto

lemma concat_all_total: "None \<notin> set xs \<Longrightarrow> \<exists>y. concat_all xs = Some y"
  by (induction xs rule: concat_all.induct) auto

lemma children_iff: "c \<in> set (ListGBRegionsByParent i db) \<longleftrightarrow> c \<in> set (rd_rows db) \<and> rg_parent c = i"
  by (auto simp: ListGBRegionsByParent_def)

declare GetGBRegionDescendants.simps(2) [simp del]

text \<open>What the recursion collects is closed: with a node it holds all its children.\<close>

lemma descendants_closed:
  "GetGBRegionDescendants n db i = Some ds \<Longrightarrow>
   set (ListGBRegionsByParent i db) \<subseteq> set ds \<and> (\<forall>c \<in> set ds. set (ListGBRegionsByParent (rg_id c) db) \<subseteq> set ds)"
proof (induction n arbitrary: i ds)
  case (Suc n)
  let ?xs = "map (\<lambda>c. map_option (\<lambda>sub. c # sub) (GetGBRegionDescendants n db (rg_id c))) (ListGBRegionsByParent i db)"
  have ds: "None \<notin> set ?xs" "set ds = (\<Union>x \<in> set ?xs. set (the x))"
    using concat_all_Some[of ?xs ds] Suc.prems by (simp_all add: GetGBRegionDescendants.simps(2))
  have sub: "\<exists>sub. GetGBRegionDescendants n db (rg_id c) = Some sub \<and> insert c (set sub) \<subseteq> set ds"
    if "c \<in> set (ListGBRegionsByParent i db)" for c
  proof -
    let ?x = "map_option (\<lambda>sub. c # sub) (GetGBRegionDescendants n db (rg_id c))"
    have m: "?x \<in> set ?xs" using that by simp
    then have "?x \<noteq> None" using ds(1) by metis
    then obtain sub where s: "GetGBRegionDescendants n db (rg_id c) = Some sub" by auto
    have "set (the ?x) \<subseteq> set ds" unfolding ds(2) using m by (rule UN_upper)
    then show ?thesis using s by simp
  qed
  have "set (ListGBRegionsByParent (rg_id d) db) \<subseteq> set ds" if d: "d \<in> set ds" for d
  proof -
    obtain c where c: "c \<in> set (ListGBRegionsByParent i db)"
      and e: "d \<in> set (the (map_option (\<lambda>sub. c # sub) (GetGBRegionDescendants n db (rg_id c))))"
      using d unfolding ds(2) by auto
    obtain sub where s: "GetGBRegionDescendants n db (rg_id c) = Some sub" "insert c (set sub) \<subseteq> set ds"
      using sub[OF c] by blast
    show ?thesis using Suc.IH[OF s(1)] s e by auto
  qed
  then show ?case using sub by blast
qed simp

definition shrinking :: "region_db \<Rightarrow> bool" where
  "shrinking db \<longleftrightarrow> (\<forall>r \<in> set (rd_rows db). rg_parent_device r = [] \<or> length (rg_parent_device r) < length (rg_device r))"

lemma descendants_return:
  assumes "db_ok db" and "shrinking db"
  shows "\<forall>r \<in> set (rd_rows db). length (rg_device r) < l + n \<Longrightarrow>
    \<forall>c \<in> set (ListGBRegionsByParent i db). l \<le> length (rg_device c) \<Longrightarrow>
    \<exists>ds. GetGBRegionDescendants (Suc n) db i = Some ds"
proof (induction n arbitrary: i l)
  case 0
  then have "ListGBRegionsByParent i db = []"
    by (metis add.right_neutral children_iff last_in_set not_less)
  then show ?case by (simp add: GetGBRegionDescendants.simps(2))
next
  case (Suc n)
  have e: "\<exists>ds. GetGBRegionDescendants (Suc n) db (rg_id c) = Some ds" if c: "c \<in> set (ListGBRegionsByParent i db)" for c
  proof -
    have cr: "c \<in> set (rd_rows db)" and lc: "l \<le> length (rg_device c)" using c Suc.prems(2) by (auto simp: children_iff)
    have "Suc l \<le> length (rg_device g)" if g: "g \<in> set (ListGBRegionsByParent (rg_id c) db)" for g
    proof -
      have gr: "g \<in> set (rd_rows db)" "rg_parent g = rg_id c" using g by (auto simp: children_iff)
      then have "rg_parent_device g = rg_device c" using link_parent[OF assms(1) gr(1) cr] by simp
      moreover have "rg_device c \<noteq> []" using assms(1) cr by (auto simp: db_ok_def)
      ultimately show ?thesis using assms(2) gr(1) lc by (auto simp: shrinking_def)
    qed
    then show ?thesis using Suc.IH[of "Suc l" "rg_id c"] Suc.prems(1) by auto
  qed
  then have "None \<notin> set (map (\<lambda>c. map_option (\<lambda>sub. c # sub) (GetGBRegionDescendants (Suc n) db (rg_id c))) (ListGBRegionsByParent i db))"
    using e by force
  then show ?case using concat_all_total by (metis GetGBRegionDescendants.simps(2))
qed

lemma delete_links:
  assumes i: "db_ok db" and sub: "set (rd_rows db') \<subseteq> set (rd_rows db)"
    and closed: "\<And>r p. r \<in> set (rd_rows db') \<Longrightarrow> p \<in> set (rd_rows db) \<Longrightarrow> rg_parent r = rg_id p \<Longrightarrow> p \<in> set (rd_rows db')"
    and d: "distinct (map rg_device (rd_rows db'))" "distinct (map rg_id (rd_rows db'))" and n: "rd_next db' = rd_next db"
  shows "db_ok db'"
  unfolding db_ok_def
proof (intro conjI ballI)
  fix r assume r: "r \<in> set (rd_rows db')"
  then have rr: "r \<in> set (rd_rows db)" using sub by blast
  show "0 < rg_id r" "rg_id r < rd_next db'" "rg_device r \<noteq> []" using i rr n by (auto simp: db_ok_def)
  have p: "rg_parent r = link_of db (rg_parent_device r)" using i rr by (auto simp: db_ok_def)
  show "rg_parent r = link_of db' (rg_parent_device r)"
  proof (cases "GetGBRegionByDeviceID (rg_parent_device r) db")
    case None
    then have "GetGBRegionByDeviceID (rg_parent_device r) db' = None"
      using sub by (auto simp: Get_device_None devices_def)
    then show ?thesis using p None by (simp add: link_of_def)
  next
    case (Some q)
    have q: "q \<in> set (rd_rows db)" "rg_device q = rg_parent_device r" using Get_device_Some[OF Some] by auto
    then have "rg_parent r = rg_id q" using link_parent[OF i rr] by simp
    then have q': "q \<in> set (rd_rows db')" using closed[OF r q(1)] by simp
    then obtain q2 where q2: "GetGBRegionByDeviceID (rg_device q) db' = Some q2"
      using Get_device_None[of "rg_device q" db'] by (auto simp: devices_def)
    have "q2 = q" using Get_device_Some[OF q2] q' d(1) by (auto simp: distinct_map dest: inj_onD)
    then show ?thesis using p Some q2 q(2) by (simp add: link_of_def)
  qed
qed (use d n i in \<open>auto simp: db_ok_def\<close>)

lemma DeleteGBRegions_ok:
  assumes i: "db_ok db" and g: "GetGBRegion x db = Some r0" and ds: "GetGBRegionDescendants n db x = Some ds"
  shows "db_ok (DeleteGBRegions (rg_id r0 # map rg_id ds) db)"
    and "\<And>r p. r \<in> set (rd_rows (DeleteGBRegions (rg_id r0 # map rg_id ds) db)) \<Longrightarrow> p \<in> set (rd_rows db) \<Longrightarrow>
      rg_parent r = rg_id p \<Longrightarrow> p \<in> set (rd_rows (DeleteGBRegions (rg_id r0 # map rg_id ds) db))"
proof -
  let ?db = "DeleteGBRegions (rg_id r0 # map rg_id ds) db"
  have x: "rg_id r0 = x" using g by (auto simp: GetGBRegion_def find_Some_iff)
  note cl = descendants_closed[OF ds]
  show cp: "p \<in> set (rd_rows ?db)" if r: "r \<in> set (rd_rows ?db)" and p: "p \<in> set (rd_rows db)" "rg_parent r = rg_id p" for r p
  proof (rule ccontr)
    assume "p \<notin> set (rd_rows ?db)"
    then have "rg_id p = x \<or> (\<exists>c \<in> set ds. rg_id p = rg_id c)" using p(1) x by (auto simp: DeleteGBRegions_def)
    moreover have "r \<in> set (rd_rows db)" using r by (simp add: DeleteGBRegions_def)
    ultimately have "r \<in> set (ListGBRegionsByParent x db) \<or> (\<exists>c \<in> set ds. r \<in> set (ListGBRegionsByParent (rg_id c) db))"
      using p(2) unfolding children_iff by auto
    then have "r \<in> set ds" using cl by blast
    then show False using r by (simp add: DeleteGBRegions_def)
  qed
  show "db_ok ?db"
    by (rule delete_links[OF i _ cp]) (use i in \<open>auto simp: DeleteGBRegions_def db_ok_def distinct_map_filter\<close>)
qed

section \<open>Runs\<close>

datatype region_op = AddOp string | DeleteOp nat

fun region_run :: "civil_table \<Rightarrow> nat \<Rightarrow> region_op list \<Rightarrow> region_db \<Rightarrow> region_db option" where
  "region_run tbl fuel [] db = Some db"
| "region_run tbl fuel (AddOp code # ops) db =
     (case AddRegionByCivilCode tbl code db of None \<Rightarrow> None | Some (db', n) \<Rightarrow> region_run tbl fuel ops db')"
| "region_run tbl fuel (DeleteOp i # ops) db =
     (case handleGBRegionDelete fuel i db of None \<Rightarrow> None | Some db' \<Rightarrow> region_run tbl fuel ops db')"

text \<open>What the file promises: the parent found for a code is the one its record names.\<close>

definition parents_named :: "civil_table \<Rightarrow> bool" where
  "parents_named tbl \<longleftrightarrow> (\<forall>code c p. tbl code = Some c \<longrightarrow> Parent tbl code = Some p \<longrightarrow> cc_parent c = cc_code p)"

definition code_fits :: "civil_table \<Rightarrow> nat \<Rightarrow> string \<Rightarrow> bool" where
  "code_fits tbl fuel code \<longleftrightarrow> length code < fuel \<and> (trim_right_blank code = code \<or> tbl code \<noteq> None)"

definition tree_ok :: "civil_table \<Rightarrow> nat \<Rightarrow> region_db \<Rightarrow> bool" where
  "tree_ok tbl fuel db \<longleftrightarrow> db_ok db \<and>
     (\<forall>r \<in> set (rd_rows db). rg_parent_device r = cc_parent (own_record tbl (rg_device r)) \<and> code_fits tbl fuel (rg_device r)
        \<and> (\<forall>p. Parent tbl (rg_device r) = Some p \<longrightarrow> cc_code p \<in> devices db))"

lemma trim_right_blank_le: "length (trim_right_blank s) \<le> length s"
  unfolding trim_right_blank_def by (metis length_dropWhile_le length_rev)

lemma own_parent_shorter: "table_ok tbl \<Longrightarrow> cc_parent (own_record tbl d) = [] \<or> length (cc_parent (own_record tbl d)) < length d"
proof (cases "tbl d")
  case None
  have "parentByLength (trim_right_blank d) = [] \<or> length (parentByLength (trim_right_blank d)) < length d"
    using parentByLength_shorter[of "trim_right_blank d"] trim_right_blank_le[of d] by (metis less_le_trans)
  then show ?thesis using None by (simp add: own_record_def Get_def parentCivilCode_def)
next
  case (Some c)
  assume "table_ok tbl"
  then show ?thesis using Some by (auto simp: own_record_def Get_def table_ok_def)
qed

lemma own_parent_named:
  assumes "table_ok tbl" and "parents_named tbl" and "code_fits tbl fuel d" and "Parent tbl d = Some p"
  shows "cc_parent (own_record tbl d) = cc_code p"
proof (cases "tbl d")
  case None
  then have "trim_right_blank d = d" using assms(3) by (simp add: code_fits_def)
  moreover have "tbl (parentByLength d) = Some p" using assms(4) None by (auto simp: Parent_def Let_def split: if_splits)
  ultimately show ?thesis using assms(1) None by (simp add: own_record_def Get_def parentCivilCode_def table_ok_def)
next
  case (Some c)
  then show ?thesis using assms(2,4) by (auto simp: own_record_def Get_def parents_named_def)
qed

lemma chain_parent:
  "parent_chain tbl code ps \<Longrightarrow> d \<in> insert code (cc_code ` set ps) \<Longrightarrow> Parent tbl d = Some p \<Longrightarrow> p \<in> set ps"
  by (induction ps arbitrary: code) auto

lemma chain_in_table: "table_ok tbl \<Longrightarrow> p \<in> set (chain_of tbl code) \<Longrightarrow> length (cc_code p) < length code \<and> tbl (cc_code p) = Some p"
  using AllParents_returns[of tbl code] AllParents_chain by (fastforce simp: chain_of_def)

lemma tree_parent:
  assumes "tree_ok tbl fuel db" and "r \<in> set (rd_rows db)" and "Parent tbl (rg_device r) = Some p"
  shows "\<exists>q \<in> set (rd_rows db). rg_device q = cc_code p"
proof -
  have "cc_code p \<in> devices db" using assms unfolding tree_ok_def by blast
  then show ?thesis by (auto simp: devices_def)
qed

lemma tree_shrinking: "table_ok tbl \<Longrightarrow> tree_ok tbl fuel db \<Longrightarrow> shrinking db"
  unfolding shrinking_def tree_ok_def using own_parent_shorter by metis

lemma add_region_tree:
  assumes t: "table_ok tbl" and i: "tree_ok tbl fuel db" and f: "code_fits tbl fuel code"
  shows "\<exists>db' n. AddRegionByCivilCode tbl code db = Some (db', n) \<and> tree_ok tbl fuel db'
    \<and> (if code = [] then True else code \<in> devices db')"
proof (cases "code = []")
  case True
  then show ?thesis using i by (simp add: AddRegionByCivilCode_def)
next
  case False
  have db: "db_ok db" using i by (simp add: tree_ok_def)
  obtain db' n where new: "ensureRegions tbl [code] db = Some (db', n)" "db_ok db'"
    and dev: "devices db' = devices db \<union> needed_codes tbl [code]"
    and rows: "\<And>r. r \<in> set (rd_rows db') \<Longrightarrow> rg_parent_device r = cc_parent (own_record tbl (rg_device r)) \<or>
        (\<exists>r0 \<in> set (rd_rows db). rg_device r = rg_device r0 \<and> rg_parent_device r = rg_parent_device r0)"
    using ensureRegions_ok[OF t db, of "[code]"] by blast
  have nc: "needed_codes tbl [code] = insert code (cc_code ` set (chain_of tbl code))" using False by (simp add: needed_codes_def)
  have "rg_parent_device r = cc_parent (own_record tbl (rg_device r)) \<and> code_fits tbl fuel (rg_device r)
      \<and> (\<forall>p. Parent tbl (rg_device r) = Some p \<longrightarrow> cc_code p \<in> devices db')" if r: "r \<in> set (rd_rows db')" for r
  proof (intro conjI allI impI)
    show "rg_parent_device r = cc_parent (own_record tbl (rg_device r))"
      using rows[OF r] i by (auto simp: tree_ok_def)
    have d: "rg_device r \<in> devices db \<or> rg_device r \<in> insert code (cc_code ` set (chain_of tbl code))"
      using r dev unfolding nc by (auto simp: devices_def)
    have old: "\<exists>r0 \<in> set (rd_rows db). rg_device r0 = rg_device r" if "rg_device r \<in> devices db" using that by (auto simp: devices_def)
    have new_fits: "code_fits tbl fuel d" if "d \<in> insert code (cc_code ` set (chain_of tbl code))" for d
      using that f chain_in_table[OF t, of _ code] by (fastforce simp: code_fits_def)
    show "code_fits tbl fuel (rg_device r)"
    proof (cases "rg_device r \<in> devices db")
      case True
      then obtain r0 where r0: "r0 \<in> set (rd_rows db)" "rg_device r0 = rg_device r" using old by blast
      have "code_fits tbl fuel (rg_device r0)" using i r0(1) unfolding tree_ok_def by blast
      then show ?thesis using r0(2) by simp
    qed (use d new_fits in blast)
    fix p assume p: "Parent tbl (rg_device r) = Some p"
    show "cc_code p \<in> devices db'"
      using d
    proof
      assume "rg_device r \<in> devices db"
      then obtain r0 where r0: "r0 \<in> set (rd_rows db)" "rg_device r0 = rg_device r" using old by blast
      then have "cc_code p \<in> devices db" using i p unfolding tree_ok_def by (metis r0(2))
      then show ?thesis using dev by simp
    next
      assume "rg_device r \<in> insert code (cc_code ` set (chain_of tbl code))"
      then have "p \<in> set (chain_of tbl code)" by (rule chain_parent[OF chain_facts(2)[OF t] _ p])
      then show ?thesis unfolding dev nc by simp
    qed
  qed
  then have "tree_ok tbl fuel db'" using new(2) by (simp add: tree_ok_def)
  moreover have "code \<in> devices db'" unfolding dev nc by simp
  ultimately show ?thesis using new(1) False by (simp add: AddRegionByCivilCode_def)
qed

lemma delete_region_tree:
  assumes t: "table_ok tbl" and n: "parents_named tbl" and i: "tree_ok tbl fuel db"
  shows "\<exists>db'. handleGBRegionDelete fuel x db = Some db' \<and> tree_ok tbl fuel db'"
proof (cases "GetGBRegion x db")
  case None
  then show ?thesis using i by (simp add: handleGBRegionDelete_def)
next
  case (Some r0)
  have db: "db_ok db" using i by (simp add: tree_ok_def)
  have "r0 \<in> set (rd_rows db)" using Some by (auto simp: GetGBRegion_def find_Some_iff)
  then have "length (rg_device r0) < fuel" using i by (auto simp: tree_ok_def code_fits_def)
  then obtain m where m: "fuel = Suc m" by (cases fuel) auto
  have len: "\<forall>r \<in> set (rd_rows db). length (rg_device r) < 1 + m"
    using i by (auto simp: tree_ok_def code_fits_def m)
  have "\<forall>c \<in> set (ListGBRegionsByParent x db). 1 \<le> length (rg_device c)"
    using db by (auto simp: children_iff db_ok_def Suc_le_eq)
  then obtain ds where ds: "GetGBRegionDescendants fuel db x = Some ds"
    using descendants_return[OF db tree_shrinking[OF t i] len] unfolding m by blast
  let ?db = "DeleteGBRegions (rg_id r0 # map rg_id ds) db"
  note del = DeleteGBRegions_ok[OF db Some ds]
  have "cc_code p \<in> devices ?db" if r: "r \<in> set (rd_rows ?db)" and p: "Parent tbl (rg_device r) = Some p" for r p
  proof -
    have rr: "r \<in> set (rd_rows db)" using r by (simp add: DeleteGBRegions_def)
    then obtain q where q: "q \<in> set (rd_rows db)" "rg_device q = cc_code p" using tree_parent[OF i rr p] by blast
    have "rg_parent_device r = rg_device q"
      using i rr own_parent_named[OF t n _ p, of fuel] q(2) by (auto simp: tree_ok_def)
    then have "rg_parent r = rg_id q" using link_parent[OF db rr q(1)] by simp
    then show ?thesis using del(2)[OF r q(1)] q(2)[symmetric] by (auto simp: devices_def)
  qed
  then have "tree_ok tbl fuel ?db" using del(1) i by (auto simp: tree_ok_def DeleteGBRegions_def)
  then show ?thesis using Some ds by (simp add: handleGBRegionDelete_def)
qed

lemma region_run_tree:
  assumes "table_ok tbl" and "parents_named tbl"
  shows "tree_ok tbl fuel db \<Longrightarrow> \<forall>code. AddOp code \<in> set ops \<longrightarrow> code_fits tbl fuel code \<Longrightarrow>
    \<exists>db'. region_run tbl fuel ops db = Some db' \<and> tree_ok tbl fuel db'"
proof (induction ops arbitrary: db)
  case (Cons op ops)
  show ?case
  proof (cases op)
    case (AddOp code)
    obtain db' n where "AddRegionByCivilCode tbl code db = Some (db', n)" "tree_ok tbl fuel db'"
      using add_region_tree[OF assms(1) Cons.prems(1), of code] Cons.prems(2) AddOp by auto
    then show ?thesis using Cons.IH[of db'] Cons.prems(2) AddOp by simp
  next
    case (DeleteOp x)
    obtain db' where "handleGBRegionDelete fuel x db = Some db'" "tree_ok tbl fuel db'"
      using delete_region_tree[OF assms Cons.prems(1), of x] by blast
    then show ?thesis using Cons.IH[of db'] Cons.prems(2) DeleteOp by simp
  qed
qed simp

text \<open>Following the row of the parent visits the given records.\<close>

fun linked :: "region_db \<Rightarrow> region \<Rightarrow> civil_code list \<Rightarrow> bool" where
  "linked db r [] = True"
| "linked db r (p # ps) = (\<exists>q \<in> set (rd_rows db). rg_id q = rg_parent r \<and> rg_device q = cc_code p \<and> linked db q ps)"

lemma tree_linked:
  assumes "table_ok tbl" and "parents_named tbl" and "tree_ok tbl fuel db"
  shows "r \<in> set (rd_rows db) \<Longrightarrow> parent_chain tbl (rg_device r) ps \<Longrightarrow> linked db r ps"
proof (induction ps arbitrary: r)
  case (Cons p ps)
  have p: "Parent tbl (rg_device r) = Some p" using Cons.prems(2) by simp
  obtain q where q: "q \<in> set (rd_rows db)" "rg_device q = cc_code p"
    using tree_parent[OF assms(3) Cons.prems(1) p] by blast
  have "rg_parent_device r = rg_device q"
    using assms(3) Cons.prems(1) own_parent_named[OF assms(1,2) _ p, of fuel] q(2) by (auto simp: tree_ok_def)
  then have "rg_parent r = rg_id q" using link_parent[OF _ Cons.prems(1) q(1)] assms(3) by (auto simp: tree_ok_def)
  moreover have "linked db q ps" using Cons.IH[OF q(1)] Cons.prems(2) q(2) by simp
  ultimately show ?case using q by auto
qed simp

section \<open>Properties\<close>

lemma region_run_append:
  "region_run tbl fuel (xs @ ys) d = Option.bind (region_run tbl fuel xs d) (region_run tbl fuel ys)"
proof (induction xs arbitrary: d)
  case (Cons x xs)
  then show ?case by (cases x) (simp_all split: option.split)
qed simp

lemma csv_named_parents: "csv_ok csv \<Longrightarrow> csv_named csv \<Longrightarrow> parents_named (load csv)"
  using load_ok[of csv] load_records[of csv]
  by (fastforce simp: parents_named_def csv_named_def list_all_iff table_ok_def split: option.splits)



lemma concat_all_None: "None \<in> set xs \<Longrightarrow> concat_all xs = None"
  by (induction xs rule: concat_all.induct) auto

lemma self_parent_descendants:
  assumes "r \<in> set (rd_rows db)" and "rg_parent r = rg_id r"
  shows "GetGBRegionDescendants fuel db (rg_id r) = None"
proof (induction fuel)
  case (Suc n)
  have "r \<in> set (ListGBRegionsByParent (rg_id r) db)" using assms by (simp add: children_iff)
  then have "None \<in> set (map (\<lambda>c. map_option (\<lambda>sub. c # sub) (GetGBRegionDescendants n db (rg_id c))) (ListGBRegionsByParent (rg_id r) db))"
    using Suc by force
  then show ?case by (simp add: GetGBRegionDescendants.simps(2) concat_all_None)
qed simp

text \<open>A region that is created by hand with its own code as parent adopts itself: its row becomes its
  own parent, and the recursion over its descendants, with it the request to delete the region, never
  returns, whatever the bound.\<close>

theorem self_parent_hangs:
  assumes "db_ok db" and "dev \<notin> devices db" and "dev \<noteq> []" and "name \<noteq> []"
  shows "\<exists>r. GetGBRegionByDeviceID dev (handleGBRegionCreate dev name dev db) = Some r \<and> rg_parent r = rg_id r
    \<and> (\<forall>fuel. handleGBRegionDelete fuel (rg_id r) (handleGBRegionCreate dev name dev db) = None)"
proof -
  obtain db' where c: "CreateGBRegion dev name dev 0 db = Some db'" using CreateGBRegion_rows[OF assms(2)] by blast
  have h: "handleGBRegionCreate dev name dev db = db'"
    using assms c by (simp add: handleGBRegionCreate_def Get_device_None)
  note ok = CreateGBRegion_ok[OF assms(1-3) c]
  obtain r where r: "GetGBRegionByDeviceID dev db' = Some r"
    using Get_device_None[of dev db'] ok(2) by auto
  have rr: "r \<in> set (rd_rows db')" "rg_device r = dev" using Get_device_Some[OF r] by auto
  have "rg_parent_device r = dev"
    using ok(3) rr assms(2) by (auto simp: devices_def)
  then have p: "rg_parent r = rg_id r" using link_parent[OF ok(1) rr(1) rr(1)] rr(2) by simp
  have "GetGBRegion (rg_id r) db' = Some r" by (rule Get_row[OF ok(1) rr(1)])
  then show ?thesis using r p self_parent_descendants[OF rr(1) p] by (auto simp: h handleGBRegionDelete_def)
qed

theorem self_parent_witness:
  "\<exists>r. GetGBRegionByDeviceID ''44'' (handleGBRegionCreate ''44'' ''x'' ''44'' empty_regions) = Some r \<and> rg_parent r = rg_id r
    \<and> (\<forall>fuel. handleGBRegionDelete fuel (rg_id r) (handleGBRegionCreate ''44'' ''x'' ''44'' empty_regions) = None)"
  by (rule self_parent_hangs[OF empty_regions_ok]) (simp_all add: devices_def empty_regions_def)

end
