(* ===== verification/Audio_Config.thy ===== *)
theory Audio_Config
  imports Wire_Protocol
begin

text \<open>
  The two readers of an MPEG-4 AudioSpecificConfig that the program has: the bit reader of the live
  view (\<open>wsstream/audio.go\<close>) and the one that fills the sample entry of a merged recording
  (\<open>parseAudioConfig\<close> of \<open>merge/mp4merge.go\<close>).  The format is five bits of object type,
  four bits of frequency index (15: a rate of 24 bits follows) and four bits of channels.
\<close>

section \<open>The bit reader\<close>

record bitReader =
  br_data :: "byte list"
  br_pos :: nat
  br_err :: bool

text \<open>
  \<open>bitReader.read\<close>: the loop with \<open>k = n - i\<close> bits to go.  At the end of the data the bits read so
  far are shifted to their place and the error sticks.
\<close>

fun read_bits :: "nat \<Rightarrow> 32 word \<Rightarrow> bitReader \<Rightarrow> 32 word \<times> bitReader" where
  "read_bits 0 v b = (v, b)"
| "read_bits (Suc k) v b =
     (if length (br_data b) \<le> br_pos b div 8
      then (push_bit k v, b\<lparr>br_err := True\<rparr>)
      else (let x = drop_bit (7 - br_pos b mod 8) (br_data b ! (br_pos b div 8)) AND 1
            in read_bits k (push_bit 1 v OR ucast x) (b\<lparr>br_pos := br_pos b + 1\<rparr>)))"

definition br_read :: "nat \<Rightarrow> bitReader \<Rightarrow> 32 word \<times> bitReader" where
  "br_read n b = read_bits n 0 b"

definition aacSampleRates :: "32 word list" where
  "aacSampleRates = [96000, 88200, 64000, 48000, 44100, 32000, 24000, 22050,
     16000, 12000, 11025, 8000, 7350, 0, 0, 0]"

text \<open>\<open>parseAudioSpecificConfig\<close>: sample rate and channels, \<open>None\<close> for \<open>ok = false\<close>.\<close>

definition parseAudioSpecificConfig :: "byte list \<Rightarrow> (32 word \<times> byte) option" where
  "parseAudioSpecificConfig asc =
     (if length asc < 2 then None
      else
        let (objType, b) = br_read 5 \<lparr>br_data = asc, br_pos = 0, br_err = False\<rparr>;
            b = (if objType = 31 then snd (br_read 6 b) else b);
            (freqIdx, b) = br_read 4 b;
            (rate, b) =
              (if freqIdx = 15 then br_read 24 b
               else (if unat freqIdx < length aacSampleRates then aacSampleRates ! unat freqIdx else 0, b));
            (chanConfig, b) = br_read 4 b;
            channels = (if 1 \<le> chanConfig \<and> chanConfig \<le> 2 then ucast chanConfig else 1)
        in if br_err b \<or> rate = 0 then None else Some (rate, channels))"

definition AudioCodecAAC :: byte where "AudioCodecAAC = 1"
definition AudioCodecG711A :: byte where "AudioCodecG711A = 2"
definition AudioCodecG711U :: byte where "AudioCodecG711U = 3"

definition BuildAudioCodecInfo :: "string \<Rightarrow> byte list \<Rightarrow> audio_codec_info option" where
  "BuildAudioCodecInfo codec muxerConfig =
     (if codec = ''aac'' then
        (case parseAudioSpecificConfig muxerConfig of
           None \<Rightarrow> None
         | Some (rate, channels) \<Rightarrow>
             Some \<lparr>aci_codec = AudioCodecAAC, aci_rate = rate, aci_channels = channels, aci_config = muxerConfig\<rparr>)
      else if codec = ''g711'' then
        (if length muxerConfig < 5 then None
         else
           let rate = be_word (take 4 (drop 1 muxerConfig))
           in Some \<lparr>aci_codec = (if muxerConfig ! 0 = 1 then AudioCodecG711U else AudioCodecG711A),
                    aci_rate = (if rate = 0 then 8000 else rate), aci_channels = 1, aci_config = []\<rparr>)
      else None)"

section \<open>The reader of the merge\<close>

text \<open>\<open>parseAudioConfig\<close> returns channels and rate, with 2 and 44100 as defaults.\<close>

definition mergeSampleRates :: "32 word list" where
  "mergeSampleRates = [96000, 88200, 64000, 48000, 44100, 32000, 24000, 22050, 16000, 12000, 11025, 8000, 7350]"

definition parseAudioConfig :: "byte list \<Rightarrow> 16 word \<times> 32 word" where
  "parseAudioConfig config =
     (if length config < 2 then (2, 44100)
      else
        let c0 = config ! 0; c1 = config ! 1;
            idx = drop_bit 3 c0 AND 0x0F;
            rate =
              (if idx = 0x0F \<and> 4 \<le> length config then
                 push_bit 16 (ucast c1) OR push_bit 8 (ucast (config ! 2))
                   OR drop_bit 4 (push_bit 4 (ucast (config ! 3 AND 0xFC)))
               else if idx < 15 \<and> unat idx < length mergeSampleRates then mergeSampleRates ! unat idx
               else 44100);
            ch = push_bit 2 (c0 AND 1) OR (drop_bit 6 c1 AND 3)
        in (if 0 < ch then ucast ch else 2, rate))"

section \<open>What each reads\<close>

definition asc_object :: "byte list \<Rightarrow> byte" where
  "asc_object asc = drop_bit 3 (asc ! 0)"

definition asc_index :: "byte list \<Rightarrow> byte" where
  "asc_index asc = push_bit 1 (asc ! 0 AND 7) OR drop_bit 7 (asc ! 1)"

definition asc_channels :: "byte list \<Rightarrow> byte" where
  "asc_channels asc = drop_bit 3 (asc ! 1) AND 15"

lemma read_bits_inside:
  "br_pos b + k \<le> 8 * length (br_data b) \<Longrightarrow>
     snd (read_bits k v b) = b\<lparr>br_pos := br_pos b + k\<rparr>"
proof (induction k arbitrary: v b)
  case 0
  then show ?case by simp
next
  case (Suc k)
  then have "br_pos b div 8 < length (br_data b)" by simp
  with Suc show ?case by (simp add: Let_def not_le)
qed

text \<open>Bit \<open>p\<close> of the data, counted from the most significant bit of the first byte.\<close>

definition stream_bit :: "byte list \<Rightarrow> nat \<Rightarrow> bool" where
  "stream_bit d p = bit (d ! (p div 8)) (7 - p mod 8)"

lemma read_bits_value:
  assumes "br_pos b + k \<le> 8 * length (br_data b)" and "n < 32"
  shows "bit (fst (read_bits k v b)) n
    = (if n < k then stream_bit (br_data b) (br_pos b + k - 1 - n) else bit v (n - k))"
  using assms
proof (induction k arbitrary: v b)
  case 0
  then show ?case by simp
next
  case (Suc k)
  let ?x = "drop_bit (7 - br_pos b mod 8) (br_data b ! (br_pos b div 8)) AND (1 :: byte)"
  have in_range: "br_pos b div 8 < length (br_data b)" using Suc.prems by simp
  have shifted: "bit (push_bit 1 v OR ucast ?x) m = (if m = 0 then stream_bit (br_data b) (br_pos b) else bit v (m - 1))"
    if "m < 32" for m
    using that
    by (simp only: bit_or_iff bit_push_bit_iff bit_unsigned_iff) (auto simp: bit_simps stream_bit_def)
  show ?case
  proof (cases "n < k")
    case True
    with in_range Suc.prems Suc.IH[of "b\<lparr>br_pos := br_pos b + 1\<rparr>" "push_bit 1 v OR ucast ?x"]
    show ?thesis by (simp add: Let_def not_le)
  next
    case False
    with in_range Suc.prems Suc.IH[of "b\<lparr>br_pos := br_pos b + 1\<rparr>" "push_bit 1 v OR ucast ?x"]
      shifted[of "n - k"]
    show ?thesis
      by (cases "n = k") (simp_all add: Let_def not_le Suc_diff_le del: push_bit_Suc)
  qed
qed

lemma br_read_inside:
  assumes "p + k \<le> 8 * length d"
    and "\<And>n. n < 32 \<Longrightarrow> bit w n \<longleftrightarrow> n < k \<and> stream_bit d (p + k - 1 - n)"
  shows "br_read k \<lparr>br_data = d, br_pos = p, br_err = False\<rparr>
    = (w, \<lparr>br_data = d, br_pos = p + k, br_err = False\<rparr>)"
proof -
  have "fst (br_read k \<lparr>br_data = d, br_pos = p, br_err = False\<rparr>) = w"
    by (rule bit_word_eqI) (use assms in \<open>auto simp: br_read_def read_bits_value\<close>)
  then show ?thesis
    using assms(1) read_bits_inside[of "\<lparr>br_data = d, br_pos = p, br_err = False\<rparr>" k 0]
    by (simp add: br_read_def prod_eq_iff)
qed

lemma first_fields:
  assumes "2 \<le> length asc"
  shows "br_read 5 \<lparr>br_data = asc, br_pos = 0, br_err = False\<rparr>
      = (ucast (asc_object asc), \<lparr>br_data = asc, br_pos = 5, br_err = False\<rparr>)" (is ?object)
    and "br_read 4 \<lparr>br_data = asc, br_pos = 5, br_err = False\<rparr>
      = (ucast (asc_index asc), \<lparr>br_data = asc, br_pos = 9, br_err = False\<rparr>)" (is ?index)
    and "br_read 4 \<lparr>br_data = asc, br_pos = 9, br_err = False\<rparr>
      = (ucast (asc_channels asc), \<lparr>br_data = asc, br_pos = 13, br_err = False\<rparr>)" (is ?channels)
proof -
  have five: "n < 5 \<Longrightarrow> n = 0 \<or> n = 1 \<or> n = 2 \<or> n = 3 \<or> n = (4::nat)" for n by arith
  have four: "n < 4 \<Longrightarrow> n = 0 \<or> n = 1 \<or> n = 2 \<or> n = (3::nat)" for n by arith
  have mask7: "bit (7::byte) n \<longleftrightarrow> n < 3" for n
    using bit_mask_iff[of 3 n, where 'a = byte] by (auto simp: mask_eq_exp_minus_1)
  have mask15: "bit (15::byte) n \<longleftrightarrow> n < 4" for n
    using bit_mask_iff[of 4 n, where 'a = byte] by (auto simp: mask_eq_exp_minus_1)
  have index_bit: "bit (asc_index asc) n
      \<longleftrightarrow> n < 8 \<and> (1 \<le> n \<and> n < 4 \<and> bit (asc ! 0) (n - 1) \<or> bit (asc ! 1) (7 + n))" for n
    unfolding asc_index_def bit_or_iff bit_push_bit_iff bit_and_iff bit_drop_bit_eq mask7
    by (auto dest: bit_imp_le_length)
  have channel_bit: "bit (asc_channels asc) n \<longleftrightarrow> n < 4 \<and> bit (asc ! 1) (3 + n)" for n
    unfolding asc_channels_def bit_and_iff bit_drop_bit_eq mask15 by auto
  have object: "bit (ucast (asc_object asc) :: 32 word) n \<longleftrightarrow> n < 5 \<and> stream_bit asc (0 + 5 - 1 - n)" if "n < 32" for n
    using that by (cases "n < 5")
      (auto simp: asc_object_def stream_bit_def bit_simps dest!: five dest: bit_imp_le_length)
  have index: "bit (ucast (asc_index asc) :: 32 word) n \<longleftrightarrow> n < 4 \<and> stream_bit asc (5 + 4 - 1 - n)" if "n < 32" for n
    using that by (cases "n < 4")
      (auto simp: index_bit stream_bit_def bit_unsigned_iff dest!: four dest: bit_imp_le_length)
  have channels: "bit (ucast (asc_channels asc) :: 32 word) n \<longleftrightarrow> n < 4 \<and> stream_bit asc (9 + 4 - 1 - n)" if "n < 32" for n
    using that by (cases "n < 4")
      (auto simp: channel_bit stream_bit_def bit_unsigned_iff dest!: four)
  show ?object using assms br_read_inside[of 0 5 asc, OF _ object] by simp
  show ?index using assms br_read_inside[of 5 4 asc, OF _ index] by simp
  show ?channels using assms br_read_inside[of 9 4 asc, OF _ channels] by simp
qed

lemma unat_ucast_byte: "unat (ucast (x :: byte) :: 32 word) = unat x"
  using unsigned_less[where ?'a = nat, of x] by (simp add: unsigned_ucast_eq take_bit_nat_eq_self)

lemma parse_plain:
  assumes "2 \<le> length asc" and "asc_object asc \<noteq> 31" and "asc_index asc < 13"
  shows "parseAudioSpecificConfig asc
    = Some (aacSampleRates ! unat (asc_index asc),
        if 1 \<le> asc_channels asc \<and> asc_channels asc \<le> 2 then asc_channels asc else 1)"
proof -
  have index: "unat (asc_index asc) < 13" using assms(3) by (simp add: word_less_nat_alt)
  have not15: "(ucast (asc_index asc) :: 32 word) \<noteq> 15"
    using index unat_ucast_byte[of "asc_index asc"] by auto
  have not31: "(ucast (asc_object asc) :: 32 word) \<noteq> 31"
    using assms(2) unat_ucast_byte[of "asc_object asc"] by (auto simp: word_unat_eq_iff)
  have rate: "aacSampleRates ! unat (asc_index asc) \<noteq> 0"
  proof -
    have "unat (asc_index asc) \<in> {0, 1, 2, 3, 4, 5, 6, 7, 8, 9, 10, 11, 12}" using index by simp presburger
    then show ?thesis unfolding aacSampleRates_def by (elim insertE) (simp_all)
  qed
  have small: "x \<le> y \<longleftrightarrow> (ucast x :: 32 word) \<le> ucast y" for x y :: byte
    by (simp add: word_le_nat_alt unat_ucast_byte)
  have narrow: "(ucast (ucast (asc_channels asc) :: 32 word) :: byte) = asc_channels asc"
    by (rule bit_word_eqI) (auto simp: bit_simps)
  show ?thesis
    using assms(1) index not15 not31 rate small[of 1] small[of _ 2] narrow
    by (simp add: parseAudioSpecificConfig_def first_fields Let_def unat_ucast_byte aacSampleRates_def)
qed

text \<open>
  Every AAC-LC track (object type 2) is written into the merged file with a rate of 64000 Hz, whatever
  its rate is: the reader of the merge takes the object type for the frequency index.
\<close>

theorem merged_audio_rate_is_64000:
  assumes "2 \<le> length asc" and "asc_object asc = 2" and "asc_index asc < 13"
  shows "snd (parseAudioConfig asc) = 64000
    \<and> map_option fst (parseAudioSpecificConfig asc) = Some (aacSampleRates ! unat (asc_index asc))"
proof -
  have "snd (parseAudioConfig asc) = 64000"
    using assms(1,2)
    by (simp add: parseAudioConfig_def Let_def asc_object_def mergeSampleRates_def)
  then show ?thesis using assms parse_plain[of asc] by simp
qed

theorem merged_audio_rate_witness:
  "snd (parseAudioConfig [0x12, 0x10]) = 64000
    \<and> map_option fst (parseAudioSpecificConfig [0x12, 0x10]) = Some 44100"
  using merged_audio_rate_is_64000[of "[0x12, 0x10]"]
  by (simp add: asc_object_def asc_index_def aacSampleRates_def)

end
