(* ===== verification/Mp4_Boxes.thy ===== *)
theory Mp4_Boxes
  imports Audio_Config
begin

text \<open>
  The index of a merged recording, \<open>merge/mp4merge.go\<close> and the track builders of
  \<open>merge/append.go\<close>: samples are grouped into chunks, and the \<open>moov\<close> box is built from them.
  Bytes are made of a box by the library go-mp4; here a box is a tree of the structures the code hands
  over, with the fields it computes (rate, volume, matrix, language and the reserved fields are
  constants of the source).
\<close>

section \<open>Boxes\<close>

record stsc_entry =
  sc_first :: "32 word"
  sc_samples :: "32 word"
  sc_description :: "32 word"

record descriptor =
  ds_tag :: byte
  ds_size :: "32 word"
  ds_data :: "byte list"

text \<open>
  \<open>Unsupported\<close> and \<open>Unreadable\<close> are what the reader of the library may find in a file: a type it does
  not know and a payload it cannot decode.
\<close>

datatype payload =
    Plain
  | Unsupported
  | Unreadable
  | Hdlr string
  | Mvhd "32 word" "32 word" "32 word"
  | Tkhd "32 word" "32 word" "32 word" "32 word"
  | Mdhd "32 word" "32 word"
  | VisualEntry "16 word" "16 word"
  | AudioEntry "16 word" "32 word"
  | AvcC byte byte byte "byte list list" "byte list list"
  | HvcC byte byte "(byte \<times> byte list list) list"
  | Esds "descriptor list"
  | Stts "(32 word \<times> 32 word) list"
  | Stss "32 word list"
  | Stsz "32 word" "32 word" "32 word list"
  | Stsc "stsc_entry list"
  | Stco "32 word list"
  | Co64 "64 word list"

datatype mbox = MBox (mb_type: string) (mb_payload: payload) (mb_kids: "mbox list")

section \<open>Samples, chunks and tracks\<close>

record mergedSample =
  ms_offset :: int
  ms_size :: "32 word"
  ms_dur :: "32 word"
  ms_key :: bool

record mergeChunk =
  mc_offset :: int
  mc_samples :: "mergedSample list"

record mergeTrack =
  mt_h265 :: bool
  mt_audio :: bool
  mt_sps :: "byte list"
  mt_pps :: "byte list"
  mt_vps :: "byte list"
  mt_aconf :: "byte list"
  mt_timescale :: "32 word"
  mt_width :: "16 word"
  mt_height :: "16 word"
  mt_dur :: "32 word"
  mt_chunks :: "mergeChunk list"

definition sampleList :: "mergeTrack \<Rightarrow> mergedSample list" where
  "sampleList tr = concat (map mc_samples (mt_chunks tr))"

text \<open>
  \<open>chunksFromSamples\<close>: a sample that starts where the last one ends joins its chunk.  The loop keeps
  the chunks made so far, the last one first.
\<close>

fun chunk_loop :: "mergedSample \<Rightarrow> mergedSample list \<Rightarrow> mergeChunk list \<Rightarrow> mergeChunk list" where
  "chunk_loop prev [] chunks = rev chunks"
| "chunk_loop prev (s # ss) chunks =
     (case chunks of
        [] \<Rightarrow> []
      | cur # rest \<Rightarrow>
          chunk_loop s ss
            (if ms_offset s = ms_offset prev + uint (ms_size prev)
             then cur\<lparr>mc_samples := mc_samples cur @ [s]\<rparr> # rest
             else \<lparr>mc_offset = ms_offset s, mc_samples = [s]\<rparr> # cur # rest))"

definition chunksFromSamples :: "mergedSample list \<Rightarrow> mergeChunk list" where
  "chunksFromSamples samples =
     (case samples of
        [] \<Rightarrow> []
      | s # ss \<Rightarrow> chunk_loop s ss [\<lparr>mc_offset = ms_offset s, mc_samples = [s]\<rparr>])"

section \<open>Writing the index\<close>

datatype mux_error = ChunkOffsetOverflow int

text \<open>The loop of \<open>writeMergeStbl\<close> over the chunks: entries of \<open>stsc\<close> and offsets of \<open>stco\<close>.\<close>

fun chunk_tables :: "32 word \<Rightarrow> mergeChunk list \<Rightarrow> (mux_error, stsc_entry list \<times> 32 word list) res" where
  "chunk_tables k [] = Ok ([], [])"
| "chunk_tables k (c # cs) =
     (if mc_samples c = [] then chunk_tables k cs
      else if mc_offset c < 0 \<or> mc_offset c > 0xFFFFFFFF then Err (ChunkOffsetOverflow (mc_offset c))
      else bind (chunk_tables (k + 1) cs) (\<lambda>(scs, offs).
        Ok (\<lparr>sc_first = k, sc_samples = of_nat (length (mc_samples c)), sc_description = 1\<rparr> # scs,
            of_int (mc_offset c) # offs)))"

definition stts_table :: "mergedSample list \<Rightarrow> (32 word \<times> 32 word) list" where
  "stts_table samples = map (\<lambda>s. (1, ms_dur s)) samples"

text \<open>\<open>writeMergeSTSS\<close>: numbers of the key frames, no box when all or none are.\<close>

definition stss_numbers :: "mergedSample list \<Rightarrow> 32 word list" where
  "stss_numbers samples = map (\<lambda>i. of_nat (i + 1)) (filter (\<lambda>i. ms_key (samples ! i)) [0..<length samples])"

definition writeMergeSTSS :: "mergeTrack \<Rightarrow> mergedSample list \<Rightarrow> mbox list" where
  "writeMergeSTSS tr samples =
     (let nums = stss_numbers samples in
      if mt_audio tr \<or> samples = [] \<or> nums = [] \<or> length nums = length samples then []
      else [MBox ''stss'' (Stss nums) []])"

definition buildMergeEsds :: "byte list \<Rightarrow> payload" where
  "buildMergeEsds conf = Esds
     [\<lparr>ds_tag = 3, ds_size = of_nat (25 + length conf), ds_data = []\<rparr>,
      \<lparr>ds_tag = 4, ds_size = of_nat (13 + length conf), ds_data = []\<rparr>,
      \<lparr>ds_tag = 5, ds_size = of_nat (length conf), ds_data = conf\<rparr>,
      \<lparr>ds_tag = 6, ds_size = 1, ds_data = [2]\<rparr>]"

definition writeMergeAudioSampleEntry :: "mergeTrack \<Rightarrow> mbox" where
  "writeMergeAudioSampleEntry tr =
     (let (ch, rate) = parseAudioConfig (mt_aconf tr)
      in MBox ''mp4a'' (AudioEntry ch (push_bit 16 rate))
           [MBox ''esds'' (buildMergeEsds (mt_aconf tr)) []])"

text \<open>\<open>tr.sps[1]\<close> to \<open>tr.sps[3]\<close> are read without a check of the length.\<close>

definition writeMergeH264SampleEntry :: "mergeTrack \<Rightarrow> (mux_error, mbox) res" where
  "writeMergeH264SampleEntry tr =
     bind (index_at (mt_sps tr) 1) (\<lambda>profile.
     bind (index_at (mt_sps tr) 2) (\<lambda>compat.
     bind (index_at (mt_sps tr) 3) (\<lambda>level.
       Ok (MBox ''avc1'' (VisualEntry (mt_width tr) (mt_height tr))
            [MBox ''avcC'' (AvcC profile compat level [mt_sps tr] [mt_pps tr]) []]))))"

definition buildMergeHvcC :: "byte list \<Rightarrow> byte list \<Rightarrow> byte list \<Rightarrow> payload" where
  "buildMergeHvcC vps sps pps =
     HvcC (if 1 < length sps then sps ! 1 else 0) (if 12 < length sps then sps ! 12 else 0)
       [(32, [vps]), (33, [sps]), (34, [pps])]"

definition writeMergeH265SampleEntry :: "mergeTrack \<Rightarrow> mbox" where
  "writeMergeH265SampleEntry tr =
     MBox ''hvc1'' (VisualEntry (mt_width tr) (mt_height tr))
       [MBox ''hvcC'' (buildMergeHvcC (mt_vps tr) (mt_sps tr) (mt_pps tr)) []]"

definition sample_entry_box :: "mergeTrack \<Rightarrow> (mux_error, mbox) res" where
  "sample_entry_box tr =
     (if mt_audio tr then Ok (writeMergeAudioSampleEntry tr)
      else if mt_h265 tr then Ok (writeMergeH265SampleEntry tr)
      else writeMergeH264SampleEntry tr)"

definition writeMergeStbl :: "mergeTrack \<Rightarrow> (mux_error, mbox) res" where
  "writeMergeStbl tr =
     (let samples = sampleList tr in
      bind (sample_entry_box tr) (\<lambda>entry.
      bind (chunk_tables 1 (mt_chunks tr)) (\<lambda>(scs, offs).
        Ok (MBox ''stbl'' Plain
             ([MBox ''stsd'' Plain [entry], MBox ''stts'' (Stts (stts_table samples)) []]
              @ writeMergeSTSS tr samples
              @ [MBox ''stsc'' (Stsc scs) [],
                 MBox ''stsz'' (Stsz 0 (of_nat (length samples)) (map ms_size samples)) [],
                 MBox ''stco'' (Stco offs) []])))))"

definition writeMergeMinf :: "mergeTrack \<Rightarrow> (mux_error, mbox) res" where
  "writeMergeMinf tr =
     bind (writeMergeStbl tr) (\<lambda>stbl.
       Ok (MBox ''minf'' Plain
            [MBox (if mt_audio tr then ''smhd'' else ''vmhd'') Plain [],
             MBox ''dinf'' Plain [MBox ''dref'' Plain [MBox ''url '' Plain []]],
             stbl]))"

definition writeMergeMdia :: "mergeTrack \<Rightarrow> (mux_error, mbox) res" where
  "writeMergeMdia tr =
     bind (writeMergeMinf tr) (\<lambda>minf.
       Ok (MBox ''mdia'' Plain
            [MBox ''mdhd'' (Mdhd (mt_timescale tr) (mt_dur tr)) [],
             MBox ''hdlr'' (Hdlr (if mt_audio tr then ''soun'' else ''vide'')) [],
             minf]))"

definition writeMergeTrak :: "mergeTrack \<Rightarrow> (mux_error, mbox) res" where
  "writeMergeTrak tr =
     bind (writeMergeMdia tr) (\<lambda>mdia.
       Ok (MBox ''trak'' Plain
            [MBox ''tkhd'' (Tkhd (if mt_audio tr then 2 else 1) (mt_dur tr)
                (push_bit 16 (ucast (mt_width tr))) (push_bit 16 (ucast (mt_height tr)))) [],
             mdia]))"

definition writeMergeMvhd :: "mergeTrack \<Rightarrow> bool \<Rightarrow> mbox" where
  "writeMergeMvhd tr hasAudio =
     MBox ''mvhd'' (Mvhd (mt_timescale tr) (mt_dur tr) (if hasAudio then 3 else 2)) []"

definition writeMergeMoov :: "mergeTrack \<Rightarrow> mergeTrack option \<Rightarrow> (mux_error, mbox) res" where
  "writeMergeMoov video audio =
     bind (writeMergeTrak video) (\<lambda>v.
       case audio of
         None \<Rightarrow> Ok (MBox ''moov'' Plain [writeMergeMvhd video False, v])
       | Some tr \<Rightarrow> bind (writeMergeTrak tr) (\<lambda>a.
           Ok (MBox ''moov'' Plain [writeMergeMvhd video True, v, a])))"

section \<open>Chunks cover the samples\<close>

text \<open>The samples of a chunk lie one behind the other from its offset.\<close>

fun contiguous :: "int \<Rightarrow> mergedSample list \<Rightarrow> bool" where
  "contiguous off [] = True"
| "contiguous off (s # ss) = (ms_offset s = off \<and> contiguous (off + uint (ms_size s)) ss)"

definition chunk_ok :: "mergeChunk \<Rightarrow> bool" where
  "chunk_ok c \<longleftrightarrow> mc_samples c \<noteq> [] \<and> contiguous (mc_offset c) (mc_samples c)"

lemma contiguous_snoc:
  "contiguous off (xs @ [p]) \<Longrightarrow> ms_offset s = ms_offset p + uint (ms_size p) \<Longrightarrow>
     contiguous off (xs @ [p, s])"
  by (induction xs arbitrary: off) auto

lemma chunk_loop_ok:
  assumes "list_all chunk_ok chunks" and "chunks = cur # rest" and "mc_samples cur = xs @ [prev]"
  shows "list_all chunk_ok (chunk_loop prev ss chunks)
    \<and> concat (map mc_samples (chunk_loop prev ss chunks)) = concat (map mc_samples (rev chunks)) @ ss"
  using assms
proof (induction ss arbitrary: prev chunks cur rest xs)
  case Nil
  then show ?case by simp
next
  case (Cons s ss)
  show ?case
  proof (cases "ms_offset s = ms_offset prev + uint (ms_size prev)")
    case True
    with Cons.prems show ?thesis
      using Cons.IH[of "cur\<lparr>mc_samples := mc_samples cur @ [s]\<rparr> # rest" _ rest "xs @ [prev]" s]
      by (simp add: chunk_ok_def contiguous_snoc)
  next
    case False
    with Cons.prems show ?thesis
      using Cons.IH[of "\<lparr>mc_offset = ms_offset s, mc_samples = [s]\<rparr> # chunks" _ chunks "[]" s]
      by (simp add: chunk_ok_def)
  qed
qed

lemma chunks_cover:
  "list_all chunk_ok (chunksFromSamples samples)"
  "concat (map mc_samples (chunksFromSamples samples)) = samples"
proof -
  have "list_all chunk_ok (chunksFromSamples samples)
    \<and> concat (map mc_samples (chunksFromSamples samples)) = samples"
  proof (cases samples)
    case Nil
    then show ?thesis by (simp add: chunksFromSamples_def)
  next
    case (Cons s ss)
    then show ?thesis
      using chunk_loop_ok[of "[\<lparr>mc_offset = ms_offset s, mc_samples = [s]\<rparr>]"
          "\<lparr>mc_offset = ms_offset s, mc_samples = [s]\<rparr>" "[]" "[]" s ss]
      by (simp add: chunksFromSamples_def chunk_ok_def)
  qed
  then show "list_all chunk_ok (chunksFromSamples samples)"
    and "concat (map mc_samples (chunksFromSamples samples)) = samples" by blast+
qed

end
