(* ===== verification/Mp4_Parser.thy ===== *)
theory Mp4_Parser
  imports Mp4_Boxes "HOL-Library.Signed_Division"
begin

text \<open>
  Reading the index of a segment, \<open>merge/parser.go\<close>: the walk over the boxes of a file, the expansion
  of the sample tables into one entry per sample, and the detection of key frames.  The library
  go-mp4 reads boxes; what it calls back with is a tree of \<open>pbox\<close>: type, offset, size and content.
\<close>

datatype pbox = PBox (pb_type: string) (pb_offset: int) (pb_size: int) (pb_payload: payload) (pb_kids: "pbox list")

record sampleEntry =
  sm_offset :: int
  sm_size :: "32 word"
  sm_dur :: "32 word"
  sm_key :: bool

record trackAccum =
  ta_handler :: string
  ta_timescale :: "32 word"
  ta_codec :: string
  ta_sps :: "byte list"
  ta_pps :: "byte list"
  ta_vps :: "byte list"
  ta_width :: "16 word"
  ta_height :: "16 word"
  ta_aconf :: "byte list"
  ta_stts :: "(32 word \<times> 32 word) list"
  ta_sizes :: "32 word list"
  ta_uniform :: "32 word"
  ta_count :: "32 word"
  ta_stsc :: "stsc_entry list"
  ta_stco :: "32 word list"
  ta_co64 :: "64 word list"

definition empty_track :: trackAccum where
  "empty_track = \<lparr>ta_handler = '''', ta_timescale = 0, ta_codec = '''', ta_sps = [], ta_pps = [], ta_vps = [],
     ta_width = 0, ta_height = 0, ta_aconf = [], ta_stts = [], ta_sizes = [], ta_uniform = 0, ta_count = 0,
     ta_stsc = [], ta_stco = [], ta_co64 = []\<rparr>"

datatype parse_error =
    BoxTooLarge string
  | PayloadError string
  | NoVideoTrack
  | NoMdhd
  | NoSamples
  | NoStsc
  | NoChunkOffsets
  | SampleCountMismatch nat nat
  | ReadSample nat

section \<open>The walk over the boxes\<close>

fun hvc_array :: "byte \<times> byte list list \<Rightarrow> trackAccum \<Rightarrow> trackAccum" where
  "hvc_array (ty, []) t = t"
| "hvc_array (ty, nal # _) t =
     (if ty = 32 then t\<lparr>ta_vps := nal\<rparr>
      else if ty = 33 then t\<lparr>ta_sps := nal\<rparr>
      else if ty = 34 then t\<lparr>ta_pps := nal\<rparr>
      else t)"

definition esds_descriptor :: "descriptor \<Rightarrow> trackAccum \<Rightarrow> trackAccum" where
  "esds_descriptor d t = (if ds_tag d = 5 \<and> ds_data d \<noteq> [] then t\<lparr>ta_aconf := ds_data d\<rparr> else t)"

text \<open>The switch of the callback on the type of the box.\<close>

fun accumulate :: "payload \<Rightarrow> trackAccum \<Rightarrow> trackAccum" where
  "accumulate (Hdlr h) t = t\<lparr>ta_handler := h\<rparr>"
| "accumulate (VisualEntry w h) t = t\<lparr>ta_width := w, ta_height := h\<rparr>"
| "accumulate (Mdhd ts d) t = t\<lparr>ta_timescale := ts\<rparr>"
| "accumulate (Stts es) t = t\<lparr>ta_stts := es\<rparr>"
| "accumulate (Stsz uniform cnt sizes) t =
     (if uniform \<noteq> 0 then t\<lparr>ta_count := cnt, ta_uniform := uniform\<rparr>
      else t\<lparr>ta_count := cnt, ta_sizes := sizes\<rparr>)"
| "accumulate (Stsc es) t = t\<lparr>ta_stsc := es\<rparr>"
| "accumulate (Stco offs) t = t\<lparr>ta_stco := offs\<rparr>"
| "accumulate (Co64 offs) t = t\<lparr>ta_co64 := offs\<rparr>"
| "accumulate (AvcC _ _ _ spss ppss) t =
     (let t = t\<lparr>ta_codec := ''h264''\<rparr>;
          t = (case spss of [] \<Rightarrow> t | sps # _ \<Rightarrow> t\<lparr>ta_sps := sps\<rparr>)
      in (case ppss of [] \<Rightarrow> t | pps # _ \<Rightarrow> t\<lparr>ta_pps := pps\<rparr>))"
| "accumulate (HvcC _ _ arrays) t = fold hvc_array arrays (t\<lparr>ta_codec := ''h265''\<rparr>)"
| "accumulate (Esds ds) t = fold esds_descriptor ds t"
| "accumulate _ t = t"

text \<open>
  What the callback collects: the last top-level \<open>mdat\<close> and \<open>moov\<close>, and the tracks, the current one
  first.
\<close>

record walk_state =
  ws_mdat :: "int \<times> int"
  ws_moov :: "int \<times> int"
  ws_tracks :: "trackAccum list"

text \<open>The callback without the descent: \<open>True\<close> in the result asks for the children (\<open>h.Expand()\<close>).\<close>

definition visit_box :: "int \<Rightarrow> bool \<Rightarrow> string \<Rightarrow> int \<Rightarrow> int \<Rightarrow> payload \<Rightarrow> walk_state
    \<Rightarrow> (parse_error, bool \<times> walk_state) res" where
  "visit_box fileSize outer ty off sz pay s =
     (if ty = ''mdat'' then Ok (False, if outer then s\<lparr>ws_mdat := (off, sz)\<rparr> else s)
      else
        let s = (if ty = ''moov'' \<and> outer then s\<lparr>ws_moov := (off, sz)\<rparr> else s) in
        if ty = ''trak'' then Ok (True, s\<lparr>ws_tracks := empty_track # ws_tracks s\<rparr>)
        else if sz > fileSize then Err (BoxTooLarge ty)
        else if pay = Unsupported then Ok (False, s)
        else if pay = Unreadable then Err (PayloadError ty)
        else (case ws_tracks s of
            [] \<Rightarrow> Ok (True, s)
          | t # ts \<Rightarrow> Ok (True, s\<lparr>ws_tracks := accumulate pay t # ts\<rparr>)))"

fun walk :: "int \<Rightarrow> bool \<Rightarrow> pbox \<Rightarrow> walk_state \<Rightarrow> (parse_error, walk_state) res"
and walks :: "int \<Rightarrow> bool \<Rightarrow> pbox list \<Rightarrow> walk_state \<Rightarrow> (parse_error, walk_state) res" where
  "walk fs outer (PBox ty off sz pay kids) s =
     bind (visit_box fs outer ty off sz pay s) (\<lambda>(expand, s').
       if expand then walks fs False kids s' else Ok s')"
| "walks fs outer [] s = Ok s"
| "walks fs outer (b # bs) s = bind (walk fs outer b s) (walks fs outer bs)"

section \<open>Sample tables\<close>

text \<open>
  The durations of \<open>buildSampleEntries\<close>: the head of the list is the entry in use with the samples it
  still covers; exhausted entries are skipped while another one follows.
\<close>

fun skip_empty :: "(32 word \<times> 32 word) list \<Rightarrow> (32 word \<times> 32 word) list" where
  "skip_empty ((cnt, d) # e # es) = (if cnt = 0 then skip_empty (e # es) else (cnt, d) # e # es)"
| "skip_empty es = es"

fun durations :: "nat \<Rightarrow> (32 word \<times> 32 word) list \<Rightarrow> 32 word list" where
  "durations 0 es = []"
| "durations (Suc n) es =
     (case skip_empty es of
        [] \<Rightarrow> 0 # durations n []
      | (cnt, d) # es' \<Rightarrow>
          if 0 < cnt then d # durations n ((cnt - 1, d) # es') else 0 # durations n ((cnt, d) # es'))"

text \<open>The innermost loop: up to \<open>k\<close> samples of a chunk, from the sizes that are left.\<close>

fun place_samples :: "nat \<Rightarrow> int \<Rightarrow> 32 word list \<Rightarrow> (int \<times> 32 word) list \<times> 32 word list" where
  "place_samples 0 off sizes = ([], sizes)"
| "place_samples (Suc k) off [] = ([], [])"
| "place_samples (Suc k) off (z # zs) =
     (case place_samples k (off + uint z) zs of (out, rest) \<Rightarrow> ((off, z) # out, rest))"

text \<open>The loop over the chunk numbers of one \<open>stsc\<close> entry with its break.\<close>

fun place_chunks :: "int list \<Rightarrow> nat \<Rightarrow> int list \<Rightarrow> 32 word list \<Rightarrow> (int \<times> 32 word) list \<times> 32 word list" where
  "place_chunks offs k [] sizes = ([], sizes)"
| "place_chunks offs k (c # cs) sizes =
     (if c < 1 \<or> int (length offs) \<le> c - 1 \<or> sizes = [] then ([], sizes)
      else case place_samples k (offs ! nat (c - 1)) sizes of (out, rest) \<Rightarrow>
           case place_chunks offs k cs rest of (out', rest') \<Rightarrow> (out @ out', rest'))"

fun place_entries :: "int list \<Rightarrow> stsc_entry list \<Rightarrow> 32 word list \<Rightarrow> (int \<times> 32 word) list \<times> 32 word list" where
  "place_entries offs [] sizes = ([], sizes)"
| "place_entries offs (e # es) sizes =
     (let lastChunk = (case es of [] \<Rightarrow> int (length offs) | e' # _ \<Rightarrow> uint (sc_first e') - 1)
      in case place_chunks offs (unat (sc_samples e)) [uint (sc_first e) .. lastChunk] sizes of (out, rest) \<Rightarrow>
         case place_entries offs es rest of (out', rest') \<Rightarrow> (out @ out', rest'))"

definition sample_entry :: "(int \<times> 32 word) \<times> 32 word \<Rightarrow> sampleEntry" where
  "sample_entry p = \<lparr>sm_offset = fst (fst p), sm_size = snd (fst p), sm_dur = snd p, sm_key = False\<rparr>"

definition buildSampleEntries ::
    "32 word list \<Rightarrow> stsc_entry list \<Rightarrow> int list \<Rightarrow> (32 word \<times> 32 word) list
       \<Rightarrow> (parse_error, sampleEntry list) res" where
  "buildSampleEntries sizes stsc chunkOffsets stts =
     (if sizes = [] then Ok []
      else if stsc = [] then Err NoStsc
      else if chunkOffsets = [] then Err NoChunkOffsets
      else case place_entries chunkOffsets stsc sizes of (placed, rest) \<Rightarrow>
        if rest \<noteq> [] then Err (SampleCountMismatch (length placed) (length sizes))
        else Ok (map sample_entry (zip placed (durations (length sizes) stts))))"

text \<open>\<open>buildTrackSamples\<close>: a uniform size is repeated, and 64-bit offsets win over 32-bit ones.\<close>

definition buildTrackSamples :: "trackAccum \<Rightarrow> (parse_error, sampleEntry list) res" where
  "buildTrackSamples t =
     buildSampleEntries
       (if ta_uniform t \<noteq> 0 then replicate (unat (ta_count t)) (ta_uniform t) else ta_sizes t)
       (ta_stsc t)
       (if ta_co64 t \<noteq> [] then map sint (ta_co64 t) else map uint (ta_stco t))
       (ta_stts t)"

section \<open>Key frames\<close>

text \<open>
  \<open>f.ReadAt\<close> of six bytes: a negative offset is an error, at the end of the file fewer bytes come back.
\<close>

definition read_at :: "byte list \<Rightarrow> int \<Rightarrow> nat \<Rightarrow> byte list option" where
  "read_at f off n = (if off < 0 then None else Some (take n (drop (nat off) f)))"

definition nal_is_key :: "string \<Rightarrow> byte \<Rightarrow> bool" where
  "nal_is_key codec b =
     (if codec = ''h264'' then b AND 0x1F = 5
      else if codec = ''h265'' then 16 \<le> (drop_bit 1 b AND 0x3F) \<and> (drop_bit 1 b AND 0x3F) \<le> 21
      else False)"

fun key_loop :: "byte list \<Rightarrow> string \<Rightarrow> nat \<Rightarrow> sampleEntry list \<Rightarrow> (parse_error, sampleEntry list) res" where
  "key_loop f codec i [] = Ok []"
| "key_loop f codec i (s # ss) =
     bind (if sm_size s < 5 then Ok s
           else case read_at f (sm_offset s) 6 of
               None \<Rightarrow> Err (ReadSample i)
             | Some buf \<Rightarrow>
                 Ok (if length buf < 5 then s else s\<lparr>sm_key := nal_is_key codec (buf ! 4)\<rparr>))
       (\<lambda>s'. bind (key_loop f codec (i + 1) ss) (\<lambda>ss'. Ok (s' # ss')))"

definition detectKeyframes :: "byte list \<Rightarrow> sampleEntry list \<Rightarrow> string \<Rightarrow> (parse_error, sampleEntry list) res" where
  "detectKeyframes f samples codec =
     (if samples = [] \<or> codec = '''' then Ok samples else key_loop f codec 0 samples)"

section \<open>A segment\<close>

record segmentInfo =
  si_codec :: string
  si_sps :: "byte list"
  si_pps :: "byte list"
  si_vps :: "byte list"
  si_timescale :: "32 word"
  si_width :: "16 word"
  si_height :: "16 word"
  si_count :: int
  si_duration :: int
  si_mdat :: "int \<times> int"
  si_moov :: "int \<times> int"
  si_samples :: "sampleEntry list"
  si_path :: string
  si_has_audio :: bool
  si_aconf :: "byte list"
  si_atimescale :: "32 word"
  si_acount :: int
  si_asamples :: "sampleEntry list"

text \<open>The 64-bit product of \<open>time.Duration\<close>, then the quotient; \<open>time.Second\<close> is \<open>10 ^ 9\<close>.\<close>

definition stts_duration :: "32 word \<Rightarrow> 32 word \<times> 32 word \<Rightarrow> int" where
  "stts_duration ts e =
     sint (word_of_int (uint (fst e) * uint (snd e) * 1000000000) :: 64 word) sdiv uint ts"

text \<open>The last track with handler \<open>soun\<close> is audio, the last other one video; tracks come newest first.\<close>

definition video_track :: "trackAccum list \<Rightarrow> trackAccum option" where
  "video_track ts = find (\<lambda>t. ta_handler t \<noteq> ''soun'') ts"

definition audio_track :: "trackAccum list \<Rightarrow> trackAccum option" where
  "audio_track ts = find (\<lambda>t. ta_handler t = ''soun'') ts"

definition with_audio :: "trackAccum option \<Rightarrow> segmentInfo \<Rightarrow> (parse_error, segmentInfo) res" where
  "with_audio au info =
     (case au of
        None \<Rightarrow> Ok info
      | Some t \<Rightarrow>
          if ta_count t = 0 \<or> ta_aconf t = [] then Ok info
          else bind (buildTrackSamples t) (\<lambda>ss.
            Ok (info\<lparr>si_has_audio := True, si_aconf := ta_aconf t, si_atimescale := ta_timescale t,
                     si_acount := int (length ss), si_asamples := ss\<rparr>)))"

text \<open>
  \<open>parseSegment\<close> of an open file: \<open>f\<close> are its bytes, \<open>boxes\<close> what the library reads from them.
\<close>

definition parseSegment :: "string \<Rightarrow> byte list \<Rightarrow> pbox list \<Rightarrow> bool \<Rightarrow> (parse_error, segmentInfo) res" where
  "parseSegment path f boxes detectKeys =
     bind (walks (int (length f)) True boxes \<lparr>ws_mdat = (0, 0), ws_moov = (0, 0), ws_tracks = []\<rparr>) (\<lambda>s.
     case video_track (ws_tracks s) of
       None \<Rightarrow> Err NoVideoTrack
     | Some v \<Rightarrow>
         if ta_timescale v = 0 then Err NoMdhd
         else if ta_count v = 0 then Err NoSamples
         else
           bind (buildTrackSamples v) (\<lambda>vs.
           bind (if detectKeys then detectKeyframes f vs (ta_codec v) else Ok vs) (\<lambda>vs.
             with_audio (audio_track (ws_tracks s))
               \<lparr>si_codec = ta_codec v, si_sps = ta_sps v, si_pps = ta_pps v, si_vps = ta_vps v,
                si_timescale = ta_timescale v, si_width = ta_width v, si_height = ta_height v,
                si_count = int (length vs), si_duration = sum_list (map (stts_duration (ta_timescale v)) (ta_stts v)),
                si_mdat = ws_mdat s, si_moov = ws_moov s, si_samples = vs, si_path = path,
                si_has_audio = False, si_aconf = [], si_atimescale = 0, si_acount = 0, si_asamples = []\<rparr>)))"

definition ParseSegment :: "string \<Rightarrow> byte list \<Rightarrow> pbox list \<Rightarrow> (parse_error, segmentInfo) res" where
  "ParseSegment path f boxes = parseSegment path f boxes True"

definition ParseSegmentTables :: "string \<Rightarrow> byte list \<Rightarrow> pbox list \<Rightarrow> (parse_error, segmentInfo) res" where
  "ParseSegmentTables path f boxes = parseSegment path f boxes False"

section \<open>What is written is read back\<close>

definition plain_entry :: "mergedSample \<Rightarrow> sampleEntry" where
  "plain_entry s = \<lparr>sm_offset = ms_offset s, sm_size = ms_size s, sm_dur = ms_dur s, sm_key = False\<rparr>"

lemma place_contiguous:
  "contiguous off ss \<Longrightarrow>
     place_samples (length ss) off (map ms_size ss @ rest) = (map (\<lambda>s. (ms_offset s, ms_size s)) ss, rest)"
  by (induction ss arbitrary: off) simp_all

lemma durations_of_ones: "durations (length ss) ((0, d) # stts_table ss) = map ms_dur ss"
proof (induction ss arbitrary: d)
  case Nil
  then show ?case by simp
next
  case (Cons s ss)
  have "skip_empty ((0, d) # stts_table (s # ss)) = (1, ms_dur s) # stts_table ss"
    by (cases ss) (simp_all add: stts_table_def)
  with Cons show ?case by simp
qed

lemma durations_stts: "durations (length ss) (stts_table ss) = map ms_dur ss"
proof (cases ss)
  case Nil
  then show ?thesis by simp
next
  case (Cons s ss')
  have "skip_empty (stts_table (s # ss')) = (1, ms_dur s) # stts_table ss'"
    by (cases ss') (simp_all add: stts_table_def)
  with Cons show ?thesis by (simp add: durations_of_ones)
qed

lemma chunk_tables_Cons:
  assumes "chunk_tables k (c # cs) = Ok (scs, offs)" and "mc_samples c \<noteq> []"
  obtains scs' offs' where "chunk_tables (k + 1) cs = Ok (scs', offs')" "0 \<le> mc_offset c" "mc_offset c \<le> 0xFFFFFFFF"
    "scs = \<lparr>sc_first = k, sc_samples = of_nat (length (mc_samples c)), sc_description = 1\<rparr> # scs'"
    "offs = of_int (mc_offset c) # offs'"
  using assms by (auto simp: go_simps split: if_splits)

lemma chunk_tables_first:
  "chunk_tables k cs = Ok (scs, offs) \<Longrightarrow> list_all chunk_ok cs \<Longrightarrow> cs \<noteq> [] \<Longrightarrow>
     \<exists>e es. scs = e # es \<and> sc_first e = k"
  by (cases cs) (auto simp: chunk_ok_def go_simps split: if_splits)

lemma place_tables:
  assumes "chunk_tables k cs = Ok (scs, offs)" and "list_all chunk_ok cs"
    and "uint k = int (length pre) + 1" and "length pre + length cs < 2 ^ 32"
    and "list_all (\<lambda>c. length (mc_samples c) < 2 ^ 32) cs"
  shows "place_entries (pre @ map uint offs) scs (map ms_size (concat (map mc_samples cs)))
    = (map (\<lambda>s. (ms_offset s, ms_size s)) (concat (map mc_samples cs)), [])"
  using assms
proof (induction cs arbitrary: k scs offs pre)
  case Nil
  then show ?case by simp
next
  case (Cons c cs)
  obtain scs' offs' where rest: "chunk_tables (k + 1) cs = Ok (scs', offs')"
    and off: "0 \<le> mc_offset c" "mc_offset c \<le> 0xFFFFFFFF"
    and scs: "scs = \<lparr>sc_first = k, sc_samples = of_nat (length (mc_samples c)), sc_description = 1\<rparr> # scs'"
    and offs: "offs = of_int (mc_offset c) # offs'"
    by (rule chunk_tables_Cons[OF Cons.prems(1)]) (use Cons.prems(2) in \<open>auto simp: chunk_ok_def\<close>)
  have c: "mc_samples c \<noteq> []" "contiguous (mc_offset c) (mc_samples c)"
    using Cons.prems by (simp_all add: chunk_ok_def)
  have o: "uint (of_int (mc_offset c) :: 32 word) = mc_offset c"
    using off by (simp add: take_bit_int_eq_self unsigned_of_int)
  have n: "unat (of_nat (length (mc_samples c)) :: 32 word) = length (mc_samples c)"
    using Cons.prems(5) by (simp add: unsigned_of_nat take_bit_nat_eq_self)
  have sizes: "map ms_size (mc_samples c) @ more \<noteq> []" for more using c by simp
  have single: "[int (length pre) + 1..1 + int (length pre)] = [int (length pre) + 1]"
    by (simp add: add.commute)
  show ?case
  proof (cases cs)
    case Nil
    with rest have "scs' = []" "offs' = []" by simp_all
    then show ?thesis
      using single Nil scs offs o n c sizes Cons.prems(3) place_contiguous[OF c(2), of "[]"]
      by (simp add: nth_append)
  next
    case (Cons c2 cs2)
    have k1: "uint (k + 1) = int (length (pre @ [mc_offset c])) + 1"
      using \<open>uint k = _\<close> Cons.prems Cons by (simp add: uint_word_ariths)
    obtain e es where e: "scs' = e # es" "sc_first e = k + 1"
      using chunk_tables_first[OF rest] Cons.prems Cons by auto
    have IH: "place_entries ((pre @ [mc_offset c]) @ map uint offs') scs' (map ms_size (concat (map mc_samples cs)))
        = (map (\<lambda>s. (ms_offset s, ms_size s)) (concat (map mc_samples cs)), [])"
      by (rule Cons.IH[OF rest _ k1]) (use Cons.prems in auto)
    with scs offs o n c sizes Cons.prems(3) e k1 single place_contiguous[OF c(2)]
    show ?thesis by (simp add: nth_append)
  qed
qed

text \<open>The tables of a track: they name exactly the samples of its chunks.\<close>

definition track_ok :: "mergeTrack \<Rightarrow> bool" where
  "track_ok tr \<longleftrightarrow>
     list_all chunk_ok (mt_chunks tr) \<and> mt_chunks tr \<noteq> [] \<and> length (sampleList tr) < 2 ^ 32 \<and> mt_timescale tr \<noteq> 0"

lemma chunks_le_samples: "list_all chunk_ok cs \<Longrightarrow> length cs \<le> length (concat (map mc_samples cs))"
proof (induction cs)
  case (Cons c cs)
  then show ?case by (cases "mc_samples c") (auto simp: chunk_ok_def)
qed simp

lemma chunk_le_samples:
  "c \<in> set cs \<Longrightarrow> length (mc_samples c) \<le> length (concat (map mc_samples cs))"
  by (induction cs) auto

lemma samples_nonempty: "track_ok tr \<Longrightarrow> sampleList tr \<noteq> []"
  by (cases "mt_chunks tr") (auto simp: track_ok_def sampleList_def chunk_ok_def)

lemma tables_read_back:
  assumes "track_ok tr" and "chunk_tables 1 (mt_chunks tr) = Ok (scs, offs)"
  shows "buildSampleEntries (map ms_size (sampleList tr)) scs (map uint offs) (stts_table (sampleList tr))
    = Ok (map plain_entry (sampleList tr))"
proof -
  have placed: "place_entries (map uint offs) scs (map ms_size (sampleList tr))
      = (map (\<lambda>s. (ms_offset s, ms_size s)) (sampleList tr), [])"
    unfolding sampleList_def
  proof (rule place_tables[where pre = "[]" and k = 1, simplified])
    show "chunk_tables 1 (mt_chunks tr) = Ok (scs, offs)" by (rule assms(2))
    show "list_all chunk_ok (mt_chunks tr)" using assms(1) by (simp add: track_ok_def)
    show "length (mt_chunks tr) < 4294967296"
      using assms(1) chunks_le_samples[of "mt_chunks tr"] by (simp add: track_ok_def sampleList_def)
    show "list_all (\<lambda>c. length (mc_samples c) < 4294967296) (mt_chunks tr)"
      using assms(1) chunk_le_samples[of _ "mt_chunks tr"]
      by (fastforce simp: track_ok_def sampleList_def list_all_iff)
  qed
  obtain c cs where cs: "mt_chunks tr = c # cs" "mc_samples c \<noteq> []"
    using assms(1) by (cases "mt_chunks tr") (auto simp: track_ok_def chunk_ok_def)
  then have "scs \<noteq> []" "offs \<noteq> []" using assms(2) by (auto simp: go_simps split: if_splits)
  moreover have "map sample_entry (zip (map (\<lambda>s. (ms_offset s, ms_size s)) ss) (map ms_dur ss))
      = map plain_entry ss" for ss
    by (induction ss) (simp_all add: sample_entry_def plain_entry_def)
  ultimately show ?thesis
    using placed samples_nonempty[OF assms(1)] by (simp add: buildSampleEntries_def durations_stts)
qed

section \<open>The boxes of a merged file\<close>

text \<open>
  What the reader of the library gives for a tree it wrote: the same types and contents; sizes are
  those of the file, so none exceeds it.
\<close>

fun shape :: "pbox \<Rightarrow> mbox" where
  "shape (PBox ty off sz pay kids) = MBox ty pay (map shape kids)"

fun fits :: "int \<Rightarrow> pbox \<Rightarrow> bool" where
  "fits fs (PBox ty off sz pay kids) = (sz \<le> fs \<and> (\<forall>b \<in> set kids. fits fs b))"

fun mwalk :: "mbox \<Rightarrow> trackAccum list \<Rightarrow> (parse_error, trackAccum list) res"
and mwalks :: "mbox list \<Rightarrow> trackAccum list \<Rightarrow> (parse_error, trackAccum list) res" where
  "mwalk (MBox ty pay kids) ts =
     (if ty = ''mdat'' then Ok ts
      else if ty = ''trak'' then mwalks kids (empty_track # ts)
      else if pay = Unsupported then Ok ts
      else if pay = Unreadable then Err (PayloadError ty)
      else mwalks kids (case ts of [] \<Rightarrow> [] | t # ts' \<Rightarrow> accumulate pay t # ts'))"
| "mwalks [] ts = Ok ts"
| "mwalks (b # bs) ts = bind (mwalk b ts) (mwalks bs)"

lemma walk_inner:
  "\<not> outer \<Longrightarrow> fits fs b \<Longrightarrow>
     walk fs outer b s = bind (mwalk (shape b) (ws_tracks s)) (\<lambda>ts. Ok (s\<lparr>ws_tracks := ts\<rparr>))"
  "\<not> outer \<Longrightarrow> (\<forall>b \<in> set bs. fits fs b) \<Longrightarrow>
     walks fs outer bs s = bind (mwalks (map shape bs) (ws_tracks s)) (\<lambda>ts. Ok (s\<lparr>ws_tracks := ts\<rparr>))"
proof (induction fs outer b s and fs outer bs s rule: walk_walks.induct)
  case (1 fs outer ty off sz pay kids s)
  then show ?case
    by (auto simp: visit_box_def Let_def split: list.splits)
next
  case (2 fs outer s)
  then show ?case by simp
next
  case (3 fs outer b bs s)
  then show ?case by (cases "mwalk (shape b) (ws_tracks s)") auto
qed

lemma mwalks_append: "mwalks (xs @ ys) ts = bind (mwalks xs ts) (mwalks ys)"
proof (induction xs arbitrary: ts)
  case (Cons x xs)
  then show ?case by (cases "mwalk x ts") simp_all
qed simp

text \<open>What the reader accumulates from the boxes of a track.\<close>

definition track_read :: "mergeTrack \<Rightarrow> stsc_entry list \<Rightarrow> 32 word list \<Rightarrow> trackAccum" where
  "track_read tr scs offs = empty_track
     \<lparr>ta_handler := (if mt_audio tr then ''soun'' else ''vide''),
      ta_timescale := mt_timescale tr,
      ta_codec := (if mt_audio tr then '''' else if mt_h265 tr then ''h265'' else ''h264''),
      ta_sps := (if mt_audio tr then [] else mt_sps tr),
      ta_pps := (if mt_audio tr then [] else mt_pps tr),
      ta_vps := (if \<not> mt_audio tr \<and> mt_h265 tr then mt_vps tr else []),
      ta_width := (if mt_audio tr then 0 else mt_width tr),
      ta_height := (if mt_audio tr then 0 else mt_height tr),
      ta_aconf := (if mt_audio tr then mt_aconf tr else []),
      ta_stts := stts_table (sampleList tr),
      ta_sizes := map ms_size (sampleList tr),
      ta_count := of_nat (length (sampleList tr)),
      ta_stsc := scs, ta_stco := offs\<rparr>"

lemma trak_read:
  assumes "writeMergeTrak tr = Ok m"
  obtains scs offs where "chunk_tables 1 (mt_chunks tr) = Ok (scs, offs)"
    and "\<And>ts. mwalk m ts = Ok (track_read tr scs offs # ts)"
proof -
  obtain entry scs offs where entry: "sample_entry_box tr = Ok entry"
    and tables: "chunk_tables 1 (mt_chunks tr) = Ok (scs, offs)"
    and m: "m = MBox ''trak'' Plain
            [MBox ''tkhd'' (Tkhd (if mt_audio tr then 2 else 1) (mt_dur tr)
                (push_bit 16 (ucast (mt_width tr))) (push_bit 16 (ucast (mt_height tr)))) [],
             MBox ''mdia'' Plain
            [MBox ''mdhd'' (Mdhd (mt_timescale tr) (mt_dur tr)) [],
             MBox ''hdlr'' (Hdlr (if mt_audio tr then ''soun'' else ''vide'')) [],
             MBox ''minf'' Plain
            [MBox (if mt_audio tr then ''smhd'' else ''vmhd'') Plain [],
             MBox ''dinf'' Plain [MBox ''dref'' Plain [MBox ''url '' Plain []]],
             MBox ''stbl'' Plain
             ([MBox ''stsd'' Plain [entry], MBox ''stts'' (Stts (stts_table (sampleList tr))) []]
              @ writeMergeSTSS tr (sampleList tr)
              @ [MBox ''stsc'' (Stsc scs) [],
                 MBox ''stsz'' (Stsz 0 (of_nat (length (sampleList tr))) (map ms_size (sampleList tr))) [],
                 MBox ''stco'' (Stco offs) []])]]]"
    using assms
    by (auto simp: writeMergeTrak_def writeMergeMdia_def writeMergeMinf_def writeMergeStbl_def Let_def go_simps)
  have stss: "mwalks (writeMergeSTSS tr ss @ bs) ts = mwalks bs ts" if "ts \<noteq> []" for ss bs ts
    using that by (cases ts) (auto simp: writeMergeSTSS_def Let_def)
  have "mwalk m ts = Ok (track_read tr scs offs # ts)" for ts
  proof (cases "mt_audio tr")
    case True
    with entry m show ?thesis
      by (auto simp: sample_entry_box_def writeMergeAudioSampleEntry_def buildMergeEsds_def
          esds_descriptor_def stss track_read_def Let_def empty_track_def split: prod.splits)
  next
    case False
    with entry m show ?thesis
      by (auto simp: sample_entry_box_def writeMergeH265SampleEntry_def writeMergeH264SampleEntry_def
          buildMergeHvcC_def stss track_read_def Let_def go_simps empty_track_def split: if_splits)
  qed
  with tables show ?thesis by (rule that)
qed

definition merged_info :: "string \<Rightarrow> mergeTrack \<Rightarrow> mergeTrack option \<Rightarrow> int \<times> int \<Rightarrow> int \<times> int \<Rightarrow> segmentInfo" where
  "merged_info path v audio mdat moov =
     \<lparr>si_codec = (if mt_h265 v then ''h265'' else ''h264''), si_sps = mt_sps v, si_pps = mt_pps v,
      si_vps = (if mt_h265 v then mt_vps v else []), si_timescale = mt_timescale v,
      si_width = mt_width v, si_height = mt_height v, si_count = int (length (sampleList v)),
      si_duration = sum_list (map (stts_duration (mt_timescale v)) (stts_table (sampleList v))),
      si_mdat = mdat, si_moov = moov, si_samples = map plain_entry (sampleList v), si_path = path,
      si_has_audio = (audio \<noteq> None),
      si_aconf = (case audio of None \<Rightarrow> [] | Some a \<Rightarrow> mt_aconf a),
      si_atimescale = (case audio of None \<Rightarrow> 0 | Some a \<Rightarrow> mt_timescale a),
      si_acount = (case audio of None \<Rightarrow> 0 | Some a \<Rightarrow> int (length (sampleList a))),
      si_asamples = (case audio of None \<Rightarrow> [] | Some a \<Rightarrow> map plain_entry (sampleList a))\<rparr>"

lemma build_track_read:
  assumes "track_ok tr" and "chunk_tables 1 (mt_chunks tr) = Ok (scs, offs)"
  shows "buildTrackSamples (track_read tr scs offs) = Ok (map plain_entry (sampleList tr))"
  using tables_read_back[OF assms] by (simp add: buildTrackSamples_def track_read_def empty_track_def)

lemma count_nonzero:
  assumes "track_ok tr"
  shows "(of_nat (length (sampleList tr)) :: 32 word) \<noteq> 0"
proof -
  have "length (sampleList tr) < 2 ^ 32" using assms by (simp add: track_ok_def)
  then show ?thesis
    using samples_nonempty[OF assms] unat_of_nat_32[of "length (sampleList tr)"] by auto
qed

lemma moov_read:
  assumes "writeMergeMoov v audio = Ok m"
    and "case audio of None \<Rightarrow> True | Some a \<Rightarrow> track_ok a"
  shows "mb_type m = ''moov'' \<and> mb_payload m = Plain
    \<and> (\<exists>scs offs tas. chunk_tables 1 (mt_chunks v) = Ok (scs, offs)
        \<and> mwalks (mb_kids m) [] = Ok (tas @ [track_read v scs offs])
        \<and> (case audio of None \<Rightarrow> tas = []
            | Some a \<Rightarrow> \<exists>scs' offs'. chunk_tables 1 (mt_chunks a) = Ok (scs', offs') \<and> tas = [track_read a scs' offs']))"
proof -
  obtain vm where vm: "writeMergeTrak v = Ok vm" using assms(1) by (auto simp: writeMergeMoov_def go_simps)
  from vm obtain scs offs where v: "chunk_tables 1 (mt_chunks v) = Ok (scs, offs)"
      "\<And>ts. mwalk vm ts = Ok (track_read v scs offs # ts)" by (rule trak_read) blast
  show ?thesis
  proof (cases audio)
    case None
    with assms(1) vm v show ?thesis by (auto simp: writeMergeMoov_def writeMergeMvhd_def)
  next
    case (Some a)
    with assms(1) vm obtain am where am: "writeMergeTrak a = Ok am"
      and m: "m = MBox ''moov'' Plain [writeMergeMvhd v True, vm, am]"
      by (auto simp: writeMergeMoov_def go_simps)
    from am obtain scs' offs' where "chunk_tables 1 (mt_chunks a) = Ok (scs', offs')"
      "\<And>ts. mwalk am ts = Ok (track_read a scs' offs' # ts)" by (rule trak_read) blast
    with Some m v show ?thesis by (auto simp: writeMergeMvhd_def)
  qed
qed

lemma index_reads_back:
  assumes "writeMergeMoov v audio = Ok m" and "\<not> mt_audio v" and "track_ok v"
    and "case audio of None \<Rightarrow> True | Some a \<Rightarrow> mt_audio a \<and> track_ok a \<and> mt_aconf a \<noteq> []"
    and "map shape kids = mb_kids m" and "\<forall>b \<in> set kids. fits (int (length f)) b"
    and "fsz \<le> int (length f)" and "snd moov \<le> int (length f)"
  shows "ParseSegmentTables path f
      [PBox ''ftyp'' 0 fsz Plain [], PBox ''mdat'' (fst mdat) (snd mdat) p [],
       PBox ''moov'' (fst moov) (snd moov) Plain kids]
    = Ok (merged_info path v audio mdat moov)"
proof -
  let ?n = "int (length f)"
  let ?s = "\<lparr>ws_mdat = mdat, ws_moov = moov, ws_tracks = []\<rparr>"
  obtain scs offs tas where v: "chunk_tables 1 (mt_chunks v) = Ok (scs, offs)"
    and walked: "mwalks (mb_kids m) [] = Ok (tas @ [track_read v scs offs])"
    and tas: "case audio of None \<Rightarrow> tas = []
      | Some a \<Rightarrow> \<exists>scs' offs'. chunk_tables 1 (mt_chunks a) = Ok (scs', offs') \<and> tas = [track_read a scs' offs']"
    using moov_read[OF assms(1)] assms(4) by (auto split: option.splits)
  have walk: "walks ?n True [PBox ''ftyp'' 0 fsz Plain [], PBox ''mdat'' (fst mdat) (snd mdat) p [],
       PBox ''moov'' (fst moov) (snd moov) Plain kids] \<lparr>ws_mdat = (0, 0), ws_moov = (0, 0), ws_tracks = []\<rparr>
     = Ok (?s\<lparr>ws_tracks := tas @ [track_read v scs offs]\<rparr>)"
    using assms(5-8) walked walk_inner(2)[of False kids ?n ?s] by (simp add: visit_box_def)
  note built = build_track_read[OF assms(3) v]
  note fields = track_read_def empty_track_def
  show ?thesis
  proof (cases audio)
    case None
    with tas have "tas = []" by simp
    with None walk built assms(2,3) count_nonzero[OF assms(3)] show ?thesis
      by (simp add: ParseSegmentTables_def parseSegment_def video_track_def audio_track_def with_audio_def
          merged_info_def fields track_ok_def)
  next
    case (Some a)
    with tas obtain scs' offs' where a: "chunk_tables 1 (mt_chunks a) = Ok (scs', offs')"
      and tas: "tas = [track_read a scs' offs']" by auto
    have ok: "mt_audio a" "track_ok a" "mt_aconf a \<noteq> []" using assms(4) Some by simp_all
    note built' = build_track_read[OF ok(2) a]
    from Some walk tas built built' ok assms(2,3) count_nonzero[OF assms(3)] count_nonzero[OF ok(2)]
    show ?thesis
      by (simp add: ParseSegmentTables_def parseSegment_def video_track_def audio_track_def with_audio_def
          merged_info_def fields track_ok_def)
  qed
qed

text \<open>C27: 
  The index of a merged file reads back: the parser recovers codec, parameter sets, dimensions, time
  scale, the audio track, and for every sample its place, size and duration.
\<close>

theorem merged_index_reads_back:
  assumes "writeMergeMoov v audio = Ok m" and "\<not> mt_audio v" and "track_ok v"
    and "case audio of None \<Rightarrow> True | Some a \<Rightarrow> mt_audio a \<and> track_ok a \<and> mt_aconf a \<noteq> []"
    and "map shape kids = mb_kids m" and "\<forall>b \<in> set kids. fits (int (length f)) b"
    and "fsz \<le> int (length f)" and "snd moov \<le> int (length f)"
  shows "ParseSegmentTables path f
      [PBox ''ftyp'' 0 fsz Plain [], PBox ''mdat'' (fst mdat) (snd mdat) p [],
       PBox ''moov'' (fst moov) (snd moov) Plain kids]
    = Ok (merged_info path v audio mdat moov)"
  using assms by (rule index_reads_back)

fun lay_out :: "mbox \<Rightarrow> pbox" where
  "lay_out (MBox ty pay kids) = PBox ty 0 8 pay (map lay_out kids)"

lemma shape_lay_out: "shape (lay_out b) = b"
  by (induction b) (simp add: map_idI)

lemma fits_lay_out: "8 \<le> fs \<Longrightarrow> fits fs (lay_out b)"
  by (induction b) auto

definition two_sample_track :: mergeTrack where
  "two_sample_track = \<lparr>mt_h265 = False, mt_audio = False, mt_sps = [0x67, 66, 0, 30], mt_pps = [0x68], mt_vps = [],
     mt_aconf = [], mt_timescale = 90000, mt_width = 640, mt_height = 480, mt_dur = 7200,
     mt_chunks = [\<lparr>mc_offset = 40, mc_samples = [\<lparr>ms_offset = 40, ms_size = 5, ms_dur = 3600, ms_key = True\<rparr>,
       \<lparr>ms_offset = 45, ms_size = 7, ms_dur = 3600, ms_key = False\<rparr>]\<rparr>]\<rparr>"

definition two_sample_moov :: mbox where
  "two_sample_moov = (case writeMergeMoov two_sample_track None of Ok m \<Rightarrow> m | _ \<Rightarrow> MBox '''' Plain [])"

theorem merged_index_witness:
  "ParseSegmentTables ''a.mp4'' (replicate 64 0)
     [PBox ''ftyp'' 0 32 Plain [], PBox ''mdat'' 32 20 Plain [],
      PBox ''moov'' 52 12 Plain (map lay_out (mb_kids two_sample_moov))]
   = Ok (merged_info ''a.mp4'' two_sample_track None (32, 20) (52, 12))"
proof -
  have "writeMergeMoov two_sample_track None = Ok two_sample_moov"
    by (simp add: two_sample_moov_def two_sample_track_def writeMergeMoov_def writeMergeTrak_def writeMergeMdia_def
        writeMergeMinf_def writeMergeStbl_def sample_entry_box_def writeMergeH264SampleEntry_def sampleList_def Let_def)
  moreover have "track_ok two_sample_track"
    by (simp add: track_ok_def two_sample_track_def chunk_ok_def sampleList_def)
  ultimately show ?thesis
    using merged_index_reads_back[of two_sample_track None two_sample_moov
        "map lay_out (mb_kids two_sample_moov)" "replicate 64 0" 32 "(52, 12)" "''a.mp4''" "(32, 20)" Plain]
    by (simp add: shape_lay_out fits_lay_out o_def) (simp add: two_sample_track_def)
qed

text \<open>
  The writer panics on a H.264 track whose parameter set has fewer than four bytes; the parser leaves it
  empty when the configuration box has none.
\<close>

theorem short_sps_panics:
  assumes "\<not> mt_audio v" and "\<not> mt_h265 v" and "length (mt_sps v) < 4"
  shows "writeMergeMoov v audio = Panic"
proof -
  have "writeMergeH264SampleEntry v = Panic"
    using assms(3) by (cases "length (mt_sps v)" rule: nat.exhaust)
      (auto simp: writeMergeH264SampleEntry_def index_at_def panic_simps)
  then show ?thesis
    using assms by (simp add: writeMergeMoov_def writeMergeTrak_def writeMergeMdia_def writeMergeMinf_def
        writeMergeStbl_def sample_entry_box_def Let_def)
qed

text \<open>Without key flags no \<open>stss\<close> box is written, and readers then take every sample for a key frame.\<close>

lemma no_flags_no_stss:
  assumes "\<And>s. s \<in> set samples \<Longrightarrow> \<not> ms_key s"
  shows "writeMergeSTSS tr samples = []"
proof -
  have "stss_numbers samples = []" using assms by (simp add: stss_numbers_def filter_empty_conv)
  then show ?thesis by (simp add: writeMergeSTSS_def)
qed

end
