(* ===== verification/Go_File.thy ===== *)
theory Go_File
  imports Go_Prelude
begin

text \<open>
  Files as byte strings: what \<open>os.File\<close> does on a regular file with a write at an offset (the file
  grows, a gap is filled with zeros), a truncation and a read; and the splitting of a clean path with
  forward slashes into directory and name (\<open>filepath.Dir\<close>, \<open>Base\<close> and \<open>Join\<close>).
\<close>

section \<open>Writing and reading at an offset\<close>

definition pwrite :: "byte list \<Rightarrow> nat \<Rightarrow> byte list \<Rightarrow> byte list" where
  "pwrite f off bs =
     (if bs = [] then f
      else take off f @ replicate (off - length f) 0 @ bs @ drop (off + length bs) f)"

definition truncate_to :: "byte list \<Rightarrow> nat \<Rightarrow> byte list" where
  "truncate_to f n = take n f @ replicate (n - length f) 0"

definition pread :: "byte list \<Rightarrow> nat \<Rightarrow> nat \<Rightarrow> byte list" where
  "pread f off n = take n (drop off f)"

lemma length_pwrite: "bs \<noteq> [] \<Longrightarrow> length (pwrite f off bs) = max (length f) (off + length bs)"
  by (simp add: pwrite_def)

lemma length_pwrite_inside [simp]: "off + length bs \<le> length f \<Longrightarrow> length (pwrite f off bs) = length f"
  by (simp add: pwrite_def)

lemma pwrite_Nil [simp]: "pwrite f off [] = f"
  by (simp add: pwrite_def)

lemma pwrite_at_end [simp]: "pwrite f (length f) bs = f @ bs"
  by (simp add: pwrite_def)

lemma pwrite_append [simp]: "pwrite (xs @ ys) (length xs + k) bs = xs @ pwrite ys k bs"
  by (simp add: pwrite_def)

lemma pwrite_over: "length ys \<le> length bs \<Longrightarrow> pwrite (xs @ ys) (length xs) bs = xs @ bs" if "bs \<noteq> [] \<or> ys = []"
  using that by (auto simp: pwrite_def)

lemma pwrite_middle: "length ys = length bs \<Longrightarrow> pwrite (xs @ ys @ zs) (length xs) bs = xs @ bs @ zs"
  by (cases "bs = []") (simp_all add: pwrite_def)

lemma nth_pwrite_before: "i < off \<Longrightarrow> i < length f \<Longrightarrow> pwrite f off bs ! i = f ! i"
  by (simp add: pwrite_def nth_append)

lemma nth_pwrite_after:
  "off + length bs \<le> i \<Longrightarrow> i < length f \<Longrightarrow> pwrite f off bs ! i = f ! i"
proof -
  assume "off + length bs \<le> i" and i: "i < length f"
  then obtain j where "i = off + length bs + j" using le_Suc_ex by blast
  with i show ?thesis by (simp add: pwrite_def nth_append min_def)
qed

lemma pread_append [simp]: "pread (xs @ ys) (length xs + k) n = pread ys k n"
  by (simp add: pread_def)

lemma pread_append0 [simp]: "pread (xs @ ys) (length xs) n = pread ys 0 n"
  by (simp add: pread_def)

lemma pread_prefix: "off + n \<le> length xs \<Longrightarrow> pread (xs @ ys) off n = pread xs off n"
  by (simp add: pread_def)

lemma pread_pwrite_after:
  assumes "off + length bs \<le> k" and "off + length bs \<le> length f"
  shows "pread (pwrite f off bs) k n = pread f k n"
proof -
  obtain j where "k = off + length bs + j" using assms(1) le_Suc_ex by blast
  with assms(2) show ?thesis by (simp add: pwrite_def pread_def min_def add.commute add.left_commute)
qed

lemma pread_take: "off + n \<le> k \<Longrightarrow> pread (take k f) off n = pread f off n"
  by (simp add: pread_def drop_take min_def)

section \<open>Paths\<close>

definition path_dir :: "string \<Rightarrow> string" where
  "path_dir p = rev (dropWhile (\<lambda>c. c \<noteq> CHR ''/'') (rev p))"

definition path_base :: "string \<Rightarrow> string" where
  "path_base p = rev (takeWhile (\<lambda>c. c \<noteq> CHR ''/'') (rev p))"

text \<open>\<open>filepath.Join(filepath.Dir(p), name)\<close>.\<close>

definition sibling :: "string \<Rightarrow> string \<Rightarrow> string" where
  "sibling p name = path_dir p @ name"

lemma path_split: "path_dir p @ path_base p = p"
  unfolding path_dir_def path_base_def by (metis rev_append rev_rev_ident takeWhile_dropWhile_id)

lemma base_no_slash: "CHR ''/'' \<notin> set (path_base p)"
  unfolding path_base_def by (auto dest: set_takeWhileD)

lemma path_dir_sibling:
  assumes "CHR ''/'' \<notin> set name"
  shows "path_dir (sibling p name) = path_dir p" and "path_base (sibling p name) = name"
proof -
  have n: "\<forall>c \<in> set (rev name). c \<noteq> CHR ''/''" using assms by auto
  have d: "dropWhile (\<lambda>c. c \<noteq> CHR ''/'') (dropWhile (\<lambda>c. c \<noteq> CHR ''/'') xs) = dropWhile (\<lambda>c. c \<noteq> CHR ''/'') xs" for xs
    by (induction xs) auto
  have t: "takeWhile (\<lambda>c. c \<noteq> CHR ''/'') (dropWhile (\<lambda>c. c \<noteq> CHR ''/'') xs) = []" for xs
    by (induction xs) auto
  show "path_dir (sibling p name) = path_dir p"
    using n dropWhile_append2[of "rev name" "\<lambda>c. c \<noteq> CHR ''/''"] by (simp add: sibling_def path_dir_def d)
  show "path_base (sibling p name) = name"
    using n takeWhile_append2[of "rev name" "\<lambda>c. c \<noteq> CHR ''/''"] by (simp add: sibling_def path_base_def path_dir_def t)
qed

lemma path_eqI: "path_dir p = path_dir q \<Longrightarrow> path_base p = path_base q \<Longrightarrow> p = q"
  by (metis path_split)

end
