(* ===== verification/Mp4_Merge.thy ===== *)
theory Mp4_Merge
  imports Mp4_Parser Go_File Go_Strings
begin

text \<open>
  Merging segments into one file, \<open>MergeMP4Segments\<close> of \<open>merge/mp4merge.go\<close>: the checks that the
  segments fit, the copy of their samples behind each other, and the index at the end.  The bytes of the
  index are those the library writes for the tree of boxes (\<open>marshal\<close>); \<open>fs\<close> gives the contents
  of the segment files.
\<close>

datatype merge_error =
    NothingToMerge
  | CodecMismatch nat
  | ParameterMismatch nat
  | VpsMismatch nat
  | AudioPresence nat
  | AudioConfigMismatch nat
  | EmptyPath
  | OpenError string
  | SeekError
  | MuxError mux_error
  | NotAppendable
  | FileChanged

fun map_err :: "('e \<Rightarrow> 'f) \<Rightarrow> ('e, 'a) res \<Rightarrow> ('f, 'a) res" where
  "map_err f (Ok x) = Ok x"
| "map_err f (Err e) = Err (f e)"
| "map_err f Panic = Panic"

lemma map_err_Ok [simp]: "map_err f r = Ok x \<longleftrightarrow> r = Ok x"
  by (cases r) auto

section \<open>Checks\<close>

fun check_video :: "segmentInfo \<Rightarrow> nat \<Rightarrow> segmentInfo list \<Rightarrow> (merge_error, unit) res" where
  "check_video first i [] = Ok ()"
| "check_video first i (seg # segs) =
     (if si_codec seg \<noteq> si_codec first then Err (CodecMismatch i)
      else if 0 < i \<and> (si_sps seg \<noteq> si_sps first \<or> si_pps seg \<noteq> si_pps first) then Err (ParameterMismatch i)
      else if 0 < i \<and> si_codec first = ''h265'' \<and> si_vps seg \<noteq> si_vps first then Err (VpsMismatch i)
      else check_video first (i + 1) segs)"

fun check_audio :: "segmentInfo \<Rightarrow> nat \<Rightarrow> segmentInfo list \<Rightarrow> (merge_error, unit) res" where
  "check_audio first i [] = Ok ()"
| "check_audio first i (seg # segs) =
     (if i = 0 then check_audio first (i + 1) segs
      else if si_has_audio seg \<noteq> si_has_audio first then Err (AudioPresence i)
      else if si_has_audio seg \<and> si_aconf seg \<noteq> si_aconf first then Err (AudioConfigMismatch i)
      else check_audio first (i + 1) segs)"

section \<open>Copying samples\<close>

definition mergeBufferSize :: nat where "mergeBufferSize = 1048576"

text \<open>The loop of \<open>copySampleData\<close>: it stops early, without an error, at the end of the source.\<close>

function copy_loop :: "nat \<Rightarrow> byte list \<Rightarrow> nat \<Rightarrow> nat \<Rightarrow> byte list" where
  "copy_loop buf src pos remaining =
     (if remaining = 0 then []
      else let got = pread src pos (min buf remaining) in
        if got = [] then []
        else got @ copy_loop buf src (pos + length got) (remaining - length got))"
  by pat_completeness auto

termination by (relation "measure (\<lambda>(_, _, _, remaining). remaining)") auto

declare copy_loop.simps [simp del]

definition copySampleData :: "byte list \<Rightarrow> int \<Rightarrow> nat \<Rightarrow> (merge_error, byte list) res" where
  "copySampleData src off n =
     (if off < 0 then Err SeekError else Ok (copy_loop mergeBufferSize src (nat off) n))"

fun stream_samples :: "byte list \<Rightarrow> int \<Rightarrow> sampleEntry list \<Rightarrow> int
    \<Rightarrow> (merge_error, byte list \<times> mergedSample list \<times> int) res" where
  "stream_samples src start [] cur = Ok ([], [], cur)"
| "stream_samples src start (s # ss) cur =
     bind (copySampleData src (sm_offset s) (unat (sm_size s))) (\<lambda>bs.
     bind (stream_samples src start ss (cur + uint (sm_size s))) (\<lambda>(out, ms, cur').
       Ok (bs @ out,
           \<lparr>ms_offset = cur + start, ms_size = sm_size s, ms_dur = sm_dur s, ms_key = sm_key s\<rparr> # ms, cur')))"

text \<open>The loops over the segments: the audio pass skips segments without audio samples and sets no key flag.\<close>

definition pass_samples :: "bool \<Rightarrow> segmentInfo \<Rightarrow> sampleEntry list" where
  "pass_samples audio seg =
     (if audio then map (\<lambda>s. s\<lparr>sm_key := False\<rparr>) (si_asamples seg) else si_samples seg)"

fun stream_segments :: "(string \<Rightarrow> byte list option) \<Rightarrow> bool \<Rightarrow> int \<Rightarrow> segmentInfo list \<Rightarrow> int
    \<Rightarrow> (merge_error, byte list \<times> mergedSample list \<times> int) res" where
  "stream_segments fs audio start [] cur = Ok ([], [], cur)"
| "stream_segments fs audio start (seg # segs) cur =
     (if audio \<and> si_asamples seg = [] then stream_segments fs audio start segs cur
      else if \<not> audio \<and> si_path seg = '''' then Err EmptyPath
      else case fs (si_path seg) of
          None \<Rightarrow> Err (OpenError (si_path seg))
        | Some src \<Rightarrow>
            bind (stream_samples src start (pass_samples audio seg) cur) (\<lambda>(out, ms, cur').
            bind (stream_segments fs audio start segs cur') (\<lambda>(out', ms', cur'').
              Ok (out @ out', ms @ ms', cur''))))"

section \<open>The merged file\<close>

definition writeMergeFtyp :: "string \<Rightarrow> byte list" where
  "writeMergeFtyp codec =
     (let brands = [''isom'', ''iso2'', ''mp41''] @
            (if codec = ''h264'' then [''avc1''] else if codec = ''h265'' then [''hev1''] else [])
      in be_bytes 4 (of_nat (8 + 4 + 4 + 4 * length brands) :: 32 word) @ bytes_of_string ''ftyp''
         @ bytes_of_string ''isom'' @ be_bytes 4 (0 :: 32 word) @ concat (map bytes_of_string brands))"

definition merged_video_track :: "segmentInfo \<Rightarrow> int \<Rightarrow> mergedSample list \<Rightarrow> mergeTrack" where
  "merged_video_track first start vs =
     \<lparr>mt_h265 = (si_codec first = ''h265''), mt_audio = False, mt_sps = si_sps first, mt_pps = si_pps first,
      mt_vps = si_vps first, mt_aconf = [], mt_timescale = si_timescale first, mt_width = si_width first,
      mt_height = si_height first, mt_dur = sum_list (map ms_dur vs),
      mt_chunks = [\<lparr>mc_offset = start, mc_samples = vs\<rparr>]\<rparr>"

definition merged_audio_track :: "segmentInfo \<Rightarrow> int \<Rightarrow> mergedSample list \<Rightarrow> mergedSample list \<Rightarrow> mergeTrack" where
  "merged_audio_track first start vs as =
     \<lparr>mt_h265 = False, mt_audio = True, mt_sps = [], mt_pps = [], mt_vps = [], mt_aconf = si_aconf first,
      mt_timescale = si_atimescale first, mt_width = 0, mt_height = 0, mt_dur = sum_list (map ms_dur as),
      mt_chunks = [\<lparr>mc_offset = start + sum_list (map (\<lambda>s. uint (ms_size s)) vs), mc_samples = as\<rparr>]\<rparr>"

text \<open>
  \<open>MergeMP4Segments\<close>: the contents of the output file.  The header of \<open>mdat\<close> is patched when the
  size is known; the index goes where the samples should end.
\<close>

definition MergeMP4Segments ::
    "(mbox \<Rightarrow> byte list) \<Rightarrow> (string \<Rightarrow> byte list option) \<Rightarrow> segmentInfo list \<Rightarrow> (merge_error, byte list) res" where
  "MergeMP4Segments marshal fs segments =
     (case segments of
        [] \<Rightarrow> Err NothingToMerge
      | first # _ \<Rightarrow>
          bind (check_video first 0 segments) (\<lambda>_.
          bind (check_audio first 0 segments) (\<lambda>_.
          let ftyp = writeMergeFtyp (si_codec first); start = int (length ftyp) + 8 in
          bind (stream_segments fs False start segments 0) (\<lambda>(vout, vs, cur).
          bind (if si_has_audio first then stream_segments fs True start segments cur else Ok ([], [], cur))
            (\<lambda>(aout, as, cur).
          let f = ftyp @ [0, 0, 0, 0] @ bytes_of_string ''mdat'' @ vout @ aout;
              f = pwrite f (length ftyp) (be_bytes 4 (of_int (8 + cur) :: 32 word)) in
          bind (map_err MuxError (writeMergeMoov (merged_video_track first start vs)
                 (if si_has_audio first then Some (merged_audio_track first start vs as) else None))) (\<lambda>moov.
            Ok (pwrite f (nat (start + cur)) (marshal moov))))))))"

section \<open>The copy is exact\<close>

lemma copy_loop_exact: "0 < buf \<Longrightarrow> copy_loop buf src pos n = pread src pos n"
proof (induction buf src pos n rule: copy_loop.induct)
  case (1 buf src pos n)
  let ?got = "pread src pos (min buf n)"
  show ?case
  proof (cases "n = 0 \<or> ?got = []")
    case True
    then show ?thesis using 1(2) by (subst copy_loop.simps) (auto simp: pread_def Let_def)
  next
    case False
    have "pread src pos n = ?got @ pread src (pos + length ?got) (n - length ?got)"
    proof (cases "min buf n \<le> length src - pos")
      case True
      then have "length ?got = min buf n" by (simp add: pread_def)
      then show ?thesis
        using take_add[of "min buf n" "n - min buf n" "drop pos src"] by (simp add: pread_def add.commute)
    next
      case False
      then have "?got = drop pos src" by (auto simp: pread_def min_def split: if_splits)
      moreover have "pread src pos n = drop pos src"
        using False by (auto simp: pread_def min_def split: if_splits)
      ultimately show ?thesis using False by (simp add: pread_def)
    qed
    with False 1 show ?thesis by (subst copy_loop.simps) (simp add: Let_def)
  qed
qed

section \<open>What a merge produces\<close>

text \<open>Samples with their sources: the media the merge is about.\<close>

definition media :: "byte list \<times> sampleEntry \<Rightarrow> byte list" where
  "media p = pread (fst p) (nat (sm_offset (snd p))) (unat (sm_size (snd p)))"

definition sample_inside :: "byte list \<times> sampleEntry \<Rightarrow> bool" where
  "sample_inside p \<longleftrightarrow> 0 \<le> sm_offset (snd p) \<and> nat (sm_offset (snd p)) + unat (sm_size (snd p)) \<le> length (fst p)"

definition sources :: "(string \<Rightarrow> byte list option) \<Rightarrow> bool \<Rightarrow> segmentInfo list \<Rightarrow> (byte list \<times> sampleEntry) list" where
  "sources fs audio segs =
     concat (map (\<lambda>seg. map (Pair (case fs (si_path seg) of None \<Rightarrow> [] | Some b \<Rightarrow> b)) (pass_samples audio seg)) segs)"

fun relocate :: "int \<Rightarrow> sampleEntry list \<Rightarrow> mergedSample list" where
  "relocate off [] = []"
| "relocate off (s # ss) =
     \<lparr>ms_offset = off, ms_size = sm_size s, ms_dur = sm_dur s, ms_key = sm_key s\<rparr>
       # relocate (off + uint (sm_size s)) ss"

definition total_size :: "sampleEntry list \<Rightarrow> int" where
  "total_size ss = sum_list (map (\<lambda>s. uint (sm_size s)) ss)"

lemma total_size_simps [simp]:
  "total_size [] = 0" "total_size (s # ss) = uint (sm_size s) + total_size ss"
  "total_size (xs @ ys) = total_size xs + total_size ys"
  by (simp_all add: total_size_def)

lemma total_size_nonneg [simp]: "0 \<le> total_size ss"
  by (induction ss) simp_all

lemma relocate_append: "relocate off (xs @ ys) = relocate off xs @ relocate (off + total_size xs) ys"
  by (induction xs arbitrary: off) (simp_all add: add.assoc)

lemma length_relocate [simp]: "length (relocate off ss) = length ss"
  by (induction ss arbitrary: off) simp_all

lemma relocate_Nil [simp]: "relocate off ss = [] \<longleftrightarrow> ss = []"
  by (cases ss) simp_all

lemma contiguous_relocate: "contiguous off (relocate off ss)"
  by (induction ss arbitrary: off) simp_all

lemma relocate_sizes: "sum_list (map (\<lambda>s. uint (ms_size s)) (relocate off ss)) = total_size ss"
  by (induction ss arbitrary: off) simp_all

lemma length_media: "sample_inside p \<Longrightarrow> length (media p) = unat (sm_size (snd p))"
  by (auto simp: media_def sample_inside_def pread_def)

lemma stream_samples_inside:
  "\<forall>s \<in> set ss. sample_inside (src, s) \<Longrightarrow>
     stream_samples src start ss cur
       = Ok (concat (map (media \<circ> Pair src) ss), relocate (cur + start) ss, cur + total_size ss)"
proof (induction ss arbitrary: cur)
  case (Cons s ss)
  then have "copySampleData src (sm_offset s) (unat (sm_size s)) = Ok (media (src, s))"
    by (simp add: copySampleData_def sample_inside_def media_def copy_loop_exact mergeBufferSize_def)
  with Cons show ?case by (simp add: algebra_simps)
qed simp

text \<open>Every segment file can be opened and holds the samples its index names.\<close>

definition segments_complete :: "(string \<Rightarrow> byte list option) \<Rightarrow> segmentInfo list \<Rightarrow> bool" where
  "segments_complete fs segs \<longleftrightarrow>
     (\<forall>seg \<in> set segs. si_path seg \<noteq> '''' \<and> fs (si_path seg) \<noteq> None)
     \<and> (\<forall>p \<in> set (sources fs False segs @ sources fs True segs). sample_inside p)"

lemma sources_Cons:
  "sources fs audio (seg # segs)
    = map (Pair (case fs (si_path seg) of None \<Rightarrow> [] | Some b \<Rightarrow> b)) (pass_samples audio seg) @ sources fs audio segs"
  by (simp add: sources_def)

lemma segments_complete_Cons:
  "segments_complete fs (seg # segs) \<Longrightarrow> segments_complete fs segs"
  by (auto simp: segments_complete_def sources_Cons)

lemma stream_segments_complete:
  "segments_complete fs segs \<Longrightarrow>
     stream_segments fs audio start segs cur
       = Ok (concat (map media (sources fs audio segs)), relocate (cur + start) (map snd (sources fs audio segs)),
             cur + total_size (map snd (sources fs audio segs)))"
proof (induction segs arbitrary: cur)
  case Nil
  then show ?case by (simp add: sources_def)
next
  case (Cons seg segs)
  obtain src where src: "fs (si_path seg) = Some src" and path: "si_path seg \<noteq> ''''"
    using Cons.prems by (auto simp: segments_complete_def)
  let ?ss = "pass_samples audio seg"
  have inside: "\<forall>s \<in> set ?ss. sample_inside (src, s)"
    using Cons.prems src by (cases audio) (auto simp: segments_complete_def sources_Cons)
  note IH = Cons.IH[OF segments_complete_Cons[OF Cons.prems]]
  show ?case
  proof (cases "audio \<and> si_asamples seg = []")
    case True
    then have "?ss = []" by (simp add: pass_samples_def)
    with True IH src show ?thesis by (simp add: sources_Cons)
  next
    case False
    with IH src path stream_samples_inside[OF inside, of start cur] show ?thesis
      by (auto simp: sources_Cons relocate_append o_def algebra_simps)
  qed
qed

lemma relocated_media:
  assumes "\<forall>p \<in> set ps. sample_inside p" and "int (length pre) = off"
  shows "map (\<lambda>m. pread (pre @ concat (map media ps) @ post) (nat (ms_offset m)) (unat (ms_size m)))
      (relocate off (map snd ps)) = map media ps"
  using assms
proof (induction ps arbitrary: pre off)
  case (Cons p ps)
  have len: "length (media p) = unat (sm_size (snd p))" using Cons.prems by (simp add: length_media)
  have "map (\<lambda>m. pread ((pre @ media p) @ concat (map media ps) @ post) (nat (ms_offset m)) (unat (ms_size m)))
      (relocate (off + uint (sm_size (snd p))) (map snd ps)) = map media ps"
    by (rule Cons.IH) (use Cons.prems len in simp_all)
  moreover have "pread (pre @ media p @ rest) (nat off) (unat (sm_size (snd p))) = media p" for rest
    using Cons.prems(2) len by (auto simp: pread_def)
  ultimately show ?case by simp
qed simp

lemma length_concat_media:
  "\<forall>p \<in> set ps. sample_inside p \<Longrightarrow> int (length (concat (map media ps))) = total_size (map snd ps)"
  by (induction ps) (simp_all add: length_media)

text \<open>The tracks of the merged file, from the sources.\<close>

definition video_of :: "(string \<Rightarrow> byte list option) \<Rightarrow> segmentInfo list \<Rightarrow> mergedSample list" where
  "video_of fs segs =
     relocate (int (length (writeMergeFtyp (si_codec (hd segs)))) + 8) (map snd (sources fs False segs))"

definition audio_of :: "(string \<Rightarrow> byte list option) \<Rightarrow> segmentInfo list \<Rightarrow> mergedSample list" where
  "audio_of fs segs =
     relocate (int (length (writeMergeFtyp (si_codec (hd segs)))) + 8 + total_size (map snd (sources fs False segs)))
       (map snd (sources fs True segs))"

definition out_video_track :: "(string \<Rightarrow> byte list option) \<Rightarrow> segmentInfo list \<Rightarrow> mergeTrack" where
  "out_video_track fs segs =
     merged_video_track (hd segs) (int (length (writeMergeFtyp (si_codec (hd segs)))) + 8) (video_of fs segs)"

definition out_audio_track :: "(string \<Rightarrow> byte list option) \<Rightarrow> segmentInfo list \<Rightarrow> mergeTrack option" where
  "out_audio_track fs segs =
     (if si_has_audio (hd segs)
      then Some (merged_audio_track (hd segs) (int (length (writeMergeFtyp (si_codec (hd segs)))) + 8)
             (video_of fs segs) (audio_of fs segs))
      else None)"

text \<open>The bytes of the media in the output: video of all segments, then audio.\<close>

definition out_media :: "(string \<Rightarrow> byte list option) \<Rightarrow> segmentInfo list \<Rightarrow> byte list list" where
  "out_media fs segs =
     map media (sources fs False segs) @ (if si_has_audio (hd segs) then map media (sources fs True segs) else [])"

lemma merged_layout:
  assumes "MergeMP4Segments marshal fs segs = Ok out" and "segments_complete fs segs"
  obtains moov where
    "writeMergeMoov (out_video_track fs segs) (out_audio_track fs segs) = Ok moov"
    "out = writeMergeFtyp (si_codec (hd segs))
       @ be_bytes 4 (of_int (8 + int (length (concat (out_media fs segs)))) :: 32 word)
       @ bytes_of_string ''mdat'' @ concat (out_media fs segs) @ marshal moov"
proof -
  obtain first rest where segs: "segs = first # rest"
    using assms(1) by (cases segs) (simp_all add: MergeMP4Segments_def)
  let ?ftyp = "writeMergeFtyp (si_codec first)"
  let ?start = "int (length ?ftyp) + 8"
  let ?v = "sources fs False segs" and ?a = "sources fs True segs"
  have vlen: "int (length (concat (map media ?v))) = total_size (map snd ?v)"
    and alen: "int (length (concat (map media ?a))) = total_size (map snd ?a)"
    using assms(2) by (auto intro!: length_concat_media simp: segments_complete_def)
  note vs = stream_segments_complete[OF assms(2), of False ?start 0]
  note as = stream_segments_complete[OF assms(2), of True ?start "total_size (map snd ?v)"]
  have head: "pwrite (?ftyp @ [0, 0, 0, 0] @ m) (length ?ftyp) (be_bytes 4 (w :: 32 word))
      = ?ftyp @ be_bytes 4 w @ m" for m w
    by (rule pwrite_middle) simp
  have tail: "pwrite xs (nat n) zs = xs @ zs" if "int (length xs) = n" for xs zs :: "byte list" and n
  proof -
    have "nat n = length xs" using that by simp
    then show ?thesis using pwrite_at_end[of xs zs] by simp
  qed
  show ?thesis
  proof (cases "si_has_audio first")
    case True
    from assms(1) obtain moov where
      moov: "writeMergeMoov (out_video_track fs segs) (out_audio_track fs segs) = Ok moov"
      and out: "out = pwrite (pwrite (?ftyp @ [0, 0, 0, 0] @ bytes_of_string ''mdat'' @ concat (map media ?v) @ concat (map media ?a))
          (length ?ftyp) (be_bytes 4 (of_int (8 + (total_size (map snd ?v) + total_size (map snd ?a))) :: 32 word)))
        (nat (?start + (total_size (map snd ?v) + total_size (map snd ?a)))) (marshal moov)"
      using True segs vs as
      by (auto simp: MergeMP4Segments_def Let_def go_simps out_video_track_def out_audio_track_def
          video_of_def audio_of_def add.commute add.left_commute)
    have "out = (?ftyp @ be_bytes 4 (of_int (8 + (total_size (map snd ?v) + total_size (map snd ?a))) :: 32 word)
        @ bytes_of_string ''mdat'' @ concat (map media ?v) @ concat (map media ?a)) @ marshal moov"
      unfolding out head by (rule tail) (use vlen alen in \<open>simp add: bytes_of_string_def\<close>)
    moreover have "int (length (concat (out_media fs segs))) = total_size (map snd ?v) + total_size (map snd ?a)"
      and "concat (out_media fs segs) = concat (map media ?v) @ concat (map media ?a)" and "hd segs = first"
      using vlen alen True segs by (simp_all add: out_media_def)
    ultimately show ?thesis by (intro that[OF moov]) (simp only: append_assoc)
  next
    case False
    from assms(1) obtain moov where
      moov: "writeMergeMoov (out_video_track fs segs) (out_audio_track fs segs) = Ok moov"
      and out: "out = pwrite (pwrite (?ftyp @ [0, 0, 0, 0] @ bytes_of_string ''mdat'' @ concat (map media ?v))
          (length ?ftyp) (be_bytes 4 (of_int (8 + total_size (map snd ?v)) :: 32 word)))
        (nat (?start + total_size (map snd ?v))) (marshal moov)"
      using False segs vs
      by (auto simp: MergeMP4Segments_def Let_def go_simps out_video_track_def out_audio_track_def
          video_of_def audio_of_def add.commute add.left_commute)
    have "out = (?ftyp @ be_bytes 4 (of_int (8 + total_size (map snd ?v)) :: 32 word)
        @ bytes_of_string ''mdat'' @ concat (map media ?v)) @ marshal moov"
      unfolding out head by (rule tail) (use vlen in \<open>simp add: bytes_of_string_def\<close>)
    moreover have "int (length (concat (out_media fs segs))) = total_size (map snd ?v)"
      and "concat (out_media fs segs) = concat (map media ?v)" and "hd segs = first"
      using vlen False segs by (simp_all add: out_media_def)
    ultimately show ?thesis by (intro that[OF moov]) (simp only: append_assoc)
  qed
qed

lemma mt_fields [simp]:
  "sampleList (merged_video_track first start vs) = vs"
  "sampleList (merged_audio_track first start vs as) = as"
  by (simp_all add: sampleList_def merged_video_track_def merged_audio_track_def)

lemma out_video_samples: "sampleList (out_video_track fs segs) = video_of fs segs"
  by (simp add: out_video_track_def)

lemma out_video_ok:
  assumes "sources fs False segs \<noteq> []" and "length (sources fs False segs) < 2 ^ 32"
    and "si_timescale (hd segs) \<noteq> 0"
  shows "track_ok (out_video_track fs segs)" and "\<not> mt_audio (out_video_track fs segs)"
  using assms by (simp_all add: track_ok_def out_video_samples video_of_def)
    (simp_all add: out_video_track_def merged_video_track_def chunk_ok_def video_of_def contiguous_relocate)

lemma out_audio_ok:
  assumes "out_audio_track fs segs = Some a" and "sources fs True segs \<noteq> []" and "length (sources fs True segs) < 2 ^ 32"
    and "si_atimescale (hd segs) \<noteq> 0" and "si_aconf (hd segs) \<noteq> []"
  shows "track_ok a \<and> mt_audio a \<and> mt_aconf a \<noteq> [] \<and> sampleList a = audio_of fs segs"
  using assms by (auto simp: out_audio_track_def track_ok_def audio_of_def split: if_splits)
    (auto simp: merged_audio_track_def chunk_ok_def video_of_def audio_of_def contiguous_relocate relocate_sizes)

lemma media_plain_entry:
  "media (f, plain_entry m) = pread f (nat (ms_offset m)) (unat (ms_size m))"
  by (simp add: media_def plain_entry_def)

lemma merged_media_at_place:
  assumes "MergeMP4Segments marshal fs segs = Ok out" and "segments_complete fs segs"
  shows "map (\<lambda>s. media (out, plain_entry s)) (video_of fs segs) = map media (sources fs False segs)"
    and "si_has_audio (hd segs) \<Longrightarrow>
      map (\<lambda>s. media (out, plain_entry s)) (audio_of fs segs) = map media (sources fs True segs)"
proof -
  obtain moov where out: "out = writeMergeFtyp (si_codec (hd segs))
       @ be_bytes 4 (of_int (8 + int (length (concat (out_media fs segs)))) :: 32 word)
       @ bytes_of_string ''mdat'' @ concat (out_media fs segs) @ marshal moov" (is "_ = ?f @ ?n @ ?m @ _")
    by (rule merged_layout[OF assms])
  have inside: "\<forall>p \<in> set (sources fs audio segs). sample_inside p" for audio
    using assms(2) by (cases audio) (auto simp: segments_complete_def)
  have eight: "length (?f @ ?n @ ?m) = length ?f + 8" by (simp add: bytes_of_string_def)
  let ?more = "if si_has_audio (hd segs) then concat (map media (sources fs True segs)) else []"
  have "map (\<lambda>s. pread ((?f @ ?n @ ?m) @ concat (map media (sources fs False segs)) @ ?more @ marshal moov)
      (nat (ms_offset s)) (unat (ms_size s))) (video_of fs segs) = map media (sources fs False segs)"
    unfolding video_of_def by (rule relocated_media[OF inside]) (use eight in simp)
  then show "map (\<lambda>s. media (out, plain_entry s)) (video_of fs segs) = map media (sources fs False segs)"
    unfolding media_plain_entry out out_media_def by (cases "si_has_audio (hd segs)") simp_all
  assume audio: "si_has_audio (hd segs)"
  have "map (\<lambda>s. pread ((?f @ ?n @ ?m @ concat (map media (sources fs False segs)))
        @ concat (map media (sources fs True segs)) @ marshal moov)
      (nat (ms_offset s)) (unat (ms_size s))) (audio_of fs segs) = map media (sources fs True segs)"
    unfolding audio_of_def
    by (rule relocated_media[OF inside]) (use eight length_concat_media[OF inside, of False] in simp)
  then show "map (\<lambda>s. media (out, plain_entry s)) (audio_of fs segs) = map media (sources fs True segs)"
    unfolding media_plain_entry out out_media_def using audio by simp
qed


text \<open>A merge of complete segments that fit each other returns.\<close>

lemma merge_succeeds:
  assumes "segments_complete fs segs" and "segs \<noteq> []"
    and "check_video (hd segs) 0 segs = Ok ()" and "check_audio (hd segs) 0 segs = Ok ()"
    and "writeMergeMoov (out_video_track fs segs) (out_audio_track fs segs) = Ok moov"
  shows "\<exists>f. MergeMP4Segments marshal fs segs = Ok f"
proof -
  obtain first rest where segs: "segs = first # rest" using assms(2) by (cases segs) auto
  let ?start = "int (length (writeMergeFtyp (si_codec first))) + 8"
  note vs = stream_segments_complete[OF assms(1), of False ?start 0]
  note as = stream_segments_complete[OF assms(1), of True ?start "total_size (map snd (sources fs False segs))"]
  show ?thesis
    using assms(3-5) segs vs as
    by (cases "si_has_audio first")
      (auto simp: MergeMP4Segments_def Let_def out_video_track_def out_audio_track_def video_of_def audio_of_def
        add.commute add.left_commute)
qed

definition demo_segment :: "string \<Rightarrow> sampleEntry list \<Rightarrow> segmentInfo" where
  "demo_segment path ss =
     \<lparr>si_codec = ''h265'', si_sps = [], si_pps = [], si_vps = [], si_timescale = 90000, si_width = 0, si_height = 0,
      si_count = int (length ss), si_duration = 0, si_mdat = (0, 0), si_moov = (0, 0), si_samples = ss, si_path = path,
      si_has_audio = False, si_aconf = [], si_atimescale = 0, si_acount = 0, si_asamples = []\<rparr>"

definition demo_segments :: "segmentInfo list" where
  "demo_segments =
     [demo_segment ''a'' [\<lparr>sm_offset = 1, sm_size = 2, sm_dur = 40, sm_key = True\<rparr>],
      demo_segment ''b'' [\<lparr>sm_offset = 0, sm_size = 1, sm_dur = 41, sm_key = False\<rparr>]]"

definition demo_files :: "string \<Rightarrow> byte list option" where
  "demo_files = [''a'' \<mapsto> [9, 1, 2, 3], ''b'' \<mapsto> [7, 8]]"

definition demo_moov :: mbox where
  "demo_moov = (case writeMergeMoov (out_video_track demo_files demo_segments) None of Ok m \<Rightarrow> m | _ \<Rightarrow> MBox '''' Plain [])"

definition demo_merged :: "byte list" where
  "demo_merged = (case MergeMP4Segments (\<lambda>_. [0, 0, 0, 8]) demo_files demo_segments of Ok f \<Rightarrow> f | _ \<Rightarrow> [])"


text \<open>
  The size of \<open>mdat\<close> has 32 bits and is not checked: a merge of 4 GiB or more succeeds and writes a
  size that is too small, so a reader looks for the index inside the samples.
\<close>

theorem large_merge_wraps:
  assumes "MergeMP4Segments marshal fs segs = Ok out" and "segments_complete fs segs"
  shows "unat (be_word (pread out (length (writeMergeFtyp (si_codec (hd segs)))) 4) :: 32 word)
    = (8 + length (concat (out_media fs segs))) mod 2 ^ 32"
proof -
  obtain moov where "out = writeMergeFtyp (si_codec (hd segs))
       @ be_bytes 4 (of_int (8 + int (length (concat (out_media fs segs)))) :: 32 word)
       @ bytes_of_string ''mdat'' @ concat (out_media fs segs) @ marshal moov"
    by (rule merged_layout[OF assms])
  then have "be_word (pread out (length (writeMergeFtyp (si_codec (hd segs)))) 4)
      = (of_nat (8 + length (concat (out_media fs segs))) :: 32 word)"
    by (simp add: pread_def)
  then show ?thesis by (simp only: unsigned_of_nat take_bit_eq_mod) simp
qed

end
