(* ===== verification/Merge_Append.thy ===== *)
theory Merge_Append
  imports Mp4_Merge
begin

text \<open>
  Appending segments to an hour file in place, \<open>AppendMP4Samples\<close> of \<open>merge/append.go\<close>: the new samples
  overwrite the index, a new index follows them, and the size of \<open>mdat\<close> is patched last.  A write
  that fails leaves some state of the file, which the function puts right from the index it kept.
\<close>

fun validate_loop :: "segmentInfo \<Rightarrow> nat \<Rightarrow> segmentInfo list \<Rightarrow> (merge_error, unit) res" where
  "validate_loop first i [] = Ok ()"
| "validate_loop first i (seg # segs) =
     (if si_codec seg \<noteq> si_codec first then Err (CodecMismatch i)
      else if i = 0 then validate_loop first (i + 1) segs
      else if si_sps seg \<noteq> si_sps first \<or> si_pps seg \<noteq> si_pps first then Err (ParameterMismatch i)
      else if si_codec first = ''h265'' \<and> si_vps seg \<noteq> si_vps first then Err (VpsMismatch i)
      else if si_has_audio seg \<noteq> si_has_audio first then Err (AudioPresence i)
      else if si_has_audio seg \<and> si_aconf seg \<noteq> si_aconf first then Err (AudioConfigMismatch i)
      else validate_loop first (i + 1) segs)"

definition validateMergeSegments :: "segmentInfo list \<Rightarrow> (merge_error, unit) res" where
  "validateMergeSegments segs =
     (case segs of [] \<Rightarrow> Err NothingToMerge | first # _ \<Rightarrow> validate_loop first 0 segs)"

definition segmentAppendable :: "segmentInfo \<Rightarrow> int \<Rightarrow> bool" where
  "segmentAppendable info fileSize \<longleftrightarrow>
     si_path info \<noteq> '''' \<and> 0 \<le> fst (si_mdat info) \<and> 8 \<le> snd (si_mdat info)
     \<and> 0 < fst (si_moov info) \<and> 8 < snd (si_moov info)
     \<and> fst (si_moov info) = fst (si_mdat info) + snd (si_mdat info)
     \<and> fileSize = fst (si_moov info) + snd (si_moov info)
     \<and> snd (si_mdat info) \<le> 0xFFFFFFFF"

text \<open>\<open>appendSamples\<close>: payload bytes, where the samples go, and the payload size; no key flags are set.\<close>

definition unflag :: "sampleEntry \<Rightarrow> sampleEntry" where
  "unflag s = s\<lparr>sm_key := False\<rparr>"

definition seg_samples :: "bool \<Rightarrow> segmentInfo \<Rightarrow> sampleEntry list" where
  "seg_samples audio seg = map unflag (if audio then si_asamples seg else si_samples seg)"

fun appendSamples :: "(string \<Rightarrow> byte list option) \<Rightarrow> bool \<Rightarrow> int \<Rightarrow> segmentInfo list \<Rightarrow> int
    \<Rightarrow> (merge_error, byte list \<times> mergedSample list \<times> int) res" where
  "appendSamples fs audio base [] payload = Ok ([], [], payload)"
| "appendSamples fs audio base (seg # segs) payload =
     (if seg_samples audio seg = [] then appendSamples fs audio base segs payload
      else case fs (si_path seg) of
          None \<Rightarrow> Err (OpenError (si_path seg))
        | Some src \<Rightarrow>
            bind (stream_samples src base (seg_samples audio seg) payload) (\<lambda>(out, ms, payload').
            bind (appendSamples fs audio base segs payload') (\<lambda>(out', ms', payload'').
              Ok (out @ out', ms @ ms', payload''))))"

definition samplesToMerged :: "sampleEntry list \<Rightarrow> mergedSample list" where
  "samplesToMerged ss =
     map (\<lambda>s. \<lparr>ms_offset = sm_offset s, ms_size = sm_size s, ms_dur = sm_dur s, ms_key = sm_key s\<rparr>) ss"

definition trackFromSamples :: "segmentInfo \<Rightarrow> bool \<Rightarrow> mergedSample list \<Rightarrow> mergeTrack" where
  "trackFromSamples base audio samples =
     (if audio then
        \<lparr>mt_h265 = False, mt_audio = True, mt_sps = [], mt_pps = [], mt_vps = [], mt_aconf = si_aconf base,
         mt_timescale = si_atimescale base, mt_width = 0, mt_height = 0, mt_dur = sum_list (map ms_dur samples),
         mt_chunks = chunksFromSamples samples\<rparr>
      else
        \<lparr>mt_h265 = (si_codec base = ''h265''), mt_audio = False, mt_sps = si_sps base, mt_pps = si_pps base,
         mt_vps = si_vps base, mt_aconf = [], mt_timescale = si_timescale base, mt_width = si_width base,
         mt_height = si_height base, mt_dur = sum_list (map ms_dur samples),
         mt_chunks = chunksFromSamples samples\<rparr>)"

section \<open>Planning and writing\<close>

record append_plan =
  ap_payload :: "byte list"
  ap_video :: mergeTrack
  ap_audio :: "mergeTrack option"
  ap_moov :: "byte list"
  ap_size :: "32 word"

text \<open>Everything \<open>AppendMP4Samples\<close> does before its first write to the file.\<close>

definition append_prepare ::
    "(mbox \<Rightarrow> byte list) \<Rightarrow> (string \<Rightarrow> byte list option) \<Rightarrow> segmentInfo \<Rightarrow> segmentInfo list
       \<Rightarrow> (merge_error, append_plan) res" where
  "append_prepare marshal fs base segs =
     (if si_path base = '''' \<or> segs = [] then Err NothingToMerge
      else
        bind (validateMergeSegments (base # segs)) (\<lambda>_.
        case fs (si_path base) of
          None \<Rightarrow> Err (OpenError (si_path base))
        | Some f \<Rightarrow>
            if \<not> segmentAppendable base (int (length f)) then Err NotAppendable
            else
              let mdatOff = nat (fst (si_mdat base)); moovOff = fst (si_moov base);
                  field = be_word (pread f mdatOff 4) :: 32 word in
              if field = 1 \<or> uint field \<noteq> snd (si_mdat base) \<or> pread f (mdatOff + 4) 4 \<noteq> bytes_of_string ''mdat''
              then Err NotAppendable
              else
                bind (appendSamples fs False moovOff segs 0) (\<lambda>(vout, vs, payload).
                bind (if si_has_audio base then appendSamples fs True moovOff segs payload else Ok ([], [], payload))
                  (\<lambda>(aout, as, payload).
                if payload \<le> 0 \<or> snd (si_mdat base) + payload > 0xFFFFFFFF then Err NotAppendable
                else
                  let vt = trackFromSamples base False (samplesToMerged (si_samples base) @ vs);
                      at = (if si_has_audio base
                            then Some (trackFromSamples base True (samplesToMerged (si_asamples base) @ as)) else None) in
                  bind (map_err MuxError (writeMergeMoov vt at)) (\<lambda>moov.
                    Ok \<lparr>ap_payload = vout @ aout, ap_video = vt, ap_audio = at, ap_moov = marshal moov,
                        ap_size = of_int (snd (si_mdat base) + payload)\<rparr>)))))"

text \<open>The states of the file after each of its four writes.\<close>

definition append_writes :: "segmentInfo \<Rightarrow> append_plan \<Rightarrow> byte list \<Rightarrow> byte list list" where
  "append_writes base plan f =
     (let moovOff = nat (fst (si_moov base));
          f1 = pwrite f moovOff (ap_payload plan);
          f2 = pwrite f1 (moovOff + length (ap_payload plan)) (ap_moov plan);
          f3 = pwrite f2 (nat (fst (si_mdat base))) (be_bytes 4 (ap_size plan));
          f4 = truncate_to f3 (moovOff + length (ap_payload plan) + length (ap_moov plan))
      in [f1, f2, f3, f4])"

definition appended_file :: "segmentInfo \<Rightarrow> append_plan \<Rightarrow> byte list \<Rightarrow> byte list" where
  "appended_file base plan f = last (append_writes base plan f)"

text \<open>
  \<open>restore\<close>, and \<open>restoreJournalFile\<close>, which does the same from the journal: truncate at the index, write
  the old index and the old size back, truncate again.
\<close>

definition restore_file :: "nat \<Rightarrow> byte list \<Rightarrow> nat \<Rightarrow> 32 word \<Rightarrow> byte list \<Rightarrow> byte list" where
  "restore_file moovOff oldMoov mdatOff mdatSize g =
     truncate_to
       (pwrite (pwrite (truncate_to g moovOff) moovOff oldMoov) mdatOff (be_bytes 4 mdatSize))
       (moovOff + length oldMoov)"

text \<open>How a write can fail: the state it leaves, or only the final \<open>Sync\<close>.\<close>

datatype write_fault = NoFault | WriteFails "byte list" | SyncFails

datatype append_result = Appended | AppendError merge_error | AppendIOError | AppendPanic

definition AppendMP4Samples ::
    "(mbox \<Rightarrow> byte list) \<Rightarrow> (string \<Rightarrow> byte list option) \<Rightarrow> segmentInfo \<Rightarrow> segmentInfo list \<Rightarrow> write_fault
       \<Rightarrow> append_result \<times> (string \<Rightarrow> byte list option)" where
  "AppendMP4Samples marshal fs base segs fault =
     (case append_prepare marshal fs base segs of
        Err e \<Rightarrow> (AppendError e, fs)
      | Panic \<Rightarrow> (AppendPanic, fs)
      | Ok plan \<Rightarrow>
          let f = the (fs (si_path base)) in
          (case fault of
             NoFault \<Rightarrow> (Appended, fs(si_path base \<mapsto> appended_file base plan f))
           | SyncFails \<Rightarrow> (AppendIOError, fs(si_path base \<mapsto> appended_file base plan f))
           | WriteFails g \<Rightarrow>
               (AppendIOError,
                fs(si_path base \<mapsto> restore_file (nat (fst (si_moov base)))
                     (pread f (nat (fst (si_moov base))) (nat (snd (si_moov base))))
                     (nat (fst (si_mdat base))) (of_int (snd (si_mdat base))) g))))"

section \<open>What the writes touch\<close>

text \<open>
  A state that an interrupted append may leave: in front of the index only the four bytes of the size may
  differ, whatever is behind.
\<close>

definition touched :: "nat \<Rightarrow> nat \<Rightarrow> byte list \<Rightarrow> byte list \<Rightarrow> bool" where
  "touched mdatOff moovOff f g \<longleftrightarrow>
     moovOff \<le> length g \<and> moovOff \<le> length f
     \<and> (\<forall>i < moovOff. i < mdatOff \<or> mdatOff + 4 \<le> i \<longrightarrow> g ! i = f ! i)"

lemma touched_refl: "moovOff \<le> length f \<Longrightarrow> touched mdatOff moovOff f f"
  by (simp add: touched_def)

lemma touched_pwrite_behind:
  assumes "touched mdatOff moovOff f g" and "moovOff \<le> off"
  shows "touched mdatOff moovOff f (pwrite g off bs)"
  using assms nth_pwrite_before[of _ off g bs] length_pwrite[of bs g off]
  by (cases "bs = []") (auto simp: touched_def)

lemma touched_pwrite_size:
  assumes "touched mdatOff moovOff f g" and "mdatOff + 4 \<le> moovOff" and "length bs = 4"
  shows "touched mdatOff moovOff f (pwrite g mdatOff bs)"
  using assms nth_pwrite_before[of _ mdatOff g bs] nth_pwrite_after[of mdatOff bs _ g]
  by (auto simp: touched_def)

lemma nth_truncate: "i < n \<Longrightarrow> i < length f \<Longrightarrow> truncate_to f n ! i = f ! i"
  by (simp add: truncate_to_def nth_append)

lemma touched_truncate:
  assumes "touched mdatOff moovOff f g" and "moovOff \<le> n"
  shows "touched mdatOff moovOff f (truncate_to g n)"
proof -
  have "moovOff \<le> length (truncate_to g n)" using assms by (simp add: touched_def truncate_to_def)
  then show ?thesis using assms by (simp add: touched_def nth_truncate)
qed

text \<open>Every state between the writes of an append is such a state.\<close>

lemma append_writes_touched:
  assumes "mdatOff + 4 \<le> moovOff" and "moovOff \<le> length f"
    and "mdatOff = nat (fst (si_mdat base))" and "moovOff = nat (fst (si_moov base))"
  shows "\<forall>g \<in> set (append_writes base plan f). touched mdatOff moovOff f g"
  using assms
  by (simp add: append_writes_def Let_def touched_pwrite_behind touched_pwrite_size touched_truncate touched_refl)

text \<open>Whatever an interrupted append left, restoring gives back the file as it was, byte for byte.\<close>

lemma restore_exact:
  assumes "touched mdatOff moovOff f g" and "mdatOff + 4 \<le> moovOff"
    and "be_word (pread f mdatOff 4) = sz"
  shows "restore_file moovOff (drop moovOff f) mdatOff sz g = f"
proof (rule nth_equalityI)
  have g: "moovOff \<le> length g" and f: "moovOff \<le> length f" using assms(1) by (simp_all add: touched_def)
  have field: "be_bytes 4 sz = pread f mdatOff 4"
    using assms(2,3) f be_bytes_be_word[of "pread f mdatOff 4", where 'a = 32] by (simp add: pread_def)
  let ?t = "take moovOff g"
  have written: "pwrite (truncate_to g moovOff) moovOff (drop moovOff f) = ?t @ drop moovOff f"
    using g pwrite_at_end[of ?t "drop moovOff f"] by (simp add: truncate_to_def del: pwrite_at_end)
  have eq: "restore_file moovOff (drop moovOff f) mdatOff sz g
      = pwrite (?t @ drop moovOff f) mdatOff (pread f mdatOff 4)"
    using f g assms(2) unfolding restore_file_def written field by (simp add: truncate_to_def pread_def)
  show "length (restore_file moovOff (drop moovOff f) mdatOff sz g) = length f"
    unfolding eq using f g assms(2) by (simp add: pread_def)
  fix i assume "i < length (restore_file moovOff (drop moovOff f) mdatOff sz g)"
  then have i: "i < length f" unfolding eq using f g assms(2) by (simp add: pread_def)
  show "restore_file moovOff (drop moovOff f) mdatOff sz g ! i = f ! i"
  proof (cases "i < mdatOff \<or> mdatOff + 4 \<le> i")
    case True
    then have "pwrite (?t @ drop moovOff f) mdatOff (pread f mdatOff 4) ! i = (?t @ drop moovOff f) ! i"
      using i f g assms(2) nth_pwrite_before[of i mdatOff "?t @ drop moovOff f"]
        nth_pwrite_after[of mdatOff "pread f mdatOff 4" i "?t @ drop moovOff f"]
      by (auto simp: pread_def)
    also have "\<dots> = f ! i"
      using True i f g assms(1) by (auto simp: nth_append touched_def)
    finally show ?thesis unfolding eq .
  next
    case False
    then obtain k where "i = mdatOff + k" "k < 4" by (metis add_diff_inverse_nat not_less nat_add_left_cancel_less)
    then show ?thesis unfolding eq using i f g assms(2) by (simp add: pwrite_def pread_def nth_append)
  qed
qed

text \<open>The same for the states between the writes of an append: a failed append keeps the file.\<close>

definition hour_file_ok :: "segmentInfo \<Rightarrow> byte list \<Rightarrow> bool" where
  "hour_file_ok base f \<longleftrightarrow>
     segmentAppendable base (int (length f))
     \<and> uint (be_word (pread f (nat (fst (si_mdat base))) 4) :: 32 word) = snd (si_mdat base)"

lemma hour_file_bounds:
  assumes "hour_file_ok base f"
  shows "nat (fst (si_mdat base)) + 8 \<le> nat (fst (si_moov base))"
    and "nat (fst (si_moov base)) \<le> length f"
    and "pread f (nat (fst (si_moov base))) (nat (snd (si_moov base))) = drop (nat (fst (si_moov base))) f"
proof -
  have a: "0 \<le> fst (si_mdat base)" "8 \<le> snd (si_mdat base)" "0 < fst (si_moov base)" "8 < snd (si_moov base)"
      "fst (si_moov base) = fst (si_mdat base) + snd (si_mdat base)"
      "int (length f) = fst (si_moov base) + snd (si_moov base)"
    using assms by (simp_all add: hour_file_ok_def segmentAppendable_def)
  show "nat (fst (si_mdat base)) + 8 \<le> nat (fst (si_moov base))" using a by linarith
  show "nat (fst (si_moov base)) \<le> length f" using a by linarith
  have "length f - nat (fst (si_moov base)) = nat (snd (si_moov base))" using a by linarith
  then show "pread f (nat (fst (si_moov base))) (nat (snd (si_moov base))) = drop (nat (fst (si_moov base))) f"
    by (simp add: pread_def)
qed

lemma restore_hour_file:
  assumes "hour_file_ok base f"
    and "touched (nat (fst (si_mdat base))) (nat (fst (si_moov base))) f g"
  shows "restore_file (nat (fst (si_moov base)))
      (pread f (nat (fst (si_moov base))) (nat (snd (si_moov base))))
      (nat (fst (si_mdat base))) (of_int (snd (si_mdat base))) g = f"
proof -
  have "be_word (pread f (nat (fst (si_mdat base))) 4) = (of_int (snd (si_mdat base)) :: 32 word)"
    using assms(1) by (simp add: hour_file_ok_def) (metis word_of_int_uint)
  then show ?thesis
    using restore_exact[OF assms(2)] hour_file_bounds[OF assms(1)] by simp
qed

lemma prepare_hour_file:
  assumes "append_prepare marshal fs base segs = Ok plan"
  obtains f where "fs (si_path base) = Some f" and "hour_file_ok base f"
  using assms
  by (auto simp: append_prepare_def hour_file_ok_def go_simps Let_def split: if_splits option.splits)

text \<open>C26: 
  An append whose write fails, whatever part of the data reached the file, returns an error and leaves every
  file as it was.
\<close>

theorem failed_append_keeps_file:
  assumes "append_prepare marshal fs base segs = Ok plan" and "fs (si_path base) = Some f"
    and "touched (nat (fst (si_mdat base))) (nat (fst (si_moov base))) f g"
  shows "AppendMP4Samples marshal fs base segs (WriteFails g) = (AppendIOError, fs)"
proof -
  have "hour_file_ok base f" using prepare_hour_file[OF assms(1)] assms(2) by fastforce
  then have "restore_file (nat (fst (si_moov base)))
      (pread f (nat (fst (si_moov base))) (nat (snd (si_moov base))))
      (nat (fst (si_mdat base))) (of_int (snd (si_mdat base))) g = f"
    using assms(3) by (rule restore_hour_file)
  with assms(1,2) show ?thesis by (simp add: AppendMP4Samples_def fun_upd_idem)
qed

section \<open>The appended file\<close>

lemma pwrite_front: "pwrite f 0 bs = bs @ drop (length bs) f"
  by (simp add: pwrite_def)

lemma pwrite_inside_append:
  "off + length bs \<le> length xs \<Longrightarrow> pwrite (xs @ ys) off bs = pwrite xs off bs @ ys"
  by (simp add: pwrite_def)

lemma appended_layout:
  assumes "mdatOff + 4 \<le> moovOff" and "moovOff \<le> length f"
    and "mdatOff = nat (fst (si_mdat base))" and "moovOff = nat (fst (si_moov base))"
  shows "appended_file base plan f
    = pwrite (take moovOff f) mdatOff (be_bytes 4 (ap_size plan)) @ ap_payload plan @ ap_moov plan"
proof -
  let ?t = "take moovOff f" and ?p = "ap_payload plan" and ?m = "ap_moov plan"
  let ?r = "drop (length ?m) (drop (length ?p) (drop moovOff f))"
  have t: "length ?t = moovOff" using assms(2) by simp
  have f1: "pwrite f moovOff ?p = ?t @ ?p @ drop (length ?p) (drop moovOff f)"
    using pwrite_append[of ?t "drop moovOff f" 0 ?p] t by (simp add: pwrite_front del: pwrite_append drop_drop)
  have f2: "pwrite (pwrite f moovOff ?p) (moovOff + length ?p) ?m = ?t @ ?p @ ?m @ ?r"
    using pwrite_append[of "?t @ ?p" "drop (length ?p) (drop moovOff f)" 0 ?m] t
    by (simp add: f1 pwrite_front del: pwrite_append drop_drop)
  have f3: "pwrite (?t @ ?p @ ?m @ ?r) mdatOff (be_bytes 4 (ap_size plan))
      = pwrite ?t mdatOff (be_bytes 4 (ap_size plan)) @ ?p @ ?m @ ?r"
    using assms(1) t by (simp add: pwrite_inside_append)
  have "length (pwrite ?t mdatOff (be_bytes 4 (ap_size plan))) = moovOff" using assms(1) t by simp
  then show ?thesis
    unfolding appended_file_def append_writes_def Let_def
    using assms(3,4) f2 f3 by (simp add: truncate_to_def)
qed

definition added_sources :: "(string \<Rightarrow> byte list option) \<Rightarrow> bool \<Rightarrow> segmentInfo list \<Rightarrow> (byte list \<times> sampleEntry) list" where
  "added_sources fs audio segs =
     concat (map (\<lambda>seg. map (Pair (case fs (si_path seg) of None \<Rightarrow> [] | Some b \<Rightarrow> b)) (seg_samples audio seg)) segs)"

definition added_complete :: "(string \<Rightarrow> byte list option) \<Rightarrow> segmentInfo list \<Rightarrow> bool" where
  "added_complete fs segs \<longleftrightarrow>
     (\<forall>seg \<in> set segs. fs (si_path seg) \<noteq> None)
     \<and> (\<forall>p \<in> set (added_sources fs False segs @ added_sources fs True segs). sample_inside p)"

lemma appendSamples_complete:
  "added_complete fs segs \<Longrightarrow>
     appendSamples fs audio base segs payload
       = Ok (concat (map media (added_sources fs audio segs)),
             relocate (payload + base) (map snd (added_sources fs audio segs)),
             payload + total_size (map snd (added_sources fs audio segs)))"
proof (induction segs arbitrary: payload)
  case Nil
  then show ?case by (simp add: added_sources_def)
next
  case (Cons seg segs)
  obtain src where src: "fs (si_path seg) = Some src"
    using Cons.prems by (auto simp: added_complete_def)
  let ?ss = "seg_samples audio seg"
  have split: "added_sources fs audio' (seg # segs) = map (Pair src) (seg_samples audio' seg) @ added_sources fs audio' segs"
    for audio' by (simp add: added_sources_def src)
  have inside: "\<forall>s \<in> set ?ss. sample_inside (src, s)"
    using Cons.prems split by (cases audio) (auto simp: added_complete_def)
  have "added_complete fs segs" using Cons.prems by (auto simp: added_complete_def split)
  note IH = Cons.IH[OF this]
  show ?case
  proof (cases "?ss = []")
    case True
    with IH show ?thesis by (simp add: split)
  next
    case False
    with IH src stream_samples_inside[OF inside, of base payload] show ?thesis
      by (auto simp: split relocate_append o_def algebra_simps)
  qed
qed

lemma media_unflag [simp]: "media (src, unflag s) = media (src, s)" "sm_dur (unflag s) = sm_dur s"
  by (simp_all add: media_def unflag_def)

lemma track_samples [simp]: "sampleList (trackFromSamples base audio ss) = ss"
  using chunks_cover(2)[of ss] by (simp add: sampleList_def trackFromSamples_def)

lemma track_audio [simp]:
  "mt_audio (trackFromSamples base audio ss) = audio"
  "mt_aconf (trackFromSamples base True ss) = si_aconf base"
  by (simp_all add: trackFromSamples_def)

lemma track_from_ok:
  assumes "ss \<noteq> []" and "length ss < 2 ^ 32"
    and "(if audio then si_atimescale base else si_timescale base) \<noteq> 0"
  shows "track_ok (trackFromSamples base audio ss)"
proof -
  have "mt_chunks (trackFromSamples base audio ss) = chunksFromSamples ss" by (simp add: trackFromSamples_def)
  moreover have "chunksFromSamples ss \<noteq> []" using assms(1) chunks_cover(2)[of ss] by auto
  moreover have "mt_timescale (trackFromSamples base audio ss) \<noteq> 0" using assms(3) by (auto simp: trackFromSamples_def)
  ultimately show ?thesis using assms(2) chunks_cover(1)[of ss] by (simp add: track_ok_def)
qed

lemma prepared_plan:
  assumes "append_prepare marshal fs base segs = Ok plan" and "added_complete fs segs"
  shows "ap_video plan = trackFromSamples base False
      (samplesToMerged (si_samples base) @ relocate (fst (si_moov base)) (map snd (added_sources fs False segs)))"
    and "ap_audio plan = (if si_has_audio base then Some (trackFromSamples base True
      (samplesToMerged (si_asamples base)
        @ relocate (fst (si_moov base) + total_size (map snd (added_sources fs False segs)))
            (map snd (added_sources fs True segs)))) else None)"
    and "ap_payload plan = concat (map media (added_sources fs False segs))
      @ (if si_has_audio base then concat (map media (added_sources fs True segs)) else [])"
  using assms(1) appendSamples_complete[OF assms(2), of False "fst (si_moov base)" 0]
    appendSamples_complete[OF assms(2), of True "fst (si_moov base)" "total_size (map snd (added_sources fs False segs))"]
  by (auto simp: append_prepare_def go_simps Let_def add.commute split: if_splits option.splits)

text \<open>The samples of the hour file lie in its \<open>mdat\<close>.\<close>

definition base_inside :: "segmentInfo \<Rightarrow> bool" where
  "base_inside base \<longleftrightarrow>
     (\<forall>s \<in> set (si_samples base @ si_asamples base).
        fst (si_mdat base) + 8 \<le> sm_offset s \<and> sm_offset s + uint (sm_size s) \<le> fst (si_moov base))"

lemma appended_keeps_base:
  assumes "hour_file_ok base f" and "base_inside base" and "s \<in> set (si_samples base @ si_asamples base)"
  shows "media (appended_file base plan f, s) = media (f, s)"
proof -
  let ?moov = "nat (fst (si_moov base))" and ?mdat = "nat (fst (si_mdat base))"
  note b = hour_file_bounds[OF assms(1)]
  have s: "fst (si_mdat base) + 8 \<le> sm_offset s" "sm_offset s + uint (sm_size s) \<le> fst (si_moov base)"
    using assms(2,3) by (auto simp: base_inside_def)
  have mdat0: "0 \<le> fst (si_mdat base)" using assms(1) by (simp add: hour_file_ok_def segmentAppendable_def)
  have at: "?mdat + 8 \<le> nat (sm_offset s)" using s(1) mdat0 by linarith
  have "int (unat (sm_size s)) = uint (sm_size s)" by simp
  with s mdat0 have len: "nat (sm_offset s) + unat (sm_size s) \<le> ?moov" by linarith
  have layout: "appended_file base plan f
      = pwrite (take ?moov f) ?mdat (be_bytes 4 (ap_size plan)) @ ap_payload plan @ ap_moov plan"
    by (rule appended_layout) (use b in simp_all)
  have "length (pwrite (take ?moov f) ?mdat (be_bytes 4 (ap_size plan))) = ?moov" using b by simp
  then have "pread (appended_file base plan f) (nat (sm_offset s)) (unat (sm_size s))
      = pread (pwrite (take ?moov f) ?mdat (be_bytes 4 (ap_size plan))) (nat (sm_offset s)) (unat (sm_size s))"
    unfolding layout using len by (simp add: pread_prefix)
  also have "\<dots> = pread (take ?moov f) (nat (sm_offset s)) (unat (sm_size s))"
    by (rule pread_pwrite_after) (use at b in simp_all)
  also have "\<dots> = pread f (nat (sm_offset s)) (unat (sm_size s))"
    using len by (rule pread_take)
  finally show ?thesis by (simp add: media_def)
qed

lemma appended_has_added:
  assumes "append_prepare marshal fs base segs = Ok plan" and "added_complete fs segs" and "hour_file_ok base f"
  shows "map (\<lambda>m. media (appended_file base plan f, plain_entry m))
      (relocate (fst (si_moov base)) (map snd (added_sources fs False segs))) = map media (added_sources fs False segs)"
    and "si_has_audio base \<Longrightarrow> map (\<lambda>m. media (appended_file base plan f, plain_entry m))
      (relocate (fst (si_moov base) + total_size (map snd (added_sources fs False segs)))
        (map snd (added_sources fs True segs))) = map media (added_sources fs True segs)"
proof -
  let ?moov = "nat (fst (si_moov base))" and ?mdat = "nat (fst (si_mdat base))"
  note b = hour_file_bounds[OF assms(3)]
  have inside: "\<forall>p \<in> set (added_sources fs audio segs). sample_inside p" for audio
    using assms(2) by (cases audio) (auto simp: added_complete_def)
  let ?front = "pwrite (take ?moov f) ?mdat (be_bytes 4 (ap_size plan))"
  let ?v = "concat (map media (added_sources fs False segs))" and ?a = "concat (map media (added_sources fs True segs))"
  have layout: "appended_file base plan f = ?front @ ap_payload plan @ ap_moov plan"
    by (rule appended_layout) (use b in simp_all)
  have "0 < fst (si_moov base)" using assms(3) by (simp add: hour_file_ok_def segmentAppendable_def)
  then have front: "int (length ?front) = fst (si_moov base)" using b by simp
  have "map (\<lambda>m. pread (?front @ ?v @ ((if si_has_audio base then ?a else []) @ ap_moov plan))
      (nat (ms_offset m)) (unat (ms_size m))) (relocate (fst (si_moov base)) (map snd (added_sources fs False segs)))
      = map media (added_sources fs False segs)"
    by (rule relocated_media[OF inside front])
  then show "map (\<lambda>m. media (appended_file base plan f, plain_entry m))
      (relocate (fst (si_moov base)) (map snd (added_sources fs False segs))) = map media (added_sources fs False segs)"
    unfolding media_plain_entry layout prepared_plan(3)[OF assms(1,2)] by simp
  assume audio: "si_has_audio base"
  have "int (length (?front @ ?v)) = fst (si_moov base) + total_size (map snd (added_sources fs False segs))"
    using front length_concat_media[OF inside, of False] by simp
  from relocated_media[OF inside[of True] this, of "ap_moov plan"]
  show "map (\<lambda>m. media (appended_file base plan f, plain_entry m))
      (relocate (fst (si_moov base) + total_size (map snd (added_sources fs False segs)))
        (map snd (added_sources fs True segs))) = map media (added_sources fs True segs)"
    unfolding media_plain_entry layout prepared_plan(3)[OF assms(1,2)] using audio by simp
qed


lemma prepare_succeeds:
  assumes "fs (si_path base) = Some f" and "hour_file_ok base f"
    and "pread f (nat (fst (si_mdat base)) + 4) 4 = bytes_of_string ''mdat''" and "segs \<noteq> []"
    and "validateMergeSegments (base # segs) = Ok ()" and "added_complete fs segs"
    and "0 < total_size (map snd (added_sources fs False segs))"
    and "snd (si_mdat base) + total_size (map snd (added_sources fs False segs))
          + total_size (map snd (added_sources fs True segs)) \<le> 0xFFFFFFFF"
    and "writeMergeMoov
          (trackFromSamples base False
            (samplesToMerged (si_samples base) @ relocate (fst (si_moov base)) (map snd (added_sources fs False segs))))
          (if si_has_audio base then Some (trackFromSamples base True
            (samplesToMerged (si_asamples base)
              @ relocate (fst (si_moov base) + total_size (map snd (added_sources fs False segs)))
                  (map snd (added_sources fs True segs)))) else None) = Ok moov"
  shows "\<exists>plan. append_prepare marshal fs base segs = Ok plan"
proof -
  let ?field = "be_word (pread f (nat (fst (si_mdat base))) 4) :: 32 word"
  have path: "si_path base \<noteq> ''''" and app: "segmentAppendable base (int (length f))"
    using assms(2) by (simp_all add: hour_file_ok_def segmentAppendable_def)
  have field: "uint ?field = snd (si_mdat base)" using assms(2) by (simp add: hour_file_ok_def)
  moreover have "8 \<le> snd (si_mdat base)" using app by (simp add: segmentAppendable_def)
  ultimately have f1: "?field \<noteq> 1" by auto
  let ?V = "total_size (map snd (added_sources fs False segs))" and ?A = "total_size (map snd (added_sources fs True segs))"
  have bounds: "\<not> ?V \<le> 0" "\<not> ?V + ?A \<le> 0" "\<not> snd (si_mdat base) + ?V > 0xFFFFFFFF"
      "\<not> snd (si_mdat base) + (?V + ?A) > 0xFFFFFFFF"
    using assms(7,8) total_size_nonneg[of "map snd (added_sources fs True segs)"] by linarith+
  show ?thesis
    using path app field f1 bounds assms(1,3-6,9)
    appendSamples_complete[OF assms(6), of False "fst (si_moov base)" 0]
    appendSamples_complete[OF assms(6), of True "fst (si_moov base)" "total_size (map snd (added_sources fs False segs))"]
    by (cases "si_has_audio base") (simp_all add: append_prepare_def Let_def add.commute add.left_commute)
qed

definition demo_hour :: segmentInfo where
  "demo_hour = (demo_segment ''h'' [\<lparr>sm_offset = 8, sm_size = 2, sm_dur = 40, sm_key = False\<rparr>])
     \<lparr>si_mdat := (0, 10), si_moov := (10, 9)\<rparr>"

definition demo_hour_file :: "byte list" where
  "demo_hour_file = [0, 0, 0, 10] @ bytes_of_string ''mdat'' @ [5, 6] @ replicate 9 1"

definition demo_new :: segmentInfo where
  "demo_new = demo_segment ''b'' [\<lparr>sm_offset = 0, sm_size = 1, sm_dur = 41, sm_key = False\<rparr>]"

definition demo_disk :: "string \<Rightarrow> byte list option" where
  "demo_disk = [''h'' \<mapsto> demo_hour_file, ''b'' \<mapsto> [7, 8]]"

definition demo_plan :: append_plan where
  "demo_plan = (case append_prepare (\<lambda>_. [0, 0, 0, 8]) demo_disk demo_hour [demo_new] of Ok p \<Rightarrow> p | _ \<Rightarrow> undefined)"

definition demo_appended_moov :: mbox where
  "demo_appended_moov =
     (case writeMergeMoov (trackFromSamples demo_hour False
        (samplesToMerged (si_samples demo_hour) @ relocate 10 (map unflag (si_samples demo_new)))) None of
        Ok m \<Rightarrow> m | _ \<Rightarrow> MBox '''' Plain [])"

lemma demo_prepared: "append_prepare (\<lambda>_. [0, 0, 0, 8]) demo_disk demo_hour [demo_new] = Ok demo_plan"
proof -
  have "\<exists>plan. append_prepare (\<lambda>_. [0, 0, 0, 8]) demo_disk demo_hour [demo_new] = Ok plan"
  proof (rule prepare_succeeds)
    show "demo_disk (si_path demo_hour) = Some demo_hour_file"
      by (simp add: demo_disk_def demo_hour_def demo_segment_def)
    show "hour_file_ok demo_hour demo_hour_file"
      by (simp add: hour_file_ok_def segmentAppendable_def demo_hour_def demo_segment_def demo_hour_file_def
          bytes_of_string_def pread_def)
    show "pread demo_hour_file (nat (fst (si_mdat demo_hour)) + 4) 4 = bytes_of_string ''mdat''"
      by (simp add: demo_hour_def demo_segment_def demo_hour_file_def bytes_of_string_def pread_def)
    show "validateMergeSegments (demo_hour # [demo_new]) = Ok ()"
      by (simp add: validateMergeSegments_def demo_hour_def demo_new_def demo_segment_def)
    show "added_complete demo_disk [demo_new]"
      by (simp add: added_complete_def added_sources_def demo_new_def demo_disk_def demo_segment_def seg_samples_def
          unflag_def sample_inside_def)
    show "0 < total_size (map snd (added_sources demo_disk False [demo_new]))"
      by (simp add: added_sources_def demo_new_def demo_segment_def seg_samples_def unflag_def)
    show "snd (si_mdat demo_hour) + total_size (map snd (added_sources demo_disk False [demo_new]))
          + total_size (map snd (added_sources demo_disk True [demo_new])) \<le> 0xFFFFFFFF"
      by (simp add: added_sources_def demo_new_def demo_hour_def demo_segment_def seg_samples_def unflag_def)
    show "writeMergeMoov
          (trackFromSamples demo_hour False
            (samplesToMerged (si_samples demo_hour)
              @ relocate (fst (si_moov demo_hour)) (map snd (added_sources demo_disk False [demo_new]))))
          (if si_has_audio demo_hour then Some (trackFromSamples demo_hour True
            (samplesToMerged (si_asamples demo_hour)
              @ relocate (fst (si_moov demo_hour) + total_size (map snd (added_sources demo_disk False [demo_new])))
                  (map snd (added_sources demo_disk True [demo_new])))) else None) = Ok demo_appended_moov"
      by (simp add: demo_appended_moov_def demo_hour_def demo_new_def demo_segment_def added_sources_def seg_samples_def
          unflag_def samplesToMerged_def trackFromSamples_def chunksFromSamples_def writeMergeMoov_def writeMergeTrak_def
          writeMergeMdia_def writeMergeMinf_def writeMergeStbl_def sample_entry_box_def sampleList_def Let_def)
  qed simp
  then show ?thesis by (auto simp: demo_plan_def)
qed

lemma demo_disk_hour: "demo_disk (si_path demo_hour) = Some demo_hour_file"
  by (simp add: demo_disk_def demo_hour_def demo_segment_def)

theorem failed_append_witness:
  "AppendMP4Samples (\<lambda>_. [0, 0, 0, 8]) demo_disk demo_hour [demo_new]
     (WriteFails ([9, 9, 9, 9] @ drop 4 demo_hour_file @ [1, 2])) = (AppendIOError, demo_disk)"
proof -
  have "touched (nat (fst (si_mdat demo_hour))) (nat (fst (si_moov demo_hour))) demo_hour_file
      ([9, 9, 9, 9] @ drop 4 demo_hour_file @ [1, 2])"
    by (auto simp: touched_def demo_hour_def demo_hour_file_def bytes_of_string_def nth_append nth_Cons'
        demo_segment_def)
  then show ?thesis
    using failed_append_keeps_file[OF demo_prepared demo_disk_hour] by simp
qed


end
