(* ===== verification/Db_Time.thy ===== *)
theory Db_Time
  imports Go_Strings
begin

text \<open>
  Time stamps as the database keeps them, \<open>storage/db.go\<close>: text in UTC with as many decimals as
  the time needs.  A time is the number of nanoseconds since Go's zero time, midnight of January 1 of the
  year 1; queries compare the text byte by byte, and the main result is that this is the order in time.
\<close>

section \<open>The calendar of Go's \<open>time\<close> package\<close>

definition leap :: "nat \<Rightarrow> bool" where
  "leap y \<longleftrightarrow> 4 dvd y \<and> (\<not> 100 dvd y \<or> 400 dvd y)"

definition year_days :: "nat \<Rightarrow> nat" where
  "year_days y = (if leap y then 366 else 365)"

definition month_days :: "bool \<Rightarrow> nat list" where
  "month_days l = [31, if l then 29 else 28, 31, 30, 31, 30, 31, 31, 30, 31, 30, 31]"

text \<open>Year and day in it, counting on from year \<open>y\<close>; month (from 1) and day in it (from 0).\<close>

function year_from :: "nat \<Rightarrow> nat \<Rightarrow> nat \<times> nat" where
  "year_from y d = (if d < year_days y then (y, d) else year_from (y + 1) (d - year_days y))"
  by pat_completeness auto

termination by (relation "measure snd") (auto simp: year_days_def)

declare year_from.simps [simp del]

fun month_from :: "nat \<Rightarrow> nat list \<Rightarrow> nat \<Rightarrow> nat \<times> nat" where
  "month_from m [] d = (m, d)"
| "month_from m (l # ls) d = (if d < l then (m, d) else month_from (m + 1) ls (d - l))"

section \<open>The text\<close>

text \<open>\<open>w\<close> decimal digits.\<close>

fun digits :: "nat \<Rightarrow> nat \<Rightarrow> string" where
  "digits 0 n = ''''"
| "digits (Suc w) n = char_of (48 + n div 10 ^ w mod 10) # digits w n"

text \<open>The fraction \<open>.999999999\<close> of the layout: trailing zeros are left out, and the point with them.\<close>

fun trim_zeros_right :: "string \<Rightarrow> string" where
  "trim_zeros_right [] = []"
| "trim_zeros_right (c # cs) =
     (let r = trim_zeros_right cs in if r = [] \<and> c = CHR ''0'' then [] else c # r)"

definition fraction :: "nat \<Rightarrow> string" where
  "fraction ns = (let f = trim_zeros_right (digits 9 ns) in if f = [] then [] else CHR ''.'' # f)"

definition day_ns :: nat where "day_ns = 86400000000000"

definition format_ns :: "nat \<Rightarrow> string" where
  "format_ns t =
     (let (y, yd) = year_from 1 (t div day_ns); (m, d) = month_from 1 (month_days (leap y)) yd;
          s = t mod day_ns div 1000000000
      in digits 4 y @ ''-'' @ digits 2 m @ ''-'' @ digits 2 (d + 1) @ '' '' @ digits 2 (s div 3600) @ '':''
         @ digits 2 (s div 60 mod 60) @ '':'' @ digits 2 (s mod 60) @ fraction (t mod 1000000000))"

text \<open>\<open>formatTime\<close>; \<open>timeToDB\<close> stores the zero time as NULL.\<close>

definition formatTime :: "nat \<Rightarrow> string" where
  "formatTime t = (if t = 0 then '''' else format_ns t)"

definition timeToDB :: "nat \<Rightarrow> string option" where
  "timeToDB t = (if t = 0 then None else Some (format_ns t))"

text \<open>
  \<open>t.Format(sqliteTimeFormat)\<close> without \<open>UTC()\<close>, as the merge queries build their cutoff: the text is
  that of the local clock, \<open>zone\<close> nanoseconds ahead of UTC.
\<close>

definition format_local :: "int \<Rightarrow> nat \<Rightarrow> string" where
  "format_local zone t = format_ns (nat (int t + zone))"

section \<open>Comparing text\<close>

text \<open>The order of a TEXT column: byte by byte, a prefix comes first.\<close>

fun text_less :: "string \<Rightarrow> string \<Rightarrow> bool" where
  "text_less xs [] = False"
| "text_less [] (y # ys) = True"
| "text_less (x # xs) (y # ys) =
     ((of_char x :: nat) < of_char y \<or> x = y \<and> text_less xs ys)"

lemma text_less_irrefl [simp]: "\<not> text_less xs xs"
  by (induction xs) auto

lemma text_less_append:
  "length a = length b \<Longrightarrow> text_less (a @ xs) (b @ ys) \<longleftrightarrow> text_less a b \<or> a = b \<and> text_less xs ys"
  by (induction a b rule: list_induct2) auto

lemma length_digits [simp]: "length (digits w n) = w"
  by (induction w) simp_all

lemma pad_digit_less:
  fixes a b :: nat
  assumes "a < 10" and "b < 10"
  shows "(of_char (char_of (48 + a) :: char) :: nat) < of_char (char_of (48 + b) :: char) \<longleftrightarrow> a < b"
    and "(char_of (48 + a) :: char) = char_of (48 + b) \<longleftrightarrow> a = b"
  using assms by (auto simp: of_char_of char_of_eq_iff take_bit_nat_eq_self)

text \<open>Two-level comparison: a high part weighted by \<open>P\<close> and a low part below \<open>P\<close>.\<close>

lemma high_low_less:
  fixes a b r s P :: nat
  assumes "r < P" and "s < P"
  shows "P * a + r < P * b + s \<longleftrightarrow> a < b \<or> a = b \<and> r < s"
    and "P * a + r = P * b + s \<longleftrightarrow> a = b \<and> r = s"
proof -
  have less: "P * a' + r' < P * b' + s'" if "a' < b'" "r' < P" for a' b' r' s'
  proof -
    have "P * a' + r' < P * Suc a'" using that(2) by simp
    also have "\<dots> \<le> P * b'" using that(1) by (simp only: Suc_leI mult_le_mono2)
    finally show ?thesis by simp
  qed
  show "P * a + r < P * b + s \<longleftrightarrow> a < b \<or> a = b \<and> r < s"
    using less[of a b r s] less[of b a s r] assms by (cases a b rule: linorder_cases) auto
  show "P * a + r = P * b + s \<longleftrightarrow> a = b \<and> r = s"
    using less[of a b r s] less[of b a s r] assms by (cases a b rule: linorder_cases) auto
qed

lemma text_less_digits_mod:
  "(text_less (digits w m) (digits w n) \<longleftrightarrow> m mod 10 ^ w < n mod 10 ^ w)
    \<and> (digits w m = digits w n \<longleftrightarrow> m mod 10 ^ w = n mod 10 ^ w)"
proof (induction w)
  case 0
  then show ?case by simp
next
  case (Suc w)
  let ?a = "m div 10 ^ w mod 10" and ?b = "n div 10 ^ w mod 10"
  have split: "k mod 10 ^ Suc w = 10 ^ w * (k div 10 ^ w mod 10) + k mod 10 ^ w" for k :: nat
    using mod_mult2_eq[of k "10 ^ w" 10] by (simp add: mult.commute)
  have "?a < 10" "?b < 10" by simp_all
  note d = pad_digit_less[OF this]
  have r: "m mod 10 ^ w < 10 ^ w" "n mod 10 ^ w < 10 ^ w" by simp_all
  show ?case
    unfolding split[of m] split[of n] high_low_less[OF r] digits.simps text_less.simps list.inject d using Suc by blast
qed

lemma text_less_digits:
  assumes "m < 10 ^ w" and "n < 10 ^ w"
  shows "text_less (digits w m) (digits w n) \<longleftrightarrow> m < n" and "digits w m = digits w n \<longleftrightarrow> m = n"
  using text_less_digits_mod[of w m n] assms by simp_all

lemma digits_are_digits: "\<forall>c \<in> set (digits w n). 48 \<le> (of_char c :: nat)"
  by (induction w) (auto simp: of_char_of)

lemma zero_char: "char_of (48 :: nat) = CHR ''0''"
  by code_simp

lemma text_less_trim:
  assumes "length a = length b" and "\<forall>c \<in> set (a @ b). 48 \<le> (of_char c :: nat)"
  shows "text_less (trim_zeros_right a) (trim_zeros_right b) \<longleftrightarrow> text_less a b"
    and "trim_zeros_right a = trim_zeros_right b \<longleftrightarrow> a = b"
  using assms
proof (induction a b rule: list_induct2)
  case (Cons x xs y ys)
  { case 1
    have "x = CHR ''0'' \<or> 48 < (of_char x :: nat)" "y = CHR ''0'' \<or> 48 < (of_char y :: nat)"
      using 1 zero_char by (auto simp: le_less dest!: arg_cong[where f = "char_of :: nat \<Rightarrow> char"])
    with Cons.IH 1 show ?case
      by (cases "trim_zeros_right xs"; cases "trim_zeros_right ys") (auto simp: Let_def)
  next
    case 2
    with Cons.IH show ?case
      by (cases "trim_zeros_right xs"; cases "trim_zeros_right ys") (auto simp: Let_def) }
qed simp_all

lemma text_less_fraction:
  assumes "m < 10 ^ 9" and "n < 10 ^ 9"
  shows "text_less (fraction m) (fraction n) \<longleftrightarrow> m < n"
proof -
  have "text_less (trim_zeros_right (digits 9 m)) (trim_zeros_right (digits 9 n)) \<longleftrightarrow> m < n"
    using text_less_trim(1)[of "digits 9 m" "digits 9 n"] text_less_digits(1)[OF assms] digits_are_digits[of 9]
    by (simp add: ball_Un)
  then show ?thesis
    by (cases "trim_zeros_right (digits 9 m)"; cases "trim_zeros_right (digits 9 n)") (auto simp: fraction_def Let_def)
qed

section \<open>The order of dates\<close>

lemma year_from_ge: "y \<le> fst (year_from y d)"
  by (induction y d rule: year_from.induct) (subst year_from.simps, auto)

lemma year_from_bound: "snd (year_from y d) < year_days (fst (year_from y d))"
  by (induction y d rule: year_from.induct) (subst year_from.simps, subst (2) year_from.simps, auto)

lemma year_from_less:
  "d < d' \<Longrightarrow> fst (year_from y d) < fst (year_from y d')
     \<or> fst (year_from y d) = fst (year_from y d') \<and> snd (year_from y d) < snd (year_from y d')"
proof (induction y d arbitrary: d' rule: year_from.induct)
  case (1 y d)
  show ?case
  proof (cases "d' < year_days y")
    case True
    with 1(2) show ?thesis by (simp add: year_from.simps)
  next
    case far: False
    then have step': "year_from y d' = year_from (y + 1) (d' - year_days y)" by (subst year_from.simps) simp
    show ?thesis
    proof (cases "d < year_days y")
      case True
      then have "year_from y d = (y, d)" by (subst year_from.simps) simp
      with step' year_from_ge[of "y + 1" "d' - year_days y"] show ?thesis by simp
    next
      case False
      then have step: "year_from y d = year_from (y + 1) (d - year_days y)" by (subst year_from.simps) simp
      have "d - year_days y < d' - year_days y" using 1(2) False by simp
      from 1(1)[OF False this] show ?thesis by (simp only: step step')
    qed
  qed
qed

lemma month_from_ge: "m \<le> fst (month_from m ls d)"
  by (induction m ls d rule: month_from.induct) auto

lemma month_from_less:
  "d < d' \<Longrightarrow> fst (month_from m ls d) < fst (month_from m ls d')
     \<or> fst (month_from m ls d) = fst (month_from m ls d') \<and> snd (month_from m ls d) < snd (month_from m ls d')"
proof (induction m ls d arbitrary: d' rule: month_from.induct)
  case (1 m d)
  then show ?case by simp
next
  case (2 m l ls d)
  have ge: "m < fst (month_from (m + 1) ls k)" for k using month_from_ge[of "m + 1" ls k] by simp
  from 2 ge[of "d' - l"] show ?case by (auto simp: not_less) 
qed

lemma month_bound:
  assumes "d < sum_list ls" and "\<forall>l \<in> set ls. l \<le> 31"
  shows "fst (month_from m ls d) < m + length ls" and "snd (month_from m ls d) < 31"
  using assms by (induction m ls d rule: month_from.induct) auto

lemma month_days_sum: "sum_list (month_days l) = (if l then 366 else 365)"
  by (simp add: month_days_def)

text \<open>Year, month and day of a day number, and the lexicographic order on them.\<close>

definition date :: "nat \<Rightarrow> nat \<times> nat \<times> nat" where
  "date n = (let (y, yd) = year_from 1 n; (m, d) = month_from 1 (month_days (leap y)) yd in (y, m, d))"

definition date_less :: "nat \<times> nat \<times> nat \<Rightarrow> nat \<times> nat \<times> nat \<Rightarrow> bool" where
  "date_less p q \<longleftrightarrow> fst p < fst q \<or> fst p = fst q
     \<and> (fst (snd p) < fst (snd q) \<or> fst (snd p) = fst (snd q) \<and> snd (snd p) < snd (snd q))"

lemma date_mono: "a < b \<Longrightarrow> date_less (date a) (date b)"
  using year_from_less[of a b 1] month_from_less[where d = "snd (year_from 1 a)" and d' = "snd (year_from 1 b)"
      and m = 1 and ls = "month_days (leap (fst (year_from 1 a)))"]
  by (auto simp: date_def date_less_def Let_def split: prod.splits)

lemma date_order: "date_less (date a) (date b) \<longleftrightarrow> a < b" "date a = date b \<longleftrightarrow> a = b"
  using date_mono[of a b] date_mono[of b a]
  by (auto simp: date_less_def) (metis date_mono date_less_def less_irrefl linorder_neqE_nat)+

lemma date_fields: "fst (snd (date n)) < 13" "snd (snd (date n)) < 31"
proof -
  have "snd (year_from 1 n) < sum_list (month_days (leap (fst (year_from 1 n))))"
    using year_from_bound[of 1 n] by (simp add: month_days_sum year_days_def)
  moreover have "\<forall>l \<in> set (month_days b). l \<le> 31" for b by (simp add: month_days_def)
  ultimately show "fst (snd (date n)) < 13" "snd (snd (date n)) < 31"
    using month_bound[of "snd (year_from 1 n)" "month_days (leap (fst (year_from 1 n)))" 1]
    by (auto simp: date_def Let_def month_days_def split: prod.splits)
qed

text \<open>The texts of two times before the year 10000 compare like the times.\<close>

lemma format_fields:
  "format_ns t = digits 4 (fst (date (t div day_ns))) @ ''-'' @ digits 2 (fst (snd (date (t div day_ns)))) @ ''-''
     @ digits 2 (snd (snd (date (t div day_ns))) + 1) @ '' ''
     @ digits 2 (t mod day_ns div 1000000000 div 3600) @ '':'' @ digits 2 (t mod day_ns div 1000000000 div 60 mod 60) @ '':''
     @ digits 2 (t mod day_ns div 1000000000 mod 60) @ fraction (t mod 1000000000)"
  by (simp add: format_ns_def date_def Let_def split: prod.splits)

lemma text_less_same: "text_less (c @ xs) (c @ ys) \<longleftrightarrow> text_less xs ys"
  by (simp add: text_less_append)

lemma text_less_field:
  "m < 10 ^ w \<Longrightarrow> n < 10 ^ w \<Longrightarrow>
     text_less (digits w m @ xs) (digits w n @ ys) \<longleftrightarrow> m < n \<or> m = n \<and> text_less xs ys"
  by (simp add: text_less_append text_less_digits)

lemma format_ns_order:
  assumes "fst (date (a div day_ns)) < 10000" and "fst (date (b div day_ns)) < 10000"
  shows "text_less (format_ns a) (format_ns b) \<longleftrightarrow> a < b"
proof -
  define s where "s t = t mod day_ns div 1000000000" for t
  have s: "s t < 86400" for t by (simp add: s_def day_ns_def less_mult_imp_div_less)
  have h: "s t div 3600 < 10 ^ 2" for t
    using s[of t] div_le_mono[of "s t" 86399 3600] by simp
  have mi: "s t div 60 mod 60 < 10 ^ 2" and sec: "s t mod 60 < 10 ^ 2" for t by (simp_all add: less_trans[of _ 60])
  have ns: "t mod 1000000000 < 10 ^ 9" for t :: nat by simp
  have ym: "fst (snd (date n)) < 10 ^ 2" "snd (snd (date n)) + 1 < 10 ^ 2" for n
    using date_fields[of n] by simp_all
  have y: "fst (date (a div day_ns)) < 10 ^ 4" "fst (date (b div day_ns)) < 10 ^ 4" using assms by simp_all
  have compared: "text_less (format_ns a) (format_ns b) \<longleftrightarrow>
      date_less (date (a div day_ns)) (date (b div day_ns))
      \<or> date (a div day_ns) = date (b div day_ns)
        \<and> (s a div 3600 < s b div 3600 \<or> s a div 3600 = s b div 3600
          \<and> (s a div 60 mod 60 < s b div 60 mod 60 \<or> s a div 60 mod 60 = s b div 60 mod 60
            \<and> (s a mod 60 < s b mod 60 \<or> s a mod 60 = s b mod 60 \<and> a mod 1000000000 < b mod 1000000000)))"
    unfolding format_fields s_def[symmetric]
    unfolding text_less_same text_less_field[OF y] text_less_field[OF ym(1) ym(1)] text_less_field[OF ym(2) ym(2)]
      text_less_field[OF h h] text_less_field[OF mi mi] text_less_field[OF sec sec] text_less_fraction[OF ns ns]
      date_less_def prod_eq_iff by auto
  have secs: "s t = 3600 * (s t div 3600) + (60 * (s t div 60 mod 60) + s t mod 60)" for t
  proof -
    have "s t mod 3600 = 60 * (s t div 60 mod 60) + s t mod 60" using mod_mult2_eq[of "s t" 60 60] by simp
    then show ?thesis using div_mult_mod_eq[of "s t" 3600] by linarith
  qed
  have low: "60 * (s t div 60 mod 60) + s t mod 60 < 3600" for t
  proof -
    have "s t div 60 mod 60 < 60" "s t mod 60 < 60" by simp_all
    then show ?thesis by linarith
  qed
  have sorder: "s a < s b \<longleftrightarrow> s a div 3600 < s b div 3600 \<or> s a div 3600 = s b div 3600
      \<and> (s a div 60 mod 60 < s b div 60 mod 60 \<or> s a div 60 mod 60 = s b div 60 mod 60 \<and> s a mod 60 < s b mod 60)"
  proof -
    have "s a < s b \<longleftrightarrow> 3600 * (s a div 3600) + (60 * (s a div 60 mod 60) + s a mod 60)
        < 3600 * (s b div 3600) + (60 * (s b div 60 mod 60) + s b mod 60)"
      using secs[of a] secs[of b] by simp
    then show ?thesis
      unfolding high_low_less[OF low low] using high_low_less[of "s a mod 60" 60 "s b mod 60"] by simp
  qed
  have whole: "t = day_ns * (t div day_ns) + (1000000000 * s t + t mod 1000000000)" for t
  proof -
    have "t mod day_ns mod 1000000000 = t mod 1000000000" by (simp add: day_ns_def mod_mod_cancel)
    then have "t mod day_ns = 1000000000 * s t + t mod 1000000000"
      unfolding s_def by (metis mult_div_mod_eq)
    then show ?thesis using mult_div_mod_eq[of day_ns t] by linarith
  qed
  have low_ns: "1000000000 * s t + t mod 1000000000 < day_ns" for t
    using s[of t] mod_less_divisor[of 1000000000 t] unfolding day_ns_def by linarith
  have "a < b \<longleftrightarrow> day_ns * (a div day_ns) + (1000000000 * s a + a mod 1000000000)
      < day_ns * (b div day_ns) + (1000000000 * s b + b mod 1000000000)"
    using whole[of a] whole[of b] by simp
  then have "a < b \<longleftrightarrow> a div day_ns < b div day_ns \<or> a div day_ns = b div day_ns
      \<and> (s a < s b \<or> s a = s b \<and> a mod 1000000000 < b mod 1000000000)"
    unfolding high_low_less[OF low_ns low_ns]
    using high_low_less[of "a mod 1000000000" 1000000000 "b mod 1000000000" "s a" "s b"] by simp
  moreover have "s a = s b \<longleftrightarrow> s a div 3600 = s b div 3600
      \<and> s a div 60 mod 60 = s b div 60 mod 60 \<and> s a mod 60 = s b mod 60"
    using secs[of a] secs[of b] by auto
  ultimately show ?thesis unfolding compared date_order sorder by blast
qed

text \<open>The years the format can show with four digits.\<close>

definition four_digit_year :: "nat \<Rightarrow> bool" where
  "four_digit_year t \<longleftrightarrow> fst (year_from 1 (t div day_ns)) < 10000"

lemma date_year: "fst (date n) = fst (year_from 1 n)"
  by (simp add: date_def Let_def case_prod_unfold)

text \<open>
  The byte order of the stored time stamps is the order of the times, although fractions have different
  lengths; so the comparisons and the \<open>ORDER BY\<close> of the queries are those of the times.
\<close>

theorem stored_times_sort:
  assumes "0 < a" and "0 < b" and "four_digit_year a" and "four_digit_year b"
  shows "text_less (formatTime a) (formatTime b) \<longleftrightarrow> a < b"
  using assms format_ns_order[of a b]
  by (simp add: formatTime_def four_digit_year_def date_year)

theorem stored_times_witness:
  "text_less (formatTime 5000000000) (formatTime 5250000000) \<longleftrightarrow> (5000000000 :: nat) < 5250000000"
  by (rule stored_times_sort) (simp_all add: four_digit_year_def day_ns_def year_from.simps year_days_def leap_def)

end
