(* ===== verification/Recordings.thy ===== *)
theory Recordings
  imports Go_Strings Db_Time "HOL-Library.Signed_Division" "HOL-Library.Multiset" Complex_Main
begin

text \<open>
  The table of recordings (\<open>storage/db_recording.go\<close>, \<open>db_merge.go\<close>, \<open>db_archive.go\<close>, \<open>db_stats.go\<close>):
  every statement that writes it and the listings by which recordings are shown, merged and deleted.  A row is a
  record, the table the list of its rows.  Times are nanoseconds since Go's zero time, and 0 is the zero time,
  stored as \<open>NULL\<close>; comparing the stored texts compares the numbers (\<open>Db_Time\<close>).  Rows that an
  \<open>ORDER BY\<close> leaves tied are given in the order of the table.
\<close>

section \<open>Rows\<close>

record recording =
  r_id :: string
  r_camera :: string
  r_stream :: string
  r_path :: string
  r_format :: string
  r_started :: nat
  r_ended :: nat
  r_duration :: rat
  r_size :: int
  r_frames :: int
  r_merged :: bool
  r_status :: string
  r_archived :: bool
  r_reconnected :: nat
  r_gap :: string
  r_locked :: bool

type_synonym rec_table = "recording list"

datatype db_error = ConstraintFailed | NoRows | MergedNotFound string | SyntaxError | StoreFailed

definition mergeStatusFromBool :: "bool \<Rightarrow> string" where
  "mergeStatusFromBool merged = (if merged then ''merged'' else ''pending'')"

definition recordingStreamID :: "recording \<Rightarrow> string" where
  "recordingStreamID r =
     (let s = trim_space (r_stream r) in if s \<noteq> '''' then s else r_camera r)"

text \<open>What \<open>scanRecordingRow\<close> makes of a row: an empty status is taken from the old flag.\<close>

definition scanRecordingRow :: "recording \<Rightarrow> recording" where
  "scanRecordingRow r =
     (if r_status r = '''' then r\<lparr>r_status := mergeStatusFromBool (r_merged r)\<rparr> else r)"

text \<open>The queries for the merge select fewer columns.\<close>

definition merge_view :: "recording \<Rightarrow> recording" where
  "merge_view r =
     (scanRecordingRow r)\<lparr>r_stream := '''', r_reconnected := 0, r_gap := '''', r_locked := False\<rparr>"

section \<open>Statements that write\<close>

definition ids_of :: "rec_table \<Rightarrow> string list" where
  "ids_of db = map r_id db"

text \<open>The primary key and the \<open>NOT NULL\<close> of the start are the constraints an insertion may fail.\<close>

definition insert_row :: "recording \<Rightarrow> rec_table \<Rightarrow> (db_error, rec_table) res" where
  "insert_row r db =
     (if r_id r \<in> set (ids_of db) \<or> r_started r = 0 then Err ConstraintFailed else Ok (db @ [r]))"

definition InsertRecording :: "recording \<Rightarrow> rec_table \<Rightarrow> (db_error, rec_table) res" where
  "InsertRecording r db =
     insert_row (r\<lparr>r_stream := recordingStreamID r, r_status := mergeStatusFromBool (r_merged r),
                  r_archived := False, r_locked := False\<rparr>) db"

definition update_where :: "(recording \<Rightarrow> bool) \<Rightarrow> (recording \<Rightarrow> recording) \<Rightarrow> rec_table \<Rightarrow> rec_table" where
  "update_where p f db = map (\<lambda>q. if p q then f q else q) db"

definition UpdateRecording :: "recording \<Rightarrow> rec_table \<Rightarrow> (db_error, rec_table) res" where
  "UpdateRecording r db =
     (if r_started r = 0 \<and> r_id r \<in> set (ids_of db) then Err ConstraintFailed
      else Ok (update_where (\<lambda>q. r_id q = r_id r)
        (\<lambda>q. r\<lparr>r_stream := recordingStreamID r, r_archived := r_archived q, r_locked := r_locked q\<rparr>) db))"

definition GetRecording :: "string \<Rightarrow> rec_table \<Rightarrow> recording option" where
  "GetRecording i db = map_option scanRecordingRow (find (\<lambda>q. r_id q = i) db)"

definition SetRecordingLocked :: "string \<Rightarrow> bool \<Rightarrow> rec_table \<Rightarrow> (db_error, rec_table) res" where
  "SetRecordingLocked i locked db =
     (if i \<notin> set (ids_of db) then Err NoRows
      else Ok (update_where (\<lambda>q. r_id q = i) (\<lambda>q. q\<lparr>r_locked := locked\<rparr>) db))"

definition DeleteRecording :: "string \<Rightarrow> rec_table \<Rightarrow> rec_table" where
  "DeleteRecording i db = filter (\<lambda>q. r_id q \<noteq> i) db"

definition DeleteRecordingsByCamera :: "string \<Rightarrow> rec_table \<Rightarrow> rec_table" where
  "DeleteRecordingsByCamera cam db = filter (\<lambda>q. r_camera q \<noteq> cam) db"

text \<open>The transaction deletes one after the other and reports those it found.\<close>

fun DeleteRecordingsBatch :: "string list \<Rightarrow> rec_table \<Rightarrow> string list \<times> rec_table" where
  "DeleteRecordingsBatch [] db = ([], db)"
| "DeleteRecordingsBatch (i # is) db =
     (let (deleted, db') = DeleteRecordingsBatch is (DeleteRecording i db)
      in (if i \<in> set (ids_of db) then i # deleted else deleted, db'))"

definition SetMerged :: "string \<Rightarrow> bool \<Rightarrow> rec_table \<Rightarrow> rec_table" where
  "SetMerged i merged db =
     update_where (\<lambda>q. r_id q = i) (\<lambda>q. q\<lparr>r_merged := merged, r_status := mergeStatusFromBool merged\<rparr>) db"

definition SetMergeStatus :: "string list \<Rightarrow> string \<Rightarrow> rec_table \<Rightarrow> rec_table" where
  "SetMergeStatus is status db =
     fold (\<lambda>i. update_where (\<lambda>q. r_id q = i) (\<lambda>q. q\<lparr>r_status := status\<rparr>)) is db"

definition CleanupIncomplete :: "rec_table \<Rightarrow> rec_table" where
  "CleanupIncomplete db = filter (\<lambda>q. r_ended q \<noteq> 0) db"

definition UpdateRecordingDuration :: "string \<Rightarrow> rat \<Rightarrow> nat \<Rightarrow> rec_table \<Rightarrow> rec_table" where
  "UpdateRecordingDuration i d ended db =
     update_where (\<lambda>q. r_id q = i) (\<lambda>q. q\<lparr>r_duration := d, r_ended := ended\<rparr>) db"

definition ArchiveAllRecordings :: "string \<Rightarrow> rec_table \<Rightarrow> rec_table" where
  "ArchiveAllRecordings cam db =
     update_where (\<lambda>q. r_camera q = cam \<and> \<not> r_archived q) (\<lambda>q. q\<lparr>r_archived := True\<rparr>) db"

definition UnarchiveAllRecordings :: "string \<Rightarrow> rec_table \<Rightarrow> rec_table" where
  "UnarchiveAllRecordings cam db =
     update_where (\<lambda>q. r_camera q = cam \<and> r_archived q) (\<lambda>q. q\<lparr>r_archived := False\<rparr>) db"

text \<open>\<open>INSERT OR IGNORE\<close>: a row that violates a constraint is skipped.\<close>

fun InsertOrphanRecordings :: "recording list \<Rightarrow> rec_table \<Rightarrow> nat \<times> rec_table" where
  "InsertOrphanRecordings [] db = (0, db)"
| "InsertOrphanRecordings (r # rs) db =
     (case InsertRecording r db of
        Ok db' \<Rightarrow> (let (n, db'') = InsertOrphanRecordings rs db' in (n + 1, db''))
      | _ \<Rightarrow> InsertOrphanRecordings rs db)"

definition delete_ids :: "string list \<Rightarrow> rec_table \<Rightarrow> rec_table" where
  "delete_ids is db = fold DeleteRecording is db"

definition MergeAndReplaceRecordings ::
    "recording \<Rightarrow> string list \<Rightarrow> rec_table \<Rightarrow> (db_error, rec_table) res" where
  "MergeAndReplaceRecordings merged old db =
     (if old = [] then InsertRecording merged db
      else bind (insert_row (merged\<lparr>r_stream := recordingStreamID merged, r_merged := True, r_status := ''merged'',
               r_archived := False, r_reconnected := 0, r_gap := '''', r_locked := False\<rparr>) db)
        (\<lambda>db'. Ok (delete_ids old db')))"

definition GrowMergedRecording ::
    "recording \<Rightarrow> string list \<Rightarrow> rec_table \<Rightarrow> (db_error, rec_table) res" where
  "GrowMergedRecording r old db =
     (if r_id r \<notin> set (ids_of db) then Err (MergedNotFound (r_id r))
      else Ok (delete_ids old (update_where (\<lambda>q. r_id q = r_id r)
        (\<lambda>q. q\<lparr>r_ended := r_ended r, r_duration := r_duration r, r_size := r_size r, r_frames := r_frames r\<rparr>) db)))"

section \<open>Ordering\<close>

fun insert_by :: "('a \<Rightarrow> 'a \<Rightarrow> bool) \<Rightarrow> 'a \<Rightarrow> 'a list \<Rightarrow> 'a list" where
  "insert_by le x [] = [x]"
| "insert_by le x (y # ys) = (if le x y then x # y # ys else y # insert_by le x ys)"

definition order_by :: "('a \<Rightarrow> 'a \<Rightarrow> bool) \<Rightarrow> 'a list \<Rightarrow> 'a list" where
  "order_by le xs = foldr (insert_by le) xs []"

lemma set_insert_by [simp]: "set (insert_by le x xs) = insert x (set xs)"
  by (induction xs) auto

lemma set_order_by [simp]: "set (order_by le xs) = set xs"
  unfolding order_by_def by (induction xs) auto

lemma length_insert_by [simp]: "length (insert_by le x xs) = Suc (length xs)"
  by (induction xs) auto

lemma length_order_by [simp]: "length (order_by le xs) = length xs"
  unfolding order_by_def by (induction xs) auto

lemma mset_insert_by [simp]: "mset (insert_by le x xs) = add_mset x (mset xs)"
  by (induction xs) auto

lemma mset_order_by [simp]: "mset (order_by le xs) = mset xs"
  unfolding order_by_def by (induction xs) auto

lemma sorted_insert_by:
  assumes total: "\<And>x y. le x y \<or> le y x" and trans: "\<And>x y z. le x y \<Longrightarrow> le y z \<Longrightarrow> le x z"
  shows "sorted_wrt le xs \<Longrightarrow> sorted_wrt le (insert_by le x xs)"
proof (induction xs)
  case (Cons y ys)
  show ?case
  proof (cases "le x y")
    case True
    then have "\<forall>z \<in> set ys. le x z" using Cons.prems by (auto intro: trans)
    with True Cons.prems show ?thesis by simp
  next
    case False
    then have "le y x" using total by blast
    with False Cons show ?thesis by simp
  qed
qed simp

lemma sorted_order_by:
  assumes "\<And>x y. le x y \<or> le y x" and "\<And>x y z. le x y \<Longrightarrow> le y z \<Longrightarrow> le x z"
  shows "sorted_wrt le (order_by le xs)"
  unfolding order_by_def by (induction xs) (auto intro: sorted_insert_by[OF assms])

definition by_nat :: "('a \<Rightarrow> nat) \<Rightarrow> 'a \<Rightarrow> 'a \<Rightarrow> bool" where
  "by_nat f x y \<longleftrightarrow> f x \<le> f y"

lemma sorted_by_nat: "sorted_wrt (by_nat f) (order_by (by_nat f) xs)"
  by (rule sorted_order_by) (auto simp: by_nat_def)


section \<open>Listings\<close>

definition is_closed :: "recording \<Rightarrow> bool" where
  "is_closed q \<longleftrightarrow> r_ended q \<noteq> 0"

definition is_pending :: "string \<Rightarrow> recording \<Rightarrow> bool" where
  "is_pending cam q \<longleftrightarrow> r_camera q = cam \<and> r_status q = ''pending'' \<and> is_closed q"

text \<open>\<open>time.Now().UTC().AddDate(0, 0, -days)\<close>.\<close>

definition retention_cutoff :: "nat \<Rightarrow> int \<Rightarrow> int" where
  "retention_cutoff now days = int now - days * int day_ns"

text \<open>The rows retention may delete: closed, not locked, and before the cutoff; \<open>archived\<close> picks the half of the table.\<close>

definition expired :: "bool \<Rightarrow> nat \<Rightarrow> int \<Rightarrow> recording \<Rightarrow> bool" where
  "expired archived now days q \<longleftrightarrow>
     is_closed q \<and> r_archived q = archived \<and> \<not> r_locked q \<and> int (r_ended q) < retention_cutoff now days"

definition ListExpiredRecordings :: "nat \<Rightarrow> int \<Rightarrow> rec_table \<Rightarrow> recording list" where
  "ListExpiredRecordings now days db =
     map scanRecordingRow (order_by (by_nat r_ended) (filter (expired False now days) db))"

definition ListExpiredRecordingsByCamera :: "string \<Rightarrow> nat \<Rightarrow> int \<Rightarrow> rec_table \<Rightarrow> recording list" where
  "ListExpiredRecordingsByCamera cam now days db =
     map scanRecordingRow (order_by (by_nat r_ended)
       (filter (\<lambda>q. expired False now days q \<and> r_camera q = cam) db))"

definition ListExpiredArchivedRecordingsByCamera :: "string \<Rightarrow> nat \<Rightarrow> int \<Rightarrow> rec_table \<Rightarrow> recording list" where
  "ListExpiredArchivedRecordingsByCamera cam now days db =
     map scanRecordingRow (order_by (by_nat r_ended)
       (filter (\<lambda>q. expired True now days q \<and> r_camera q = cam) db))"

definition ListOldestRecordings :: "nat \<Rightarrow> rec_table \<Rightarrow> recording list" where
  "ListOldestRecordings limit db =
     map scanRecordingRow (take limit (order_by (by_nat r_ended)
       (filter (\<lambda>q. is_closed q \<and> \<not> r_archived q \<and> \<not> r_locked q) db)))"

definition ListPendingMJPEGRecordings :: "string \<Rightarrow> rec_table \<Rightarrow> recording list" where
  "ListPendingMJPEGRecordings cam db =
     map scanRecordingRow (filter (\<lambda>q. is_pending cam q \<and> r_format q \<in> {''mjpeg'', ''jpeg''}) db)"

definition RepairZeroDurationRecordings :: "rec_table \<Rightarrow> recording list" where
  "RepairZeroDurationRecordings db =
     map scanRecordingRow (filter (\<lambda>q. r_duration q = 0 \<and> r_size q > 1048576 \<and> r_format q \<noteq> ''mjpeg''
       \<and> is_closed q \<and> r_status q = ''pending'') db)"

definition text_le :: "string \<Rightarrow> string \<Rightarrow> bool" where
  "text_le s t \<longleftrightarrow> \<not> text_less t s"

definition ListDistinctRecordingOwners :: "rec_table \<Rightarrow> string list" where
  "ListDistinctRecordingOwners db =
     order_by text_le (remdups (filter (\<lambda>c. c \<noteq> '''') (map r_camera db)))"

definition ListPendingMergeCameraIDs :: "rec_table \<Rightarrow> string list" where
  "ListPendingMergeCameraIDs db =
     filter (\<lambda>c. c \<noteq> '''') (order_by text_le (remdups (map r_camera
       (filter (\<lambda>q. is_pending (r_camera q) q \<and> \<not> r_archived q) db))))"

definition CountPendingMerges :: "string \<Rightarrow> rec_table \<Rightarrow> nat" where
  "CountPendingMerges cam db = length (filter (\<lambda>q. is_pending cam q \<and> \<not> r_archived q) db)"

definition GetArchiveGroupStats :: "string \<Rightarrow> rec_table \<Rightarrow> nat \<times> int" where
  "GetArchiveGroupStats cam db =
     (let rows = filter (\<lambda>q. r_camera q = cam \<and> r_archived q) db in (length rows, sum_list (map r_size rows)))"

definition GetCameraRecordingStats :: "string \<Rightarrow> rec_table \<Rightarrow> nat \<times> int" where
  "GetCameraRecordingStats cam db =
     (let rows = filter (\<lambda>q. r_camera q = cam \<and> \<not> r_archived q) db in (length rows, sum_list (map r_size rows)))"

definition CountRecordingsByCamera :: "string \<Rightarrow> rec_table \<Rightarrow> nat" where
  "CountRecordingsByCamera cam db = length (filter (\<lambda>q. r_camera q = cam) db)"

definition GetLastRecordingTime :: "string \<Rightarrow> rec_table \<Rightarrow> nat option" where
  "GetLastRecordingTime cam db =
     (case filter (\<lambda>t. t \<noteq> 0) (map r_ended (filter (\<lambda>q. r_camera q = cam) db)) of
        [] \<Rightarrow> None
      | t # ts \<Rightarrow> Some (fold max ts t))"

definition ListRecordingTimeline :: "string \<Rightarrow> nat \<Rightarrow> nat \<Rightarrow> int \<Rightarrow> rec_table \<Rightarrow> recording list" where
  "ListRecordingTimeline cam start end limit db =
     (let n = (if limit \<le> 0 \<or> limit > 10000 then 10000 else nat limit) in
      take n (order_by (by_nat r_started)
        (filter (\<lambda>q. r_camera q = cam \<and> \<not> r_archived q \<and> is_closed q \<and> r_started q < end \<and> start < r_ended q) db)))"

subsection \<open>Windows of the merge\<close>

record merge_window =
  mw_start :: nat
  mw_end :: nat
  mw_count :: nat
  mw_format :: string

text \<open>\<open>strftime('%s', substr(started_at, 1, 19))\<close>: seconds since 1970.\<close>

definition unix_seconds :: "nat \<Rightarrow> int" where
  "unix_seconds t = int (t div 1000000000) - 62135596800"

definition mergeWindowSeconds :: "int \<Rightarrow> int" where
  "mergeWindowSeconds window = (let s = window sdiv 1000000000 in if s < 60 then 3600 else s)"

definition epoch_bucket :: "int \<Rightarrow> nat \<Rightarrow> int" where
  "epoch_bucket secs t = (unix_seconds t sdiv secs) * secs"

text \<open>
  \<open>time.Now().Add(-minAge).Format(sqliteTimeFormat)\<close> has no \<open>UTC()\<close>: the clock of the machine's zone is
  compared with stored times in UTC, which moves the cutoff by the offset of the zone.
\<close>

definition local_cutoff :: "int \<Rightarrow> nat \<Rightarrow> int \<Rightarrow> int" where
  "local_cutoff zone now minAge = int now - minAge + zone"

definition ListMergeableSegments :: "string \<Rightarrow> nat \<Rightarrow> nat \<Rightarrow> rec_table \<Rightarrow> recording list" where
  "ListMergeableSegments cam start end db =
     map merge_view (order_by (by_nat r_started)
       (filter (\<lambda>q. is_pending cam q \<and> start \<le> r_started q \<and> r_started q < end) db))"

definition window_of :: "int \<Rightarrow> recording list \<Rightarrow> int \<times> string \<Rightarrow> merge_window" where
  "window_of secs rows k =
     (let g = filter (\<lambda>q. (epoch_bucket secs (r_started q), r_format q) = k) rows in
      \<lparr>mw_start = fold min (map r_started g) (r_started (hd g)), mw_end = fold max (map r_ended g) 0,
       mw_count = length g, mw_format = snd k\<rparr>)"

definition ListCameraMergeWindows :: "string \<Rightarrow> int \<Rightarrow> nat \<Rightarrow> int \<Rightarrow> int \<Rightarrow> rec_table \<Rightarrow> merge_window list" where
  "ListCameraMergeWindows cam zone now minAge window db =
     (let secs = mergeWindowSeconds window;
          rows = filter (\<lambda>q. is_pending cam q \<and> int (r_ended q) < local_cutoff zone now minAge) db;
          keys = remdups (map (\<lambda>q. (epoch_bucket secs (r_started q), r_format q)) rows)
      in map (window_of secs rows) (order_by (\<lambda>k l. fst k \<le> fst l)
           (filter (\<lambda>k. 2 \<le> mw_count (window_of secs rows k)) keys)))"

definition ListWindowMergedRecordings :: "string \<Rightarrow> nat \<Rightarrow> nat \<Rightarrow> rec_table \<Rightarrow> recording list" where
  "ListWindowMergedRecordings cam start end db =
     map merge_view (order_by (by_nat r_started)
       (filter (\<lambda>q. r_camera q = cam \<and> r_status q = ''merged'' \<and> \<not> r_archived q \<and> is_closed q
                   \<and> start \<le> r_started q \<and> r_started q < end) db))"

definition ListSingletonPendingRecordings :: "string \<Rightarrow> int \<Rightarrow> nat \<Rightarrow> int \<Rightarrow> int \<Rightarrow> rec_table \<Rightarrow> recording list" where
  "ListSingletonPendingRecordings cam zone now minAge window db =
     (let secs = mergeWindowSeconds window in
      map merge_view (filter (\<lambda>q. is_pending cam q \<and> int (r_ended q) < local_cutoff zone now minAge
        \<and> length (filter (\<lambda>q2. is_pending cam q2 \<and> r_format q2 = r_format q
                     \<and> epoch_bucket secs (r_started q2) = epoch_bucket secs (r_started q)) db) = 1) db))"


section \<open>The filtered listing\<close>

text \<open>\<open>escapeLike\<close>: three passes of \<open>ReplaceAll\<close>.\<close>

definition escape_char :: "char \<Rightarrow> string \<Rightarrow> string" where
  "escape_char c s = concat (map (\<lambda>x. if x = c then [CHR 0x5C, x] else [x]) s)"

definition escapeLike :: "string \<Rightarrow> string" where
  "escapeLike s = escape_char (CHR 0x5F) (escape_char (CHR 0x25) (escape_char (CHR 0x5C) s))"

text \<open>SQLite's \<open>LIKE ... ESCAPE '\'\<close>, which ignores the case of ASCII letters.\<close>

function like :: "string \<Rightarrow> string \<Rightarrow> bool" where
  "like p t =
     (case p of
        [] \<Rightarrow> t = []
      | c # q \<Rightarrow>
          if c = CHR 0x25 then like q t \<or> (case t of [] \<Rightarrow> False | x # u \<Rightarrow> like p u)
          else if c = CHR 0x5F then (case t of [] \<Rightarrow> False | x # u \<Rightarrow> like q u)
          else if c = CHR 0x5C
            then (case q of
                    [] \<Rightarrow> False
                  | d # q' \<Rightarrow> (case t of [] \<Rightarrow> False | x # u \<Rightarrow> lower_char x = lower_char d \<and> like q' u))
          else (case t of [] \<Rightarrow> False | x # u \<Rightarrow> lower_char x = lower_char c \<and> like q u))"
  by auto
termination by (relation "measures [\<lambda>(p, t). length t, \<lambda>(p, t). length p]") auto

declare like.simps [simp del]

lemma like_Nil [simp]: "like [] t \<longleftrightarrow> t = []"
  by (subst like.simps) simp

lemma like_percent:
  "like (CHR 0x25 # p) [] \<longleftrightarrow> like p []"
  "like (CHR 0x25 # p) (x # u) \<longleftrightarrow> like p (x # u) \<or> like (CHR 0x25 # p) u"
  by (subst like.simps; simp)+

lemma like_escaped [simp]:
  "like (CHR 0x5C # c # p) t \<longleftrightarrow> (case t of [] \<Rightarrow> False | x # u \<Rightarrow> lower_char x = lower_char c \<and> like p u)"
  by (subst like.simps) simp

lemma like_plain [simp]:
  "c \<noteq> CHR 0x25 \<Longrightarrow> c \<noteq> CHR 0x5F \<Longrightarrow> c \<noteq> CHR 0x5C
     \<Longrightarrow> like (c # p) t \<longleftrightarrow> (case t of [] \<Rightarrow> False | x # u \<Rightarrow> lower_char x = lower_char c \<and> like p u)"
  by (subst like.simps) simp

lemma like_everything: "like [CHR 0x25] t"
  by (induction t) (simp_all add: like_percent)

lemma escape_char_append: "escape_char c (s @ t) = escape_char c s @ escape_char c t"
  by (simp add: escape_char_def)

lemma escapeLike_Nil [simp]: "escapeLike [] = []"
  by (simp add: escapeLike_def escape_char_def)

lemma escapeLike_Cons:
  "escapeLike (c # s) = (if c \<in> {CHR 0x25, CHR 0x5F, CHR 0x5C} then [CHR 0x5C, c] else [c]) @ escapeLike s"
  by (simp add: escapeLike_def escape_char_def)

lemma like_literal:
  "like (escapeLike s @ p) t \<longleftrightarrow> has_prefix (to_lower t) (to_lower s) \<and> like p (drop (length s) t)"
proof (induction s arbitrary: t)
  case Nil
  then show ?case by (simp add: has_prefix_def to_lower_def)
next
  case (Cons c s)
  have "like (escapeLike (c # s) @ p) t
      \<longleftrightarrow> (case t of [] \<Rightarrow> False | x # u \<Rightarrow> lower_char x = lower_char c \<and> like (escapeLike s @ p) u)"
    by (auto simp: escapeLike_Cons)
  then show ?case
    by (cases t) (auto simp: Cons has_prefix_def to_lower_def)
qed

lemma contains_iff: "contains t s \<longleftrightarrow> has_prefix t s \<or> (t \<noteq> [] \<and> contains (tl t) s)"
  by (cases t) (auto simp: has_prefix_def)

record recording_filter =
  rf_stream :: string
  rf_camera :: string
  rf_start :: nat
  rf_end :: nat
  rf_format :: string
  rf_merged :: "bool option"
  rf_search :: string
  rf_limit :: int
  rf_offset :: int
  rf_sort :: string
  rf_order :: string
  rf_archived :: "bool option"

definition search_pattern :: "string \<Rightarrow> string" where
  "search_pattern s = ''%'' @ escapeLike s @ ''%''"

text \<open>The conjunction that the \<open>where\<close> parts form.\<close>

definition selected :: "recording_filter \<Rightarrow> recording \<Rightarrow> bool" where
  "selected f q \<longleftrightarrow>
     (rf_stream f \<noteq> '''' \<longrightarrow> r_stream q = rf_stream f \<or> (r_stream q = '''' \<and> r_camera q = rf_stream f))
   \<and> (rf_camera f \<noteq> '''' \<longrightarrow> r_camera q = rf_camera f)
   \<and> (case rf_merged f of None \<Rightarrow> True | Some m \<Rightarrow> r_status q = mergeStatusFromBool m)
   \<and> (rf_start f \<noteq> 0 \<longrightarrow> rf_start f \<le> r_started q)
   \<and> (rf_end f \<noteq> 0 \<longrightarrow> r_started q \<le> rf_end f)
   \<and> (rf_format f \<noteq> '''' \<longrightarrow> r_format q = rf_format f)
   \<and> (rf_search f \<noteq> '''' \<longrightarrow> (let p = search_pattern (rf_search f) in
        like p (r_camera q) \<or> like p (r_format q) \<or> like p (r_path q)))
   \<and> (r_archived q \<longleftrightarrow> rf_archived f = Some True)"

definition sort_column :: "string \<Rightarrow> recording \<Rightarrow> recording \<Rightarrow> bool" where
  "sort_column col x y =
     (if col = ''duration'' then r_duration x \<le> r_duration y
      else if col = ''file_size'' then r_size x \<le> r_size y
      else if col = ''camera_id'' then text_le (r_camera x) (r_camera y)
      else r_started x \<le> r_started y)"

definition sort_order :: "recording_filter \<Rightarrow> recording \<Rightarrow> recording \<Rightarrow> bool" where
  "sort_order f x y =
     (if equal_fold (rf_order f) ''asc'' then sort_column (rf_sort f) x y else sort_column (rf_sort f) y x)"

text \<open>SQLite rejects an \<open>OFFSET\<close> without a \<open>LIMIT\<close>.\<close>

definition listRecordingsUncached :: "recording_filter \<Rightarrow> rec_table \<Rightarrow> (db_error, recording list) res" where
  "listRecordingsUncached f db =
     (let rows = order_by (sort_order f) (filter (selected f) db);
          skipped = (if rf_offset f > 0 then drop (nat (rf_offset f)) rows else rows)
      in if rf_offset f > 0 \<and> \<not> rf_limit f > 0 then Err SyntaxError
         else Ok (map scanRecordingRow (if rf_limit f > 0 then take (nat (rf_limit f)) skipped else skipped)))"

definition countRecordingsUncached :: "recording_filter \<Rightarrow> rec_table \<Rightarrow> nat" where
  "countRecordingsUncached f db = length (filter (selected f) db)"

text \<open>The escaped pattern matches exactly the texts that contain the search, case aside.\<close>

lemma like_search:
  "like (search_pattern s) t \<longleftrightarrow> contains (to_lower t) (to_lower s)"
proof (induction t)
  case Nil
  show ?case
    by (simp add: search_pattern_def like_percent(1) like_literal like_everything to_lower_def has_prefix_def)
next
  case (Cons c t)
  have "like (search_pattern s) (c # t)
      \<longleftrightarrow> has_prefix (to_lower (c # t)) (to_lower s) \<or> like (search_pattern s) t"
    by (simp add: search_pattern_def like_percent(2) like_literal like_everything)
  with Cons show ?case by (subst contains_iff) (simp add: to_lower_def)
qed

text \<open>C31: 
  A search finds exactly the rows that contain the text literally: wildcards in the text are escaped, and only
  the case of letters is ignored.
\<close>

theorem search_is_substring:
  "selected f q \<longleftrightarrow> selected (f\<lparr>rf_search := []\<rparr>) q
    \<and> (rf_search f = [] \<or> contains (to_lower (r_camera q)) (to_lower (rf_search f))
       \<or> contains (to_lower (r_format q)) (to_lower (rf_search f)) \<or> contains (to_lower (r_path q)) (to_lower (rf_search f)))"
  unfolding selected_def Let_def like_search by (cases "rf_search f = []") (simp_all add: conj_ac)


section \<open>The table under every statement\<close>

datatype rec_op =
    InsertOp recording
  | UpdateOp recording
  | LockOp string bool
  | DeleteOp string
  | DeleteCameraOp string
  | DeleteBatchOp "string list"
  | SetMergedOp string bool
  | SetStatusOp "string list" string
  | CleanupOp
  | DurationOp string rat nat
  | ArchiveOp string
  | UnarchiveOp string
  | OrphansOp "recording list"
  | ReplaceOp recording "string list"
  | GrowOp recording "string list"

text \<open>A statement that fails is rolled back.\<close>

fun committed :: "rec_table \<Rightarrow> (db_error, rec_table) res \<Rightarrow> rec_table" where
  "committed db (Ok db') = db'"
| "committed db _ = db"

fun rec_step :: "rec_op \<Rightarrow> rec_table \<Rightarrow> rec_table" where
  "rec_step (InsertOp r) db = committed db (InsertRecording r db)"
| "rec_step (UpdateOp r) db = committed db (UpdateRecording r db)"
| "rec_step (LockOp i b) db = committed db (SetRecordingLocked i b db)"
| "rec_step (DeleteOp i) db = DeleteRecording i db"
| "rec_step (DeleteCameraOp c) db = DeleteRecordingsByCamera c db"
| "rec_step (DeleteBatchOp is) db = snd (DeleteRecordingsBatch is db)"
| "rec_step (SetMergedOp i b) db = SetMerged i b db"
| "rec_step (SetStatusOp is s) db = SetMergeStatus is s db"
| "rec_step CleanupOp db = CleanupIncomplete db"
| "rec_step (DurationOp i d e) db = UpdateRecordingDuration i d e db"
| "rec_step (ArchiveOp c) db = ArchiveAllRecordings c db"
| "rec_step (UnarchiveOp c) db = UnarchiveAllRecordings c db"
| "rec_step (OrphansOp rs) db = snd (InsertOrphanRecordings rs db)"
| "rec_step (ReplaceOp r is) db = committed db (MergeAndReplaceRecordings r is db)"
| "rec_step (GrowOp r is) db = committed db (GrowMergedRecording r is db)"

text \<open>Every row has an id of its own, a start, and the stream it was recorded from.\<close>

definition table_ok :: "rec_table \<Rightarrow> bool" where
  "table_ok db \<longleftrightarrow> distinct (ids_of db) \<and> (\<forall>q \<in> set db. r_started q \<noteq> 0 \<and> (r_camera q \<noteq> '''' \<longrightarrow> r_stream q \<noteq> ''''))"

lemma recordingStreamID_nonempty: "r_camera r \<noteq> '''' \<Longrightarrow> recordingStreamID r \<noteq> ''''"
  by (simp add: recordingStreamID_def Let_def)

lemma ids_of_append [simp]: "ids_of (xs @ ys) = ids_of xs @ ids_of ys" "ids_of [r] = [r_id r]" "ids_of [] = []"
  by (simp_all add: ids_of_def)

lemma ids_of_filter: "distinct (ids_of db) \<Longrightarrow> distinct (ids_of (filter p db))"
  unfolding ids_of_def by (induction db) auto

lemma ids_of_update [simp]:
  "(\<And>q. r_id (f q) = r_id q) \<Longrightarrow> ids_of (update_where p f db) = ids_of db"
  unfolding ids_of_def update_where_def by auto

lemma table_ok_filter: "table_ok db \<Longrightarrow> table_ok (filter p db)"
  by (auto simp: table_ok_def ids_of_filter)

lemma table_ok_update:
  assumes "table_ok db" and "\<And>q. q \<in> set db \<Longrightarrow> p q \<Longrightarrow> r_id (f q) = r_id q"
    and "\<And>q. q \<in> set db \<Longrightarrow> p q \<Longrightarrow> r_started (f q) \<noteq> 0 \<and> (r_camera (f q) \<noteq> '''' \<longrightarrow> r_stream (f q) \<noteq> '''')"
  shows "table_ok (update_where p f db)"
proof -
  have "ids_of (update_where p f db) = ids_of db"
    unfolding ids_of_def update_where_def using assms(2) by auto
  then show ?thesis
    using assms(1,3) by (auto simp: table_ok_def update_where_def)
qed

lemma insert_row_ok:
  assumes "table_ok db" and "insert_row r db = Ok db'" and "r_camera r \<noteq> '''' \<longrightarrow> r_stream r \<noteq> ''''"
  shows "table_ok db'"
  using assms by (auto simp: insert_row_def table_ok_def split: if_splits)

lemma InsertRecording_ok: "table_ok db \<Longrightarrow> InsertRecording r db = Ok db' \<Longrightarrow> table_ok db'"
  unfolding InsertRecording_def by (erule (1) insert_row_ok) (simp add: recordingStreamID_nonempty)

lemma delete_ids_eq: "delete_ids is db = filter (\<lambda>q. r_id q \<notin> set is) db"
  unfolding delete_ids_def by (induction "is" arbitrary: db) (auto simp: DeleteRecording_def intro: filter_cong)

lemma DeleteRecordingsBatch_table: "snd (DeleteRecordingsBatch is db) = delete_ids is db"
  by (induction "is" db rule: DeleteRecordingsBatch.induct) (auto simp: delete_ids_def split: prod.splits)

lemma SetMergeStatus_eq:
  "SetMergeStatus is status db = update_where (\<lambda>q. r_id q \<in> set is) (\<lambda>q. q\<lparr>r_status := status\<rparr>) db"
  unfolding SetMergeStatus_def update_where_def
  by (induction "is" arbitrary: db) auto

lemma InsertOrphan_ok: "table_ok db \<Longrightarrow> table_ok (snd (InsertOrphanRecordings rs db))"
  by (induction rs db rule: InsertOrphanRecordings.induct)
    (auto split: res.splits prod.splits dest: InsertRecording_ok)

lemma MergeAndReplace_ok:
  "table_ok db \<Longrightarrow> MergeAndReplaceRecordings r old db = Ok db' \<Longrightarrow> table_ok db'"
  by (auto simp: MergeAndReplaceRecordings_def bind_eq_Ok delete_ids_eq recordingStreamID_nonempty
      split: if_splits intro: InsertRecording_ok)
    (rule table_ok_filter, erule (1) insert_row_ok, simp add: recordingStreamID_nonempty)

text \<open>A merge takes locked rows like any other, and the row that replaces them is not locked.\<close>

lemma locked_rows_are_merged:
  "q \<in> set db \<Longrightarrow> is_pending cam q \<Longrightarrow> start \<le> r_started q \<Longrightarrow> r_started q < end
    \<Longrightarrow> merge_view q \<in> set (ListMergeableSegments cam start end db)"
  by (auto simp: ListMergeableSegments_def)

lemma merge_drops_lock:
  assumes "MergeAndReplaceRecordings m old db = Ok db'" and "old \<noteq> []" and "r_id m \<notin> set old"
  shows "(\<exists>q \<in> set db'. r_id q = r_id m \<and> \<not> r_locked q) \<and> (\<forall>q \<in> set db'. r_id q \<notin> set old)"
  using assms by (auto simp: MergeAndReplaceRecordings_def bind_eq_Ok insert_row_def delete_ids_eq split: if_splits)

lemma committed_ok:
  "table_ok db \<Longrightarrow> (\<And>db'. out = Ok db' \<Longrightarrow> table_ok db') \<Longrightarrow> table_ok (committed db out)"
  by (cases out) auto

lemma rec_step_ok:
  assumes "table_ok db"
  shows "table_ok (rec_step e db)"
proof -
  have row: "r_started q \<noteq> 0 \<and> (r_camera q \<noteq> '''' \<longrightarrow> r_stream q \<noteq> '''')" if "q \<in> set db" for q
    using assms that by (simp add: table_ok_def)
  have update: "table_ok db'" if "UpdateRecording r db = Ok db'" for r db'
  proof -
    have start: "r_started r \<noteq> 0" if "q \<in> set db" and "r_id q = r_id r" for q
    proof -
      have "r_id r \<in> set (ids_of db)" using that unfolding ids_of_def by (metis image_eqI set_map)
      with \<open>UpdateRecording r db = Ok db'\<close> show ?thesis by (auto simp: UpdateRecording_def split: if_splits)
    qed
    have "db' = update_where (\<lambda>q. r_id q = r_id r)
        (\<lambda>q. r\<lparr>r_stream := recordingStreamID r, r_archived := r_archived q, r_locked := r_locked q\<rparr>) db"
      using that by (simp add: UpdateRecording_def split: if_splits)
    then show ?thesis
      using start by (auto intro!: table_ok_update[OF assms] simp: recordingStreamID_nonempty)
  qed
  show ?thesis
  proof (cases e)
    case (UpdateOp r)
    then show ?thesis by (simp add: committed_ok[OF assms] update)
  next
    case (InsertOp r)
    then show ?thesis by (simp add: committed_ok[OF assms] InsertRecording_ok[OF assms])
  next
    case (OrphansOp rs)
    then show ?thesis using assms by (simp add: InsertOrphan_ok)
  next
    case (ReplaceOp r "is")
    then show ?thesis by (simp add: committed_ok[OF assms] MergeAndReplace_ok[OF assms])
  next
    case (LockOp i b)
    have "table_ok (update_where (\<lambda>q. r_id q = i) (\<lambda>q. q\<lparr>r_locked := b\<rparr>) db)"
      by (rule table_ok_update[OF assms]; simp add: row)
    with LockOp assms show ?thesis by (simp add: SetRecordingLocked_def)
  next
    case (GrowOp r "is")
    have "table_ok (update_where (\<lambda>q. r_id q = r_id r) (\<lambda>q. q\<lparr>r_ended := r_ended r, r_duration := r_duration r,
        r_size := r_size r, r_frames := r_frames r\<rparr>) db)"
      by (rule table_ok_update[OF assms]; simp add: row)
    with GrowOp assms show ?thesis by (simp add: GrowMergedRecording_def delete_ids_eq table_ok_filter)
  next
    case (SetMergedOp i b)
    then show ?thesis by (simp add: SetMerged_def) (rule table_ok_update[OF assms]; simp add: row)
  next
    case (SetStatusOp "is" t)
    then show ?thesis by (simp add: SetMergeStatus_eq) (rule table_ok_update[OF assms]; simp add: row)
  next
    case (DurationOp i d t)
    then show ?thesis by (simp add: UpdateRecordingDuration_def) (rule table_ok_update[OF assms]; simp add: row)
  next
    case (ArchiveOp c)
    then show ?thesis by (simp add: ArchiveAllRecordings_def) (rule table_ok_update[OF assms]; simp add: row)
  next
    case (UnarchiveOp c)
    then show ?thesis by (simp add: UnarchiveAllRecordings_def) (rule table_ok_update[OF assms]; simp add: row)
  qed (simp_all add: table_ok_filter[OF assms] DeleteRecording_def DeleteRecordingsByCamera_def
      DeleteRecordingsBatch_table delete_ids_eq CleanupIncomplete_def)
qed

interpretation rec_table: inv_machine rec_step "\<lambda>_ _. True" table_ok
  by unfold_locales (rule rec_step_ok)



end
