(* ===== verification/Merge_Journal.thy ===== *)
theory Merge_Journal
  imports Merge_Append Recordings
begin

text \<open>
  The journal that makes an append to an hour file recoverable (\<open>merge/append.go\<close>, \<open>appendOntoBucket\<close> in
  \<open>merge/manager.go\<close>): its bytes, hiding and restoring of the absorbed segments, the append with its undo,
  and what a restart makes of every state a crash may leave.
\<close>

section \<open>The journal file\<close>

record merge_journal =
  jl_mdatOffset :: int
  jl_moovOffset :: int
  jl_moovSize :: int
  jl_mdatSize :: "32 word"
  jl_ids :: "string list"
  jl_paths :: "string list"
  jl_oldMoov :: "byte list"

datatype journal_error =
    InvalidJournal | StringTooLong | NoJournal | ShortRead | BadMagic | BadVersion "32 word" | FileError

definition journalPath :: "string \<Rightarrow> string" where
  "journalPath p = sibling p (''.'' @ path_base p @ ''.mjournal'')"

definition consumedPath :: "string \<Rightarrow> string" where
  "consumedPath p = sibling p (''.'' @ path_base p @ ''.consumed'')"

definition writeJournalString :: "string \<Rightarrow> (journal_error, byte list) res" where
  "writeJournalString s =
     (if length s > 0xFFFF then Err StringTooLong
      else Ok (be_bytes 2 (of_nat (length s) :: 16 word) @ bytes_of_string s))"

fun journal_entries :: "(string \<times> string) list \<Rightarrow> (journal_error, byte list) res" where
  "journal_entries [] = Ok []"
| "journal_entries ((i, p) # es) =
     bind (writeJournalString i) (\<lambda>a. bind (writeJournalString p) (\<lambda>b.
     bind (journal_entries es) (\<lambda>c. Ok (a @ b @ c))))"

definition int64_bytes :: "int \<Rightarrow> byte list" where
  "int64_bytes x = be_bytes 8 (word_of_int x :: 64 word)"

definition encode_journal :: "merge_journal \<Rightarrow> (journal_error, byte list) res" where
  "encode_journal j =
     (if length (jl_ids j) \<noteq> length (jl_paths j) \<or> int (length (jl_oldMoov j)) \<noteq> jl_moovSize j
      then Err InvalidJournal
      else bind (journal_entries (zip (jl_ids j) (jl_paths j))) (\<lambda>es.
        Ok (bytes_of_string ''NVRJ'' @ be_bytes 4 (1 :: 32 word)
            @ int64_bytes (jl_mdatOffset j) @ int64_bytes (jl_moovOffset j) @ int64_bytes (jl_moovSize j)
            @ be_bytes 4 (jl_mdatSize j) @ be_bytes 4 (of_nat (length (jl_ids j)) :: 32 word)
            @ es @ jl_oldMoov j)))"

type_synonym files = "string \<Rightarrow> byte list option"

text \<open>\<open>writeMergeJournal\<close> writes a temporary file and renames it; after an error the temporary file is removed.\<close>

definition writeMergeJournal :: "string \<Rightarrow> merge_journal \<Rightarrow> files \<Rightarrow> (journal_error, unit) res \<times> files" where
  "writeMergeJournal path j fs =
     (case encode_journal j of
        Ok bs \<Rightarrow> (Ok (), fs(journalPath path @ ''.tmp'' := None, journalPath path := Some bs))
      | Err InvalidJournal \<Rightarrow> (Err InvalidJournal, fs)
      | Err e \<Rightarrow> (Err e, fs(journalPath path @ ''.tmp'' := None))
      | Panic \<Rightarrow> (Panic, fs))"

definition read_full :: "nat \<Rightarrow> byte list \<Rightarrow> (journal_error, byte list \<times> byte list) res" where
  "read_full n bs = (if length bs < n then Err ShortRead else Ok (take n bs, drop n bs))"

definition readJournalString :: "byte list \<Rightarrow> (journal_error, string \<times> byte list) res" where
  "readJournalString bs =
     bind (read_full 2 bs) (\<lambda>(l, rest).
     bind (read_full (unat (be_word l :: 16 word)) rest) (\<lambda>(s, rest'). Ok (string_of_bytes s, rest')))"

fun read_entries :: "nat \<Rightarrow> byte list \<Rightarrow> (journal_error, (string \<times> string) list \<times> byte list) res" where
  "read_entries 0 bs = Ok ([], bs)"
| "read_entries (Suc n) bs =
     bind (readJournalString bs) (\<lambda>(i, r). bind (readJournalString r) (\<lambda>(p, r').
     bind (read_entries n r') (\<lambda>(es, r''). Ok ((i, p) # es, r''))))"

definition read_int64 :: "byte list \<Rightarrow> (journal_error, int \<times> byte list) res" where
  "read_int64 bs = bind (read_full 8 bs) (\<lambda>(x, rest). Ok (sint (be_word x :: 64 word), rest))"

definition read_uint32 :: "byte list \<Rightarrow> (journal_error, 32 word \<times> byte list) res" where
  "read_uint32 bs = bind (read_full 4 bs) (\<lambda>(x, rest). Ok (be_word x, rest))"

text \<open>A negative size makes \<open>make\<close> panic.\<close>

definition decode_journal :: "byte list \<Rightarrow> (journal_error, merge_journal) res" where
  "decode_journal bs =
     bind (read_full 4 bs) (\<lambda>(magic, bs).
     if magic \<noteq> bytes_of_string ''NVRJ'' then Err BadMagic else
     bind (read_uint32 bs) (\<lambda>(version, bs).
     if version \<noteq> 1 then Err (BadVersion version) else
     bind (read_int64 bs) (\<lambda>(mdat, bs). bind (read_int64 bs) (\<lambda>(moov, bs). bind (read_int64 bs) (\<lambda>(moovSize, bs).
     bind (read_uint32 bs) (\<lambda>(mdatSize, bs). bind (read_uint32 bs) (\<lambda>(n, bs).
     bind (read_entries (unat n) bs) (\<lambda>(es, bs).
     if moovSize < 0 then Panic else
     bind (read_full (nat moovSize) bs) (\<lambda>(old, _).
       Ok \<lparr>jl_mdatOffset = mdat, jl_moovOffset = moov, jl_moovSize = moovSize, jl_mdatSize = mdatSize,
           jl_ids = map fst es, jl_paths = map snd es, jl_oldMoov = old\<rparr>)))))))))"

definition readMergeJournal :: "string \<Rightarrow> files \<Rightarrow> (journal_error, merge_journal) res" where
  "readMergeJournal path fs =
     (case fs (journalPath path) of None \<Rightarrow> Err NoJournal | Some bs \<Rightarrow> decode_journal bs)"

subsection \<open>What is written is read back\<close>

lemma length_bytes_of_string [simp]: "length (bytes_of_string s) = length s"
  by (simp add: bytes_of_string_def)

lemma read_full_append [simp]: "n = length x \<Longrightarrow> read_full n (x @ r) = Ok (x, r)"
  by (simp add: read_full_def)

lemma read_string_back:
  "writeJournalString s = Ok bs \<Longrightarrow> readJournalString (bs @ r) = Ok (s, r)"
  by (auto simp: writeJournalString_def readJournalString_def string_bytes_back unat_of_nat_16 go_simps split: if_splits)

lemma read_entries_back:
  "journal_entries es = Ok bs \<Longrightarrow> read_entries (length es) (bs @ r) = Ok (es, r)"
proof (induction es arbitrary: bs)
  case (Cons e es)
  obtain i p where e: "e = (i, p)" by force
  from Cons.prems obtain a b c where "writeJournalString i = Ok a" "writeJournalString p = Ok b"
      "journal_entries es = Ok c" "bs = a @ b @ c"
    by (auto simp: e bind_eq_Ok)
  then show ?case using Cons.IH[of c] by (simp add: e read_string_back)
qed simp

definition journal_fits :: "merge_journal \<Rightarrow> bool" where
  "journal_fits j \<longleftrightarrow> length (jl_ids j) < 2 ^ 32
     \<and> (\<forall>x \<in> {jl_mdatOffset j, jl_moovOffset j, jl_moovSize j}. - (2 ^ 63) \<le> x \<and> x < 2 ^ 63)"

lemma read_int64_back: "- (2 ^ 63) \<le> x \<Longrightarrow> x < 2 ^ 63 \<Longrightarrow> read_int64 (int64_bytes x @ r) = Ok (x, r)"
proof -
  assume "- (2 ^ 63) \<le> x" "x < 2 ^ 63"
  then have "sint (word_of_int x :: 64 word) = x"
    unfolding signed_of_int by (simp add: signed_take_bit_int_eq_self)
  then show ?thesis by (simp add: read_int64_def int64_bytes_def)
qed

lemma read_uint32_back [simp]: "read_uint32 (be_bytes 4 w @ r) = Ok (w, r)"
  by (simp add: read_uint32_def)

lemma decode_encoded_journal:
  assumes "encode_journal j = Ok bs" and "journal_fits j"
  shows "decode_journal (bs @ rest) = Ok j"
proof -
  from assms(1) obtain es where shape: "length (jl_ids j) = length (jl_paths j)"
      "jl_moovSize j = int (length (jl_oldMoov j))"
    and es: "journal_entries (zip (jl_ids j) (jl_paths j)) = Ok es"
    and bs: "bs = bytes_of_string ''NVRJ'' @ be_bytes 4 (1 :: 32 word)
            @ int64_bytes (jl_mdatOffset j) @ int64_bytes (jl_moovOffset j) @ int64_bytes (jl_moovSize j)
            @ be_bytes 4 (jl_mdatSize j) @ be_bytes 4 (of_nat (length (jl_ids j)) :: 32 word)
            @ es @ jl_oldMoov j"
    by (auto simp: encode_journal_def bind_eq_Ok split: if_splits)
  have "read_entries (length (jl_ids j)) (es @ r) = Ok (zip (jl_ids j) (jl_paths j), r)" for r
    using read_entries_back[OF es, of r] shape(1) by simp
  moreover have "unat (of_nat (length (jl_ids j)) :: 32 word) = length (jl_ids j)"
    using assms(2) by (simp add: journal_fits_def unat_of_nat_32)
  ultimately show ?thesis
    using assms(2) shape unfolding bs
    by (simp add: decode_journal_def read_int64_back journal_fits_def)
qed

text \<open>C32: The journal that is written is read back, whatever ids, paths and index it holds.\<close>

theorem journal_roundtrip:
  assumes "writeMergeJournal path j fs = (Ok (), fs')" and "journal_fits j"
  shows "readMergeJournal path fs' = Ok j"
  using assms decode_encoded_journal[of j _ "[]"]
  by (auto simp: writeMergeJournal_def readMergeJournal_def split: res.splits journal_error.splits)


section \<open>Hiding, restoring, reconciling\<close>

definition hideConsumed :: "string \<Rightarrow> files \<Rightarrow> files option" where
  "hideConsumed p fs =
     (case fs p of None \<Rightarrow> None | Some b \<Rightarrow> Some (fs(p := None, consumedPath p := Some b)))"

definition unhide_one :: "string \<Rightarrow> files \<Rightarrow> files" where
  "unhide_one p fs =
     (case fs (consumedPath p) of None \<Rightarrow> fs | Some b \<Rightarrow> fs(consumedPath p := None, p := Some b))"

definition unhideConsumed :: "string list \<Rightarrow> files \<Rightarrow> files" where
  "unhideConsumed ps fs = fold unhide_one ps fs"

text \<open>\<open>restoreJournalFile\<close>; a negative offset makes the first system call that uses it fail.\<close>

definition restoreJournalFile :: "string \<Rightarrow> merge_journal \<Rightarrow> files \<Rightarrow> bool \<times> files" where
  "restoreJournalFile path j fs =
     (case fs path of
        None \<Rightarrow> (False, fs)
      | Some g \<Rightarrow>
          if jl_moovOffset j < 0 then (False, fs)
          else if jl_mdatOffset j < 0
          then (False, fs(path \<mapsto> pwrite (truncate_to g (nat (jl_moovOffset j))) (nat (jl_moovOffset j)) (jl_oldMoov j)))
          else (True, fs(path \<mapsto> restore_file (nat (jl_moovOffset j)) (jl_oldMoov j) (nat (jl_mdatOffset j))
                           (jl_mdatSize j) g)))"

definition drop_consumed :: "string list \<Rightarrow> files \<Rightarrow> files" where
  "drop_consumed ps fs = fold (\<lambda>p fs. fs(consumedPath p := None)) ps fs"

definition reconcileMergeJournal :: "rec_table \<Rightarrow> string \<Rightarrow> files \<Rightarrow> (journal_error, unit) res \<times> files" where
  "reconcileMergeJournal db path fs =
     (case readMergeJournal path fs of
        Err NoJournal \<Rightarrow> (Ok (), fs)
      | Err e \<Rightarrow> (Err e, fs)
      | Panic \<Rightarrow> (Panic, fs)
      | Ok j \<Rightarrow>
          if list_ex (\<lambda>i. GetRecording i db \<noteq> None) (jl_ids j) then
            (case restoreJournalFile path j fs of
               (False, fs') \<Rightarrow> (Err FileError, fs')
             | (True, fs') \<Rightarrow> (Ok (), (unhideConsumed (jl_paths j) fs')(journalPath path := None)))
          else (Ok (), (drop_consumed (jl_paths j) fs)(journalPath path := None)))"

section \<open>The append to an hour file\<close>

record disk_budget =
  bg_free :: int
  bg_ok :: bool

definition reserve :: "int \<Rightarrow> disk_budget \<Rightarrow> bool \<times> disk_budget" where
  "reserve n b =
     (if \<not> bg_ok b \<or> n < 0 \<or> bg_free b < n then (False, b) else (True, b\<lparr>bg_free := bg_free b - n\<rparr>))"

datatype bucket_error =
    NothingToAppend | JournalError journal_error | ParseError parse_error | BucketMissing
  | AppendNotPossible | NeedSpace | AppendFailed | HideFailed | GrowFailed db_error

text \<open>What may go wrong on the way: the writes of the append, one of the renames, the last \<open>Stat\<close> or the transaction.\<close>

record bucket_faults =
  bf_write :: write_fault
  bf_hide :: "nat option"
  bf_grow :: bool

definition bucket_journal :: "segmentInfo \<Rightarrow> recording list \<Rightarrow> byte list \<Rightarrow> merge_journal" where
  "bucket_journal info recs f =
     \<lparr>jl_mdatOffset = fst (si_mdat info), jl_moovOffset = fst (si_moov info), jl_moovSize = snd (si_moov info),
      jl_mdatSize = of_int (snd (si_mdat info)), jl_ids = map r_id recs, jl_paths = map r_path recs,
      jl_oldMoov = pread f (nat (fst (si_moov info))) (nat (snd (si_moov info)))\<rparr>"

text \<open>The row of the hour file after the append; durations are seconds.\<close>

definition seconds :: "int \<Rightarrow> rat" where
  "seconds ns = of_int ns / 1000000000"

definition grown_row :: "recording \<Rightarrow> segmentInfo \<Rightarrow> recording list \<Rightarrow> segmentInfo list \<Rightarrow> int \<Rightarrow> recording" where
  "grown_row bucket info recs infos bytes =
     bucket\<lparr>r_ended := fold max (map r_ended recs) (r_ended bucket),
       r_duration := seconds (si_duration info) + sum_list (map (\<lambda>i. seconds (si_duration i)) infos),
       r_size := bytes, r_frames := si_count info + sum_list (map si_count infos)\<rparr>"

fun hide_all :: "nat option \<Rightarrow> string list \<Rightarrow> files \<Rightarrow> bool \<times> files" where
  "hide_all fails [] fs = (True, fs)"
| "hide_all fails (p # ps) fs =
     (if fails = Some 0 then (False, fs)
      else case hideConsumed p fs of
          None \<Rightarrow> (False, fs)
        | Some fs' \<Rightarrow> hide_all (map_option (\<lambda>n. n - 1) fails) ps fs')"

text \<open>Undoing: the results of the restoring and of the removal are ignored.\<close>

definition undo_append :: "string \<Rightarrow> merge_journal \<Rightarrow> files \<Rightarrow> files" where
  "undo_append path j fs =
     (snd (restoreJournalFile path j (unhideConsumed (jl_paths j) fs)))(journalPath path := None)"


text \<open>
  \<open>appendOntoBucket\<close>: \<open>boxes\<close> and \<open>marshal\<close> are the box reader and writer of the library.  The result
  comes with the budget, the files and the table it leaves.
\<close>

definition appendOntoBucket ::
    "(byte list \<Rightarrow> pbox list) \<Rightarrow> (mbox \<Rightarrow> byte list) \<Rightarrow> bucket_faults \<Rightarrow> recording \<Rightarrow> recording list
       \<Rightarrow> segmentInfo list \<Rightarrow> disk_budget \<Rightarrow> files \<Rightarrow> rec_table
       \<Rightarrow> (bucket_error, unit) res \<times> disk_budget \<times> files \<times> rec_table" where
  "appendOntoBucket boxes marshal faults bucket recs infos budget fs db =
     (let path = r_path bucket in
      if recs = [] \<or> length recs \<noteq> length infos then (Err NothingToAppend, budget, fs, db)
      else case reconcileMergeJournal db path fs of
        (Err e, fs1) \<Rightarrow> (Err (JournalError e), budget, fs1, db)
      | (Panic, fs1) \<Rightarrow> (Panic, budget, fs1, db)
      | (Ok _, fs1) \<Rightarrow>
         (case fs1 path of
            None \<Rightarrow> (Err BucketMissing, budget, fs1, db)
          | Some f \<Rightarrow>
             (case ParseSegmentTables path f (boxes f) of
                Err e \<Rightarrow> (Err (ParseError e), budget, fs1, db)
              | Panic \<Rightarrow> (Panic, budget, fs1, db)
              | Ok info \<Rightarrow>
                 if \<not> segmentAppendable info (int (length f)) then (Err AppendNotPossible, budget, fs1, db)
                 else let (room, budget') = reserve (sum_list (map r_size recs)) budget in
                 if \<not> room then (Err NeedSpace, budget', fs1, db)
                 else let j = bucket_journal info recs f in
                 (case writeMergeJournal path j fs1 of
                    (Err e, fs2) \<Rightarrow> (Err (JournalError e), budget', fs2, db)
                  | (Panic, fs2) \<Rightarrow> (Panic, budget', fs2, db)
                  | (Ok _, fs2) \<Rightarrow>
                     (case AppendMP4Samples marshal fs2 info infos (bf_write faults) of
                        (Appended, fs3) \<Rightarrow>
                          (case hide_all (bf_hide faults) (jl_paths j) fs3 of
                             (False, fs4) \<Rightarrow> (Err HideFailed, budget', undo_append path j fs4, db)
                           | (True, fs4) \<Rightarrow>
                               let row = grown_row bucket info recs infos (int (length (the (fs4 path)))) in
                               (case (if bf_grow faults then Err StoreFailed
                                      else GrowMergedRecording row (jl_ids j) db) of
                                  Ok db' \<Rightarrow>
                                    (Ok (), budget', drop_consumed (jl_paths j) (fs4(journalPath path := None)), db')
                                | Err e \<Rightarrow> (Err (GrowFailed e), budget', undo_append path j fs4, db)
                                | Panic \<Rightarrow> (Panic, budget', fs4, db)))
                      | (AppendPanic, fs3) \<Rightarrow> (Panic, budget', fs3, db)
                      | (_, fs3) \<Rightarrow> (Err AppendFailed, budget', fs3, db))))))"

section \<open>Crashes\<close>

text \<open>
  One append with its inputs: the hour file \<open>ab_file\<close> and the plan of \<open>append_prepare\<close>, the absorbed rows, the
  grown row.
\<close>

record append_job =
  ab_info :: segmentInfo
  ab_file :: "byte list"
  ab_plan :: append_plan
  ab_recs :: "recording list"
  ab_row :: recording

definition ab_path :: "append_job \<Rightarrow> string" where
  "ab_path w = si_path (ab_info w)"

definition ab_journal :: "append_job \<Rightarrow> merge_journal" where
  "ab_journal w = bucket_journal (ab_info w) (ab_recs w) (ab_file w)"

definition ab_paths :: "append_job \<Rightarrow> string list" where
  "ab_paths w = map r_path (ab_recs w)"

definition ab_new :: "append_job \<Rightarrow> byte list" where
  "ab_new w = appended_file (ab_info w) (ab_plan w) (ab_file w)"

definition ab_torn :: "append_job \<Rightarrow> byte list \<Rightarrow> bool" where
  "ab_torn w g \<longleftrightarrow> touched (nat (fst (si_mdat (ab_info w)))) (nat (fst (si_moov (ab_info w)))) (ab_file w) g"

datatype stage = Before | Journaled | Hiding nat | Undoing | Undone | Committed

text \<open>
  The states files and table pass through, and in which a crash may leave them: the temporary journal, the journal,
  the writes into the hour file in any partial state, each renaming, the undoing (by \<open>appendOntoBucket\<close> after an
  error, or by \<open>reconcileMergeJournal\<close> after a restart, which may crash as well), the transaction, the removals.
\<close>

inductive append_state :: "append_job \<Rightarrow> files \<Rightarrow> rec_table \<Rightarrow> stage \<Rightarrow> files \<Rightarrow> rec_table \<Rightarrow> bool"
  for w fs0 db0 where
  begin_append: "append_state w fs0 db0 Before fs0 db0"
| journal_tmp: "append_state w fs0 db0 Before fs db
     \<Longrightarrow> append_state w fs0 db0 Before (fs(journalPath (ab_path w) @ ''.tmp'' := part)) db"
| journal_written: "append_state w fs0 db0 Before fs db
     \<Longrightarrow> writeMergeJournal (ab_path w) (ab_journal w) fs = (Ok (), fs')
     \<Longrightarrow> append_state w fs0 db0 Journaled fs' db"
| partly_written: "append_state w fs0 db0 Journaled fs db \<Longrightarrow> ab_torn w g
     \<Longrightarrow> append_state w fs0 db0 Journaled (fs(ab_path w \<mapsto> g)) db"
| fully_written: "append_state w fs0 db0 Journaled fs db
     \<Longrightarrow> append_state w fs0 db0 (Hiding 0) (fs(ab_path w \<mapsto> ab_new w)) db"
| hidden: "append_state w fs0 db0 (Hiding k) fs db \<Longrightarrow> k < length (ab_paths w)
     \<Longrightarrow> hideConsumed (ab_paths w ! k) fs = Some fs'
     \<Longrightarrow> append_state w fs0 db0 (Hiding (Suc k)) fs' db"
| undo_begun: "append_state w fs0 db0 st fs db \<Longrightarrow> st = Journaled \<or> (\<exists>k. st = Hiding k)
     \<Longrightarrow> append_state w fs0 db0 Undoing fs db"
| unhidden: "append_state w fs0 db0 Undoing fs db \<Longrightarrow> p \<in> set (ab_paths w)
     \<Longrightarrow> append_state w fs0 db0 Undoing (unhide_one p fs) db"
| partly_restored: "append_state w fs0 db0 Undoing fs db \<Longrightarrow> ab_torn w g
     \<Longrightarrow> append_state w fs0 db0 Undoing (fs(ab_path w \<mapsto> g)) db"
| undo_ended: "append_state w fs0 db0 Undoing fs db \<Longrightarrow> fs (ab_path w) = Some (ab_file w)
     \<Longrightarrow> \<forall>p \<in> set (ab_paths w). fs (consumedPath p) = None
     \<Longrightarrow> append_state w fs0 db0 Undone (fs(journalPath (ab_path w) := None)) db"
| grown: "append_state w fs0 db0 (Hiding (length (ab_paths w))) fs db
     \<Longrightarrow> GrowMergedRecording (ab_row w) (jl_ids (ab_journal w)) db = Ok db'
     \<Longrightarrow> append_state w fs0 db0 Committed fs db'"
| journal_removed: "append_state w fs0 db0 Committed fs db
     \<Longrightarrow> append_state w fs0 db0 Committed (fs(journalPath (ab_path w) := None)) db"
| consumed_removed: "append_state w fs0 db0 Committed fs db \<Longrightarrow> p \<in> set (ab_paths w)
     \<Longrightarrow> append_state w fs0 db0 Committed (fs(consumedPath p := None)) db"


subsection \<open>Names that do not collide\<close>

text \<open>Recorded files have visible names; the journal and the hidden segments start with a dot.\<close>

definition visible :: "string \<Rightarrow> bool" where
  "visible p \<longleftrightarrow> path_base p \<noteq> '''' \<and> hd (path_base p) \<noteq> CHR ''.''"

lemma dot_base:
  "path_base (consumedPath p) = ''.'' @ path_base p @ ''.consumed''"
  "path_base (journalPath p) = ''.'' @ path_base p @ ''.mjournal''"
  "path_base (journalPath p @ ''.tmp'') = ''.'' @ path_base p @ ''.mjournal.tmp''"
proof -
  have s: "CHR ''/'' \<notin> set (''.'' @ path_base p @ n)" if "CHR ''/'' \<notin> set n" for n
    using that base_no_slash[of p] by simp
  show "path_base (consumedPath p) = ''.'' @ path_base p @ ''.consumed''"
    unfolding consumedPath_def by (rule path_dir_sibling(2)) (rule s, simp)
  show "path_base (journalPath p) = ''.'' @ path_base p @ ''.mjournal''"
    unfolding journalPath_def by (rule path_dir_sibling(2)) (rule s, simp)
  have "journalPath p @ ''.tmp'' = sibling p (''.'' @ path_base p @ ''.mjournal.tmp'')"
    by (simp add: journalPath_def sibling_def)
  then show "path_base (journalPath p @ ''.tmp'') = ''.'' @ path_base p @ ''.mjournal.tmp''"
    using path_dir_sibling(2)[OF s[of "''.mjournal.tmp''"], of p] by simp
qed

lemma visible_names:
  assumes "visible q"
  shows "consumedPath p \<noteq> q" and "journalPath p \<noteq> q" and "journalPath p @ ''.tmp'' \<noteq> q"
  using assms dot_base[of p] by (auto simp: visible_def)

lemma consumed_inj [simp]: "consumedPath p = consumedPath q \<longleftrightarrow> p = q"
proof
  assume eq: "consumedPath p = consumedPath q"
  have "path_dir (consumedPath x) = path_dir x" for x
    unfolding consumedPath_def by (rule path_dir_sibling(1)) (use base_no_slash[of x] in simp)
  then have "path_dir p = path_dir q" using eq by metis
  moreover have "path_base p = path_base q" using arg_cong[OF eq, of path_base] by (simp add: dot_base)
  ultimately show "p = q" by (rule path_eqI)
qed simp

lemma sibling_last: "last (sibling p (x @ y @ [c])) = c"
  by (simp add: sibling_def)

lemma journal_names [simp]:
  "journalPath p \<noteq> consumedPath q" "consumedPath q \<noteq> journalPath p"
  "journalPath p @ ''.tmp'' \<noteq> consumedPath q" "consumedPath q \<noteq> journalPath p @ ''.tmp''"
proof -
  have "last (journalPath p) = CHR ''l''" "last (consumedPath q) = CHR ''d''"
      "last (journalPath p @ ''.tmp'') = CHR ''p''"
    by (simp_all add: journalPath_def consumedPath_def sibling_def)
  moreover have "CHR ''l'' \<noteq> CHR ''d''" "CHR ''p'' \<noteq> CHR ''d''" by simp_all
  ultimately show "journalPath p \<noteq> consumedPath q" "consumedPath q \<noteq> journalPath p"
    "journalPath p @ ''.tmp'' \<noteq> consumedPath q" "consumedPath q \<noteq> journalPath p @ ''.tmp''" by metis+
qed

subsection \<open>What every crash leaves\<close>

definition job_ok :: "append_job \<Rightarrow> files \<Rightarrow> rec_table \<Rightarrow> bool" where
  "job_ok w fs0 db0 \<longleftrightarrow>
     fs0 (ab_path w) = Some (ab_file w) \<and> hour_file_ok (ab_info w) (ab_file w)
   \<and> (\<exists>bs. encode_journal (ab_journal w) = Ok bs) \<and> journal_fits (ab_journal w)
   \<and> visible (ab_path w) \<and> (\<forall>p \<in> set (ab_paths w). visible p) \<and> ab_path w \<notin> set (ab_paths w)
   \<and> fs0 (journalPath (ab_path w)) = None
   \<and> (\<forall>p \<in> set (ab_paths w). fs0 p \<noteq> None \<and> fs0 (consumedPath p) = None)
   \<and> ab_recs w \<noteq> [] \<and> set (map r_id (ab_recs w)) \<subseteq> set (ids_of db0)"

definition in_place :: "append_job \<Rightarrow> files \<Rightarrow> files \<Rightarrow> bool" where
  "in_place w fs0 fs \<longleftrightarrow> (\<forall>p \<in> set (ab_paths w). fs p = fs0 p \<and> fs (consumedPath p) = None)"

definition parked :: "append_job \<Rightarrow> files \<Rightarrow> files \<Rightarrow> bool" where
  "parked w fs0 fs \<longleftrightarrow>
     (\<forall>p \<in> set (ab_paths w). fs p = fs0 p \<and> fs (consumedPath p) = None
        \<or> fs p = None \<and> fs (consumedPath p) = fs0 p)"

definition open_journal :: "append_job \<Rightarrow> files \<Rightarrow> bool" where
  "open_journal w fs \<longleftrightarrow> (\<exists>bs. encode_journal (ab_journal w) = Ok bs \<and> fs (journalPath (ab_path w)) = Some bs)"

fun stage_ok :: "append_job \<Rightarrow> files \<Rightarrow> rec_table \<Rightarrow> stage \<Rightarrow> files \<Rightarrow> rec_table \<Rightarrow> bool" where
  "stage_ok w fs0 db0 Committed fs db \<longleftrightarrow>
     GrowMergedRecording (ab_row w) (jl_ids (ab_journal w)) db0 = Ok db \<and> fs (ab_path w) = Some (ab_new w)
   \<and> (open_journal w fs \<or> fs (journalPath (ab_path w)) = None)"
| "stage_ok w fs0 db0 (Hiding k) fs db \<longleftrightarrow>
     db = db0 \<and> fs (ab_path w) = Some (ab_new w) \<and> open_journal w fs \<and> parked w fs0 fs"
| "stage_ok w fs0 db0 st fs db \<longleftrightarrow>
     (if st = Before \<or> st = Undone
      then db = db0 \<and> fs (ab_path w) = Some (ab_file w) \<and> fs (journalPath (ab_path w)) = None \<and> in_place w fs0 fs
      else db = db0 \<and> (\<exists>g. fs (ab_path w) = Some g \<and> ab_torn w g) \<and> open_journal w fs \<and> parked w fs0 fs)"

lemma ab_new_torn: "job_ok w fs0 db0 \<Longrightarrow> ab_torn w (ab_new w)"
proof -
  assume "job_ok w fs0 db0"
  then have "hour_file_ok (ab_info w) (ab_file w)" by (simp add: job_ok_def)
  note b = hour_file_bounds[OF this]
  have "last (append_writes (ab_info w) (ab_plan w) (ab_file w)) \<in> set (append_writes (ab_info w) (ab_plan w) (ab_file w))"
    by (rule last_in_set) (simp add: append_writes_def Let_def)
  then show ?thesis
    using append_writes_touched[OF _ b(2) refl refl, of "ab_plan w"] b(1)
    by (simp add: ab_torn_def ab_new_def appended_file_def)
qed

lemma in_place_parked: "in_place w fs0 fs \<Longrightarrow> parked w fs0 fs"
  by (simp add: in_place_def parked_def)

lemma parked_upd:
  assumes "parked w fs0 fs" and "q \<notin> set (ab_paths w)" and "q \<notin> consumedPath ` set (ab_paths w)"
  shows "parked w fs0 (fs(q := x))"
  using assms by (auto simp: parked_def)

lemma in_place_upd:
  assumes "in_place w fs0 fs" and "q \<notin> set (ab_paths w)" and "q \<notin> consumedPath ` set (ab_paths w)"
  shows "in_place w fs0 (fs(q := x))"
  using assms by (auto simp: in_place_def)


lemma job_names:
  assumes "job_ok w fs0 db0"
  shows "journalPath (ab_path w) \<noteq> ab_path w" "journalPath (ab_path w) @ ''.tmp'' \<noteq> ab_path w"
    "ab_path w \<notin> set (ab_paths w)" "journalPath (ab_path w) \<notin> set (ab_paths w)"
    "journalPath (ab_path w) @ ''.tmp'' \<notin> set (ab_paths w)"
    "ab_path w \<notin> consumedPath ` set (ab_paths w)"
    "journalPath (ab_path w) \<notin> consumedPath ` set (ab_paths w)"
    "journalPath (ab_path w) @ ''.tmp'' \<notin> consumedPath ` set (ab_paths w)"
    "p \<in> set (ab_paths w) \<Longrightarrow> consumedPath p \<noteq> ab_path w"
    "p \<in> set (ab_paths w) \<Longrightarrow> q \<in> set (ab_paths w) \<Longrightarrow> consumedPath p \<noteq> q"
proof -
  have v: "visible (ab_path w)" and vs: "\<And>p. p \<in> set (ab_paths w) \<Longrightarrow> visible p" and n: "ab_path w \<notin> set (ab_paths w)"
    using assms by (auto simp: job_ok_def)
  show "journalPath (ab_path w) \<noteq> ab_path w" "journalPath (ab_path w) @ ''.tmp'' \<noteq> ab_path w" "ab_path w \<notin> set (ab_paths w)"
    using visible_names[OF v] n by auto
  show "journalPath (ab_path w) \<notin> set (ab_paths w)" "journalPath (ab_path w) @ ''.tmp'' \<notin> set (ab_paths w)"
    using visible_names[OF vs] by blast+
  show "ab_path w \<notin> consumedPath ` set (ab_paths w)" using visible_names(1)[OF v] by (metis imageE)
  show "journalPath (ab_path w) \<notin> consumedPath ` set (ab_paths w)"
    "journalPath (ab_path w) @ ''.tmp'' \<notin> consumedPath ` set (ab_paths w)" by auto
  show "consumedPath p \<noteq> ab_path w" using visible_names(1)[OF v] .
  show "q \<in> set (ab_paths w) \<Longrightarrow> consumedPath p \<noteq> q" using visible_names(1)[OF vs] .
qed

lemma parked_hide:
  assumes "job_ok w fs0 db0" and "parked w fs0 fs" and "p \<in> set (ab_paths w)" and "hideConsumed p fs = Some fs'"
  shows "parked w fs0 fs'" and "fs' (ab_path w) = fs (ab_path w)"
    and "fs' (journalPath (ab_path w)) = fs (journalPath (ab_path w))"
proof -
  note names = job_names[OF assms(1)]
  from assms(4) obtain b where b: "fs p = Some b" and fs': "fs' = fs(p := None, consumedPath p := Some b)"
    by (auto simp: hideConsumed_def split: option.splits)
  from b assms(2,3) have here: "fs0 p = Some b" by (auto simp: parked_def)
  show "parked w fs0 fs'"
    unfolding parked_def
  proof
    fix q assume q: "q \<in> set (ab_paths w)"
    show "fs' q = fs0 q \<and> fs' (consumedPath q) = None \<or> fs' q = None \<and> fs' (consumedPath q) = fs0 q"
    proof (cases "q = p")
      case True
      then show ?thesis using here names(10)[OF assms(3) assms(3)] by (simp add: fs')
    next
      case False
      then show ?thesis using q assms(2,3) names(10)[OF q assms(3)] names(10)[OF assms(3) q]
        by (simp add: fs' parked_def)
    qed
  qed
  show "fs' (ab_path w) = fs (ab_path w)" using names(3) names(9)[OF assms(3)] assms(3) by (auto simp: fs')
  show "fs' (journalPath (ab_path w)) = fs (journalPath (ab_path w))" using names(4) assms(3) by (auto simp: fs')
qed

lemma parked_unhide:
  assumes "job_ok w fs0 db0" and "parked w fs0 fs" and "p \<in> set (ab_paths w)"
  shows "parked w fs0 (unhide_one p fs)" and "unhide_one p fs (ab_path w) = fs (ab_path w)"
    and "unhide_one p fs (journalPath (ab_path w)) = fs (journalPath (ab_path w))"
    and "unhide_one p fs (consumedPath p) = None"
    and "q \<in> set (ab_paths w) \<Longrightarrow> fs (consumedPath q) = None \<Longrightarrow> unhide_one p fs (consumedPath q) = None"
proof -
  note names = job_names[OF assms(1)]
  have src: "fs0 r \<noteq> None" if "r \<in> set (ab_paths w)" for r using assms(1) that by (simp add: job_ok_def)
  show "unhide_one p fs (ab_path w) = fs (ab_path w)"
    using names(3) names(9)[OF assms(3)] assms(3) by (auto simp: unhide_one_def split: option.splits)
  show "unhide_one p fs (journalPath (ab_path w)) = fs (journalPath (ab_path w))"
    using names(4) assms(3) by (auto simp: unhide_one_def split: option.splits)
  show "unhide_one p fs (consumedPath p) = None"
    using names(10)[OF assms(3) assms(3)] by (auto simp: unhide_one_def split: option.splits)
  show "unhide_one p fs (consumedPath q) = None" if "q \<in> set (ab_paths w)" and "fs (consumedPath q) = None"
    using that names(10)[OF that(1) assms(3)] by (auto simp: unhide_one_def split: option.splits)
  show "parked w fs0 (unhide_one p fs)"
    unfolding parked_def
  proof
    fix q assume q: "q \<in> set (ab_paths w)"
    show "unhide_one p fs q = fs0 q \<and> unhide_one p fs (consumedPath q) = None
        \<or> unhide_one p fs q = None \<and> unhide_one p fs (consumedPath q) = fs0 q"
    proof (cases "q = p")
      case True
      then show ?thesis
        using assms(2,3) src[OF assms(3)] names(10)[OF assms(3) assms(3)]
        by (auto simp: unhide_one_def parked_def split: option.splits)
    next
      case False
      then show ?thesis
        using assms(2) q names(10)[OF q assms(3)] names(10)[OF assms(3) q]
        by (auto simp: unhide_one_def parked_def split: option.splits)
    qed
  qed
qed

lemma unhide_all:
  assumes "job_ok w fs0 db0" and "parked w fs0 fs" and "set ps \<subseteq> set (ab_paths w)"
  shows "parked w fs0 (unhideConsumed ps fs) \<and> unhideConsumed ps fs (ab_path w) = fs (ab_path w)
    \<and> unhideConsumed ps fs (journalPath (ab_path w)) = fs (journalPath (ab_path w))
    \<and> (\<forall>q \<in> set (ab_paths w). q \<in> set ps \<or> fs (consumedPath q) = None \<longrightarrow> unhideConsumed ps fs (consumedPath q) = None)"
  using assms(2,3) unfolding unhideConsumed_def
proof (induction ps arbitrary: fs)
  case (Cons p ps)
  then have p: "p \<in> set (ab_paths w)" by simp
  note one = parked_unhide[OF assms(1) Cons.prems(1) p]
  from Cons.IH[OF one(1)] Cons.prems(2) one show ?case by auto
qed simp


lemma append_state_ok:
  assumes "append_state w fs0 db0 st fs db" and job: "job_ok w fs0 db0"
  shows "stage_ok w fs0 db0 st fs db"
  using assms(1)
proof (induction rule: append_state.induct)
  case begin_append
  then show ?case using job by (auto simp: job_ok_def in_place_def)
next
  case (journal_tmp fs db part)
  let ?t = "journalPath (ab_path w) @ ''.tmp''"
  note names = job_names[OF job]
  have "in_place w fs0 (fs(?t := part))"
    using journal_tmp.IH names(5,8) by (intro in_place_upd) simp_all
  then show ?case using journal_tmp.IH names(2) by (auto simp: fun_upd_def)
next
  case (journal_written fs db fs')
  note names = job_names[OF job]
  from journal_written(2) obtain bs where bs: "encode_journal (ab_journal w) = Ok bs"
    and fs': "fs' = fs(journalPath (ab_path w) @ ''.tmp'' := None, journalPath (ab_path w) := Some bs)"
    by (auto simp: writeMergeJournal_def split: res.splits journal_error.splits)
  have "in_place w fs0 fs'"
    unfolding fs' using journal_written.IH names(4,5,7,8) by (intro in_place_upd) simp_all
  moreover have "fs' (ab_path w) = Some (ab_file w)"
    using journal_written.IH names(1,2) by (simp add: fs' fun_upd_def)
  moreover have "ab_torn w (ab_file w)"
    using job hour_file_bounds(2) by (auto simp: job_ok_def ab_torn_def intro: touched_refl)
  moreover have "fs' (journalPath (ab_path w)) = Some bs" by (simp add: fs')
  ultimately show ?case
    using journal_written.IH bs by (auto simp: open_journal_def in_place_parked)
next
  case (partly_written fs db g)
  note names = job_names[OF job]
  have "parked w fs0 (fs(ab_path w \<mapsto> g))"
    using partly_written.IH names(3,6) by (intro parked_upd) simp_all
  then show ?case using partly_written names(1) by (auto simp: open_journal_def fun_upd_def)
next
  case (fully_written fs db)
  note names = job_names[OF job]
  have "parked w fs0 (fs(ab_path w \<mapsto> ab_new w))"
    using fully_written.IH names(3,6) by (intro parked_upd) simp_all
  then show ?case using fully_written names(1) by (auto simp: open_journal_def fun_upd_def)
next
  case (hidden k fs db fs')
  then have "ab_paths w ! k \<in> set (ab_paths w)" by simp
  from parked_hide[OF job _ this hidden(3)] hidden.IH show ?case by (auto simp: open_journal_def)
next
  case (undo_begun st fs db)
  then show ?case using ab_new_torn[OF job] by (auto split: if_splits)
next
  case (unhidden fs db p)
  from parked_unhide[OF job _ unhidden(2)] unhidden.IH show ?case by (auto simp: open_journal_def)
next
  case (partly_restored fs db g)
  note names = job_names[OF job]
  have "parked w fs0 (fs(ab_path w \<mapsto> g))"
    using partly_restored.IH names(3,6) by (intro parked_upd) simp_all
  then show ?case using partly_restored names(1) by (auto simp: open_journal_def fun_upd_def)
next
  case (undo_ended fs db)
  note names = job_names[OF job]
  have "fs0 p \<noteq> None" if "p \<in> set (ab_paths w)" for p using job that by (simp add: job_ok_def)
  then have "in_place w fs0 fs"
    using undo_ended by (auto simp: in_place_def parked_def)
  then have "in_place w fs0 (fs(journalPath (ab_path w) := None))" using names(4,7) by (rule in_place_upd)
  then show ?case using undo_ended names(1) by (auto simp: fun_upd_def)
next
  case (grown fs db db')
  then show ?case by auto
next
  case (journal_removed fs db)
  then show ?case using job_names(1)[OF job] by auto
next
  case (consumed_removed fs db p)
  then show ?case using job_names(9)[OF job, of p] by (auto simp: open_journal_def)
qed

lemma GetRecording_iff: "GetRecording i db = None \<longleftrightarrow> i \<notin> set (ids_of db)"
  by (auto simp: GetRecording_def find_None_iff ids_of_def)

lemma grown_ids:
  assumes "GrowMergedRecording r old db = Ok db'"
  shows "set (ids_of db') = set (ids_of db) - set old"
proof -
  have kept: "set (ids_of (filter (\<lambda>q. r_id q \<notin> S) xs)) = set (ids_of xs) - S" for S xs
    by (auto simp: ids_of_def)
  show ?thesis
    using assms by (auto simp: GrowMergedRecording_def delete_ids_eq kept split: if_splits)
qed

lemma drop_consumed_other: "q \<notin> consumedPath ` set ps \<Longrightarrow> drop_consumed ps fs q = fs q"
  unfolding drop_consumed_def by (induction ps arbitrary: fs) auto


lemma reconcile_undoes:
  assumes job: "job_ok w fs0 db0" and torn: "fs (ab_path w) = Some g" "ab_torn w g"
    and jl: "open_journal w fs" and parked: "parked w fs0 fs"
  shows "\<exists>fs'. reconcileMergeJournal db0 (ab_path w) fs = (Ok (), fs') \<and> fs' (ab_path w) = Some (ab_file w)
    \<and> fs' (journalPath (ab_path w)) = None \<and> in_place w fs0 fs'"
proof -
  let ?j = "ab_journal w" and ?p = "ab_path w"
  note names = job_names[OF job]
  have hour: "hour_file_ok (ab_info w) (ab_file w)" and fits: "journal_fits ?j"
    and ids: "ab_recs w \<noteq> []" "set (jl_ids ?j) \<subseteq> set (ids_of db0)"
    and paths: "jl_paths ?j = ab_paths w"
    using job by (simp_all add: job_ok_def ab_journal_def bucket_journal_def ab_paths_def)
  obtain bs where bs: "encode_journal ?j = Ok bs" "fs (journalPath ?p) = Some bs"
    using jl by (auto simp: open_journal_def)
  have read: "readMergeJournal ?p fs = Ok ?j"
    using decode_encoded_journal[OF bs(1) fits, of "[]"] bs(2) by (simp add: readMergeJournal_def)
  have "jl_ids ?j \<noteq> []" using ids(1) by (simp add: ab_journal_def bucket_journal_def)
  then have pend: "list_ex (\<lambda>i. GetRecording i db0 \<noteq> None) (jl_ids ?j)"
    using ids(2) by (cases "jl_ids ?j") (auto simp: GetRecording_iff)
  have nonneg: "0 \<le> jl_moovOffset ?j" "0 \<le> jl_mdatOffset ?j"
    using hour by (simp_all add: ab_journal_def bucket_journal_def hour_file_ok_def segmentAppendable_def)
  let ?fs1 = "fs(?p \<mapsto> ab_file w)"
  have restored: "restoreJournalFile ?p ?j fs = (True, ?fs1)"
    using torn nonneg restore_hour_file[OF hour, of g]
    by (simp add: restoreJournalFile_def ab_journal_def bucket_journal_def ab_torn_def)
  have "parked w fs0 ?fs1" using parked names(3,6) by (rule parked_upd)
  note all = unhide_all[OF job this order_refl]
  let ?fs2 = "(unhideConsumed (ab_paths w) ?fs1)(journalPath ?p := None)"
  have "reconcileMergeJournal db0 ?p fs = (Ok (), ?fs2)"
    using pend by (simp add: reconcileMergeJournal_def read restored paths)
  moreover have "?fs2 ?p = Some (ab_file w)" using all names(1) by simp
  moreover have "in_place w fs0 ?fs2"
  proof -
    have "fs0 p \<noteq> None" if "p \<in> set (ab_paths w)" for p using job that by (simp add: job_ok_def)
    then have "in_place w fs0 (unhideConsumed (ab_paths w) ?fs1)"
      using all by (auto simp: in_place_def parked_def)
    then show ?thesis using names(4,7) by (rule in_place_upd)
  qed
  ultimately show ?thesis by auto
qed

lemma reconcile_keeps:
  assumes job: "job_ok w fs0 db0" and gone: "set (jl_ids (ab_journal w)) \<inter> set (ids_of db) = {}"
    and jl: "open_journal w fs"
  shows "\<exists>fs'. reconcileMergeJournal db (ab_path w) fs = (Ok (), fs') \<and> fs' (ab_path w) = fs (ab_path w)
    \<and> fs' (journalPath (ab_path w)) = None"
proof -
  let ?j = "ab_journal w" and ?p = "ab_path w"
  note names = job_names[OF job]
  have fits: "journal_fits ?j" and paths: "jl_paths ?j = ab_paths w"
    using job by (simp_all add: job_ok_def ab_journal_def bucket_journal_def ab_paths_def)
  obtain bs where bs: "encode_journal ?j = Ok bs" "fs (journalPath ?p) = Some bs"
    using jl by (auto simp: open_journal_def)
  have read: "readMergeJournal ?p fs = Ok ?j"
    using decode_encoded_journal[OF bs(1) fits, of "[]"] bs(2) by (simp add: readMergeJournal_def)
  have "\<not> list_ex (\<lambda>i. GetRecording i db \<noteq> None) (jl_ids ?j)"
    using gone by (auto simp: list_ex_iff GetRecording_iff)
  then have "reconcileMergeJournal db ?p fs = (Ok (), (drop_consumed (ab_paths w) fs)(journalPath ?p := None))"
    by (auto simp: reconcileMergeJournal_def read paths)
  then show ?thesis using names(1,6) by (simp add: drop_consumed_other)
qed

text \<open>C28: 
  A crash at any point of an append, of its undoing or of an earlier recovery loses nothing: reconciling gives
  either the state before the append, hour file, segments and rows, or the state after it.
\<close>

theorem crash_recovers:
  assumes "append_state w fs0 db0 st fs db" and "job_ok w fs0 db0"
  shows "\<exists>fs'. reconcileMergeJournal db (ab_path w) fs = (Ok (), fs') \<and> fs' (journalPath (ab_path w)) = None
    \<and> (db = db0 \<and> fs' (ab_path w) = Some (ab_file w) \<and> map fs' (ab_paths w) = map fs0 (ab_paths w)
       \<or> GrowMergedRecording (ab_row w) (jl_ids (ab_journal w)) db0 = Ok db \<and> fs' (ab_path w) = Some (ab_new w))"
proof -
  have ok: "stage_ok w fs0 db0 st fs db" using assms by (rule append_state_ok)
  have map_eq: "map fs' (ab_paths w) = map fs0 (ab_paths w)" if "in_place w fs0 fs'" for fs'
    using that by (simp add: in_place_def)
  have none: "reconcileMergeJournal db (ab_path w) fs = (Ok (), fs)" if "fs (journalPath (ab_path w)) = None"
    using that by (simp add: reconcileMergeJournal_def readMergeJournal_def)
  show ?thesis
  proof (cases st)
    case Committed
    then have grown: "GrowMergedRecording (ab_row w) (jl_ids (ab_journal w)) db0 = Ok db"
      and new: "fs (ab_path w) = Some (ab_new w)"
      and jl: "open_journal w fs \<or> fs (journalPath (ab_path w)) = None" using ok by auto
    have "set (jl_ids (ab_journal w)) \<inter> set (ids_of db) = {}" using grown_ids[OF grown] by blast
    from reconcile_keeps[OF assms(2) this] new
    have "open_journal w fs \<Longrightarrow> ?thesis" using grown by metis
    then show ?thesis using jl none grown new by auto
  next
    case Before
    with ok none map_eq show ?thesis by auto
  next
    case Undone
    with ok none map_eq show ?thesis by auto
  next
    case Journaled
    then have "db = db0" and "\<exists>g. fs (ab_path w) = Some g \<and> ab_torn w g" "open_journal w fs" "parked w fs0 fs"
      using ok by auto
    with reconcile_undoes[OF assms(2)] map_eq show ?thesis by blast
  next
    case Undoing
    then have "db = db0" and "\<exists>g. fs (ab_path w) = Some g \<and> ab_torn w g" "open_journal w fs" "parked w fs0 fs"
      using ok by auto
    with reconcile_undoes[OF assms(2)] map_eq show ?thesis by blast
  next
    case (Hiding k)
    then have "db = db0" and "fs (ab_path w) = Some (ab_new w)" "open_journal w fs" "parked w fs0 fs"
      using ok by auto
    with reconcile_undoes[OF assms(2) _ ab_new_torn[OF assms(2)]] map_eq show ?thesis by blast
  qed
qed


text \<open>
  A pass of the merge in between breaks this: when it has removed the rows of the absorbed segments, reconciling
  keeps whatever the crash left of the hour file and deletes the journal with the old index.
\<close>

lemma torn_hour_file_is_kept:
  assumes "append_state w fs0 db0 st fs db" and "job_ok w fs0 db0" and "st = Journaled \<or> st = Undoing"
    and "MergeAndReplaceRecordings merged (jl_ids (ab_journal w)) db = Ok db'"
    and "r_id merged \<notin> set (jl_ids (ab_journal w))"
  shows "\<exists>g fs'. fs (ab_path w) = Some g \<and> ab_torn w g
    \<and> reconcileMergeJournal db' (ab_path w) fs = (Ok (), fs') \<and> fs' (ab_path w) = Some g
    \<and> fs' (journalPath (ab_path w)) = None"
proof -
  have ok: "stage_ok w fs0 db0 st fs db" using assms(1,2) by (rule append_state_ok)
  then obtain g where g: "fs (ab_path w) = Some g" "ab_torn w g" and jl: "open_journal w fs"
    using assms(3) by auto
  have "jl_ids (ab_journal w) \<noteq> []"
    using assms(2) by (simp add: job_ok_def ab_journal_def bucket_journal_def)
  with assms(4) obtain q db1 where "db' = delete_ids (jl_ids (ab_journal w)) db1"
    by (auto simp: MergeAndReplaceRecordings_def bind_eq_Ok)
  then have "set (jl_ids (ab_journal w)) \<inter> set (ids_of db') = {}"
    by (auto simp: delete_ids_eq ids_of_def)
  from reconcile_keeps[OF assms(2) this jl] g show ?thesis by auto
qed

section \<open>A demonstration\<close>

definition demo_short :: recording where
  "demo_short =
     \<lparr>r_id = ''1'', r_camera = ''c'', r_stream = ''c'', r_path = ''b'', r_format = ''h265'', r_started = 5, r_ended = 6,
      r_duration = 1, r_size = 2, r_frames = 1, r_merged = False, r_status = ''pending'', r_archived = False,
      r_reconnected = 0, r_gap = '''', r_locked = False\<rparr>"

definition demo_long :: recording where
  "demo_long = demo_short\<lparr>r_id := ''2'', r_path := ''h'', r_started := 3, r_ended := 5, r_merged := True,
     r_status := ''merged''\<rparr>"

definition demo_job :: append_job where
  "demo_job = \<lparr>ab_info = demo_hour, ab_file = demo_hour_file, ab_plan = demo_plan, ab_recs = [demo_short],
     ab_row = grown_row demo_long demo_hour [demo_short] [demo_new] 16\<rparr>"

definition demo_rows :: rec_table where
  "demo_rows = [demo_long, demo_short]"

definition demo_torn :: "byte list" where
  "demo_torn = [9, 9, 9, 9] @ drop 4 demo_hour_file @ [1, 2]"

lemma demo_job_fields [simp]:
  "ab_path demo_job = ''h''" "ab_paths demo_job = [''b'']" "ab_recs demo_job = [demo_short]"
  "ab_info demo_job = demo_hour" "ab_file demo_job = demo_hour_file"
  by (simp_all add: demo_job_def ab_path_def ab_paths_def demo_hour_def demo_segment_def demo_short_def)

lemma demo_hour_ok: "hour_file_ok demo_hour demo_hour_file"
  by (simp add: hour_file_ok_def segmentAppendable_def demo_hour_def demo_segment_def demo_hour_file_def
      bytes_of_string_def pread_def)

lemma demo_encoded: "\<exists>bs. encode_journal (ab_journal demo_job) = Ok bs"
  by (simp add: encode_journal_def ab_journal_def bucket_journal_def demo_hour_def demo_segment_def demo_hour_file_def
      demo_short_def writeJournalString_def pread_def bytes_of_string_def)

lemma visible_letter: "visible ''h''" "visible ''b''"
  by (simp_all add: visible_def path_base_def)

lemma demo_job_ok: "job_ok demo_job demo_disk demo_rows"
proof -
  have "journal_fits (ab_journal demo_job)"
    by (simp add: journal_fits_def ab_journal_def bucket_journal_def demo_hour_def demo_segment_def)
  moreover have "demo_disk (journalPath ''h'') = None" "demo_disk (consumedPath ''b'') = None"
    using visible_names[OF visible_letter(1)] visible_names[OF visible_letter(2)]
    by (simp_all add: demo_disk_def)
  moreover have "demo_disk ''h'' = Some demo_hour_file" "demo_disk ''b'' \<noteq> None"
    by (simp_all add: demo_disk_def)
  ultimately show ?thesis
    by (simp add: job_ok_def demo_hour_ok demo_encoded visible_letter demo_rows_def ids_of_def)
qed

lemma demo_torn_ok: "ab_torn demo_job demo_torn"
  by (auto simp: ab_torn_def demo_torn_def touched_def demo_hour_def demo_hour_file_def bytes_of_string_def nth_append
      nth_Cons' demo_segment_def)

lemma demo_crash:
  "\<exists>fs. append_state demo_job demo_disk demo_rows Journaled (fs(''h'' \<mapsto> demo_torn)) demo_rows"
proof -
  obtain fs where fs: "writeMergeJournal (ab_path demo_job) (ab_journal demo_job) demo_disk = (Ok (), fs)"
    using demo_encoded by (auto simp: writeMergeJournal_def)
  have "append_state demo_job demo_disk demo_rows Journaled fs demo_rows"
    using begin_append fs by (rule journal_written)
  from partly_written[OF this demo_torn_ok] show ?thesis by auto
qed

theorem crash_recovers_witness:
  "\<exists>fs fs'. fs ''h'' = Some demo_torn
    \<and> reconcileMergeJournal demo_rows ''h'' fs = (Ok (), fs') \<and> fs' (journalPath ''h'') = None
    \<and> (demo_rows = demo_rows \<and> fs' ''h'' = Some demo_hour_file \<and> map fs' [''b''] = map demo_disk [''b'']
       \<or> GrowMergedRecording (ab_row demo_job) (jl_ids (ab_journal demo_job)) demo_rows = Ok demo_rows
         \<and> fs' ''h'' = Some (ab_new demo_job))"
proof -
  obtain fs where "append_state demo_job demo_disk demo_rows Journaled (fs(''h'' \<mapsto> demo_torn)) demo_rows"
    using demo_crash by blast
  from crash_recovers[OF this demo_job_ok] obtain fs' where
    "reconcileMergeJournal demo_rows ''h'' (fs(''h'' \<mapsto> demo_torn)) = (Ok (), fs') \<and> fs' (journalPath ''h'') = None
     \<and> (fs' ''h'' = Some demo_hour_file \<and> map fs' [''b''] = map demo_disk [''b'']
       \<or> GrowMergedRecording (ab_row demo_job) (jl_ids (ab_journal demo_job)) demo_rows = Ok demo_rows
         \<and> fs' ''h'' = Some (ab_new demo_job))"
    by auto
  then show ?thesis by (intro exI[of _ "fs(''h'' \<mapsto> demo_torn)"] exI[of _ fs']) simp
qed

theorem journal_roundtrip_witness:
  "\<exists>fs. fs (journalPath ''h'') \<noteq> None \<and> readMergeJournal ''h'' fs = Ok (ab_journal demo_job)"
proof -
  obtain fs where fs: "writeMergeJournal ''h'' (ab_journal demo_job) demo_disk = (Ok (), fs)"
    using demo_encoded by (auto simp: writeMergeJournal_def)
  moreover have "journal_fits (ab_journal demo_job)" using demo_job_ok by (simp add: job_ok_def)
  ultimately have "readMergeJournal ''h'' fs = Ok (ab_journal demo_job)" by (rule journal_roundtrip)
  then show ?thesis by (intro exI[of _ fs]) (auto simp: readMergeJournal_def split: option.splits)
qed

end
