(* ===== verification/Recordings_Cache.thy ===== *)
theory Recordings_Cache
  imports Recordings Md5 "HOL-Library.AList" "HOL-Library.Word"
begin

text \<open>
  The cache of listings and counts (\<open>storage/recordings_cache.go\<close>) with the readers and writers that use
  it (\<open>ListRecordings\<close>, \<open>CountRecordingsWithFilter\<close>, the statements of \<open>Recordings\<close>).  A reader takes
  the generation before it queries and stores only into the same generation; a writer commits and then starts a
  new generation.  The steps of readers and writers interleave.
\<close>

section \<open>Keys\<close>

text \<open>\<open>strconv.Quote\<close>; bytes above 127 belong to printable characters and stay.\<close>

definition quote_char :: "char \<Rightarrow> string" where
  "quote_char c =
     (let n = (of_char c :: nat) in
      if c = CHR 0x22 \<or> c = CHR 0x5C then [CHR 0x5C, c]
      else if 7 \<le> n \<and> n \<le> 13 then [CHR 0x5C, ''abtnvfr'' ! (n - 7)]
      else if n < 32 \<or> n = 127 then [CHR 0x5C, CHR ''x'', hex_digit (n div 16), hex_digit (n mod 16)]
      else [c])"

definition Quote :: "string \<Rightarrow> string" where
  "Quote s = [CHR 0x22] @ concat (map quote_char s) @ [CHR 0x22]"

text \<open>\<open>strconv.FormatInt(x, 10)\<close>.\<close>

definition int_string :: "int \<Rightarrow> string" where
  "int_string x = (if x < 0 then CHR ''-'' # dec_string (nat (- x)) else dec_string (nat x))"

text \<open>\<open>UnixNano\<close> wraps outside the years 1678 to 2262.\<close>

definition unix_nano :: "nat \<Rightarrow> int" where
  "unix_nano t = sint (word_of_int (int t - 62135596800000000000) :: 64 word)"

definition writeBoolPtr :: "bool option \<Rightarrow> string" where
  "writeBoolPtr v = (case v of None \<Rightarrow> ''-'' | Some b \<Rightarrow> if b then ''1'' else ''0'')"

definition time_field :: "nat \<Rightarrow> string" where
  "time_field t = (if t = 0 then '''' else int_string (unix_nano t))"

fun join_bar :: "string list \<Rightarrow> string" where
  "join_bar [] = ''''"
| "join_bar [f] = f"
| "join_bar (f # fs) = f @ CHR ''|'' # join_bar fs"

definition recordingFilterKey :: "recording_filter \<Rightarrow> bool \<Rightarrow> string" where
  "recordingFilterKey f includePage =
     join_bar ([Quote (rf_stream f), rf_camera f, rf_format f, rf_search f, writeBoolPtr (rf_merged f),
         writeBoolPtr (rf_archived f), time_field (rf_start f), time_field (rf_end f)]
       @ (if includePage then [rf_sort f, rf_order f, int_string (rf_limit f), int_string (rf_offset f)] else []))"

section \<open>The cache\<close>

record rec_cache =
  ca_gen :: nat
  ca_list :: "(string \<times> nat \<times> recording list) list"
  ca_count :: "(string \<times> nat \<times> nat) list"

definition recordingsCacheMaxEntries :: nat where "recordingsCacheMaxEntries = 64"

definition newRecordingsQueryCache :: rec_cache where
  "newRecordingsQueryCache = \<lparr>ca_gen = 0, ca_list = [], ca_count = []\<rparr>"

definition invalidateRecordingsCache :: "rec_cache \<Rightarrow> rec_cache" where
  "invalidateRecordingsCache c =
     (let c' = c\<lparr>ca_gen := ca_gen c + 1\<rparr> in
      if length (ca_list c) > recordingsCacheMaxEntries \<or> length (ca_count c) > recordingsCacheMaxEntries
      then c'\<lparr>ca_list := [], ca_count := []\<rparr> else c')"

fun current_entry :: "nat \<Rightarrow> (nat \<times> 'a) option \<Rightarrow> 'a option" where
  "current_entry gen (Some (g, v)) = (if g = gen then Some v else None)"
| "current_entry gen None = None"

definition put_entry :: "string \<Rightarrow> nat \<times> 'a \<Rightarrow> (string \<times> nat \<times> 'a) list \<Rightarrow> (string \<times> nat \<times> 'a) list" where
  "put_entry k e es = AList.update k e (if length es \<ge> recordingsCacheMaxEntries then [] else es)"

definition lookupListRecordings :: "string \<Rightarrow> rec_cache \<Rightarrow> recording list option" where
  "lookupListRecordings k c = current_entry (ca_gen c) (map_of (ca_list c) k)"

definition storeListRecordings :: "string \<Rightarrow> recording list \<Rightarrow> nat \<Rightarrow> rec_cache \<Rightarrow> rec_cache" where
  "storeListRecordings k recs gen c =
     (if gen \<noteq> ca_gen c then c else c\<lparr>ca_list := put_entry k (gen, recs) (ca_list c)\<rparr>)"

definition lookupCountRecordings :: "string \<Rightarrow> rec_cache \<Rightarrow> nat option" where
  "lookupCountRecordings k c = current_entry (ca_gen c) (map_of (ca_count c) k)"

definition storeCountRecordings :: "string \<Rightarrow> nat \<Rightarrow> nat \<Rightarrow> rec_cache \<Rightarrow> rec_cache" where
  "storeCountRecordings k n gen c =
     (if gen \<noteq> ca_gen c then c else c\<lparr>ca_count := put_entry k (gen, n) (ca_count c)\<rparr>)"

text \<open>Both functions without interruption.\<close>

definition ListRecordings ::
    "recording_filter \<Rightarrow> rec_table \<Rightarrow> rec_cache \<Rightarrow> (db_error, recording list) res \<times> rec_cache" where
  "ListRecordings f db c =
     (let k = recordingFilterKey f True in
      case lookupListRecordings k c of
        Some recs \<Rightarrow> (Ok recs, c)
      | None \<Rightarrow>
          (case listRecordingsUncached f db of
             Ok recs \<Rightarrow> (Ok recs, storeListRecordings k recs (ca_gen c) c)
           | e \<Rightarrow> (e, c)))"

definition CountRecordingsWithFilter :: "recording_filter \<Rightarrow> rec_table \<Rightarrow> rec_cache \<Rightarrow> nat \<times> rec_cache" where
  "CountRecordingsWithFilter f db c =
     (let k = recordingFilterKey f False in
      case lookupCountRecordings k c of
        Some n \<Rightarrow> (n, c)
      | None \<Rightarrow> let n = countRecordingsUncached f db in (n, storeCountRecordings k n (ca_gen c) c))"

section \<open>Readers and writers\<close>

text \<open>What a reader of \<open>ListRecordings\<close> or \<open>CountRecordingsWithFilter\<close> holds between its steps.\<close>

datatype reader =
    Idle
  | ListMissed recording_filter
  | ListAt recording_filter nat
  | ListRead recording_filter nat "recording list"
  | CountMissed recording_filter
  | CountAt recording_filter nat
  | CountRead recording_filter nat nat

record cached_db =
  cd_table :: rec_table
  cd_cache :: rec_cache
  cd_readers :: "nat \<Rightarrow> reader"
  cd_owed :: nat

text \<open>
  One atomic step: a reader's lookup, its reading of the generation, its query and its store, a writer's commit and
  its invalidation.  \<open>cd_owed\<close> counts the writers that have committed and not yet invalidated.
\<close>

inductive cache_step :: "cached_db \<Rightarrow> cached_db \<Rightarrow> bool" where
  list_miss: "cd_readers s t = Idle \<Longrightarrow> lookupListRecordings (recordingFilterKey f True) (cd_cache s) = None
     \<Longrightarrow> cache_step s (s\<lparr>cd_readers := (cd_readers s)(t := ListMissed f)\<rparr>)"
| list_gen: "cd_readers s t = ListMissed f
     \<Longrightarrow> cache_step s (s\<lparr>cd_readers := (cd_readers s)(t := ListAt f (ca_gen (cd_cache s)))\<rparr>)"
| list_query: "cd_readers s t = ListAt f g \<Longrightarrow> listRecordingsUncached f (cd_table s) = Ok recs
     \<Longrightarrow> cache_step s (s\<lparr>cd_readers := (cd_readers s)(t := ListRead f g recs)\<rparr>)"
| list_fail: "cd_readers s t = ListAt f g
     \<Longrightarrow> cache_step s (s\<lparr>cd_readers := (cd_readers s)(t := Idle)\<rparr>)"
| list_store: "cd_readers s t = ListRead f g recs
     \<Longrightarrow> cache_step s (s\<lparr>cd_cache := storeListRecordings (recordingFilterKey f True) recs g (cd_cache s),
           cd_readers := (cd_readers s)(t := Idle)\<rparr>)"
| count_miss: "cd_readers s t = Idle \<Longrightarrow> lookupCountRecordings (recordingFilterKey f False) (cd_cache s) = None
     \<Longrightarrow> cache_step s (s\<lparr>cd_readers := (cd_readers s)(t := CountMissed f)\<rparr>)"
| count_gen: "cd_readers s t = CountMissed f
     \<Longrightarrow> cache_step s (s\<lparr>cd_readers := (cd_readers s)(t := CountAt f (ca_gen (cd_cache s)))\<rparr>)"
| count_query: "cd_readers s t = CountAt f g
     \<Longrightarrow> cache_step s (s\<lparr>cd_readers := (cd_readers s)(t := CountRead f g (countRecordingsUncached f (cd_table s)))\<rparr>)"
| count_fail: "cd_readers s t = CountAt f g
     \<Longrightarrow> cache_step s (s\<lparr>cd_readers := (cd_readers s)(t := Idle)\<rparr>)"
| count_store: "cd_readers s t = CountRead f g n
     \<Longrightarrow> cache_step s (s\<lparr>cd_cache := storeCountRecordings (recordingFilterKey f False) n g (cd_cache s),
           cd_readers := (cd_readers s)(t := Idle)\<rparr>)"
| commit: "cache_step s (s\<lparr>cd_table := rec_step e (cd_table s), cd_owed := cd_owed s + 1\<rparr>)"
| invalidate: "cd_owed s > 0
     \<Longrightarrow> cache_step s (s\<lparr>cd_cache := invalidateRecordingsCache (cd_cache s), cd_owed := cd_owed s - 1\<rparr>)"


section \<open>Different filters have different keys\<close>

definition printable :: "char \<Rightarrow> bool" where
  "printable c \<longleftrightarrow> 32 \<le> (of_char c :: nat) \<and> (of_char c :: nat) \<noteq> 127"

definition nano_range :: "nat \<Rightarrow> bool" where
  "nano_range t \<longleftrightarrow> - (2 ^ 63) \<le> int t - 62135596800000000000 \<and> int t - 62135596800000000000 < 2 ^ 63"

definition bar_free :: "string \<Rightarrow> bool" where
  "bar_free s \<longleftrightarrow> CHR ''|'' \<notin> set s"

text \<open>Filters whose texts have no bar: every field but the quoted first one is written as it is.\<close>

definition plain_filter :: "recording_filter \<Rightarrow> bool" where
  "plain_filter f \<longleftrightarrow>
     list_all printable (rf_stream f)
   \<and> bar_free (rf_camera f) \<and> bar_free (rf_format f) \<and> bar_free (rf_search f)
   \<and> bar_free (rf_sort f) \<and> bar_free (rf_order f)
   \<and> (rf_start f = 0 \<or> nano_range (rf_start f)) \<and> (rf_end f = 0 \<or> nano_range (rf_end f))"

lemma quote_char_printable:
  "printable c \<Longrightarrow> quote_char c = (if c = CHR 0x22 \<or> c = CHR 0x5C then [CHR 0x5C, c] else [c])"
  by (auto simp: quote_char_def printable_def Let_def)

lemma quoted_prefix:
  assumes "list_all printable s" and "list_all printable t"
    and "concat (map quote_char s) @ CHR 0x22 # x = concat (map quote_char t) @ CHR 0x22 # y"
  shows "s = t \<and> x = y"
  using assms
proof (induction s arbitrary: t)
  case Nil
  then show ?case by (cases t) (auto simp: quote_char_printable split: if_splits)
next
  case (Cons c s)
  then obtain d u where "t = d # u" by (cases t) (auto simp: quote_char_printable split: if_splits)
  with Cons show ?case by (auto simp: quote_char_printable split: if_splits)
qed

lemma bar_prefix:
  "bar_free a \<Longrightarrow> bar_free b \<Longrightarrow> a @ CHR ''|'' # x = b @ CHR ''|'' # y \<longleftrightarrow> a = b \<and> x = y"
proof (induction a arbitrary: b)
  case Nil
  then show ?case by (cases b) (auto simp: bar_free_def)
next
  case (Cons c a)
  then show ?case by (cases b) (auto simp: bar_free_def)
qed

definition decimal :: "string \<Rightarrow> nat" where
  "decimal s = foldl (\<lambda>n c. 10 * n + (of_char c - 48)) 0 s"

lemma decimal_dec_string: "decimal (dec_string n) = n"
proof (induction n rule: dec_string.induct)
  case (1 n)
  have "n mod 10 < 10" by simp
  with 1 show ?case
    by (subst dec_string.simps) (auto simp: decimal_def of_char_of)
qed

lemma dec_string_inj [simp]: "dec_string m = dec_string n \<longleftrightarrow> m = n"
  by (metis decimal_dec_string)

lemma dec_string_chars: "c \<in> set (dec_string n) \<Longrightarrow> c \<noteq> CHR ''|'' \<and> c \<noteq> CHR ''-''"
  using dec_string_digits[of n] by fastforce

lemma int_string_bar [simp]: "bar_free (int_string x)"
  using dec_string_chars by (auto simp: int_string_def bar_free_def)

lemma dec_string_head: "dec_string n \<noteq> CHR ''-'' # s"
  using dec_string_chars by (metis list.set_intros(1))

lemma int_string_inj [simp]: "int_string x = int_string y \<longleftrightarrow> x = y"
  using dec_string_head by (auto simp: int_string_def) metis+

lemma int_string_nonempty [simp]: "int_string x \<noteq> ''''"
  by (auto simp: int_string_def) (subst (asm) dec_string.simps, simp split: if_splits)

lemma unix_nano_inj:
  assumes "nano_range t" and "nano_range u"
  shows "unix_nano t = unix_nano u \<longleftrightarrow> t = u"
proof -
  have "unix_nano v = int v - 62135596800000000000" if "nano_range v" for v
    unfolding unix_nano_def signed_of_int using that by (simp add: nano_range_def signed_take_bit_int_eq_self)
  with assms show ?thesis by simp
qed

lemma time_field_bar [simp]: "bar_free (time_field t)"
  by (simp add: time_field_def) (simp add: bar_free_def)

lemma time_field_inj:
  "t = 0 \<or> nano_range t \<Longrightarrow> u = 0 \<or> nano_range u \<Longrightarrow> time_field t = time_field u \<longleftrightarrow> t = u"
  by (auto simp: time_field_def unix_nano_inj int_string_nonempty[symmetric])

lemma writeBoolPtr_bar [simp]: "bar_free (writeBoolPtr v)"
  by (auto simp: writeBoolPtr_def bar_free_def split: option.splits)

lemma writeBoolPtr_inj [simp]: "writeBoolPtr v = writeBoolPtr w \<longleftrightarrow> v = w"
  by (auto simp: writeBoolPtr_def split: option.splits if_splits)

lemma quoted_field:
  assumes "list_all printable s" and "list_all printable t"
  shows "Quote s @ CHR ''|'' # x = Quote t @ CHR ''|'' # y \<longleftrightarrow> s = t \<and> x = y"
  using quoted_prefix[OF assms, of "CHR ''|'' # x" "CHR ''|'' # y"] by (auto simp: Quote_def)

lemma list_key_inj:
  assumes "plain_filter f" and "plain_filter h"
  shows "recordingFilterKey f True = recordingFilterKey h True \<longleftrightarrow> f = h"
  using assms
  by (cases f; cases h) (auto simp: recordingFilterKey_def plain_filter_def quoted_field bar_prefix time_field_inj)

definition same_count :: "recording_filter \<Rightarrow> recording_filter \<Rightarrow> bool" where
  "same_count f h \<longleftrightarrow> rf_stream f = rf_stream h \<and> rf_camera f = rf_camera h \<and> rf_format f = rf_format h
     \<and> rf_search f = rf_search h \<and> rf_merged f = rf_merged h \<and> rf_archived f = rf_archived h
     \<and> rf_start f = rf_start h \<and> rf_end f = rf_end h"

lemma count_key_inj:
  assumes "plain_filter f" and "plain_filter h"
  shows "recordingFilterKey f False = recordingFilterKey h False \<longleftrightarrow> same_count f h"
  using assms
  by (cases f; cases h)
    (auto simp: recordingFilterKey_def plain_filter_def quoted_field bar_prefix time_field_inj same_count_def)


section \<open>A cached answer is a current one\<close>

text \<open>
  A value with the current generation is the answer of the current table, once no writer stands between its
  commit and its invalidation; the same holds for what a reader has read and will store.
\<close>

definition list_entry_ok :: "cached_db \<Rightarrow> bool" where
  "list_entry_ok s \<longleftrightarrow> (\<forall>k recs. lookupListRecordings k (cd_cache s) = Some recs \<longrightarrow>
     (\<exists>f. plain_filter f \<and> recordingFilterKey f True = k \<and> listRecordingsUncached f (cd_table s) = Ok recs))"

definition count_entry_ok :: "cached_db \<Rightarrow> bool" where
  "count_entry_ok s \<longleftrightarrow> (\<forall>k n. lookupCountRecordings k (cd_cache s) = Some n \<longrightarrow>
     (\<exists>f. plain_filter f \<and> recordingFilterKey f False = k \<and> countRecordingsUncached f (cd_table s) = n))"

fun reader_ok :: "cached_db \<Rightarrow> reader \<Rightarrow> bool" where
  "reader_ok s (ListRead f g recs) =
     (cd_owed s = 0 \<and> g = ca_gen (cd_cache s) \<longrightarrow> listRecordingsUncached f (cd_table s) = Ok recs)"
| "reader_ok s (CountRead f g n) =
     (cd_owed s = 0 \<and> g = ca_gen (cd_cache s) \<longrightarrow> countRecordingsUncached f (cd_table s) = n)"
| "reader_ok s _ = True"

fun reader_gen :: "reader \<Rightarrow> nat" where
  "reader_gen (ListAt f g) = g"
| "reader_gen (ListRead f g _) = g"
| "reader_gen (CountAt f g) = g"
| "reader_gen (CountRead f g _) = g"
| "reader_gen _ = 0"

fun reader_plain :: "reader \<Rightarrow> bool" where
  "reader_plain Idle = True"
| "reader_plain (ListMissed f) = plain_filter f"
| "reader_plain (ListAt f _) = plain_filter f"
| "reader_plain (ListRead f _ _) = plain_filter f"
| "reader_plain (CountMissed f) = plain_filter f"
| "reader_plain (CountAt f _) = plain_filter f"
| "reader_plain (CountRead f _ _) = plain_filter f"

definition old_gens :: "cached_db \<Rightarrow> bool" where
  "old_gens s \<longleftrightarrow>
     (\<forall>(k, g, v) \<in> set (ca_list (cd_cache s)). g \<le> ca_gen (cd_cache s))
   \<and> (\<forall>(k, g, v) \<in> set (ca_count (cd_cache s)). g \<le> ca_gen (cd_cache s))
   \<and> (\<forall>t. reader_gen (cd_readers s t) \<le> ca_gen (cd_cache s))"

definition cache_inv :: "cached_db \<Rightarrow> bool" where
  "cache_inv s \<longleftrightarrow>
     (cd_owed s = 0 \<longrightarrow> list_entry_ok s \<and> count_entry_ok s) \<and> (\<forall>t. reader_ok s (cd_readers s t)) \<and> old_gens s"

lemma current_entry_None: "(case e of None \<Rightarrow> True | Some (g, v) \<Rightarrow> g < gen) \<Longrightarrow> current_entry gen e = None"
  by (cases e) auto

lemma current_entry_put:
  "current_entry gen (map_of (put_entry k (gen, v) es) l) = Some w \<longleftrightarrow>
     (if l = k then w = v
      else length es < recordingsCacheMaxEntries \<and> current_entry gen (map_of es l) = Some w)"
  by (auto simp: put_entry_def update_conv')

lemma set_put_entry: "set (put_entry k e es) \<subseteq> insert (k, e) (set es)"
proof -
  have "set (AList.update k e xs) \<subseteq> insert (k, e) (set xs)" for xs
    by (induction xs) auto
  then show ?thesis by (auto simp: put_entry_def)
qed

lemma stale_entry:
  assumes "\<forall>(k, g, v) \<in> set es. g \<le> gen"
  shows "current_entry (gen + 1) (map_of es k) = None"
  using assms by (fastforce intro!: current_entry_None split: option.splits dest!: map_of_SomeD)

lemma invalidated_lookup:
  assumes "old_gens s"
  shows "lookupListRecordings k (invalidateRecordingsCache (cd_cache s)) = None"
    and "lookupCountRecordings k (invalidateRecordingsCache (cd_cache s)) = None"
  using assms stale_entry[of "ca_list (cd_cache s)" "ca_gen (cd_cache s)" k]
    stale_entry[of "ca_count (cd_cache s)" "ca_gen (cd_cache s)" k]
  by (auto simp: lookupListRecordings_def lookupCountRecordings_def invalidateRecordingsCache_def Let_def old_gens_def)


definition readers_plain :: "cached_db \<Rightarrow> bool" where
  "readers_plain s \<longleftrightarrow> (\<forall>t. reader_plain (cd_readers s t))"

definition put_reader :: "cached_db \<Rightarrow> nat \<Rightarrow> reader \<Rightarrow> cached_db" where
  "put_reader s t r = s\<lparr>cd_readers := (cd_readers s)(t := r)\<rparr>"

lemma cache_inv_put_reader:
  assumes "cache_inv s" and "reader_ok s r" and "reader_gen r \<le> ca_gen (cd_cache s)"
  shows "cache_inv (put_reader s t r)"
proof -
  have "reader_ok (put_reader s t r) q \<longleftrightarrow> reader_ok s q" for q
    by (cases q) (simp_all add: put_reader_def)
  with assms show ?thesis
    by (auto simp: cache_inv_def list_entry_ok_def count_entry_ok_def old_gens_def put_reader_def)
qed

lemma store_list_inv:
  assumes inv: "cache_inv s" and plain: "plain_filter f"
    and ok: "cd_owed s = 0 \<and> g = ca_gen (cd_cache s) \<longrightarrow> listRecordingsUncached f (cd_table s) = Ok recs"
  shows "cache_inv (s\<lparr>cd_cache := storeListRecordings (recordingFilterKey f True) recs g (cd_cache s)\<rparr>)"
    (is "cache_inv ?s")
proof (cases "g = ca_gen (cd_cache s)")
  case False
  then show ?thesis using inv by (simp add: storeListRecordings_def)
next
  case True
  let ?k = "recordingFilterKey f True"
  have readers: "reader_ok ?s q \<longleftrightarrow> reader_ok s q" for q
    using True by (cases q) (simp_all add: storeListRecordings_def)
  have lists: "list_entry_ok ?s" if "cd_owed s = 0"
  proof -
    have "list_entry_ok s" using inv that by (simp add: cache_inv_def)
    then show ?thesis
      using True plain ok that
      by (auto simp: list_entry_ok_def lookupListRecordings_def storeListRecordings_def current_entry_put
          split: if_splits)
  qed
  have counts: "count_entry_ok ?s" if "cd_owed s = 0"
    using inv that True
    by (simp add: cache_inv_def count_entry_ok_def lookupCountRecordings_def storeListRecordings_def)
  have gens: "old_gens ?s"
    using inv True set_put_entry[of ?k "(g, recs)" "ca_list (cd_cache s)"]
    by (fastforce simp: cache_inv_def old_gens_def storeListRecordings_def)
  show ?thesis using inv readers lists counts gens by (simp add: cache_inv_def)
qed

lemma store_count_inv:
  assumes inv: "cache_inv s" and plain: "plain_filter f"
    and ok: "cd_owed s = 0 \<and> g = ca_gen (cd_cache s) \<longrightarrow> countRecordingsUncached f (cd_table s) = n"
  shows "cache_inv (s\<lparr>cd_cache := storeCountRecordings (recordingFilterKey f False) n g (cd_cache s)\<rparr>)"
    (is "cache_inv ?s")
proof (cases "g = ca_gen (cd_cache s)")
  case False
  then show ?thesis using inv by (simp add: storeCountRecordings_def)
next
  case True
  let ?k = "recordingFilterKey f False"
  have readers: "reader_ok ?s q \<longleftrightarrow> reader_ok s q" for q
    using True by (cases q) (simp_all add: storeCountRecordings_def)
  have counts: "count_entry_ok ?s" if "cd_owed s = 0"
  proof -
    have "count_entry_ok s" using inv that by (simp add: cache_inv_def)
    then show ?thesis
      using True plain ok that
      by (auto simp: count_entry_ok_def lookupCountRecordings_def storeCountRecordings_def current_entry_put
          split: if_splits)
  qed
  have lists: "list_entry_ok ?s" if "cd_owed s = 0"
    using inv that True
    by (simp add: cache_inv_def list_entry_ok_def lookupListRecordings_def storeCountRecordings_def)
  have gens: "old_gens ?s"
    using inv True set_put_entry[of ?k "(g, n)" "ca_count (cd_cache s)"]
    by (fastforce simp: cache_inv_def old_gens_def storeCountRecordings_def)
  show ?thesis using inv readers lists counts gens by (simp add: cache_inv_def)
qed

lemma invalidated_inv:
  assumes inv: "cache_inv s"
  shows "cache_inv (s\<lparr>cd_cache := invalidateRecordingsCache (cd_cache s), cd_owed := n\<rparr>)" (is "cache_inv ?s")
proof -
  have old: "old_gens s" using inv by (simp add: cache_inv_def)
  have gen: "ca_gen (invalidateRecordingsCache c) = ca_gen c + 1" for c
    by (simp add: invalidateRecordingsCache_def Let_def)
  have "reader_gen (cd_readers s t) \<noteq> ca_gen (cd_cache ?s)" for t
    using old by (simp add: old_gens_def gen) (metis Suc_n_not_le_n)
  then have readers: "reader_ok ?s (cd_readers ?s t)" for t
    by (cases "cd_readers s t") (auto simp: gen dest: spec[of _ t], metis reader_gen.simps(2), metis reader_gen.simps(4))
  have gens: "old_gens ?s"
    using old unfolding old_gens_def
    by (auto simp: invalidateRecordingsCache_def Let_def intro!: le_SucI split: prod.splits)
  show ?thesis
    using readers gens by (simp add: cache_inv_def list_entry_ok_def count_entry_ok_def invalidated_lookup[OF old])
qed

lemma commit_cache_inv:
  assumes "cache_inv s"
  shows "cache_inv (s\<lparr>cd_table := db, cd_owed := cd_owed s + 1\<rparr>)"
proof -
  have "reader_ok (s\<lparr>cd_table := db, cd_owed := cd_owed s + 1\<rparr>) q" for q
    by (cases q) simp_all
  with assms show ?thesis by (simp add: cache_inv_def old_gens_def)
qed

lemma cache_step_inv:
  assumes "cache_step s s'" and "cache_inv s" and "readers_plain s"
  shows "cache_inv s'"
  using assms
proof (cases rule: cache_step.cases)
  case (list_store t f g recs)
  then have plain: "plain_filter f" and ok: "reader_ok s (ListRead f g recs)"
    using assms(2,3) by (metis readers_plain_def reader_plain.simps(4), metis cache_inv_def)
  from cache_inv_put_reader[OF store_list_inv[OF assms(2) plain], of g recs Idle t] ok list_store(1)
  show ?thesis by (simp add: put_reader_def)
next
  case (count_store t f g n)
  then have plain: "plain_filter f" and ok: "reader_ok s (CountRead f g n)"
    using assms(2,3) by (metis readers_plain_def reader_plain.simps(7), metis cache_inv_def)
  from cache_inv_put_reader[OF store_count_inv[OF assms(2) plain], of g n Idle t] ok count_store(1)
  show ?thesis by (simp add: put_reader_def)
next
  case (list_query t f g recs)
  then have "g \<le> ca_gen (cd_cache s)"
    using assms(2) unfolding cache_inv_def old_gens_def by (metis reader_gen.simps(1))
  with list_query cache_inv_put_reader[OF assms(2), of "ListRead f g recs" t] show ?thesis
    by (simp add: put_reader_def)
next
  case (count_query t f g)
  then have "g \<le> ca_gen (cd_cache s)"
    using assms(2) unfolding cache_inv_def old_gens_def by (metis reader_gen.simps(3))
  with count_query cache_inv_put_reader[OF assms(2), of "CountRead f g (countRecordingsUncached f (cd_table s))" t]
  show ?thesis by (simp add: put_reader_def)
next
  case (commit e)
  then show ?thesis using commit_cache_inv[OF assms(2)] by simp
next
  case invalidate
  then show ?thesis using invalidated_inv[OF assms(2)] by simp
qed (use cache_inv_put_reader[OF assms(2)] in \<open>simp_all add: put_reader_def\<close>)


text \<open>Runs in which the readers ask with plain filters.\<close>

inductive cache_run :: "cached_db \<Rightarrow> cached_db \<Rightarrow> bool" where
  run_start: "readers_plain s \<Longrightarrow> cache_run s s"
| run_step: "cache_run s s' \<Longrightarrow> cache_step s' s'' \<Longrightarrow> readers_plain s'' \<Longrightarrow> cache_run s s''"

lemma cache_run_inv: "cache_run s s' \<Longrightarrow> cache_inv s \<Longrightarrow> cache_inv s' \<and> readers_plain s'"
  by (induction rule: cache_run.induct) (auto intro: cache_step_inv)

definition fresh_db :: "rec_table \<Rightarrow> cached_db" where
  "fresh_db db = \<lparr>cd_table = db, cd_cache = newRecordingsQueryCache, cd_readers = (\<lambda>_. Idle), cd_owed = 0\<rparr>"

lemma fresh_db_inv: "cache_inv (fresh_db db)" "readers_plain (fresh_db db)"
  by (auto simp: cache_inv_def fresh_db_def newRecordingsQueryCache_def list_entry_ok_def count_entry_ok_def
      lookupListRecordings_def lookupCountRecordings_def old_gens_def readers_plain_def)

lemma selected_same: "same_count f h \<Longrightarrow> selected f q = selected h q"
  unfolding selected_def same_count_def by (elim conjE) (simp only:)

lemma count_same: "same_count f h \<Longrightarrow> countRecordingsUncached f db = countRecordingsUncached h db"
  unfolding countRecordingsUncached_def using selected_same by (metis filter_cong)

lemma list_entry_current:
  assumes "list_entry_ok s" and "plain_filter f"
    and "lookupListRecordings (recordingFilterKey f True) (cd_cache s) = Some recs"
  shows "listRecordingsUncached f (cd_table s) = Ok recs"
proof -
  obtain h where "plain_filter h" and "recordingFilterKey h True = recordingFilterKey f True"
    and "listRecordingsUncached h (cd_table s) = Ok recs"
    using assms unfolding list_entry_ok_def by blast
  then show ?thesis using list_key_inj assms(2) by blast
qed

lemma count_entry_current:
  assumes "count_entry_ok s" and "plain_filter f"
    and "lookupCountRecordings (recordingFilterKey f False) (cd_cache s) = Some n"
  shows "countRecordingsUncached f (cd_table s) = n"
proof -
  obtain h where "plain_filter h" and "recordingFilterKey h False = recordingFilterKey f False"
    and "countRecordingsUncached h (cd_table s) = n"
    using assms unfolding count_entry_ok_def by blast
  then show ?thesis using count_key_inj[of h f] assms(2) count_same[of h f] by simp
qed



text \<open>A run of one reader that fills the cache, for the demonstrations.\<close>

definition demo_row :: "string \<Rightarrow> string \<Rightarrow> nat \<Rightarrow> recording" where
  "demo_row i cam t =
     \<lparr>r_id = i, r_camera = cam, r_stream = cam, r_path = i, r_format = ''h264'', r_started = t, r_ended = t + 1,
      r_duration = 1, r_size = 1, r_frames = 1, r_merged = False, r_status = ''pending'', r_archived = False,
      r_reconnected = 0, r_gap = '''', r_locked = False\<rparr>"

definition camera_filter :: "string \<Rightarrow> recording_filter" where
  "camera_filter cam =
     \<lparr>rf_stream = '''', rf_camera = cam, rf_start = 0, rf_end = 0, rf_format = '''', rf_merged = None,
      rf_search = '''', rf_limit = 0, rf_offset = 0, rf_sort = '''', rf_order = '''', rf_archived = None\<rparr>"

definition demo_filled :: cached_db where
  "demo_filled =
     (fresh_db [demo_row ''1'' ''a'' 5])\<lparr>cd_cache :=
        snd (ListRecordings (camera_filter ''a'') [demo_row ''1'' ''a'' 5] newRecordingsQueryCache)\<rparr>"

lemma camera_filter_plain: "plain_filter (camera_filter ''a'')"
  by (simp add: plain_filter_def camera_filter_def bar_free_def)

lemma demo_filled_run: "cache_run (fresh_db [demo_row ''1'' ''a'' 5]) demo_filled"
proof -
  let ?db = "[demo_row ''1'' ''a'' 5]" and ?f = "camera_filter ''a''"
  let ?k = "recordingFilterKey ?f True"
  have rows: "listRecordingsUncached ?f ?db = Ok ?db"
    by (simp add: listRecordingsUncached_def Let_def order_by_def selected_def camera_filter_def demo_row_def
        scanRecordingRow_def)
  have miss: "lookupListRecordings ?k newRecordingsQueryCache = None"
    by (simp add: lookupListRecordings_def newRecordingsQueryCache_def)
  define s1 where "s1 = put_reader (fresh_db ?db) 0 (ListMissed ?f)"
  define s2 where "s2 = put_reader (fresh_db ?db) 0 (ListAt ?f 0)"
  define s3 where "s3 = put_reader (fresh_db ?db) 0 (ListRead ?f 0 ?db)"
  have plain: "readers_plain (put_reader (fresh_db ?db) 0 r)" if "reader_plain r" for r
    using that fresh_db_inv(2)[of ?db] by (simp add: readers_plain_def put_reader_def)
  have "cache_step (fresh_db ?db) s1"
    using list_miss[of "fresh_db ?db" 0 ?f] miss by (simp add: s1_def put_reader_def fresh_db_def)
  moreover have "cache_step s1 s2"
    using list_gen[of s1 0 ?f] by (simp add: s1_def s2_def put_reader_def fresh_db_def newRecordingsQueryCache_def)
  moreover have "cache_step s2 s3"
    using list_query[of s2 0 ?f 0 ?db] rows by (simp add: s2_def s3_def put_reader_def fresh_db_def)
  moreover have "cache_step s3 demo_filled"
  proof -
    have "cd_readers s3 0 = ListRead ?f 0 ?db" by (simp add: s3_def put_reader_def)
    from list_store[OF this]
    have "cache_step s3 (s3\<lparr>cd_cache := storeListRecordings ?k ?db 0 (cd_cache s3),
        cd_readers := (cd_readers s3)(0 := Idle)\<rparr>)" .
    moreover have "s3\<lparr>cd_cache := storeListRecordings ?k ?db 0 (cd_cache s3),
        cd_readers := (cd_readers s3)(0 := Idle)\<rparr> = demo_filled"
      using miss rows by (intro cached_db.equality)
        (auto simp: s3_def put_reader_def fresh_db_def demo_filled_def ListRecordings_def newRecordingsQueryCache_def)
    ultimately show ?thesis by simp
  qed
  moreover have "readers_plain demo_filled"
    by (simp add: readers_plain_def demo_filled_def fresh_db_def)
  moreover have "readers_plain s1" "readers_plain s2" "readers_plain s3"
    using plain camera_filter_plain by (simp_all add: s1_def s2_def s3_def)
  ultimately show ?thesis
    using run_start[OF fresh_db_inv(2), of ?db] by (meson run_step)
qed


text \<open>
  A bar in a camera name or a search text makes two filters share a key: the listing of the one is then answered
  with the rows of the other.
\<close>

lemma bar_confuses_listings:
  defines "f \<equiv> (camera_filter ''a|'')\<lparr>rf_search := ''h''\<rparr>" and "h \<equiv> (camera_filter ''a'')\<lparr>rf_search := ''|h''\<rparr>"
  shows "recordingFilterKey f True = recordingFilterKey h True"
    and "fst (ListRecordings h [demo_row ''1'' ''a|'' 5]
              (snd (ListRecordings f [demo_row ''1'' ''a|'' 5] newRecordingsQueryCache)))
         = Ok [demo_row ''1'' ''a|'' 5]"
    and "listRecordingsUncached h [demo_row ''1'' ''a|'' 5] = Ok []"
proof -
  let ?db = "[demo_row ''1'' ''a|'' 5]"
  show key: "recordingFilterKey f True = recordingFilterKey h True"
    by (simp add: f_def h_def recordingFilterKey_def camera_filter_def)
  have "like (search_pattern ''h'') ''h264''"
    unfolding like_search by (simp add: to_lower_def lower_char_def has_prefix_def)
  then have "listRecordingsUncached f ?db = Ok ?db"
    by (simp add: listRecordingsUncached_def Let_def order_by_def selected_def camera_filter_def demo_row_def
        scanRecordingRow_def f_def)
  then show "fst (ListRecordings h ?db (snd (ListRecordings f ?db newRecordingsQueryCache))) = Ok ?db"
    by (simp add: ListRecordings_def key Let_def lookupListRecordings_def storeListRecordings_def
        newRecordingsQueryCache_def put_entry_def recordingsCacheMaxEntries_def)
  show "listRecordingsUncached h ?db = Ok []"
    by (simp add: listRecordingsUncached_def Let_def order_by_def selected_def camera_filter_def demo_row_def h_def)
qed

end
