(* ===== verification/Storage_Files.thy ===== *)
theory Storage_Files
  imports Recordings Md5 "HOL-Library.AList"
begin

text \<open>
  The file side of the storage manager (\<open>storage/manager.go\<close>): names of camera directories and segments,
  creation and closing of segments, deletion, the removal of temporary files at the start, and the registration of
  files that have no row.  A camera directory is the list of its entries in the order of \<open>os.ReadDir\<close>; a
  segment of JPEG frames is a directory of files.
\<close>

section \<open>Names\<close>

definition has_suffix :: "string \<Rightarrow> string \<Rightarrow> bool" where
  "has_suffix s p \<longleftrightarrow> length p \<le> length s \<and> drop (length s - length p) s = p"

definition trim_suffix :: "string \<Rightarrow> string \<Rightarrow> string" where
  "trim_suffix s p = (if has_suffix s p then take (length s - length p) s else s)"

definition portable_char :: "char \<Rightarrow> bool" where
  "portable_char c \<longleftrightarrow>
     (let n = (of_char c :: nat) in
      97 \<le> n \<and> n \<le> 122 \<or> 65 \<le> n \<and> n \<le> 90 \<or> 48 \<le> n \<and> n \<le> 57 \<or> c = CHR ''-'' \<or> c = CHR ''_'')"

definition device_names :: "string list" where
  "device_names = [''con'', ''prn'', ''aux'', ''nul'', ''com1'', ''com2'', ''com3'', ''com4'', ''com5'', ''com6'',
     ''com7'', ''com8'', ''com9'', ''lpt1'', ''lpt2'', ''lpt3'', ''lpt4'', ''lpt5'', ''lpt6'', ''lpt7'', ''lpt8'', ''lpt9'']"

definition recordingDiskName :: "string \<Rightarrow> string" where
  "recordingDiskName i =
     (if i \<noteq> '''' \<and> \<not> has_prefix i ''id~'' \<and> list_all portable_char i \<and> to_lower i \<notin> set device_names then i
      else ''id~'' @ hex_encode (bytes_of_string i))"

definition originalRecordingID :: "string \<Rightarrow> string \<times> bool" where
  "originalRecordingID name =
     (if \<not> has_prefix name ''id~'' then (name, True)
      else case hex_decode (drop 3 name) of
          Some bs \<Rightarrow> (string_of_bytes bs, bs \<noteq> [])
        | None \<Rightarrow> ('''', False))"

definition CameraDirPath :: "string \<Rightarrow> string \<Rightarrow> string" where
  "CameraDirPath rootDir cam = rootDir @ ''/'' @ recordingDiskName cam"

definition CameraRecordingPrefix :: "string \<Rightarrow> string" where
  "CameraRecordingPrefix cam = recordingDiskName cam @ ''_''"

subsection \<open>The stamp in a name\<close>

text \<open>\<open>time.Now().Format("20060102_150405")\<close>: the local clock is \<open>zone\<close> nanoseconds ahead of UTC.\<close>

definition stamp_text :: "nat \<Rightarrow> string" where
  "stamp_text t =
     (let (y, m, d) = date (t div day_ns); s = t mod day_ns div 1000000000
      in digits 4 y @ digits 2 m @ digits 2 (d + 1) @ ''_'' @ digits 2 (s div 3600) @ digits 2 (s div 60 mod 60)
         @ digits 2 (s mod 60))"

definition local_time :: "int \<Rightarrow> nat \<Rightarrow> nat" where
  "local_time zone now = nat (int now + zone)"

definition is_digit :: "char \<Rightarrow> bool" where
  "is_digit c \<longleftrightarrow> 48 \<le> (of_char c :: nat) \<and> of_char c \<le> (57 :: nat)"

fun number_of :: "nat \<Rightarrow> string \<Rightarrow> nat" where
  "number_of n [] = n"
| "number_of n (c # cs) = number_of (10 * n + (of_char c - 48)) cs"

definition field_at :: "nat \<Rightarrow> nat \<Rightarrow> string \<Rightarrow> nat" where
  "field_at i w s = number_of 0 (take w (drop i s))"

fun days_before :: "nat \<Rightarrow> nat" where
  "days_before 0 = 0"
| "days_before (Suc 0) = 0"
| "days_before (Suc (Suc y)) = days_before (Suc y) + year_days (Suc y)"

text \<open>
  \<open>time.Parse\<close> takes a fraction after the seconds although the layout has none.  Years start at 1 here.
\<close>

definition parse_fraction :: "string \<Rightarrow> nat option" where
  "parse_fraction s =
     (case s of
        [] \<Rightarrow> Some 0
      | c # ds \<Rightarrow>
          if c \<in> {CHR ''.'', CHR '',''} \<and> ds \<noteq> [] \<and> list_all is_digit ds
          then Some (number_of 0 (take 9 (ds @ replicate 9 (CHR ''0'')))) else None)"

definition parse_stamp :: "string \<Rightarrow> nat option" where
  "parse_stamp s =
     (let y = field_at 0 4 s; m = field_at 4 2 s; d = field_at 6 2 s;
          h = field_at 9 2 s; mi = field_at 11 2 s; sec = field_at 13 2 s in
      if length s < 15 \<or> \<not> list_all is_digit (take 8 s) \<or> s ! 8 \<noteq> CHR ''_'' \<or> \<not> list_all is_digit (take 6 (drop 9 s))
        \<or> y = 0 \<or> m < 1 \<or> 12 < m \<or> d < 1 \<or> month_days (leap y) ! (m - 1) < d \<or> 24 \<le> h \<or> 60 \<le> mi \<or> 60 \<le> sec
      then None
      else map_option (\<lambda>ns. (days_before y + sum_list (take (m - 1) (month_days (leap y))) + (d - 1)) * day_ns
             + (h * 3600 + mi * 60 + sec) * 1000000000 + ns) (parse_fraction (drop 15 s)))"

section \<open>Directories\<close>

text \<open>Contents and modification time.\<close>

datatype node = RegFile "byte list" nat | FrameDir "(string \<times> byte list) list" nat

type_synonym cam_dir = "(string \<times> node) list"

record storage =
  st_root :: string
  st_dirs :: "(string \<times> cam_dir) list"

datatype storage_error = EmptyRoot | NoSuchEntry | NotEmpty | AccessFailed | UnsupportedFormat string

definition storage_NewManager :: "string \<Rightarrow> (storage_error, storage) res" where
  "storage_NewManager rootDir = (if rootDir = '''' then Err EmptyRoot else Ok \<lparr>st_root = rootDir, st_dirs = []\<rparr>)"

definition cam_entries :: "storage \<Rightarrow> string \<Rightarrow> cam_dir option" where
  "cam_entries st cam = map_of (st_dirs st) (recordingDiskName cam)"

definition set_entries :: "string \<Rightarrow> cam_dir \<Rightarrow> storage \<Rightarrow> storage" where
  "set_entries cam es st = st\<lparr>st_dirs := AList.update (recordingDiskName cam) es (st_dirs st)\<rparr>"

definition EnsureCameraDir :: "string \<Rightarrow> storage \<Rightarrow> storage" where
  "EnsureCameraDir cam st = (if cam_entries st cam = None then set_entries cam [] st else st)"

text \<open>Names of the temporary and the final entry; \<open>uuid\<close> is the new random identifier.\<close>

definition segment_names :: "string \<Rightarrow> string \<Rightarrow> string \<Rightarrow> string \<Rightarrow> (storage_error, string \<times> string) res" where
  "segment_names cam fmt stamp uuid =
     (let base = recordingDiskName cam @ ''_'' @ stamp @ ''_'' @ uuid in
      if to_lower fmt \<in> {''h264'', ''h265'', ''aac'', ''g711'', ''opus''} then Ok (uuid @ ''.tmp'', base @ ''.mp4'')
      else if to_lower fmt = ''mjpeg'' then Ok (uuid @ ''.tmp'', base)
      else Err (UnsupportedFormat fmt))"

definition CreateSegment ::
    "int \<Rightarrow> nat \<Rightarrow> string \<Rightarrow> string \<Rightarrow> string \<Rightarrow> storage \<Rightarrow> (storage_error, string \<times> string) res \<times> storage" where
  "CreateSegment zone now uuid cam fmt st0 =
     (let st = EnsureCameraDir cam st0 in
      case segment_names cam fmt (stamp_text (local_time zone now)) uuid of
        Ok (tmp, final) \<Rightarrow>
          (Ok (tmp, final),
           set_entries cam (AList.update tmp (if to_lower fmt = ''mjpeg'' then FrameDir [] now else RegFile [] now)
             (the (cam_entries st cam))) st)
      | e \<Rightarrow> (e, st))"

definition CloseSegment :: "string \<Rightarrow> string \<Rightarrow> string \<Rightarrow> storage \<Rightarrow> (storage_error, unit) res \<times> storage" where
  "CloseSegment cam tmp final st =
     (case Option.bind (cam_entries st cam) (\<lambda>es. map_of es tmp) of
        None \<Rightarrow> (Err NoSuchEntry, st)
      | Some n \<Rightarrow> (Ok (), set_entries cam (AList.update final n (AList.delete tmp (the (cam_entries st cam)))) st))"

text \<open>\<open>WriteFrame\<close> appends to a file, or adds a frame named by the clock to a directory.\<close>

definition WriteFrame :: "nat \<Rightarrow> string \<Rightarrow> string \<Rightarrow> string \<Rightarrow> byte list \<Rightarrow> storage \<Rightarrow> (storage_error, nat) res \<times> storage" where
  "WriteFrame now clock cam tmp bs st =
     (case Option.bind (cam_entries st cam) (\<lambda>es. map_of es tmp) of
        None \<Rightarrow> (Err NoSuchEntry, st)
      | Some (RegFile old _) \<Rightarrow>
          (Ok (length bs), set_entries cam (AList.update tmp (RegFile (old @ bs) now) (the (cam_entries st cam))) st)
      | Some (FrameDir frames _) \<Rightarrow>
          (Ok 0, set_entries cam (AList.update tmp (FrameDir (AList.update (clock @ ''.jpg'') bs frames) now)
                   (the (cam_entries st cam))) st))"

definition ListFiles :: "string \<Rightarrow> storage \<Rightarrow> (storage_error, string list) res" where
  "ListFiles cam st =
     (case cam_entries st cam of
        None \<Rightarrow> Err NoSuchEntry
      | Some es \<Rightarrow> Ok (map (\<lambda>n. CameraDirPath (st_root st) cam @ ''/'' @ n)
          (filter (\<lambda>n. \<not> has_suffix n ''.tmp'' \<and> \<not> has_prefix n ''.'') (map fst es))))"

text \<open>\<open>os.Remove\<close> deletes a file, and a directory only when it is empty.\<close>

definition DeleteFile :: "string \<Rightarrow> string \<Rightarrow> storage \<Rightarrow> (storage_error, unit) res \<times> storage" where
  "DeleteFile dir name st =
     (case Option.bind (map_of (st_dirs st) dir) (\<lambda>es. map_of es name) of
        None \<Rightarrow> (Err NoSuchEntry, st)
      | Some (FrameDir (_ # _) _) \<Rightarrow> (Err NotEmpty, st)
      | Some _ \<Rightarrow>
          (Ok (), st\<lparr>st_dirs := AList.update dir (AList.delete name (the (map_of (st_dirs st) dir))) (st_dirs st)\<rparr>))"

definition DeleteCameraDir :: "string \<Rightarrow> storage \<Rightarrow> storage" where
  "DeleteCameraDir cam st = st\<lparr>st_dirs := AList.delete (recordingDiskName cam) (st_dirs st)\<rparr>"

definition without_tmp :: "(string \<times> 'a) list \<Rightarrow> (string \<times> 'a) list" where
  "without_tmp es = filter (\<lambda>e. \<not> has_suffix (fst e) ''.tmp'') es"

fun clean_node :: "node \<Rightarrow> node" where
  "clean_node (RegFile b t) = RegFile b t"
| "clean_node (FrameDir fs t) = FrameDir (without_tmp fs) t"

definition CleanupTempFiles :: "storage \<Rightarrow> storage" where
  "CleanupTempFiles st =
     st\<lparr>st_dirs := map (\<lambda>(d, es). (d, map (\<lambda>(n, x). (n, clean_node x)) (without_tmp es))) (without_tmp (st_dirs st))\<rparr>"


section \<open>Files without a row\<close>

text \<open>\<open>strings.SplitN(s, c, n)\<close>.\<close>

fun split_n :: "nat \<Rightarrow> char \<Rightarrow> string \<Rightarrow> string list" where
  "split_n 0 c s = []"
| "split_n (Suc 0) c s = [s]"
| "split_n (Suc n) c s = (case cut c s of (a, b, found) \<Rightarrow> if found then a # split_n n c b else [a])"

definition skippedDirs :: "string list" where
  "skippedDirs = [''hls'', ''recordings'', ''logs'', ''backups'', ''bin'']"

text \<open>What an entry of a camera directory is registered as: base name, format, size and frames.\<close>

definition entry_facts :: "string \<Rightarrow> node \<Rightarrow> (string \<times> string \<times> int \<times> int) option" where
  "entry_facts name n =
     (case n of
        FrameDir fs _ \<Rightarrow>
          if CHR ''.'' \<in> set name \<or> fs = [] then None
          else Some (name, ''mjpeg'', int (sum_list (map (length \<circ> snd) fs)), int (length fs))
      | RegFile bs _ \<Rightarrow>
          if \<not> has_suffix name ''.mp4'' \<or> bs = [] then None
          else Some (trim_suffix name ''.mp4'', ''h264'', int (length bs), 0))"

definition orphan_of :: "int \<Rightarrow> string \<Rightarrow> string \<Rightarrow> string \<Rightarrow> string \<times> node \<Rightarrow> recording option" where
  "orphan_of zone rootDir dir original e =
     (case entry_facts (fst e) (snd e) of
        None \<Rightarrow> None
      | Some (base, fmt, bytes, frames) \<Rightarrow>
          (case split_n 4 (CHR ''_'') base of
             [cam, d, t, nano] \<Rightarrow>
               if cam \<noteq> dir then None
               else map_option (\<lambda>local. let started = nat (int local - zone) in
                   \<lparr>r_id = nano, r_camera = original, r_stream = '''', r_path = rootDir @ ''/'' @ dir @ ''/'' @ fst e,
                    r_format = fmt, r_started = started, r_ended = started, r_duration = 0, r_size = bytes,
                    r_frames = frames, r_merged = False, r_status = '''', r_archived = False, r_reconnected = 0,
                    r_gap = '''', r_locked = False\<rparr>)
                 (parse_stamp (d @ ''_'' @ t))
           | _ \<Rightarrow> None))"

definition orphans_in :: "int \<Rightarrow> string set \<Rightarrow> string \<Rightarrow> string \<times> cam_dir \<Rightarrow> recording list" where
  "orphans_in zone cameraIDs rootDir d =
     (let (original, valid) = originalRecordingID (fst d) in
      if fst d \<in> set skippedDirs \<or> \<not> valid \<or> original \<notin> cameraIDs then []
      else List.map_filter (orphan_of zone rootDir (fst d) original) (snd d))"

definition ReconcileOrphanedFiles :: "int \<Rightarrow> string set \<Rightarrow> storage \<Rightarrow> rec_table \<Rightarrow> nat \<times> rec_table" where
  "ReconcileOrphanedFiles zone cameraIDs st db =
     (let orphans = concat (map (orphans_in zone cameraIDs (st_root st)) (st_dirs st));
          toInsert = filter (\<lambda>r. r_path r \<notin> set (map r_path db)) orphans
      in if toInsert = [] then (0, db) else InsertOrphanRecordings toInsert db)"

text \<open>\<open>os.Remove\<close> keeps a directory that holds frames, so a finished segment of JPEG files is never deleted.\<close>

lemma mjpeg_segment_stays:
  "map_of (st_dirs st) dir = Some es \<Longrightarrow> map_of es name = Some (FrameDir (f # fs) t)
    \<Longrightarrow> DeleteFile dir name st = (Err NotEmpty, st)"
  by (simp add: DeleteFile_def)

section \<open>Names are reversible\<close>

lemma portable_no_tilde: "list_all portable_char i \<Longrightarrow> CHR ''~'' \<notin> set i"
  by (auto simp: list_all_iff portable_char_def Let_def)

text \<open>Every camera id but the empty one comes back from the name of its directory.\<close>

theorem disk_name_roundtrip:
  "originalRecordingID (recordingDiskName i) = (i, i \<noteq> '''')"
proof (cases "i \<noteq> '''' \<and> \<not> has_prefix i ''id~'' \<and> list_all portable_char i \<and> to_lower i \<notin> set device_names")
  case True
  then have "recordingDiskName i = i" unfolding recordingDiskName_def by (rule if_P)
  with True show ?thesis by (simp add: originalRecordingID_def)
next
  case False
  then have "recordingDiskName i = ''id~'' @ hex_encode (bytes_of_string i)"
    unfolding recordingDiskName_def by (rule if_not_P)
  then show ?thesis
    by (simp add: originalRecordingID_def has_prefix_def string_bytes_back) (simp add: bytes_of_string_def)
qed


section \<open>The stamp is read back\<close>

lemma number_of_digits: "number_of k (digits w n) = k * 10 ^ w + n mod 10 ^ w"
proof (induction w arbitrary: k)
  case (Suc w)
  have "n mod 10 ^ Suc w = 10 ^ w * (n div 10 ^ w mod 10) + n mod 10 ^ w"
    using mod_mult2_eq[of n "10 ^ w" 10] by (simp add: mult.commute)
  then show ?case by (simp add: Suc of_char_of algebra_simps)
qed simp

lemma is_digit_digits: "list_all is_digit (digits w n)"
proof (induction w)
  case (Suc w)
  have "n div 10 ^ w mod 10 < 10" by simp
  then have "48 + n div 10 ^ w mod 10 < 256" "n div 10 ^ w mod 10 \<le> 9" by linarith+
  with Suc show ?case by (simp add: is_digit_def of_char_of)
qed simp

lemma year_from_days: "1 \<le> y \<Longrightarrow> days_before (fst (year_from y d)) + snd (year_from y d) = days_before y + d"
proof (induction y d rule: year_from.induct)
  case (1 y d)
  obtain x where x: "y = Suc x" using 1(2) by (cases y) auto
  show ?case
  proof (cases "d < year_days y")
    case True
    then show ?thesis by (simp add: year_from.simps[of y d])
  next
    case False
    then show ?thesis using 1(1)[OF False] False by (simp add: year_from.simps[of "Suc x" d] x)
  qed
qed

lemma month_from_days:
  assumes "d < sum_list ls" and "month_from m ls d = (m', d')"
  shows "\<exists>k < length ls. m' = m + k \<and> d = sum_list (take k ls) + d' \<and> d' < ls ! k"
  using assms
proof (induction m ls d rule: month_from.induct)
  case (2 m l ls d)
  show ?case
  proof (cases "d < l")
    case True
    with 2 show ?thesis by (intro exI[of _ 0]) auto
  next
    case False
    then have "d - l < sum_list ls" using 2(2) by simp
    with False 2 obtain k where "k < length ls" "m' = m + 1 + k" "d - l = sum_list (take k ls) + d'" "d' < ls ! k"
      by auto
    with False show ?thesis by (intro exI[of _ "Suc k"]) auto
  qed
qed simp

lemma date_days:
  assumes "date n = (y, m, d)"
  shows "1 \<le> y" and "1 \<le> m" and "m \<le> 12" and "d < month_days (leap y) ! (m - 1)"
    and "days_before y + sum_list (take (m - 1) (month_days (leap y))) + d = n"
proof -
  obtain yd where yf: "year_from 1 n = (y, yd)" and mf: "month_from 1 (month_days (leap y)) yd = (m, d)"
    using assms by (auto simp: date_def Let_def split: prod.splits)
  have "yd < year_days y" using year_from_bound[of 1 n] yf by simp
  then have "yd < sum_list (month_days (leap y))" by (simp add: month_days_sum year_days_def)
  from month_from_days[OF this mf] obtain k where k: "k < length (month_days (leap y))" "m = 1 + k"
      "yd = sum_list (take k (month_days (leap y))) + d" "d < month_days (leap y) ! k" by auto
  show "1 \<le> y" using year_from_ge[of 1 n] yf by simp
  show "1 \<le> m" "d < month_days (leap y) ! (m - 1)" using k by simp_all
  have "length (month_days (leap y)) = 12" by (simp add: month_days_def)
  with k show "m \<le> 12" by simp
  show "days_before y + sum_list (take (m - 1) (month_days (leap y))) + d = n"
    using year_from_days[of 1 n] yf k by simp
qed

lemma month_days_le: "k < 12 \<Longrightarrow> month_days b ! k \<le> 31"
  using nth_mem[of k "month_days b"] by (auto simp: month_days_def)

text \<open>Fields at their places.\<close>

lemma drop_field: "length a \<le> i \<Longrightarrow> field_at i w (a @ s) = field_at (i - length a) w s"
  by (simp add: field_at_def)

lemma drop_char: "0 < i \<Longrightarrow> field_at i w (c # s) = field_at (i - 1) w s"
  by (cases i) (simp_all add: field_at_def)

lemma head_field:
  "w = length a \<Longrightarrow> field_at 0 w (a @ s) = number_of 0 a"
  "w = length a \<Longrightarrow> field_at 0 w a = number_of 0 a"
  by (simp_all add: field_at_def)

lemma parse_stamp_text:
  assumes "fst (date (t div day_ns)) < 10000"
  shows "parse_stamp (stamp_text t) = Some (t div 1000000000 * 1000000000)"
proof -
  obtain y m d where date: "date (t div day_ns) = (y, m, d)" by (cases "date (t div day_ns)") auto
  note dd = date_days[OF date]
  define s where "s = t mod day_ns div 1000000000"
  have s: "s < 86400" by (simp add: s_def day_ns_def less_mult_imp_div_less)
  have h: "s div 3600 < 24" using s by (simp add: less_mult_imp_div_less)
  let ?a = "digits 4 y" let ?b = "digits 2 m" let ?c = "digits 2 (d + 1)"
  let ?e = "digits 2 (s div 3600)" let ?f = "digits 2 (s div 60 mod 60)" let ?g = "digits 2 (s mod 60)"
  have shape: "stamp_text t = ?a @ ?b @ ?c @ ''_'' @ ?e @ ?f @ ?g"
    by (simp add: stamp_text_def date s_def Let_def)
  have len: "length (stamp_text t) = 15" by (simp add: shape)
  have dates: "take 8 (stamp_text t) = ?a @ ?b @ ?c" and clock: "take 6 (drop 9 (stamp_text t)) = ?e @ ?f @ ?g"
    and bar: "stamp_text t ! 8 = CHR ''_''"
    by (simp_all add: shape nth_append)
  have "m - 1 < 12" using dd(2,3) by simp
  then have d31: "d < 31" using dd(4) month_days_le[of "m - 1" "leap y"] by simp
  have fields: "field_at 0 4 (stamp_text t) = y" "field_at 4 2 (stamp_text t) = m" "field_at 6 2 (stamp_text t) = d + 1"
    "field_at 9 2 (stamp_text t) = s div 3600" "field_at 11 2 (stamp_text t) = s div 60 mod 60"
    "field_at 13 2 (stamp_text t) = s mod 60"
    using assms date dd(3) d31 h
    by (simp_all add: shape drop_field drop_char head_field number_of_digits del: digits.simps)
  have rest: "drop 15 (stamp_text t) = []" using len by simp
  have "s div 60 div 60 = s div 3600" by (simp add: div_mult2_eq[symmetric])
  then have clock_eq: "s div 3600 * 3600 + s div 60 mod 60 * 60 + s mod 60 = s"
    using div_mult_mod_eq[of "s div 60" 60] div_mult_mod_eq[of s 60] by linarith
  have "t mod day_ns = 1000000000 * (t div 1000000000 mod 86400) + t mod 1000000000"
    using mod_mult2_eq[of t 1000000000 86400] by (simp add: day_ns_def)
  then have "s = t div 1000000000 mod 86400" by (simp add: s_def)
  moreover have "t div day_ns = t div 1000000000 div 86400" by (simp add: day_ns_def div_mult2_eq[symmetric])
  ultimately have "t div 1000000000 = t div day_ns * 86400 + s" by simp
  then have "(days_before y + sum_list (take (m - 1) (month_days (leap y))) + d) * day_ns + s * 1000000000
      = t div 1000000000 * 1000000000"
    unfolding dd(5) by (simp add: day_ns_def)
  moreover have "list_all is_digit (take 8 (stamp_text t))" "list_all is_digit (take 6 (drop 9 (stamp_text t)))"
    unfolding dates clock by (simp_all add: is_digit_digits del: digits.simps)
  moreover have "\<not> 12 < m" "\<not> m < 1" "y \<noteq> 0" "\<not> month_days (leap y) ! (m - 1) < d + 1" "\<not> 24 \<le> s div 3600"
      "\<not> 60 \<le> s div 60 mod 60" "\<not> 60 \<le> s mod 60"
    using dd(1-4) h by (simp_all add: not_le)
  ultimately show ?thesis
    unfolding parse_stamp_def fields Let_def using bar len clock_eq rest by (simp add: parse_fraction_def)
qed


section \<open>Which files are registered\<close>

lemma split_four:
  "split_n 4 c s = (case cut c s of (a, s1, f1) \<Rightarrow> if \<not> f1 then [a] else
     (case cut c s1 of (b, s2, f2) \<Rightarrow> if \<not> f2 then [a, b] else
     (case cut c s2 of (d, s3, f3) \<Rightarrow> if \<not> f3 then [a, b, d] else [a, b, d, s3])))"
  by (simp add: eval_nat_numeral split: prod.splits)

lemma split_four_parts:
  "c \<notin> set a \<Longrightarrow> c \<notin> set b \<Longrightarrow> c \<notin> set d \<Longrightarrow> split_n 4 c (a @ c # b @ c # d @ c # e) = [a, b, d, e]"
  by (simp add: split_four cut_append)

text \<open>A directory with an underscore in its name is never searched with success.\<close>

lemma underscore_never_found:
  assumes "CHR ''_'' \<in> set dir"
  shows "orphan_of zone rootDir dir original e = None"
proof -
  have "split_n 4 (CHR ''_'') base \<noteq> [dir, b, c, d]" for base b c d
    using assms cut_parts[of "CHR ''_''" base]
    by (auto simp: split_four split: prod.splits if_splits)
  then show ?thesis
    by (auto simp: orphan_of_def split: option.splits list.splits prod.splits)
qed

lemma stamp_parts:
  obtains d c where "stamp_text t = d @ CHR ''_'' # c" and "CHR ''_'' \<notin> set d" and "CHR ''_'' \<notin> set c"
proof -
  obtain y m dd where date: "date (t div day_ns) = (y, m, dd)" by (cases "date (t div day_ns)") auto
  have free: "CHR ''_'' \<notin> set (digits w n)" for w n
    using is_digit_digits[of w n] by (auto simp: list_all_iff is_digit_def)
  show ?thesis
    by (rule that[of "digits 4 y @ digits 2 m @ digits 2 (dd + 1)"
          "digits 2 (t mod day_ns div 1000000000 div 3600) @ digits 2 (t mod day_ns div 1000000000 div 60 mod 60)
           @ digits 2 (t mod day_ns div 1000000000 mod 60)"])
      (simp_all add: stamp_text_def date free Let_def del: digits.simps)
qed

lemma suffix_append: "has_suffix (s @ p) p" "trim_suffix (s @ p) p = s"
  by (simp_all add: has_suffix_def trim_suffix_def)



end
