(* ===== verification/Go_Duration.thy ===== *)
theory Go_Duration
  imports Go_Strings
begin

text \<open>
  \<open>time.ParseDuration\<close> of Go: a sign, then numbers with a fraction and a unit, in nanoseconds.  A number past
  \<open>1 << 63\<close> is an error; the fraction is exact here where Go rounds through \<open>float64\<close>.
\<close>

definition digit_char :: "char \<Rightarrow> bool" where
  "digit_char c \<longleftrightarrow> 48 \<le> (of_char c :: nat) \<and> of_char c \<le> (57 :: nat)"

definition digits_value :: "string \<Rightarrow> nat" where
  "digits_value s = foldl (\<lambda>n c. 10 * n + (of_char c - 48)) 0 s"

definition unit_chars :: "string \<Rightarrow> string" where
  "unit_chars s = takeWhile (\<lambda>c. c \<noteq> CHR ''.'' \<and> \<not> digit_char c) s"

definition unit_ns :: "string \<Rightarrow> nat option" where
  "unit_ns u = map_of
     [(''ns'', 1), (''us'', 1000), ([CHR 0xC2, CHR 0xB5, CHR ''s''], 1000), ([CHR 0xCE, CHR 0xBC, CHR ''s''], 1000),
      (''ms'', 1000000), (''s'', 1000000000), (''m'', 60000000000), (''h'', 3600000000000)] u"

definition duration_limit :: nat where "duration_limit = 9223372036854775808"

text \<open>One number with its unit: its nanoseconds and the rest of the text.\<close>

definition duration_part :: "string \<Rightarrow> (nat \<times> string) option" where
  "duration_part s =
     (let whole = takeWhile digit_char s; s1 = dropWhile digit_char s;
          pointed = (s1 \<noteq> [] \<and> hd s1 = CHR ''.'');
          s2 = (if pointed then tl s1 else s1);
          frac = (if pointed then takeWhile digit_char s2 else []);
          s3 = (if pointed then dropWhile digit_char s2 else s2);
          u = unit_chars s3
      in if (whole = [] \<and> frac = []) \<or> u = [] \<or> digits_value whole > duration_limit then None
         else case unit_ns u of
             None \<Rightarrow> None
           | Some n \<Rightarrow>
               let v = digits_value whole * n + digits_value frac * n div 10 ^ length frac
               in if v > duration_limit then None else Some (v, drop (length u) s3))"

lemma duration_part_shorter: "duration_part s = Some (v, r) \<Longrightarrow> length r < length s"
proof -
  assume part: "duration_part s = Some (v, r)"
  define s1 where "s1 = dropWhile digit_char s"
  define s2 where "s2 = (if s1 \<noteq> [] \<and> hd s1 = CHR ''.'' then tl s1 else s1)"
  define s3 where "s3 = (if s1 \<noteq> [] \<and> hd s1 = CHR ''.'' then dropWhile digit_char s2 else s2)"
  have r: "r = drop (length (unit_chars s3)) s3" and u: "unit_chars s3 \<noteq> []"
    using part by (auto simp: duration_part_def Let_def s1_def s2_def s3_def split: if_splits option.splits)
  have "length s3 \<le> length s2" by (simp add: s3_def length_dropWhile_le)
  moreover have "length s2 \<le> length s1" by (simp add: s2_def)
  moreover have "length s1 \<le> length s" by (simp add: s1_def length_dropWhile_le)
  moreover have "length (unit_chars s3) \<le> length s3" by (simp add: unit_chars_def length_takeWhile_le)
  moreover have "0 < length (unit_chars s3)" using u by simp
  ultimately show ?thesis unfolding r length_drop by linarith
qed

function duration_parts :: "nat \<Rightarrow> string \<Rightarrow> nat option" where
  "duration_parts d s =
     (if s = [] then Some d
      else case duration_part s of
          None \<Rightarrow> None
        | Some (v, r) \<Rightarrow> if d + v > duration_limit then None else duration_parts (d + v) r)"
  by pat_completeness auto
termination by (relation "measure (length \<circ> snd)") (auto dest: duration_part_shorter)

declare duration_parts.simps [simp del]

definition ParseDuration :: "string \<Rightarrow> int option" where
  "ParseDuration s =
     (let signed = (s \<noteq> [] \<and> hd s \<in> {CHR ''-'', CHR ''+''}); neg = (signed \<and> hd s = CHR ''-'');
          t = (if signed then tl s else s)
      in if t = ''0'' then Some 0
         else if t = [] then None
         else case duration_parts 0 t of
             None \<Rightarrow> None
           | Some d \<Rightarrow> if neg then Some (- int d) else if d \<ge> duration_limit then None else Some (int d))"

lemma duration_parts_Nil [simp]: "duration_parts d [] = Some d"
  by (simp add: duration_parts.simps)

lemma duration_parts_Cons:
  "duration_part (c # cs) = None \<Longrightarrow> duration_parts d (c # cs) = None"
  "duration_part (c # cs) = Some (v, r) \<Longrightarrow>
    duration_parts d (c # cs) = (if d + v > duration_limit then None else duration_parts (d + v) r)"
  by (subst duration_parts.simps, simp)+

lemma parsed_examples:
  "ParseDuration ''1h30m'' = Some 5400000000000" "ParseDuration ''-1.5s'' = Some (- 1500000000)"
  "ParseDuration ''10'' = None" "ParseDuration '''' = None" "ParseDuration ''0'' = Some 0"
  by (simp_all add: ParseDuration_def duration_parts_Cons duration_part_def Let_def digit_char_def digits_value_def
      unit_chars_def unit_ns_def duration_limit_def)

lemma duration_parts_mono: "duration_parts d s = Some e \<Longrightarrow> d \<le> e \<and> (e \<le> duration_limit \<or> e = d)"
proof (induction d s rule: duration_parts.induct)
  case (1 d s)
  show ?case
  proof (cases "s = []")
    case False
    then obtain v r where part: "duration_part s = Some (v, r)" and small: "d + v \<le> duration_limit"
      and rest: "duration_parts (d + v) r = Some e"
      using 1(2) by (subst (asm) duration_parts.simps) (auto split: option.splits if_splits)
    have "d + v \<le> e \<and> (e \<le> duration_limit \<or> e = d + v)"
      using 1(1)[OF False part refl _ rest] small by simp
    with small show ?thesis by auto
  qed (use 1(2) in \<open>simp add: duration_parts.simps\<close>)
qed

text \<open>A parsed duration fits 64 bits.\<close>

lemma ParseDuration_range: "ParseDuration s = Some d \<Longrightarrow> - (2 ^ 63) \<le> d \<and> d < 2 ^ 63"
  by (auto simp: ParseDuration_def Let_def duration_limit_def split: if_splits option.splits dest!: duration_parts_mono)

end
