(* ===== verification/Cleanup.thy ===== *)
theory Cleanup
  imports Storage_Files Go_File Go_Duration
begin

text \<open>
  The periodic cleanup (\<open>cleanup/cleanup.go\<close>): retention, archive retention, the disk threshold, old health
  events, files without a row, rows of JPEG segments without a directory, and the repair of durations.  Which call of
  the database or the file system fails, the clock, the disk usage and cancellation are an argument, a
  \<open>cleanup_env\<close>; the files named by rows lie under the root of the storage.
\<close>

section \<open>State and surroundings\<close>

record camera_row =
  cr_id :: string
  cr_retention :: int
  cr_archived :: bool
  cr_archive_days :: int

type_synonym camera_table = "camera_row list"

record cleanup_manager =
  cm_retention :: int
  cm_threshold :: int
  cm_interval :: int
  cm_metrics :: bool
  cm_health_on :: bool
  cm_health_retention :: int
  cm_ffprobe :: string
  cm_last :: string

datatype phase = Retention | ArchivePhase | DiskPhase | OrphanPhase | StalePhase

datatype db_call =
    CamerasOf phase | ExpiredOf string | ArchivedCameras | ExpiredArchiveOf string | LeftOf string | DropCamera string
  | OldestOf nat | RowOf phase string | HealthBefore | CountAll | PathsOf string | JpegOf string | MarkStale string
  | ZeroDurations | DurationOf string

text \<open>
  \<open>ce_usage\<close> gives capacity and used bytes at the n-th reading of a pass, \<open>ce_stop\<close> the answer of \<open>ctx.Err()\<close> in
  a round of the disk phase, \<open>ce_orphan_stop\<close> before a camera of the orphan phase.  \<open>ce_probe\<close> is the
  duration ffprobe finds in a file, 0 for any failure.
\<close>

record cleanup_env =
  ce_now :: nat
  ce_fails :: "db_call \<Rightarrow> bool"
  ce_unlink_fails :: "phase \<Rightarrow> string \<Rightarrow> bool"
  ce_usage :: "nat \<Rightarrow> storage \<Rightarrow> (int \<times> int) option"
  ce_stop :: "nat \<Rightarrow> nat \<Rightarrow> bool"
  ce_orphan_stop :: "nat \<Rightarrow> bool"
  ce_probe_there :: bool
  ce_probe :: "string \<Rightarrow> rat"

datatype cleanup_error =
    CallFailed db_call | UnlinkFailed string | UsageFailed | CandidateLimit | Cancelled

text \<open>\<open>NewCleanupManager\<close>: days, the text of the interval, threshold, and whether metrics are given.\<close>

definition NewCleanupManager :: "int \<Rightarrow> string \<Rightarrow> int \<Rightarrow> bool \<Rightarrow> cleanup_manager option" where
  "NewCleanupManager days interval threshold metrics =
     map_option (\<lambda>i. \<lparr>cm_retention = sint (word_of_int days * 24 * 3600000000000 :: 64 word), cm_threshold = threshold,
         cm_interval = (if i \<le> 0 then 3600000000000 else i), cm_metrics = metrics, cm_health_on = False,
         cm_health_retention = 0, cm_ffprobe = '''', cm_last = ''''\<rparr>) (ParseDuration interval)"

definition SetHealthConfig :: "bool \<Rightarrow> int \<Rightarrow> cleanup_manager \<Rightarrow> cleanup_manager" where
  "SetHealthConfig enabled retention cm = cm\<lparr>cm_health_on := enabled, cm_health_retention := retention\<rparr>"

definition SetFFprobePath :: "string \<Rightarrow> cleanup_manager \<Rightarrow> cleanup_manager" where
  "SetFFprobePath path cm = cm\<lparr>cm_ffprobe := path\<rparr>"

definition by_id :: "camera_row \<Rightarrow> camera_row \<Rightarrow> bool" where
  "by_id a b \<longleftrightarrow> text_le (cr_id a) (cr_id b)"

definition ListCameras :: "camera_table \<Rightarrow> camera_row list" where
  "ListCameras cams = order_by by_id (filter (\<lambda>c. \<not> cr_archived c) cams)"

definition ListArchivedCameras :: "camera_table \<Rightarrow> camera_row list" where
  "ListArchivedCameras cams = order_by by_id (filter cr_archived cams)"

definition DeleteCamera :: "string \<Rightarrow> camera_table \<Rightarrow> camera_table" where
  "DeleteCamera i cams = filter (\<lambda>c. cr_id c \<noteq> i) cams"

section \<open>Deleting one recording\<close>

text \<open>Directory and name of a path under the root.\<close>

definition path_parts :: "string \<Rightarrow> string \<Rightarrow> (string \<times> string) option" where
  "path_parts rootDir p =
     (if has_prefix p (rootDir @ ''/'') then
        (case cut (CHR ''/'') (drop (length rootDir + 1) p) of
           (d, n, found) \<Rightarrow> if found \<and> CHR ''/'' \<notin> set n then Some (d, n) else None)
      else None)"

definition node_at :: "string \<Rightarrow> storage \<Rightarrow> node option" where
  "node_at p st =
     Option.bind (path_parts (st_root st) p) (\<lambda>(d, n). Option.bind (map_of (st_dirs st) d) (\<lambda>es. map_of es n))"

definition delete_path :: "cleanup_env \<Rightarrow> phase \<Rightarrow> string \<Rightarrow> storage \<Rightarrow> (storage_error, unit) res \<times> storage" where
  "delete_path env ph p st =
     (case path_parts (st_root st) p of
        None \<Rightarrow> (Err NoSuchEntry, st)
      | Some (d, n) \<Rightarrow> if ce_unlink_fails env ph p then (Err AccessFailed, st) else DeleteFile d n st)"

text \<open>First the file, then the row; a file that is already gone is no error.\<close>

definition deleteRecording ::
    "cleanup_env \<Rightarrow> phase \<Rightarrow> recording \<Rightarrow> storage \<Rightarrow> rec_table \<Rightarrow> cleanup_error option \<times> storage \<times> rec_table" where
  "deleteRecording env ph r st db =
     (let (out, st') = delete_path env ph (r_path r) st in
      if out \<noteq> Ok () \<and> out \<noteq> Err NoSuchEntry then (Some (UnlinkFailed (r_id r)), st', db)
      else if ce_fails env (RowOf ph (r_id r)) then (Some (CallFailed (RowOf ph (r_id r))), st', db)
      else (None, st', DeleteRecording (r_id r) db))"

fun delete_each ::
    "cleanup_env \<Rightarrow> phase \<Rightarrow> recording list \<Rightarrow> storage \<Rightarrow> rec_table \<Rightarrow> cleanup_error list \<times> storage \<times> rec_table" where
  "delete_each env ph [] st db = ([], st, db)"
| "delete_each env ph (r # rs) st db =
     (let (e, st1, db1) = deleteRecording env ph r st db; (es, st2, db2) = delete_each env ph rs st1 db1
      in (case e of None \<Rightarrow> es | Some x \<Rightarrow> x # es, st2, db2))"

section \<open>Retention\<close>

definition global_days :: "cleanup_manager \<Rightarrow> int" where
  "global_days cm = cm_retention cm sdiv int day_ns"

definition camera_days :: "cleanup_manager \<Rightarrow> camera_row \<Rightarrow> int" where
  "camera_days cm c = (if cr_retention c \<le> 0 then global_days cm else cr_retention c)"

fun retain_cameras ::
    "cleanup_env \<Rightarrow> cleanup_manager \<Rightarrow> camera_row list \<Rightarrow> storage \<Rightarrow> rec_table \<Rightarrow> cleanup_error list \<times> storage \<times> rec_table" where
  "retain_cameras env cm [] st db = ([], st, db)"
| "retain_cameras env cm (c # cs) st db =
     (let days = camera_days cm c in
      if days \<le> 0 then retain_cameras env cm cs st db
      else if ce_fails env (ExpiredOf (cr_id c)) then
        (let (es, out) = retain_cameras env cm cs st db in (CallFailed (ExpiredOf (cr_id c)) # es, out))
      else
        (let (es1, st1, db1) =
               delete_each env Retention (ListExpiredRecordingsByCamera (cr_id c) (ce_now env) days db) st db;
             (es2, out) = retain_cameras env cm cs st1 db1
         in (es1 @ es2, out)))"

definition timeBasedCleanup ::
    "cleanup_env \<Rightarrow> cleanup_manager \<Rightarrow> camera_table \<Rightarrow> storage \<Rightarrow> rec_table \<Rightarrow> cleanup_error list \<times> storage \<times> rec_table" where
  "timeBasedCleanup env cm cams st db =
     (if ce_fails env (CamerasOf Retention) then ([CallFailed (CamerasOf Retention)], st, db)
      else retain_cameras env cm (ListCameras cams) st db)"

section \<open>The disk threshold\<close>

definition percent :: "int \<Rightarrow> int \<Rightarrow> int" where
  "percent used capacity = used * 100 sdiv capacity"

definition maxCleanupCandidates :: nat where "maxCleanupCandidates = 10000"

text \<open>One batch: cancelled, anything deleted, the ids that failed in this pass, problems, and what is left.\<close>

fun disk_batch ::
    "cleanup_env \<Rightarrow> nat \<Rightarrow> nat \<Rightarrow> recording list \<Rightarrow> string set \<Rightarrow> storage \<Rightarrow> rec_table
       \<Rightarrow> bool \<times> bool \<times> string set \<times> cleanup_error list \<times> storage \<times> rec_table" where
  "disk_batch env n i [] failed st db = (False, False, failed, [], st, db)"
| "disk_batch env n i (r # rs) failed st db =
     (if ce_stop env n (i + 1) then (True, False, failed, [], st, db)
      else if r_id r \<in> failed then disk_batch env n (i + 1) rs failed st db
      else case deleteRecording env DiskPhase r st db of
        (Some e, st1, db1) \<Rightarrow>
          (case disk_batch env n (i + 1) rs (insert (r_id r) failed) st1 db1 of
             (stopped, deleted, failed', es, st2, db2) \<Rightarrow> (stopped, deleted, failed', e # es, st2, db2))
      | (None, st1, db1) \<Rightarrow>
          (case disk_batch env n (i + 1) rs failed st1 db1 of
             (stopped, deleted, failed', es, st2, db2) \<Rightarrow> (stopped, True, failed', es, st2, db2)))"

partial_function (option) disk_loop ::
    "cleanup_env \<Rightarrow> int \<Rightarrow> int \<Rightarrow> nat \<Rightarrow> nat \<Rightarrow> string set \<Rightarrow> cleanup_error list \<Rightarrow> storage \<Rightarrow> rec_table
       \<Rightarrow> (cleanup_error list \<times> storage \<times> rec_table) option" where
  "disk_loop env capacity threshold n limit failed es st db =
     (if ce_stop env n 0 then Some (es @ [Cancelled], st, db)
      else if ce_fails env (OldestOf n) then Some (es @ [CallFailed (OldestOf n)], st, db)
      else let recs = ListOldestRecordings limit db in
      if recs = [] then Some (es, st, db)
      else case disk_batch env n 0 recs failed st db of
        (stopped, deleted, failed', new, st', db') \<Rightarrow>
          if stopped then Some (es @ new @ [Cancelled], st', db')
          else if \<not> deleted then
            (if length recs < limit then Some (es @ new, st', db')
             else if maxCleanupCandidates \<le> limit then Some (es @ new @ [CandidateLimit], st', db')
             else disk_loop env capacity threshold (n + 1) (min maxCleanupCandidates (limit + 50)) failed' (es @ new) st' db')
          else (case ce_usage env (n + 1) st' of
              None \<Rightarrow> Some (es @ new @ [UsageFailed], st', db')
            | Some (_, used) \<Rightarrow>
                if percent used capacity \<le> threshold then Some (es @ new, st', db')
                else disk_loop env capacity threshold (n + 1) limit failed' (es @ new) st' db'))"

definition diskThresholdCleanup ::
    "cleanup_env \<Rightarrow> cleanup_manager \<Rightarrow> storage \<Rightarrow> rec_table \<Rightarrow> (cleanup_error list \<times> storage \<times> rec_table) option" where
  "diskThresholdCleanup env cm st db =
     (case ce_usage env 0 st of
        None \<Rightarrow> Some ([UsageFailed], st, db)
      | Some (capacity, used) \<Rightarrow>
          if capacity = 0 \<or> percent used capacity \<le> cm_threshold cm then Some ([], st, db)
          else disk_loop env capacity (cm_threshold cm) 0 50 {} [] st db)"

section \<open>Archives\<close>

fun archive_cameras ::
    "cleanup_env \<Rightarrow> camera_row list \<Rightarrow> storage \<Rightarrow> rec_table \<Rightarrow> camera_table \<Rightarrow> storage \<times> rec_table \<times> camera_table" where
  "archive_cameras env [] st db cams = (st, db, cams)"
| "archive_cameras env (c # cs) st db cams =
     (if cr_archive_days c \<le> 0 \<or> ce_fails env (ExpiredArchiveOf (cr_id c)) then archive_cameras env cs st db cams
      else
        (let (_, st1, db1) = delete_each env ArchivePhase
               (ListExpiredArchivedRecordingsByCamera (cr_id c) (ce_now env) (cr_archive_days c) db) st db
         in if ce_fails env (LeftOf (cr_id c)) \<or> CountRecordingsByCamera (cr_id c) db1 \<noteq> 0
            then archive_cameras env cs st1 db1 cams
            else archive_cameras env cs
                   (if ce_unlink_fails env ArchivePhase (CameraDirPath (st_root st1) (cr_id c)) then st1
                    else DeleteCameraDir (cr_id c) st1) db1
                   (if ce_fails env (DropCamera (cr_id c)) then cams else DeleteCamera (cr_id c) cams)))"

definition archivedRetentionCleanup ::
    "cleanup_env \<Rightarrow> storage \<Rightarrow> rec_table \<Rightarrow> camera_table \<Rightarrow> storage \<times> rec_table \<times> camera_table" where
  "archivedRetentionCleanup env st db cams =
     (if ce_fails env ArchivedCameras then (st, db, cams)
      else archive_cameras env (ListArchivedCameras cams) st db cams)"

text \<open>Health events are their times here.\<close>

definition healthRetentionCleanup :: "cleanup_env \<Rightarrow> cleanup_manager \<Rightarrow> nat list \<Rightarrow> nat list" where
  "healthRetentionCleanup env cm events =
     (if \<not> cm_health_on cm \<or> cm_health_retention cm \<le> 0 \<or> ce_fails env HealthBefore then events
      else filter (\<lambda>t. int (ce_now env) - cm_health_retention cm \<le> int t) events)"

section \<open>Files without a row\<close>

definition orphanCameraBudgetPerPass :: nat where "orphanCameraBudgetPerPass = 32"

text \<open>The next cameras in the order of their ids, starting behind the last one of the pass before.\<close>

definition orphan_window :: "string \<Rightarrow> string list \<Rightarrow> string list" where
  "orphan_window lastId ids =
     (let n = length ids;
          p = length (takeWhile (\<lambda>i. \<not> text_less lastId i) ids);
          first = (if n \<le> p then 0 else p)
      in map (\<lambda>i. ids ! ((first + i) mod n)) [0..<min n orphanCameraBudgetPerPass])"

definition hour :: nat where "hour = 3600000000000"

definition is_orphan :: "nat \<Rightarrow> string \<Rightarrow> string list \<Rightarrow> string \<times> node \<Rightarrow> bool" where
  "is_orphan now cam known e =
     (case e of
        (name, FrameDir _ t) \<Rightarrow>
          t + hour \<le> now \<and> name \<notin> set known \<and> (has_prefix name (CameraRecordingPrefix cam) \<or> has_suffix name ''.tmp'')
      | (name, RegFile _ t) \<Rightarrow>
          t + hour \<le> now \<and> name \<notin> set known \<and> has_suffix name ''.mp4'' \<and> has_prefix name (CameraRecordingPrefix cam))"

definition ListRecordingPathsByCamera :: "string \<Rightarrow> rec_table \<Rightarrow> string list" where
  "ListRecordingPathsByCamera cam db = map (path_base \<circ> r_path) (filter (\<lambda>q. r_camera q = cam) db)"

definition removable :: "cleanup_env \<Rightarrow> string \<Rightarrow> string list \<Rightarrow> storage \<Rightarrow> string \<times> node \<Rightarrow> bool" where
  "removable env cam known st e \<longleftrightarrow>
     is_orphan (ce_now env) cam known e
     \<and> \<not> ce_unlink_fails env OrphanPhase (CameraDirPath (st_root st) cam @ ''/'' @ fst e)"

definition cleanOrphansForCamera :: "cleanup_env \<Rightarrow> string \<Rightarrow> rec_table \<Rightarrow> storage \<Rightarrow> nat \<times> storage" where
  "cleanOrphansForCamera env cam db st =
     (if ce_fails env (PathsOf cam) then (0, st)
      else case cam_entries st cam of
        None \<Rightarrow> (0, st)
      | Some es \<Rightarrow>
          let gone = removable env cam (ListRecordingPathsByCamera cam db) st
          in (length (filter gone es), set_entries cam (filter (\<lambda>e. \<not> gone e) es) st))"

fun orphan_cameras :: "cleanup_env \<Rightarrow> nat \<Rightarrow> string list \<Rightarrow> rec_table \<Rightarrow> storage \<Rightarrow> storage" where
  "orphan_cameras env i [] db st = st"
| "orphan_cameras env i (c # cs) db st =
     (if ce_orphan_stop env i then st
      else orphan_cameras env (i + 1) cs db (snd (cleanOrphansForCamera env c db st)))"

definition orphanFileCleanup ::
    "cleanup_env \<Rightarrow> camera_table \<Rightarrow> rec_table \<Rightarrow> cleanup_manager \<times> storage \<Rightarrow> cleanup_manager \<times> storage" where
  "orphanFileCleanup env cams db s =
     (case s of (cm, st) \<Rightarrow>
        if ce_fails env (CamerasOf OrphanPhase) \<or> ListCameras cams = [] then (cm, st)
        else
          (let ids = map cr_id (order_by by_id (ListCameras cams)); w = orphan_window (cm_last cm) ids
           in (cm\<lparr>cm_last := last w\<rparr>, orphan_cameras env 0 w db st)))"

section \<open>Rows that are out of date\<close>

definition fixStaleMJPEGRecords :: "cleanup_env \<Rightarrow> storage \<Rightarrow> string \<Rightarrow> rec_table \<Rightarrow> rec_table" where
  "fixStaleMJPEGRecords env st cam db =
     (if ce_fails env (JpegOf cam) then db
      else let stale = map r_id (filter (\<lambda>q. node_at (r_path q) st = None) (ListPendingMJPEGRecordings cam db))
      in if stale = [] \<or> ce_fails env (MarkStale cam) then db else SetMergeStatus stale ''failed'' db)"

definition staleRecordCleanup :: "cleanup_env \<Rightarrow> camera_table \<Rightarrow> storage \<Rightarrow> rec_table \<Rightarrow> rec_table" where
  "staleRecordCleanup env cams st db =
     (if ce_fails env (CamerasOf StalePhase) then db
      else fold (\<lambda>c. fixStaleMJPEGRecords env st (cr_id c)) (ListCameras cams) db)"

definition repair_one :: "cleanup_env \<Rightarrow> storage \<Rightarrow> recording \<Rightarrow> rec_table \<Rightarrow> rec_table" where
  "repair_one env st r db =
     (let d = ce_probe env (r_path r) in
      if node_at (r_path r) st = None \<or> d \<le> 0 \<or> ce_fails env (DurationOf (r_id r)) then db
      else UpdateRecordingDuration (r_id r) d (r_started r + nat \<lfloor>d * 1000000000\<rfloor>) db)"

definition repairZeroDurationRecordings ::
    "cleanup_env \<Rightarrow> storage \<Rightarrow> cleanup_manager \<times> rec_table \<Rightarrow> cleanup_manager \<times> rec_table" where
  "repairZeroDurationRecordings env st s =
     (case s of (cm, db) \<Rightarrow>
        if cm_ffprobe cm = '''' then (cm, db)
        else if \<not> ce_probe_there env then (cm\<lparr>cm_ffprobe := ''''\<rparr>, db)
        else if ce_fails env ZeroDurations then (cm, db)
        else (cm, fold (repair_one env st) (RepairZeroDurationRecordings db) db))"

section \<open>A pass\<close>

record cleanup_world =
  cw_mgr :: cleanup_manager
  cw_store :: storage
  cw_db :: rec_table
  cw_cams :: camera_table
  cw_health :: "nat list"
  cw_gauge :: nat

definition count_phase :: "cleanup_env \<Rightarrow> cleanup_world \<Rightarrow> cleanup_error list \<times> cleanup_world" where
  "count_phase env w =
     (if \<not> cm_metrics (cw_mgr w) then ([], w)
      else if ce_fails env CountAll then ([CallFailed CountAll], w)
      else ([], w\<lparr>cw_gauge := length (cw_db w)\<rparr>))"

text \<open>The phases after the disk threshold, and the whole pass with the problems it reports.\<close>

definition late_phases :: "cleanup_env \<Rightarrow> cleanup_world \<Rightarrow> cleanup_error list \<times> cleanup_world" where
  "late_phases env w0 =
     (let (es, w) = count_phase env (w0\<lparr>cw_health := healthRetentionCleanup env (cw_mgr w0) (cw_health w0)\<rparr>);
          (cm1, st) = orphanFileCleanup env (cw_cams w) (cw_db w) (cw_mgr w, cw_store w);
          db1 = staleRecordCleanup env (cw_cams w) st (cw_db w);
          (cm2, db2) = repairZeroDurationRecordings env st (cm1, db1)
      in (es, w\<lparr>cw_mgr := cm2, cw_store := st, cw_db := db2\<rparr>))"

definition RunOnce :: "cleanup_env \<Rightarrow> cleanup_world \<Rightarrow> (cleanup_error list \<times> cleanup_world) option" where
  "RunOnce env w =
     (let (es1, st1, db1) = timeBasedCleanup env (cw_mgr w) (cw_cams w) (cw_store w) (cw_db w);
          (st2, db2, cams) = archivedRetentionCleanup env st1 db1 (cw_cams w)
      in Option.bind (diskThresholdCleanup env (cw_mgr w) st2 db2)
        (\<lambda>(es2, st3, db3).
           let (es3, w') = late_phases env (w\<lparr>cw_store := st3, cw_db := db3, cw_cams := cams\<rparr>)
           in Some (es1 @ es2 @ es3, w')))"

section \<open>What a deletion leaves\<close>

lemma path_parts_Some:
  "path_parts rootDir p = Some (d, n) \<longleftrightarrow> p = rootDir @ ''/'' @ d @ ''/'' @ n \<and> CHR ''/'' \<notin> set d \<and> CHR ''/'' \<notin> set n"
proof
  assume "path_parts rootDir p = Some (d, n)"
  then obtain t where t: "p = rootDir @ ''/'' @ t" and parts: "cut (CHR ''/'') t = (d, n, True)" and n: "CHR ''/'' \<notin> set n"
    by (auto simp: path_parts_def has_prefix_iff split: if_splits prod.splits)
  show "p = rootDir @ ''/'' @ d @ ''/'' @ n \<and> CHR ''/'' \<notin> set d \<and> CHR ''/'' \<notin> set n"
    using cut_parts[OF parts] t n by simp
next
  assume "p = rootDir @ ''/'' @ d @ ''/'' @ n \<and> CHR ''/'' \<notin> set d \<and> CHR ''/'' \<notin> set n"
  then show "path_parts rootDir p = Some (d, n)"
    using cut_append[of "CHR ''/''" d n] has_prefix_append[of "rootDir @ ''/''" "d @ ''/'' @ n"]
    by (simp add: path_parts_def)
qed

lemma st_root_DeleteFile [simp]: "st_root (snd (DeleteFile d n st)) = st_root st"
  by (simp add: DeleteFile_def split: option.splits node.splits list.splits)

lemma st_root_delete_path [simp]: "st_root (snd (delete_path env ph p st)) = st_root st"
  by (simp add: delete_path_def split: option.splits prod.splits)

lemma DeleteFile_other:
  assumes "(d, n) \<noteq> (d', n')"
  shows "Option.bind (map_of (st_dirs (snd (DeleteFile d n st))) d') (\<lambda>es. map_of es n')
    = Option.bind (map_of (st_dirs st) d') (\<lambda>es. map_of es n')"
  using assms
  by (auto simp: DeleteFile_def update_conv' delete_conv' bind_eq_Some_conv
      split: option.splits node.splits list.splits)

lemma delete_path_other:
  assumes "p \<noteq> q"
  shows "node_at q (snd (delete_path env ph p st)) = node_at q st"
proof (cases "path_parts (st_root st) p")
  case (Some a)
  obtain d n where a: "a = (d, n)" by force
  have "(d', n') \<noteq> (d, n)" if "path_parts (st_root st) q = Some (d', n')" for d' n'
    using that Some assms a by (auto simp: path_parts_Some)
  then show ?thesis
    using DeleteFile_other[of d n _ _ st]
    by (cases "path_parts (st_root st) q") (auto simp: node_at_def delete_path_def Some a)
qed (simp add: delete_path_def)

text \<open>
  A recording is kept when its row is there and locked, no other row has its id or its file, and the file is there.
\<close>

definition like_row :: "recording \<Rightarrow> recording \<Rightarrow> bool" where
  "like_row q r \<longleftrightarrow> r_id r = r_id q \<and> r_path r = r_path q \<and> r_camera r = r_camera q \<and> r_locked r"

definition rows_kept :: "recording \<Rightarrow> rec_table \<Rightarrow> bool" where
  "rows_kept q db \<longleftrightarrow> list_ex (like_row q) db
     \<and> list_all (\<lambda>r. r_id r = r_id q \<or> r_path r = r_path q \<longrightarrow> like_row q r) db"

definition kept :: "recording \<Rightarrow> storage \<times> rec_table \<Rightarrow> bool" where
  "kept q s \<longleftrightarrow> rows_kept q (snd s) \<and> node_at (r_path q) (fst s) \<noteq> None"

lemma rows_kept_filter:
  "rows_kept q db \<Longrightarrow> (\<And>r. r \<in> set db \<Longrightarrow> like_row q r \<Longrightarrow> p r) \<Longrightarrow> rows_kept q (filter p db)"
  by (auto simp: rows_kept_def list_ex_iff list_all_iff)

lemma rows_kept_update:
  assumes "rows_kept q db" and "\<And>r. r_id (f r) = r_id r \<and> r_path (f r) = r_path r \<and> r_camera (f r) = r_camera r \<and> r_locked (f r) = r_locked r"
  shows "rows_kept q (update_where p f db)"
proof -
  define g where "g r = (if p r then f r else r)" for r
  have same: "like_row q (g r) = like_row q r" "r_id (g r) = r_id r" "r_path (g r) = r_path r" for r
    using assms(2)[of r] by (auto simp: like_row_def g_def)
  have "update_where p f db = map g db" by (simp add: update_where_def g_def)
  then show ?thesis
    using assms(1) by (simp add: rows_kept_def list_ex_iff list_all_iff same)
qed

lemma rows_kept_other:
  "rows_kept q db \<Longrightarrow> r \<in> set db \<Longrightarrow> \<not> r_locked r \<Longrightarrow> r_id r \<noteq> r_id q \<and> r_path r \<noteq> r_path q"
  by (auto simp: rows_kept_def list_all_iff like_row_def)

lemma scanRow_same [simp]:
  "r_id (scanRecordingRow r) = r_id r" "r_path (scanRecordingRow r) = r_path r"
  "r_camera (scanRecordingRow r) = r_camera r" "r_locked (scanRecordingRow r) = r_locked r"
  "r_archived (scanRecordingRow r) = r_archived r" "r_ended (scanRecordingRow r) = r_ended r"
  by (simp_all add: scanRecordingRow_def)

lemma deleteRecording_kept:
  assumes "kept q (st, db)" and "r_id r \<noteq> r_id q" and "r_path r \<noteq> r_path q"
    and "deleteRecording env ph r st db = (e, st', db')"
  shows "kept q (st', db') \<and> st_root st' = st_root st"
proof -
  have "st' = snd (delete_path env ph (r_path r) st)" and db: "db' = db \<or> db' = DeleteRecording (r_id r) db"
    using assms(4) by (auto simp: deleteRecording_def Let_def split: prod.splits if_splits)
  moreover have "rows_kept q (DeleteRecording (r_id r) db)"
    unfolding DeleteRecording_def using assms(1,2) by (auto simp: kept_def like_row_def intro: rows_kept_filter)
  ultimately show ?thesis using assms(1,3) by (auto simp: kept_def delete_path_other)
qed

definition apart :: "recording \<Rightarrow> recording list \<Rightarrow> bool" where
  "apart q rs \<longleftrightarrow> list_all (\<lambda>r. r_id r \<noteq> r_id q \<and> r_path r \<noteq> r_path q) rs"

lemma apart_simps [simp]:
  "apart q []" "apart q (r # rs) \<longleftrightarrow> r_id r \<noteq> r_id q \<and> r_path r \<noteq> r_path q \<and> apart q rs"
  by (auto simp: apart_def)

lemma delete_each_kept:
  "kept q (st, db) \<Longrightarrow> apart q rs \<Longrightarrow> delete_each env ph rs st db = (es, st', db')
    \<Longrightarrow> kept q (st', db') \<and> st_root st' = st_root st"
proof (induction rs arbitrary: st db es)
  case (Cons r rs)
  obtain e st1 db1 where one: "deleteRecording env ph r st db = (e, st1, db1)" by (cases "deleteRecording env ph r st db") auto
  have "kept q (st1, db1) \<and> st_root st1 = st_root st"
    using deleteRecording_kept[OF Cons.prems(1) _ _ one] Cons.prems(2) by simp
  with Cons one show ?case by (auto split: prod.splits)
qed simp

lemma disk_batch_kept:
  "kept q (st, db) \<Longrightarrow> apart q rs \<Longrightarrow> disk_batch env n i rs failed st db = (x, y, failed', es, st', db')
    \<Longrightarrow> kept q (st', db') \<and> st_root st' = st_root st"
proof (induction rs arbitrary: i failed st db y es)
  case (Cons r rs)
  show ?case
  proof (cases "ce_stop env n (i + 1) \<or> r_id r \<in> failed")
    case True
    with Cons show ?thesis by (auto split: if_splits)
  next
    case False
    obtain e st1 db1 where one: "deleteRecording env DiskPhase r st db = (e, st1, db1)"
      by (cases "deleteRecording env DiskPhase r st db") auto
    have "kept q (st1, db1) \<and> st_root st1 = st_root st"
      using deleteRecording_kept[OF Cons.prems(1) _ _ one] Cons.prems(2) by simp
    with Cons False one show ?thesis by (auto split: prod.splits option.splits)
  qed
qed simp

lemma expired_apart:
  "rows_kept q db \<Longrightarrow> apart q (ListExpiredRecordingsByCamera cam now days db)"
  "rows_kept q db \<Longrightarrow> apart q (ListExpiredArchivedRecordingsByCamera cam now days db)"
  using rows_kept_other[of q db]
  by (auto simp: apart_def list_all_iff ListExpiredRecordingsByCamera_def ListExpiredArchivedRecordingsByCamera_def expired_def)

lemma oldest_apart: "rows_kept q db \<Longrightarrow> apart q (ListOldestRecordings limit db)"
  using rows_kept_other[of q db]
  by (auto simp: apart_def list_all_iff ListOldestRecordings_def dest!: in_set_takeD)

lemma retain_cameras_kept:
  "kept q (st, db) \<Longrightarrow> retain_cameras env cm cs st db = (es, st', db') \<Longrightarrow> kept q (st', db') \<and> st_root st' = st_root st"
proof (induction cs arbitrary: st db es)
  case (Cons c cs)
  let ?rs = "ListExpiredRecordingsByCamera (cr_id c) (ce_now env) (camera_days cm c) db"
  obtain es1 st1 db1 where one: "delete_each env Retention ?rs st db = (es1, st1, db1)"
    by (cases "delete_each env Retention ?rs st db") auto
  have "kept q (st1, db1) \<and> st_root st1 = st_root st"
    using delete_each_kept[OF Cons.prems(1) expired_apart(1) one] Cons.prems(1) by (simp add: kept_def)
  with Cons one show ?case by (auto simp: Let_def split: prod.splits if_splits)
qed simp

lemma timeBased_kept:
  "kept q (st, db) \<Longrightarrow> timeBasedCleanup env cm cams st db = (es, st', db') \<Longrightarrow> kept q (st', db') \<and> st_root st' = st_root st"
  by (auto simp: timeBasedCleanup_def retain_cameras_kept split: if_splits)

lemma disk_loop_kept:
  assumes "disk_loop env capacity threshold n limit failed es st db = Some out" and "kept q (st, db)"
  shows "kept q (snd out) \<and> st_root (fst (snd out)) = st_root st"
proof -
  have "kept q (st, db) \<longrightarrow> kept q (snd out) \<and> st_root (fst (snd out)) = st_root st"
    using assms(1)
  proof (induction rule: disk_loop.raw_induct[rotated, consumes 1, case_names step])
    case (step loop env capacity threshold n limit failed es st db out)
    let ?recs = "ListOldestRecordings limit db"
    obtain stopped deleted failed' new st1 db1 where batch:
      "disk_batch env n 0 ?recs failed st db = (stopped, deleted, failed', new, st1, db1)"
      by (cases "disk_batch env n 0 ?recs failed st db") auto
    show ?case
    proof
      assume k: "kept q (st, db)"
      have k1: "kept q (st1, db1)" "st_root st1 = st_root st"
        using disk_batch_kept[OF k oldest_apart batch] k by (simp_all add: kept_def)
      have again: "kept q (snd out) \<and> st_root (fst (snd out)) = st_root st"
        if "loop env capacity threshold (n + 1) limit' failed' (es @ new) st1 db1 = Some out" for limit'
        using step(1)[OF that] k1 by simp
      show "kept q (snd out) \<and> st_root (fst (snd out)) = st_root st"
        using step(2) k k1 unfolding batch Let_def prod.case
        by (simp add: batch split: if_splits option.splits prod.splits) (use again in fastforce)+
    qed
  qed
  with assms(2) show ?thesis by simp
qed

lemma diskThreshold_kept:
  "diskThresholdCleanup env cm st db = Some (es, st', db') \<Longrightarrow> kept q (st, db) \<Longrightarrow> kept q (st', db') \<and> st_root st' = st_root st"
  using disk_loop_kept[of env _ _ _ _ _ _ st db "(es, st', db')"]
  by (auto simp: diskThresholdCleanup_def split: option.splits if_splits)

section \<open>What the other phases leave\<close>

lemma disk_name_inj: "recordingDiskName i = recordingDiskName j \<longleftrightarrow> i = j"
  using disk_name_roundtrip[of i] disk_name_roundtrip[of j] by (metis prod.inject)

lemma hex_no_slash: "CHR ''/'' \<notin> set (hex_encode bs)"
proof -
  have "hex_digit n \<noteq> CHR ''/''" if "n < 16" for n
  proof
    assume "hex_digit n = CHR ''/''"
    then have "of_char (hex_digit n) = (47 :: nat)" by simp
    then show False using that by (simp add: hex_digit_def of_char_of split: if_splits)
  qed
  moreover have "unat b div 16 < 16" for b :: byte using unsigned_less[of b, where 'a=nat] by simp
  ultimately have "hex_digit (unat b div 16) \<noteq> CHR ''/'' \<and> hex_digit (unat b mod 16) \<noteq> CHR ''/''" for b :: byte
    by simp
  then show ?thesis unfolding hex_encode_def by (auto simp: eq_commute[of "CHR ''/''"])
qed

lemma disk_name_no_slash: "CHR ''/'' \<notin> set (recordingDiskName i)"
  using hex_no_slash by (auto simp: recordingDiskName_def list_all_iff portable_char_def Let_def)

text \<open>The file lies in the directory of its camera.\<close>

definition filed :: "string \<Rightarrow> recording \<Rightarrow> bool" where
  "filed rootDir q \<longleftrightarrow> path_parts rootDir (r_path q) = Some (recordingDiskName (r_camera q), path_base (r_path q))"

lemma filed_path:
  assumes "CHR ''/'' \<notin> set n" and "r_path q = CameraDirPath rootDir (r_camera q) @ ''/'' @ n"
  shows "filed rootDir q" and "path_base (r_path q) = n"
proof -
  have "path_dir (r_path q) @ path_base (r_path q) = (rootDir @ ''/'' @ recordingDiskName (r_camera q) @ ''/'') @ n"
    using path_split[of "r_path q"] assms(2) by (simp add: CameraDirPath_def)
  show base: "path_base (r_path q) = n"
    unfolding path_base_def assms(2) CameraDirPath_def
    using assms(1) by (simp add: takeWhile_append)
  show "filed rootDir q"
    using assms base disk_name_no_slash by (simp add: filed_def path_parts_Some CameraDirPath_def)
qed

lemma node_at_filed:
  "filed (st_root st) q \<Longrightarrow>
    node_at (r_path q) st = Option.bind (cam_entries st (r_camera q)) (\<lambda>es. map_of es (path_base (r_path q)))"
  by (simp add: node_at_def filed_def cam_entries_def)

lemma DeleteCameraDir_kept:
  assumes "kept q (st, db)" and "filed (st_root st) q" and "cam \<noteq> r_camera q"
  shows "kept q (DeleteCameraDir cam st, db)"
proof -
  have root: "st_root (DeleteCameraDir cam st) = st_root st" by (simp add: DeleteCameraDir_def)
  have "cam_entries (DeleteCameraDir cam st) (r_camera q) = cam_entries st (r_camera q)"
    using assms(3) by (simp add: cam_entries_def DeleteCameraDir_def delete_conv' disk_name_inj)
  then show ?thesis using assms(1,2) by (simp add: kept_def node_at_filed root)
qed

lemma count_kept: "kept q (st, db) \<Longrightarrow> CountRecordingsByCamera (r_camera q) db \<noteq> 0"
  by (auto simp: CountRecordingsByCamera_def kept_def rows_kept_def list_ex_iff like_row_def filter_empty_conv)

lemma archive_cameras_kept:
  "kept q (st, db) \<Longrightarrow> filed (st_root st) q \<Longrightarrow> archive_cameras env cs st db cams = (st', db', cams')
    \<Longrightarrow> kept q (st', db') \<and> st_root st' = st_root st"
proof (induction cs arbitrary: st db cams)
  case (Cons c cs)
  let ?rs = "ListExpiredArchivedRecordingsByCamera (cr_id c) (ce_now env) (cr_archive_days c) db"
  obtain es1 st1 db1 where one: "delete_each env ArchivePhase ?rs st db = (es1, st1, db1)"
    by (cases "delete_each env ArchivePhase ?rs st db") auto
  have k1: "kept q (st1, db1)" "st_root st1 = st_root st"
    using delete_each_kept[OF Cons.prems(1) expired_apart(2) one] Cons.prems(1) by (simp_all add: kept_def)
  have k2: "kept q (DeleteCameraDir (cr_id c) st1, db1)" if "CountRecordingsByCamera (cr_id c) db1 = 0"
    using that DeleteCameraDir_kept[OF k1(1), of "cr_id c"] Cons.prems(2) k1(2) count_kept[OF k1(1)]
    by (cases "cr_id c = r_camera q") auto
  have root: "st_root (DeleteCameraDir (cr_id c) st1) = st_root st" by (simp add: DeleteCameraDir_def k1)
  show ?case
    using Cons.prems(2,3) Cons.IH[OF Cons.prems(1,2)] Cons.IH[OF k1(1)] Cons.IH[OF k2] k1(2) root
    by (auto simp: one Let_def split: if_splits)
qed simp

lemma map_of_filter_kept: "(\<And>v. P (n, v)) \<Longrightarrow> map_of (filter P es) n = map_of es n"
  by (induction es) auto

lemma cleanOrphans_kept:
  assumes "kept q (st, db)" and "filed (st_root st) q"
  shows "kept q (snd (cleanOrphansForCamera env cam db st), db)" and "st_root (snd (cleanOrphansForCamera env cam db st)) = st_root st"
proof -
  show root: "st_root (snd (cleanOrphansForCamera env cam db st)) = st_root st"
    by (simp add: cleanOrphansForCamera_def set_entries_def Let_def split: option.splits)
  obtain r where "r \<in> set db" and "like_row q r" using assms(1) by (auto simp: kept_def rows_kept_def list_ex_iff)
  then have known: "path_base (r_path q) \<in> set (ListRecordingPathsByCamera (r_camera q) db)"
    by (auto simp: like_row_def ListRecordingPathsByCamera_def image_iff intro!: bexI[of _ r])
  have "Option.bind (cam_entries (snd (cleanOrphansForCamera env cam db st)) (r_camera q)) (\<lambda>es. map_of es (path_base (r_path q)))
      = Option.bind (cam_entries st (r_camera q)) (\<lambda>es. map_of es (path_base (r_path q)))"
  proof (cases "cam = r_camera q")
    case True
    have "\<not> removable env cam (ListRecordingPathsByCamera cam db) st (path_base (r_path q), v)" for v
      using known True by (cases v) (auto simp: removable_def is_orphan_def)
    then show ?thesis
      using True map_of_filter_kept[of "\<lambda>e. \<not> removable env cam (ListRecordingPathsByCamera cam db) st e" "path_base (r_path q)"]
      by (auto simp: cleanOrphansForCamera_def Let_def cam_entries_def set_entries_def update_conv' split: option.splits)
  next
    case False
    then show ?thesis
      by (auto simp: cleanOrphansForCamera_def Let_def cam_entries_def set_entries_def update_conv' disk_name_inj split: option.splits)
  qed
  then show "kept q (snd (cleanOrphansForCamera env cam db st), db)"
    using assms by (simp add: kept_def node_at_filed root)
qed


lemma orphan_cameras_kept:
  "kept q (st, db) \<Longrightarrow> filed (st_root st) q \<Longrightarrow>
    kept q (orphan_cameras env i cs db st, db) \<and> st_root (orphan_cameras env i cs db st) = st_root st"
  by (induction cs arbitrary: i st) (simp_all add: cleanOrphans_kept)

lemma orphanFile_kept:
  "kept q (st, db) \<Longrightarrow> filed (st_root st) q \<Longrightarrow> orphanFileCleanup env cams db (cm, st) = (cm', st')
    \<Longrightarrow> kept q (st', db)"
  by (auto simp: orphanFileCleanup_def Let_def orphan_cameras_kept split: if_splits)

lemma stale_kept: "rows_kept q db \<Longrightarrow> rows_kept q (staleRecordCleanup env cams st db)"
proof -
  have one: "rows_kept q (fixStaleMJPEGRecords env st cam db)" if "rows_kept q db" for cam db
    using that by (simp add: fixStaleMJPEGRecords_def Let_def SetMergeStatus_eq rows_kept_update)
  have "rows_kept q (fold (\<lambda>c. fixStaleMJPEGRecords env st (cr_id c)) cs db)" if "rows_kept q db" for cs :: "camera_row list" and db
    using that by (induction cs arbitrary: db) (simp_all add: one)
  then show "rows_kept q db \<Longrightarrow> rows_kept q (staleRecordCleanup env cams st db)" by (simp add: staleRecordCleanup_def)
qed

lemma repair_kept: "rows_kept q db \<Longrightarrow> repairZeroDurationRecordings env st (cm, db) = (cm', db') \<Longrightarrow> rows_kept q db'"
proof -
  have one: "rows_kept q (repair_one env st r db)" if "rows_kept q db" for r db
    using that by (simp add: repair_one_def Let_def UpdateRecordingDuration_def rows_kept_update)
  have "rows_kept q (fold (repair_one env st) rs db)" if "rows_kept q db" for rs db
    using that by (induction rs arbitrary: db) (simp_all add: one)
  then show "rows_kept q db \<Longrightarrow> repairZeroDurationRecordings env st (cm, db) = (cm', db') \<Longrightarrow> rows_kept q db'"
    by (auto simp: repairZeroDurationRecordings_def split: if_splits)
qed

lemma late_phases_kept:
  assumes "kept q (cw_store w, cw_db w)" and "filed (st_root (cw_store w)) q" and "late_phases env w = (es, w')"
  shows "kept q (cw_store w', cw_db w')"
proof -
  obtain ce w1 where c: "count_phase env (w\<lparr>cw_health := healthRetentionCleanup env (cw_mgr w) (cw_health w)\<rparr>) = (ce, w1)"
    by force
  have w1: "cw_store w1 = cw_store w" "cw_db w1 = cw_db w"
    using c by (auto simp: count_phase_def split: if_splits)
  obtain cm1 st where o: "orphanFileCleanup env (cw_cams w1) (cw_db w1) (cw_mgr w1, cw_store w1) = (cm1, st)" by force
  have k: "kept q (st, cw_db w)" using orphanFile_kept[OF _ _ o] assms(1,2) w1 by simp
  obtain cm2 db2 where r: "repairZeroDurationRecordings env st (cm1, staleRecordCleanup env (cw_cams w1) st (cw_db w1)) = (cm2, db2)"
    by force
  have "rows_kept q db2" using repair_kept[OF stale_kept r] k w1 by (simp add: kept_def)
  then show ?thesis using assms(3) k by (auto simp: late_phases_def c o r kept_def)
qed

text \<open>C34: 
  A locked recording keeps its row and its file through every pass, whatever fails: retention, archives, disk
  threshold and the search for files without a row leave both alone.
\<close>

theorem locked_recording_survives:
  assumes "RunOnce env w = Some (es, w')" and "kept q (cw_store w, cw_db w)" and "filed (st_root (cw_store w)) q"
  shows "kept q (cw_store w', cw_db w')"
proof -
  obtain es1 st1 db1 where t: "timeBasedCleanup env (cw_mgr w) (cw_cams w) (cw_store w) (cw_db w) = (es1, st1, db1)"
    by (cases "timeBasedCleanup env (cw_mgr w) (cw_cams w) (cw_store w) (cw_db w)") auto
  have k1: "kept q (st1, db1)" "st_root st1 = st_root (cw_store w)" using timeBased_kept[OF assms(2) t] by simp_all
  obtain st2 db2 cams where a: "archivedRetentionCleanup env st1 db1 (cw_cams w) = (st2, db2, cams)"
    by (cases "archivedRetentionCleanup env st1 db1 (cw_cams w)") auto
  have k2: "kept q (st2, db2)" "st_root st2 = st_root (cw_store w)"
    using a k1 archive_cameras_kept[OF k1(1)] assms(3) by (auto simp: archivedRetentionCleanup_def split: if_splits)
  obtain es2 st3 db3 where d: "diskThresholdCleanup env (cw_mgr w) st2 db2 = Some (es2, st3, db3)"
    using assms(1) by (auto simp: RunOnce_def t a bind_eq_Some_conv)
  have k3: "kept q (st3, db3)" "st_root st3 = st_root (cw_store w)" using diskThreshold_kept[OF d k2(1)] k2(2) by simp_all
  obtain es3 w3 where l: "late_phases env (w\<lparr>cw_store := st3, cw_db := db3, cw_cams := cams\<rparr>) = (es3, w3)" by force
  have "kept q (cw_store w3, cw_db w3)" using late_phases_kept[OF _ _ l] k3 assms(3) by simp
  moreover have "w' = w3" using assms(1) by (simp add: RunOnce_def t a d l)
  ultimately show ?thesis by simp
qed

section \<open>The disk phase returns\<close>

definition candidate :: "recording \<Rightarrow> bool" where
  "candidate r \<longleftrightarrow> is_closed r \<and> \<not> r_archived r \<and> \<not> r_locked r"

definition failed_in :: "cleanup_error list \<Rightarrow> string \<Rightarrow> bool" where
  "failed_in es i \<longleftrightarrow> UnlinkFailed i \<in> set es \<or> CallFailed (RowOf DiskPhase i) \<in> set es"

fun interrupts :: "cleanup_error \<Rightarrow> bool" where
  "interrupts (CallFailed (OldestOf n)) = True"
| "interrupts (CallFailed c) = False"
| "interrupts (UnlinkFailed i) = False"
| "interrupts e = True"

lemma failed_in_simps [simp]:
  "failed_in [] i = False" "failed_in (es @ es') i \<longleftrightarrow> failed_in es i \<or> failed_in es' i"
  "failed_in (UnlinkFailed j # es) i \<longleftrightarrow> i = j \<or> failed_in es i"
  "failed_in (CallFailed (RowOf DiskPhase j) # es) i \<longleftrightarrow> i = j \<or> failed_in es i"
  by (auto simp: failed_in_def)

lemma deleteRecording_table:
  assumes "deleteRecording env ph r st db = (e, st', db')"
  shows "db' = (if e = None then DeleteRecording (r_id r) db else db)"
    and "e = None \<or> e = Some (UnlinkFailed (r_id r)) \<or> e = Some (CallFailed (RowOf ph (r_id r)))"
  using assms by (auto simp: deleteRecording_def Let_def split: prod.splits if_splits)

lemma disk_batch_failed:
  "disk_batch env n i rs failed st db = (stopped, deleted, failed', new, st', db')
    \<Longrightarrow> failed \<subseteq> failed' \<and> (\<forall>j \<in> failed'. j \<in> failed \<or> failed_in new j)
      \<and> (stopped \<or> deleted \<or> db' = db \<and> (\<forall>r \<in> set rs. r_id r \<in> failed'))"
proof (induction rs arbitrary: i failed st db stopped deleted failed' new st' db')
  case (Cons r rs)
  obtain e st1 db1 where one: "deleteRecording env DiskPhase r st db = (e, st1, db1)"
    by (cases "deleteRecording env DiskPhase r st db") auto
  obtain s d f nw st2 db2 where more: "disk_batch env n (i + 1) rs (insert (r_id r) failed) st1 db1 = (s, d, f, nw, st2, db2)"
    by (cases "disk_batch env n (i + 1) rs (insert (r_id r) failed) st1 db1") auto
  obtain s' d' f' nw' st2' db2' where rest: "disk_batch env n (i + 1) rs failed st1 db1 = (s', d', f', nw', st2', db2')"
    by (cases "disk_batch env n (i + 1) rs failed st1 db1") auto
  note cases = deleteRecording_table[OF one]
  show ?case
  proof (cases "ce_stop env n (i + 1) \<or> r_id r \<in> failed")
    case True
    with Cons show ?thesis by (force split: if_splits)
  next
    case False
    show ?thesis
    proof (cases e)
      case None
      then show ?thesis
        using Cons.prems False one rest Cons.IH[OF rest] by auto
    next
      case (Some x)
      then show ?thesis
        using Cons.prems False one more Cons.IH[OF more] cases by auto
    qed
  qed
qed simp

lemma disk_batch_rows:
  "disk_batch env n i rs failed st db = (stopped, deleted, failed', new, st', db')
    \<Longrightarrow> \<forall>r \<in> set rs. \<forall>q \<in> set db. r_id q = r_id r \<longrightarrow> candidate q
    \<Longrightarrow> set db' \<subseteq> set db \<and> (\<forall>q \<in> set db. q \<in> set db' \<or> candidate q) \<and> (distinct (ids_of db) \<longrightarrow> distinct (ids_of db'))
      \<and> length db' \<le> length db \<and> (deleted \<and> r_id ` set rs \<subseteq> set (ids_of db) \<longrightarrow> length db' < length db)"
proof (induction rs arbitrary: i failed st db stopped deleted failed' new st' db')
  case (Cons r rs)
  obtain e st1 db1 where one: "deleteRecording env DiskPhase r st db = (e, st1, db1)"
    by (cases "deleteRecording env DiskPhase r st db") auto
  note table = deleteRecording_table(1)[OF one]
  obtain s d f nw st2 db2 where more: "disk_batch env n (i + 1) rs (insert (r_id r) failed) st1 db1 = (s, d, f, nw, st2, db2)"
    by (cases "disk_batch env n (i + 1) rs (insert (r_id r) failed) st1 db1") auto
  obtain s' d' f' nw' st2' db2' where rest: "disk_batch env n (i + 1) rs failed st1 db1 = (s', d', f', nw', st2', db2')"
    by (cases "disk_batch env n (i + 1) rs failed st1 db1") auto
  show ?case
  proof (cases "ce_stop env n (i + 1) \<or> r_id r \<in> failed")
    case True
    show ?thesis
    proof (cases "ce_stop env n (i + 1)")
      case True
      with Cons.prems show ?thesis by auto
    next
      case False
      with True Cons.prems(1) have b: "disk_batch env n (i + 1) rs failed st db = (stopped, deleted, failed', new, st', db')" by simp
      show ?thesis using Cons.IH[OF b] Cons.prems(2) by simp
    qed
  next
    case False
    show ?thesis
    proof (cases e)
      case None
      have out: "db' = db2'" using Cons.prems(1) False one rest None by simp
      have db1: "db1 = filter (\<lambda>q. r_id q \<noteq> r_id r) db" using table None by (simp add: DeleteRecording_def)
      have ih: "set db2' \<subseteq> set db1 \<and> (\<forall>q \<in> set db1. q \<in> set db2' \<or> candidate q)
          \<and> (distinct (ids_of db1) \<longrightarrow> distinct (ids_of db2')) \<and> length db2' \<le> length db1"
        using Cons.IH[OF rest] Cons.prems(2) db1 by auto
      have "length db1 \<le> length db" by (simp add: db1)
      moreover have "length db1 < length db" if "r_id r \<in> set (ids_of db)"
        using that unfolding db1 ids_of_def by (auto intro!: length_filter_less)
      moreover have "distinct (ids_of db) \<longrightarrow> distinct (ids_of db1)" by (simp add: db1 ids_of_filter)
      moreover have "set db1 \<subseteq> set db" "\<forall>q \<in> set db. q \<in> set db1 \<or> candidate q" using Cons.prems(2) by (auto simp: db1)
      ultimately show ?thesis unfolding out using ih by (meson le_less_trans order_trans subset_trans subsetD list.set_intros(1) image_subset_iff)
    next
      case (Some x)
      then have "db' = db2" "deleted = d" "db1 = db" using Cons.prems(1) False one more table by auto
      then show ?thesis using Cons.IH[OF more] Cons.prems(2) by simp
    qed
  qed
qed simp

lemma oldest_rows:
  assumes "r \<in> set (ListOldestRecordings limit db)"
  obtains q where "q \<in> set db" and "candidate q" and "r_id q = r_id r"
  using assms by (auto simp: ListOldestRecordings_def candidate_def dest!: in_set_takeD intro: that)

lemma oldest_unique:
  assumes "distinct (ids_of db)" and "r \<in> set (ListOldestRecordings limit db)" and "q \<in> set db" and "r_id q = r_id r"
  shows "candidate q"
proof -
  obtain p where "p \<in> set db" "candidate p" "r_id p = r_id r" using assms(2) by (rule oldest_rows)
  moreover have "inj_on r_id (set db)" using assms(1) by (simp add: ids_of_def distinct_map)
  ultimately show ?thesis using assms(3,4) by (metis inj_onD)
qed

lemma oldest_complete:
  assumes "length (ListOldestRecordings limit db) < limit" and "q \<in> set db" and "candidate q"
  shows "r_id q \<in> r_id ` set (ListOldestRecordings limit db)"
proof -
  let ?xs = "order_by (by_nat r_ended) (filter (\<lambda>q. is_closed q \<and> \<not> r_archived q \<and> \<not> r_locked q) db)"
  have "take limit ?xs = ?xs" using assms(1) by (simp add: ListOldestRecordings_def)
  moreover have "q \<in> set ?xs" using assms(2,3) by (simp add: candidate_def)
  ultimately show ?thesis by (force simp: ListOldestRecordings_def image_iff)
qed

text \<open>How the disk phase may end: interrupted, below the threshold, or with failures for all it could delete.\<close>

definition disk_done :: "cleanup_env \<Rightarrow> int \<Rightarrow> int \<Rightarrow> cleanup_error list \<Rightarrow> storage \<Rightarrow> rec_table \<Rightarrow> bool" where
  "disk_done env capacity threshold es st db \<longleftrightarrow>
     list_ex interrupts es
     \<or> (\<exists>m c used. ce_usage env m st = Some (c, used) \<and> percent used capacity \<le> threshold)
     \<or> list_all (\<lambda>q. candidate q \<longrightarrow> failed_in es (r_id q)) db"

definition only_candidates_gone :: "rec_table \<Rightarrow> rec_table \<Rightarrow> bool" where
  "only_candidates_gone db db' \<longleftrightarrow> set db' \<subseteq> set db \<and> list_all (\<lambda>q. q \<in> set db' \<or> candidate q) db"

lemma only_candidates_gone_trans:
  "only_candidates_gone a b \<Longrightarrow> only_candidates_gone b c \<Longrightarrow> only_candidates_gone a c"
  unfolding only_candidates_gone_def list_all_iff by blast

lemma interrupts_end [simp]:
  "list_ex interrupts (es @ [Cancelled])" "list_ex interrupts (es @ [UsageFailed])"
  "list_ex interrupts (es @ [CandidateLimit])" "list_ex interrupts (es @ [CallFailed (OldestOf n)])"
  by simp_all

lemma disk_loop_returns:
  assumes "0 < limit" and "\<forall>i \<in> failed. failed_in es i" and "distinct (ids_of db)"
  shows "\<exists>es' st' db'. disk_loop env capacity threshold n limit failed es st db = Some (es', st', db')
    \<and> only_candidates_gone db db' \<and> disk_done env capacity threshold es' st' db'"
  using assms
proof (induction "length db * (maxCleanupCandidates + 1) + (maxCleanupCandidates - limit)"
    arbitrary: n limit failed es st db rule: less_induct)
  case less
  let ?recs = "ListOldestRecordings limit db"
  obtain stopped deleted failed' new st1 db1 where batch:
    "disk_batch env n 0 ?recs failed st db = (stopped, deleted, failed', new, st1, db1)"
    by (cases "disk_batch env n 0 ?recs failed st db") auto
  note failed1 = disk_batch_failed[OF batch]
  have rows1: "only_candidates_gone db db1" "distinct (ids_of db1)" "length db1 \<le> length db" "deleted \<Longrightarrow> length db1 < length db"
  proof -
    have "r_id ` set ?recs \<subseteq> set (ids_of db)"
      by (auto simp: ids_of_def image_iff elim!: oldest_rows) (metis)
    with disk_batch_rows[OF batch] oldest_unique[OF less.prems(3)] less.prems(3)
    show "only_candidates_gone db db1" "distinct (ids_of db1)" "length db1 \<le> length db" "deleted \<Longrightarrow> length db1 < length db"
      unfolding only_candidates_gone_def list_all_iff by blast+
  qed
  have known: "\<forall>i \<in> failed'. failed_in (es @ new) i" using failed1 less.prems(2) by auto
  have again: "\<exists>es' st' db'. disk_loop env capacity threshold (n + 1) limit' failed' (es @ new) st1 db1 = Some (es', st', db')
      \<and> only_candidates_gone db db' \<and> disk_done env capacity threshold es' st' db'"
    if "length db1 * (maxCleanupCandidates + 1) + (maxCleanupCandidates - limit')
          < length db * (maxCleanupCandidates + 1) + (maxCleanupCandidates - limit)" and "0 < limit'" for limit'
    using less.hyps[OF that known rows1(2)] only_candidates_gone_trans[OF rows1(1)] by blast
  have same: "only_candidates_gone db db" by (simp add: only_candidates_gone_def list_all_iff)
  show ?case
  proof (cases "ce_stop env n 0 \<or> ce_fails env (OldestOf n) \<or> ?recs = []")
    case True
    have "disk_done env capacity threshold es st db" if "?recs = []"
      using oldest_complete[of limit db] that less.prems(1) by (auto simp: disk_done_def list_all_iff)
    with True show ?thesis
      by (subst disk_loop.simps) (auto simp: same disk_done_def)
  next
    case False
    then have step: "disk_loop env capacity threshold n limit failed es st db =
        (if stopped then Some (es @ new @ [Cancelled], st1, db1)
         else if \<not> deleted then
           (if length ?recs < limit then Some (es @ new, st1, db1)
            else if maxCleanupCandidates \<le> limit then Some (es @ new @ [CandidateLimit], st1, db1)
            else disk_loop env capacity threshold (n + 1) (min maxCleanupCandidates (limit + 50)) failed' (es @ new) st1 db1)
         else (case ce_usage env (n + 1) st1 of
             None \<Rightarrow> Some (es @ new @ [UsageFailed], st1, db1)
           | Some (_, used) \<Rightarrow>
               if percent used capacity \<le> threshold then Some (es @ new, st1, db1)
               else disk_loop env capacity threshold (n + 1) limit failed' (es @ new) st1 db1))"
      by (subst disk_loop.simps) (simp add: batch Let_def)
    have stopped: "disk_done env capacity threshold (es @ new @ [x]) st1 db1" if "interrupts x" for x
      using that by (simp add: disk_done_def)
    consider "stopped" | "\<not> stopped" "\<not> deleted" "length ?recs < limit"
      | "\<not> stopped" "\<not> deleted" "\<not> length ?recs < limit" "maxCleanupCandidates \<le> limit"
      | "\<not> stopped" "\<not> deleted" "\<not> length ?recs < limit" "limit < maxCleanupCandidates"
      | "\<not> stopped" "deleted" by fastforce
    then show ?thesis
    proof cases
      case 2
      have "disk_done env capacity threshold (es @ new) st1 db1"
        using failed1 2 known oldest_complete[OF 2(3)] by (fastforce simp: disk_done_def list_all_iff)
      with 2 rows1(1) show ?thesis by (simp add: step)
    next
      case 4
      have "maxCleanupCandidates - min maxCleanupCandidates (limit + 50) < maxCleanupCandidates - limit"
        using 4(4) by simp
      moreover have "length db1 * (maxCleanupCandidates + 1) \<le> length db * (maxCleanupCandidates + 1)"
        using rows1(3) by (rule mult_le_mono1)
      ultimately show ?thesis
        using again[of "min maxCleanupCandidates (limit + 50)"] 4 less.prems(1)
        by (simp add: step maxCleanupCandidates_def)
    next
      case 5
      have "Suc (length db1) * (maxCleanupCandidates + 1) \<le> length db * (maxCleanupCandidates + 1)"
        using rows1(4) 5 by (intro mult_le_mono1) simp
      then have "length db1 * (maxCleanupCandidates + 1) + (maxCleanupCandidates - limit)
          < length db * (maxCleanupCandidates + 1) + (maxCleanupCandidates - limit)" by simp
      from again[OF this less.prems(1)] 5 rows1(1) stopped[of UsageFailed] show ?thesis
        by (auto simp: step disk_done_def split: option.splits)
    qed (use rows1(1) stopped in \<open>simp_all add: step\<close>)
  qed
qed


section \<open>Retention is exact\<close>

lemma delete_each_clean:
  "delete_each env ph rs st db = ([], st', db') \<Longrightarrow> db' = filter (\<lambda>q. r_id q \<notin> r_id ` set rs) db"
proof (induction rs arbitrary: st db)
  case (Cons r rs)
  obtain e st1 db1 where one: "deleteRecording env ph r st db = (e, st1, db1)" by (cases "deleteRecording env ph r st db") auto
  from Cons.prems one have "e = None" and rest: "delete_each env ph rs st1 db1 = ([], st', db')"
    by (auto split: prod.splits option.splits)
  then show ?case
    using Cons.IH[OF rest] deleteRecording_table(1)[OF one] by (auto simp: DeleteRecording_def intro: filter_cong)
qed simp

text \<open>What a camera's own retention, or the general one, lets go of.\<close>

definition overdue :: "cleanup_env \<Rightarrow> cleanup_manager \<Rightarrow> camera_row \<Rightarrow> recording \<Rightarrow> bool" where
  "overdue env cm c q \<longleftrightarrow>
     0 < camera_days cm c \<and> r_camera q = cr_id c \<and> expired False (ce_now env) (camera_days cm c) q"

lemma id_in_listed:
  assumes "distinct (map r_id db)" and "q \<in> set db"
  shows "r_id q \<in> r_id ` set (filter p db) \<longleftrightarrow> p q"
  using assms by (auto simp: distinct_map dest: inj_onD)

lemma ids_of_expired:
  "r_id ` set (ListExpiredRecordingsByCamera cam now days db)
    = r_id ` set (filter (\<lambda>q. expired False now days q \<and> r_camera q = cam) db)"
  by (simp add: ListExpiredRecordingsByCamera_def image_image del: set_filter)

lemma retain_cameras_exact:
  "retain_cameras env cm cs st db = ([], st', db') \<Longrightarrow> distinct (ids_of db)
    \<Longrightarrow> db' = filter (\<lambda>q. \<not> list_ex (\<lambda>c. overdue env cm c q) cs) db"
proof (induction cs arbitrary: st db)
  case (Cons c cs)
  show ?case
  proof (cases "camera_days cm c \<le> 0")
    case True
    with Cons show ?thesis by (simp add: overdue_def)
  next
    case False
    let ?rs = "ListExpiredRecordingsByCamera (cr_id c) (ce_now env) (camera_days cm c) db"
    obtain es1 st1 db1 where one: "delete_each env Retention ?rs st db = (es1, st1, db1)"
      by (cases "delete_each env Retention ?rs st db") auto
    from Cons.prems(1) False one have "es1 = []" and rest: "retain_cameras env cm cs st1 db1 = ([], st', db')"
      by (auto simp: Let_def split: if_splits prod.splits)
    with delete_each_clean[of env Retention ?rs st db st1 db1] one
    have "db1 = filter (\<lambda>q. r_id q \<notin> r_id ` set ?rs) db" by simp
    also have "\<dots> = filter (\<lambda>q. \<not> overdue env cm c q) db"
      using id_in_listed[of db] Cons.prems(2) False
      unfolding ids_of_expired by (intro filter_cong refl) (auto simp: overdue_def ids_of_def)
    finally have db1: "db1 = filter (\<lambda>q. \<not> overdue env cm c q) db" .
    show ?thesis using Cons.IH[OF rest] Cons.prems(2) by (simp add: db1 ids_of_filter)
  qed
qed simp


lemma stream_recordings_stay:
  assumes "timeBasedCleanup env cm cams st db = ([], st', db')" and "distinct (ids_of db)"
    and "q \<in> set db" and "r_camera q \<notin> set (map cr_id cams)"
  shows "q \<in> set db'"
  using retain_cameras_exact[of env cm "ListCameras cams" st db st' db'] assms
  by (auto simp: timeBasedCleanup_def list_ex_iff overdue_def ListCameras_def split: if_splits)

section \<open>Every file without a row is found\<close>

lemma text_less_trans: "text_less a b \<Longrightarrow> text_less b c \<Longrightarrow> text_less a c"
proof (induction a b arbitrary: c rule: text_less.induct)
  case (2 y ys)
  then show ?case by (cases c) auto
next
  case (3 x xs y ys)
  then show ?case by (cases c) auto
qed simp

lemma text_less_linear: "text_less a b \<or> a = b \<or> text_less b a"
proof (induction a b rule: text_less.induct)
  case (3 x xs y ys)
  have "x = y" if "of_char x = (of_char y :: nat)" using that by simp
  with 3 show ?case by fastforce
next
  case (1 xs)
  then show ?case by (cases xs) auto
qed simp

lemma text_less_asym: "text_less a b \<Longrightarrow> \<not> text_less b a"
  using text_less_trans[of a b a] by auto

definition ascending :: "string list \<Rightarrow> bool" where
  "ascending ids \<longleftrightarrow> sorted_wrt text_less ids"

lemma text_le_trans: "text_le a b \<Longrightarrow> text_le b c \<Longrightarrow> text_le a c"
  unfolding text_le_def using text_less_linear text_less_trans by blast

lemma order_by_ascending:
  assumes "distinct (map cr_id cs)"
  shows "ascending (map cr_id (order_by by_id cs))"
proof -
  let ?xs = "order_by by_id cs"
  have sorted: "sorted_wrt by_id ?xs"
  proof (rule sorted_order_by)
    show "by_id x y \<or> by_id y x" for x y
      using text_less_asym by (auto simp: by_id_def text_le_def)
    show "by_id x y \<Longrightarrow> by_id y z \<Longrightarrow> by_id x z" for x y z
      unfolding by_id_def by (rule text_le_trans)
  qed
  have "distinct (map cr_id ?xs)"
    using assms by (metis mset_map mset_order_by mset_eq_imp_distinct_iff)
  then have "text_less (cr_id (?xs ! i)) (cr_id (?xs ! j))" if "i < j" "j < length ?xs" for i j
    using that sorted text_less_linear[of "cr_id (?xs ! i)" "cr_id (?xs ! j)"]
    by (auto simp: sorted_wrt_iff_nth_less distinct_conv_nth by_id_def text_le_def)
  then show ?thesis by (simp add: ascending_def sorted_wrt_iff_nth_less)
qed

text \<open>Where a window starts.\<close>

definition window_start :: "string \<Rightarrow> string list \<Rightarrow> nat" where
  "window_start lastId ids =
     (let p = length (takeWhile (\<lambda>i. \<not> text_less lastId i) ids) in if length ids \<le> p then 0 else p)"

lemma orphan_window_eq:
  "orphan_window lastId ids
    = map (\<lambda>i. ids ! ((window_start lastId ids + i) mod length ids)) [0..<min (length ids) orphanCameraBudgetPerPass]"
  by (simp add: orphan_window_def window_start_def Let_def)

lemma window_start_nth:
  assumes "ascending ids" and "i < length ids"
  shows "window_start (ids ! i) ids = (i + 1) mod length ids"
proof -
  have le: "\<not> text_less (ids ! i) (ids ! j)" if "j \<le> i" for j
    using assms that text_less_asym
    by (cases "j = i") (auto simp: ascending_def sorted_wrt_iff_nth_less)
  have gt: "text_less (ids ! i) (ids ! j)" if "i < j" "j < length ids" for j
    using assms that by (simp add: ascending_def sorted_wrt_iff_nth_less)
  have "takeWhile (\<lambda>x. \<not> text_less (ids ! i) x) ids = take (i + 1) ids"
    by (rule takeWhile_eq_take_P_nth) (use assms(2) le gt in auto)
  then have "length (takeWhile (\<lambda>x. \<not> text_less (ids ! i) x) ids) = i + 1" using assms(2) by simp
  then have "window_start (ids ! i) ids = (if length ids \<le> i + 1 then 0 else i + 1)"
    unfolding window_start_def Let_def by (rule arg_cong)
  then show ?thesis using assms(2) by (cases "length ids = i + 1") auto
qed

text \<open>The cameras that a series of passes looks at.\<close>

fun scanned :: "nat \<Rightarrow> string \<Rightarrow> string list \<Rightarrow> string list" where
  "scanned 0 lastId ids = []"
| "scanned (Suc k) lastId ids = (let w = orphan_window lastId ids in w @ scanned k (last w) ids)"

lemma scanned_positions:
  assumes "ascending ids" and "ids \<noteq> []"
  shows "j < k * min (length ids) orphanCameraBudgetPerPass
    \<Longrightarrow> ids ! ((window_start lastId ids + j) mod length ids) \<in> set (scanned k lastId ids)"
proof (induction k arbitrary: lastId j)
  case (Suc k)
  let ?m = "min (length ids) orphanCameraBudgetPerPass" and ?n = "length ids" and ?w = "orphan_window lastId ids"
  have m: "0 < ?m" "?m \<le> ?n" using assms(2) by (simp_all add: orphanCameraBudgetPerPass_def)
  show ?case
  proof (cases "j < ?m")
    case True
    then show ?thesis by (auto simp: orphan_window_eq Let_def)
  next
    case False
    obtain u where u: "?m = Suc u" using m(1) gr0_implies_Suc by blast
    have "last ?w = ids ! ((window_start lastId ids + u) mod ?n)"
      unfolding orphan_window_eq u by (simp add: last_map)
    then have "window_start (last ?w) ids = ((window_start lastId ids + u) mod ?n + 1) mod ?n"
      using window_start_nth[OF assms(1), of "(window_start lastId ids + u) mod ?n"] assms(2) by simp
    also have "\<dots> = (window_start lastId ids + ?m) mod ?n" unfolding u by (simp add: mod_simps)
    finally have "window_start (last ?w) ids = (window_start lastId ids + ?m) mod ?n" .
    moreover have "?m + (j - ?m) = j" using False by (intro le_add_diff_inverse) (rule leI)
    ultimately have "(window_start (last ?w) ids + (j - ?m)) mod ?n = (window_start lastId ids + j) mod ?n"
      by (metis mod_add_left_eq add.assoc)
    moreover have "j - ?m < k * ?m" using Suc.prems False less_diff_conv2[of ?m j "k * ?m"] by (metis add.commute leI mult_Suc)
    ultimately have "ids ! ((window_start lastId ids + j) mod ?n) \<in> set (scanned k (last ?w) ids)"
      using Suc.IH[of "j - ?m" "last ?w"] by simp
    then show ?thesis by (simp add: Let_def)
  qed
qed simp

lemma scanned_all:
  assumes "ascending ids" and "length ids \<le> k * orphanCameraBudgetPerPass"
  shows "set ids \<subseteq> set (scanned k lastId ids)"
proof
  fix c assume "c \<in> set ids"
  then obtain i where i: "i < length ids" "c = ids ! i" by (metis in_set_conv_nth)
  let ?n = "length ids" and ?s = "window_start lastId ids"
  have "?s < ?n" using i(1) by (auto simp: window_start_def Let_def)
  define j where "j = (if ?s \<le> i then i - ?s else i + ?n - ?s)"
  have "(?s + j) mod ?n = i" and "j < ?n" using i(1) \<open>?s < ?n\<close> by (auto simp: j_def)
  moreover have "?n \<le> k * min ?n orphanCameraBudgetPerPass"
  proof (cases "?n \<le> orphanCameraBudgetPerPass")
    case True
    have "k \<noteq> 0" using assms(2) i(1) by (cases k) auto
    with True show ?thesis by simp
  qed (use assms(2) in simp)
  ultimately have "j < k * min ?n orphanCameraBudgetPerPass" by simp
  moreover have "ids \<noteq> []" using i(1) by auto
  ultimately have "ids ! ((?s + j) mod ?n) \<in> set (scanned k lastId ids)" using scanned_positions[OF assms(1)] by blast
  then show "c \<in> set (scanned k lastId ids)"
    using i \<open>(?s + j) mod ?n = i\<close> by auto
qed

text \<open>A pass in which nothing fails in this phase, at \<open>t\<close> or later.\<close>

definition smooth :: "nat \<Rightarrow> cleanup_env \<Rightarrow> bool" where
  "smooth t env \<longleftrightarrow> t \<le> ce_now env \<and> \<not> ce_fails env (CamerasOf OrphanPhase) \<and> (\<forall>c. \<not> ce_fails env (PathsOf c))
     \<and> (\<forall>p. \<not> ce_unlink_fails env OrphanPhase p) \<and> (\<forall>i. \<not> ce_orphan_stop env i)"

definition entries_of :: "storage \<Rightarrow> string \<Rightarrow> cam_dir" where
  "entries_of st cam = (case cam_entries st cam of None \<Rightarrow> [] | Some es \<Rightarrow> es)"

definition orphan_free :: "nat \<Rightarrow> rec_table \<Rightarrow> string \<Rightarrow> storage \<Rightarrow> bool" where
  "orphan_free t db cam st \<longleftrightarrow>
     list_all (\<lambda>e. \<not> is_orphan t cam (ListRecordingPathsByCamera cam db) e) (entries_of st cam)"

lemma entries_cleaned:
  assumes "smooth t env"
  shows "entries_of (snd (cleanOrphansForCamera env c db st)) cam
    = (if cam = c then filter (\<lambda>e. \<not> is_orphan (ce_now env) c (ListRecordingPathsByCamera c db) e) (entries_of st c)
       else entries_of st cam)"
  using assms
  by (auto simp: smooth_def cleanOrphansForCamera_def removable_def Let_def entries_of_def cam_entries_def set_entries_def
      update_conv' disk_name_inj split: option.splits)

lemma is_orphan_later: "is_orphan t cam known e \<Longrightarrow> t \<le> t' \<Longrightarrow> is_orphan t' cam known e"
  by (auto simp: is_orphan_def split: prod.splits node.splits)

lemma orphan_free_one:
  assumes "smooth t env"
  shows "orphan_free t db cam st \<or> cam = c \<Longrightarrow> orphan_free t db cam (snd (cleanOrphansForCamera env c db st))"
  using assms is_orphan_later[of t cam _ _ "ce_now env"]
  by (auto simp: orphan_free_def entries_cleaned[OF assms] list_all_iff smooth_def)

lemma orphan_free_cameras:
  "smooth t env \<Longrightarrow> orphan_free t db cam st \<or> cam \<in> set cs \<Longrightarrow> orphan_free t db cam (orphan_cameras env i cs db st)"
proof (induction cs arbitrary: i st)
  case (Cons c cs)
  then show ?case using orphan_free_one[of t env db cam st c] by (auto simp: smooth_def)
qed simp

lemma orphan_passes:
  assumes "list_all (smooth t) envs" and "ids = map cr_id (order_by by_id (ListCameras cams))" and "ids \<noteq> []"
    and "orphan_free t db cam st \<or> cam \<in> set (scanned (length envs) (cm_last cm) ids)"
  shows "orphan_free t db cam (snd (fold (\<lambda>env. orphanFileCleanup env cams db) envs (cm, st)))"
  using assms(1,4)
proof (induction envs arbitrary: cm st)
  case (Cons env envs)
  let ?w = "orphan_window (cm_last cm) ids"
  have pass: "orphanFileCleanup env cams db (cm, st) = (cm\<lparr>cm_last := last ?w\<rparr>, orphan_cameras env 0 ?w db st)"
  proof -
    have "ListCameras cams \<noteq> []" using assms(2,3) by (auto simp: order_by_def)
    then show ?thesis using Cons.prems(1) by (simp add: orphanFileCleanup_def smooth_def Let_def assms(2))
  qed
  have "orphan_free t db cam (orphan_cameras env 0 ?w db st) \<or> cam \<in> set (scanned (length envs) (last ?w) ids)"
    using Cons.prems orphan_free_cameras[of t env db cam st ?w 0] by (auto simp: Let_def)
  then show ?case
    using Cons.IH[where cm = "cm\<lparr>cm_last := last ?w\<rparr>"] Cons.prems(1) by (simp add: pass)
qed simp


section \<open>A pass returns\<close>

lemma delete_each_distinct:
  "distinct (ids_of db) \<Longrightarrow> delete_each env ph rs st db = (es, st', db') \<Longrightarrow> distinct (ids_of db')"
proof (induction rs arbitrary: st db es)
  case (Cons r rs)
  obtain e st1 db1 where one: "deleteRecording env ph r st db = (e, st1, db1)" by (cases "deleteRecording env ph r st db") auto
  have "distinct (ids_of db1)"
    using deleteRecording_table(1)[OF one] Cons.prems(1) by (simp add: DeleteRecording_def ids_of_filter)
  with Cons one show ?case by (auto split: prod.splits)
qed simp

lemma retain_cameras_distinct:
  "distinct (ids_of db) \<Longrightarrow> retain_cameras env cm cs st db = (es, st', db') \<Longrightarrow> distinct (ids_of db')"
proof (induction cs arbitrary: st db es)
  case (Cons c cs)
  then show ?case
    by (auto simp: Let_def split: prod.splits if_splits dest: delete_each_distinct[OF Cons.prems(1)])
qed simp

lemma archive_cameras_distinct:
  "distinct (ids_of db) \<Longrightarrow> archive_cameras env cs st db cams = (st', db', cams') \<Longrightarrow> distinct (ids_of db')"
proof (induction cs arbitrary: st db cams)
  case (Cons c cs)
  then show ?case
    by (auto simp: Let_def split: prod.splits if_splits dest: delete_each_distinct[OF Cons.prems(1)])
qed simp

lemma pass_returns:
  assumes "distinct (ids_of (cw_db w))"
  shows "\<exists>es w'. RunOnce env w = Some (es, w')"
proof -
  obtain es1 st1 db1 where t: "timeBasedCleanup env (cw_mgr w) (cw_cams w) (cw_store w) (cw_db w) = (es1, st1, db1)"
    by (cases "timeBasedCleanup env (cw_mgr w) (cw_cams w) (cw_store w) (cw_db w)") auto
  obtain st2 db2 cams where a: "archivedRetentionCleanup env st1 db1 (cw_cams w) = (st2, db2, cams)"
    by (cases "archivedRetentionCleanup env st1 db1 (cw_cams w)") auto
  have "distinct (ids_of db1)"
    using t assms by (auto simp: timeBasedCleanup_def split: if_splits dest: retain_cameras_distinct)
  then have "distinct (ids_of db2)"
    using a by (auto simp: archivedRetentionCleanup_def split: if_splits dest: archive_cameras_distinct)
  then have "\<exists>out. diskThresholdCleanup env (cw_mgr w) st2 db2 = Some out"
    using disk_loop_returns[of 50 "{}" "[]" db2]
    by (fastforce simp: diskThresholdCleanup_def split: option.splits prod.splits)
  then show ?thesis by (auto simp: RunOnce_def t a split: prod.splits)
qed

section \<open>Demonstrations\<close>

definition demo_rec :: "string \<Rightarrow> bool \<Rightarrow> recording" where
  "demo_rec i locked =
     \<lparr>r_id = i, r_camera = ''a'', r_stream = ''a'', r_path = ''/d/a/'' @ i, r_format = ''h264'', r_started = 1, r_ended = 2,
      r_duration = 1, r_size = 1, r_frames = 0, r_merged = False, r_status = ''pending'', r_archived = False,
      r_reconnected = 0, r_gap = '''', r_locked = locked\<rparr>"

definition demo_store :: storage where
  "demo_store = \<lparr>st_root = ''/d'', st_dirs = [(''a'', [(''1'', RegFile [1] 0), (''2'', RegFile [2] 0), (''a_x.mp4'', RegFile [3] 0)])]\<rparr>"

definition demo_env :: cleanup_env where
  "demo_env = \<lparr>ce_now = 10 * day_ns, ce_fails = (\<lambda>_. False), ce_unlink_fails = (\<lambda>_ _. False),
     ce_usage = (\<lambda>_ _. Some (100, 99)), ce_stop = (\<lambda>_ _. False), ce_orphan_stop = (\<lambda>_. False),
     ce_probe_there = False, ce_probe = (\<lambda>_. 0)\<rparr>"

definition demo_manager :: cleanup_manager where
  "demo_manager = \<lparr>cm_retention = 0, cm_threshold = 90, cm_interval = 1, cm_metrics = True, cm_health_on = False,
     cm_health_retention = 0, cm_ffprobe = '''', cm_last = ''''\<rparr>"

definition demo_cams :: camera_table where
  "demo_cams = [\<lparr>cr_id = ''a'', cr_retention = 1, cr_archived = False, cr_archive_days = 0\<rparr>]"

definition demo_world :: cleanup_world where
  "demo_world = \<lparr>cw_mgr = demo_manager, cw_store = demo_store, cw_db = [demo_rec ''1'' True, demo_rec ''2'' False],
     cw_cams = demo_cams, cw_health = [], cw_gauge = 0\<rparr>"

lemma disk_a [simp]: "recordingDiskName ''a'' = ''a''"
  by (simp add: recordingDiskName_def has_prefix_def portable_char_def to_lower_def lower_char_def device_names_def)

lemma demo_path: "path_parts ''/d'' ''/d/a/1'' = Some (''a'', ''1'')" "path_base ''/d/a/1'' = ''1''"
  by (simp_all add: path_parts_def has_prefix_def path_base_def)

lemma demo_filed: "filed (st_root (cw_store demo_world)) (demo_rec ''1'' True)"
  by (simp add: filed_def demo_world_def demo_store_def demo_rec_def demo_path)

theorem locked_recording_witness:
  "\<exists>es w'. RunOnce demo_env demo_world = Some (es, w') \<and> kept (demo_rec ''1'' True) (cw_store w', cw_db w')"
proof -
  have "distinct (ids_of (cw_db demo_world))" by (simp add: demo_world_def ids_of_def demo_rec_def)
  then obtain es w' where pass: "RunOnce demo_env demo_world = Some (es, w')" using pass_returns by blast
  have "kept (demo_rec ''1'' True) (cw_store demo_world, cw_db demo_world)"
    by (simp add: kept_def rows_kept_def like_row_def node_at_def demo_world_def demo_store_def demo_rec_def demo_path)
  from locked_recording_survives[OF pass this demo_filed] pass show ?thesis by blast
qed


lemma demo_overdue:
  "timeBasedCleanup demo_env demo_manager demo_cams demo_store [demo_rec ''1'' True, demo_rec ''2'' False]
    = ([], demo_store\<lparr>st_dirs := [(''a'', [(''1'', RegFile [1] 0), (''a_x.mp4'', RegFile [3] 0)])]\<rparr>, [demo_rec ''1'' True])"
proof -
  have listed: "ListExpiredRecordingsByCamera ''a'' (10 * day_ns) 1 [demo_rec ''1'' True, demo_rec ''2'' False] = [demo_rec ''2'' False]"
    by (simp add: ListExpiredRecordingsByCamera_def expired_def is_closed_def retention_cutoff_def demo_rec_def
        scanRecordingRow_def order_by_def day_ns_def)
  have path: "path_parts ''/d'' ''/d/a/2'' = Some (''a'', ''2'')"
    by (simp add: path_parts_def has_prefix_def)
  have gone: "deleteRecording demo_env Retention (demo_rec ''2'' False) demo_store [demo_rec ''1'' True, demo_rec ''2'' False]
      = (None, demo_store\<lparr>st_dirs := [(''a'', [(''1'', RegFile [1] 0), (''a_x.mp4'', RegFile [3] 0)])]\<rparr>, [demo_rec ''1'' True])"
    by (simp add: deleteRecording_def delete_path_def DeleteFile_def DeleteRecording_def demo_store_def demo_rec_def demo_env_def path)
  have "retain_cameras demo_env demo_manager demo_cams demo_store [demo_rec ''1'' True, demo_rec ''2'' False]
      = ([], demo_store\<lparr>st_dirs := [(''a'', [(''1'', RegFile [1] 0), (''a_x.mp4'', RegFile [3] 0)])]\<rparr>, [demo_rec ''1'' True])"
    using listed gone by (simp add: demo_cams_def camera_days_def Let_def) (simp add: demo_env_def)
  moreover have "ListCameras demo_cams = demo_cams" by (simp add: ListCameras_def demo_cams_def order_by_def)
  ultimately show ?thesis by (simp add: timeBasedCleanup_def) (simp add: demo_env_def)
qed



text \<open>A recording of JPEG frames is a directory that is not empty: no phase can delete it.\<close>

lemma mjpeg_recording_stays:
  assumes "node_at (r_path r) st = Some (FrameDir (f # fs) t)"
  shows "deleteRecording env ph r st db = (Some (UnlinkFailed (r_id r)), st, db)"
proof -
  obtain d n es where "path_parts (st_root st) (r_path r) = Some (d, n)" and "map_of (st_dirs st) d = Some es"
    and "map_of es n = Some (FrameDir (f # fs) t)"
    using assms by (auto simp: node_at_def bind_eq_Some_conv)
  then show ?thesis by (simp add: deleteRecording_def delete_path_def mjpeg_segment_stays)
qed

end
