(* ===== verification/Merge_Windows.thy ===== *)
theory Merge_Windows
  imports Recordings Go_Duration
begin

text \<open>
  The settings of the merge (\<open>config/config.go\<close>) and its time windows: \<open>mergeWindowUTC\<close> of
  \<open>merge/manager.go\<close>, which rounds in Go, and the buckets of the merge queries, which round in SQL.
\<close>

section \<open>Settings\<close>

record merge_config =
  mg_enabled :: bool
  mg_check :: string
  mg_window :: string
  mg_batch :: int
  mg_age :: string
  mg_min :: int
  mg_rolling :: "bool option"
  mg_debounce :: string

definition IsRollingEnabled :: "merge_config \<Rightarrow> bool" where
  "IsRollingEnabled c \<longleftrightarrow> mg_enabled c \<and> mg_rolling c \<noteq> Some False"

definition RollingDebounceDuration :: "merge_config \<Rightarrow> int" where
  "RollingDebounceDuration c =
     (case ParseDuration (trim_space (mg_debounce c)) of
        None \<Rightarrow> 5000000000
      | Some d \<Rightarrow> if d \<le> 0 then 5000000000 else d)"

definition WindowSizeDuration :: "merge_config \<Rightarrow> int" where
  "WindowSizeDuration c =
     (case ParseDuration (trim_space (mg_window c)) of
        None \<Rightarrow> 3600000000000
      | Some d \<Rightarrow> if d \<le> 0 then 3600000000000 else if d < 60000000000 then 60000000000 else d)"

definition ResolveMergeConfig :: "merge_config \<Rightarrow> merge_config option \<Rightarrow> merge_config" where
  "ResolveMergeConfig global perCamera =
     (case perCamera of
        None \<Rightarrow> global
      | Some c \<Rightarrow>
          \<lparr>mg_enabled = (mg_enabled c \<or> mg_enabled global),
           mg_check = (if mg_check c \<noteq> [] then mg_check c else mg_check global),
           mg_window = (if mg_window c \<noteq> [] then mg_window c else mg_window global),
           mg_batch = (if mg_batch c > 0 then mg_batch c else mg_batch global),
           mg_age = (if mg_age c \<noteq> [] then mg_age c else mg_age global),
           mg_min = (if mg_min c > 0 then mg_min c else mg_min global),
           mg_rolling = (if mg_rolling c \<noteq> None then mg_rolling c else mg_rolling global),
           mg_debounce = (if mg_debounce c \<noteq> [] then mg_debounce c else mg_debounce global)\<rparr>)"

text \<open>An override cannot switch the merge of a camera off.\<close>

lemma override_never_disables: "mg_enabled global \<Longrightarrow> mg_enabled (ResolveMergeConfig global perCamera)"
  by (simp add: ResolveMergeConfig_def split: option.splits)

lemma window_bounds: "60000000000 \<le> WindowSizeDuration c \<and> WindowSizeDuration c < 2 ^ 63"
  by (auto simp: WindowSizeDuration_def split: option.splits dest!: ParseDuration_range)

lemma debounce_positive: "0 < RollingDebounceDuration c"
  by (simp add: RollingDebounceDuration_def split: option.splits)

section \<open>Windows\<close>

text \<open>\<open>Truncate\<close> rounds down to a multiple of the window since year 1, where the clock starts here too.\<close>

definition mergeWindowUTC :: "nat \<Rightarrow> int \<Rightarrow> nat \<times> nat" where
  "mergeWindowUTC t window =
     (let w = nat (if window \<le> 0 then 3600000000000 else window); start = t - t mod w in (start, start + w))"

definition hourWindowUTC :: "nat \<Rightarrow> nat \<times> nat" where
  "hourWindowUTC t = mergeWindowUTC t 3600000000000"

lemma in_window:
  assumes "mergeWindowUTC t window = (a, b)"
  shows "a \<le> t" and "t < b"
proof -
  define w where "w = nat (if window \<le> 0 then 3600000000000 else window)"
  have "0 < w" by (simp add: w_def)
  then have "t mod w < w" by simp
  have ab: "a = t - t mod w" "b = a + w" using assms by (auto simp: mergeWindowUTC_def Let_def w_def)
  show "a \<le> t" by (simp add: ab(1))
  have "t mod w \<le> t" by simp
  with \<open>t mod w < w\<close> show "t < b" unfolding ab by linarith
qed

text \<open>The start of a window in seconds since 1970.\<close>

lemma window_start:
  assumes "0 < k"
  shows "unix_seconds (fst (mergeWindowUTC t (k * 1000000000))) = int (t div 1000000000) div k * k - 62135596800"
proof -
  let ?w = "k * 1000000000"
  have "fst (mergeWindowUTC t ?w) = t div nat ?w * nat ?w"
    using assms by (simp add: mergeWindowUTC_def Let_def minus_mod_eq_div_mult)
  then have start: "int (fst (mergeWindowUTC t ?w)) = int t div ?w * ?w" using assms by (simp add: zdiv_int)
  have "int t div ?w = int (t div 1000000000) div k"
    using assms by (simp add: zdiv_int mult.commute[of k] zdiv_zmult2_eq)
  then have "int (fst (mergeWindowUTC t ?w)) = int (t div 1000000000) div k * k * 1000000000"
    using start by (simp add: mult.assoc)
  then show ?thesis by (simp add: unix_seconds_def zdiv_int)
qed

text \<open>C39: 
  For a window of whole seconds, at least a minute, that divides the day, both ways of rounding agree for every
  time since 1970: the rolling merge and the scheduled merge put a segment into the same window.
\<close>

theorem windows_agree:
  assumes "window mod 1000000000 = 0" and "60000000000 \<le> window" and "86400000000000 mod window = 0"
    and "62135596800000000000 \<le> t"
  shows "unix_seconds (fst (mergeWindowUTC t window)) = epoch_bucket (mergeWindowSeconds window) t"
proof -
  define k where "k = window div 1000000000"
  have window: "window = k * 1000000000" using assms(1) by (simp add: k_def dvd_div_mult_self mod_0_imp_dvd)
  have k: "60 \<le> k" using assms(2) window by simp
  obtain d where d: "86400 = k * d"
  proof -
    have "window dvd 86400000000000" using assms(3) by (simp add: mod_0_imp_dvd)
    then obtain d where "86400000000000 = window * d" by (elim dvdE)
    then have "86400 = k * d" by (simp add: window mult.commute)
    then show ?thesis by (rule that)
  qed
  have "k * (d * 719162) = (k * d) * 719162" by (rule mult.assoc[symmetric])
  also have "\<dots> = 62135596800" unfolding d[symmetric] by simp
  finally have epoch: "62135596800 = k * (d * 719162)" by (rule sym)
  define s where "s = int (t div 1000000000)"
  have s: "62135596800 \<le> s" using assms(4) by (simp add: s_def zdiv_int)
  have left: "unix_seconds (fst (mergeWindowUTC t window)) = s div k * k - 62135596800"
    unfolding window s_def by (rule window_start) (use k in simp)
  have secs: "mergeWindowSeconds window = k"
    using k window by (simp add: mergeWindowSeconds_def signed_divide_int_def)
  have "epoch_bucket (mergeWindowSeconds window) t = (s - 62135596800) sdiv k * k"
    unfolding secs epoch_bucket_def unix_seconds_def s_def ..
  also have "(s - 62135596800) sdiv k = (s - 62135596800) div k"
    using s k by (cases "s = 62135596800") (simp_all add: signed_divide_int_def)
  also have "\<dots> = s div k - d * 719162"
    unfolding epoch using k div_mult_self2[of k s "- (d * 719162)"] by simp
  also have "\<dots> * k = s div k * k - k * (d * 719162)" by (simp add: left_diff_distrib)
  finally show ?thesis unfolding left epoch by (rule sym)
qed

theorem windows_agree_witness:
  "unix_seconds (fst (mergeWindowUTC 63900000000000000000 3600000000000))
    = epoch_bucket (mergeWindowSeconds 3600000000000) 63900000000000000000"
  by (rule windows_agree) simp_all

text \<open>With windows of seven hours they do not: at the beginning of 1970 the buckets of the database start a new one.\<close>

lemma windows_differ:
  "unix_seconds (fst (mergeWindowUTC 62135596800000000000 25200000000000)) \<noteq>
     epoch_bucket (mergeWindowSeconds 25200000000000) 62135596800000000000"
  by (simp add: mergeWindowUTC_def unix_seconds_def epoch_bucket_def mergeWindowSeconds_def signed_divide_int_def)

end
