(* ===== verification/Merge_Manager.thy ===== *)
theory Merge_Manager
  imports Merge_Journal Merge_Windows Storage_Files
begin

text \<open>
  The merge manager (\<open>merge/manager.go\<close>, \<open>mjpegmerge.go\<close>): the scheduled pass over cameras, windows and
  formats, the rolling merge of one window, and the merge of directories of JPEG frames.  MP4 files and frame
  directories are maps from paths; the names and ids drawn for new recordings, the order in which Go visits a map
  and the calls that fail are an argument, a \<open>merge_env\<close>.
\<close>

section \<open>State and surroundings\<close>

record merge_state =
  mm_files :: files
  mm_frames :: "string \<Rightarrow> (string \<times> byte list) list option"
  mm_db :: rec_table
  mm_budget :: disk_budget
  mm_drawn :: nat

text \<open>
  \<open>mv_fresh n\<close> is the temporary and the final path of the n-th segment created, \<open>mv_id n\<close> the id of its row.
\<close>

record merge_env =
  mv_boxes :: "byte list \<Rightarrow> pbox list"
  mv_marshal :: "mbox \<Rightarrow> byte list"
  mv_now :: nat
  mv_zone :: int
  mv_usage :: "(int \<times> int) option"
  mv_fresh :: "nat \<Rightarrow> string \<times> string"
  mv_id :: "nat \<Rightarrow> string"
  mv_order :: "string list \<Rightarrow> string list"
  mv_create_fails :: "nat \<Rightarrow> bool"
  mv_close_fails :: "nat \<Rightarrow> bool"
  mv_replace_fails :: "nat \<Rightarrow> bool"
  mv_move_fails :: "string \<Rightarrow> string \<Rightarrow> bool"
  mv_unlink_fails :: "string \<Rightarrow> bool"
  mv_status_fails :: bool
  mv_windows_fail :: bool
  mv_list_fails :: "nat \<Rightarrow> bool"
  mv_bucket :: "string \<Rightarrow> bucket_faults"
  mv_stop :: "nat \<Rightarrow> bool"

definition loadDiskBudget :: "merge_env \<Rightarrow> disk_budget" where
  "loadDiskBudget env =
     (case mv_usage env of
        None \<Rightarrow> \<lparr>bg_free = 0, bg_ok = False\<rparr>
      | Some (capacity, used) \<Rightarrow> \<lparr>bg_free = capacity - used, bg_ok = True\<rparr>)"

text \<open>A map from keys to groups, with the keys in the order they first come.\<close>

fun group_by :: "('a \<Rightarrow> string) \<Rightarrow> 'a list \<Rightarrow> (string \<times> 'a list) list" where
  "group_by key [] = []"
| "group_by key (x # xs) =
     (key x, x # filter (\<lambda>y. key y = key x) xs) # filter (\<lambda>g. fst g \<noteq> key x) (group_by key xs)"

definition groupByFormat :: "recording list \<Rightarrow> (string \<times> recording list) list" where
  "groupByFormat recs = group_by r_format recs"

definition filterByFormat :: "recording list \<Rightarrow> string \<Rightarrow> recording list" where
  "filterByFormat recs fmt = filter (\<lambda>q. r_format q = fmt) recs"

text \<open>The groups in the order Go visits them.\<close>

definition visited :: "merge_env \<Rightarrow> (string \<times> 'a list) list \<Rightarrow> (string \<times> 'a list) list" where
  "visited env gs = List.map_filter (\<lambda>k. map_option (Pair k) (map_of gs k)) (mv_order env (map fst gs))"

definition mergeGroupKey :: "segmentInfo \<Rightarrow> string" where
  "mergeGroupKey i =
     si_codec i @ [CHR 0x00] @ string_of_bytes (si_sps i) @ [CHR 0x00] @ string_of_bytes (si_pps i) @ [CHR 0x00]
     @ string_of_bytes (si_vps i) @ [CHR 0x00] @ dec_string (unat (si_timescale i)) @ [CHR 0x00]
     @ (if si_has_audio i
        then ''a'' @ string_of_bytes (si_aconf i) @ [CHR 0x00] @ dec_string (unat (si_atimescale i)) else ''n'')"

section \<open>Writing one merged file\<close>

text \<open>
  \<open>None\<close> is a panic.  The groups are recordings with what the parser read of them, in the order of their starts.
\<close>

definition merged_row ::
    "merge_env \<Rightarrow> nat \<Rightarrow> string \<Rightarrow> string \<Rightarrow> string \<Rightarrow> recording list \<Rightarrow> segmentInfo list \<Rightarrow> int \<Rightarrow> recording" where
  "merged_row env n cam fmt final recs infos bytes =
     \<lparr>r_id = mv_id env n, r_camera = cam, r_stream = [], r_path = final, r_format = fmt,
      r_started = r_started (hd recs), r_ended = r_ended (last recs),
      r_duration = sum_list (map (\<lambda>i. seconds (si_duration i)) infos), r_size = bytes,
      r_frames = sum_list (map si_count infos), r_merged = True, r_status = [], r_archived = False,
      r_reconnected = 0, r_gap = [], r_locked = False\<rparr>"

definition delete_sources :: "merge_env \<Rightarrow> recording list \<Rightarrow> files \<Rightarrow> files" where
  "delete_sources env recs fs = fold (\<lambda>q fs. if mv_unlink_fails env (r_path q) then fs else fs(r_path q := None)) recs fs"

definition replace_rows :: "merge_env \<Rightarrow> nat \<Rightarrow> recording \<Rightarrow> recording list \<Rightarrow> rec_table \<Rightarrow> (db_error, rec_table) res" where
  "replace_rows env n row recs db =
     (if mv_replace_fails env n then Err StoreFailed else MergeAndReplaceRecordings row (map r_id recs) db)"

definition mp4_format :: "string \<Rightarrow> bool" where
  "mp4_format fmt \<longleftrightarrow> to_lower fmt \<in> {''h264'', ''h265'', ''aac'', ''g711'', ''opus''}"

definition writeMergedGroup ::
    "merge_env \<Rightarrow> string \<Rightarrow> string \<Rightarrow> (recording \<times> segmentInfo) list \<Rightarrow> merge_state \<Rightarrow> (bool \<times> int) option \<times> merge_state" where
  "writeMergedGroup env cam fmt grp s =
     (let recs = map fst grp; infos = map snd grp; bytes = sum_list (map r_size recs);
          (room, b) = reserve (bytes * 11 sdiv 10) (mm_budget s); s1 = s\<lparr>mm_budget := b\<rparr>; n = mm_drawn s
      in if grp = [] then (Some (False, 0), s)
         else if \<not> room \<or> mv_create_fails env n \<or> \<not> mp4_format fmt then (Some (False, 0), s1)
         else
           (let (tmp, final) = mv_fresh env n;
                s2 = s1\<lparr>mm_files := (mm_files s1)(tmp \<mapsto> []), mm_drawn := n + 1\<rparr>;
                drop = s2\<lparr>mm_files := (mm_files s2)(tmp := None)\<rparr>
            in case MergeMP4Segments (mv_marshal env) (mm_files s2) infos of
                 Panic \<Rightarrow> (None, s2)
               | Err e \<Rightarrow> (Some (False, 0), drop)
               | Ok out \<Rightarrow>
                   if out = [] \<or> mv_close_fails env n then (Some (False, 0), drop)
                   else
                     (let s3 = drop\<lparr>mm_files := (mm_files drop)(final \<mapsto> out)\<rparr>
                      in case replace_rows env n (merged_row env n cam fmt final recs infos (int (length out))) recs (mm_db s) of
                           Ok db \<Rightarrow> (Some (True, bytes), s3\<lparr>mm_db := db, mm_files := delete_sources env recs (mm_files s3)\<rparr>)
                         | _ \<Rightarrow> (Some (False, 0), s3\<lparr>mm_files := (mm_files s3)(final := None)\<rparr>))))"

section \<open>Directories of frames\<close>

text \<open>
  The directories hold files only.  Moving the files of one, in the order of their names; a file of the same name is
  overwritten.
\<close>

fun move_frames ::
    "merge_env \<Rightarrow> string \<Rightarrow> (string \<times> byte list) list \<Rightarrow> (string \<times> byte list) list
       \<Rightarrow> bool \<times> (string \<times> byte list) list \<times> (string \<times> byte list) list" where
  "move_frames env dir [] target = (True, [], target)"
| "move_frames env dir ((n, b) # es) target =
     (if mv_move_fails env dir n then (False, (n, b) # es, target)
      else move_frames env dir es (AList.update n b target))"

fun move_segments ::
    "merge_env \<Rightarrow> string \<Rightarrow> recording list \<Rightarrow> (string \<Rightarrow> (string \<times> byte list) list option)
       \<Rightarrow> bool \<times> (string \<Rightarrow> (string \<times> byte list) list option)" where
  "move_segments env tmp [] fr = (True, fr)"
| "move_segments env tmp (q # qs) fr =
     (case fr (r_path q) of
        None \<Rightarrow> (False, fr)
      | Some es \<Rightarrow>
          (case move_frames env (r_path q) (order_by (\<lambda>a b. text_le (fst a) (fst b)) es) (the (fr tmp)) of
             (False, rest, target) \<Rightarrow> (False, fr(r_path q \<mapsto> rest, tmp \<mapsto> target))
           | (True, _, target) \<Rightarrow> move_segments env tmp qs (fr(r_path q := None, tmp \<mapsto> target))))"

definition earliest :: "recording list \<Rightarrow> nat" where
  "earliest recs = fold (\<lambda>q t. if r_started q < t \<or> t = 0 then r_started q else t) recs 0"

definition frames_row :: "merge_env \<Rightarrow> nat \<Rightarrow> string \<Rightarrow> string \<Rightarrow> recording list \<Rightarrow> (string \<times> byte list) list \<Rightarrow> recording" where
  "frames_row env n cam final recs target =
     \<lparr>r_id = mv_id env n, r_camera = cam, r_stream = [], r_path = final, r_format = ''mjpeg'',
      r_started = earliest recs, r_ended = fold max (map r_ended recs) 0,
      r_duration = sum_list (map r_duration recs), r_size = int (sum_list (map (length \<circ> snd) target)),
      r_frames = sum_list (map r_frames recs), r_merged = False, r_status = [], r_archived = False,
      r_reconnected = 0, r_gap = [], r_locked = False\<rparr>"

text \<open>After an error what was moved stays in the temporary directory.\<close>

definition MergeMJPEGSegments ::
    "merge_env \<Rightarrow> string \<Rightarrow> recording list \<Rightarrow> merge_state \<Rightarrow> recording option \<times> merge_state" where
  "MergeMJPEGSegments env cam recs s =
     (let n = mm_drawn s; (tmp, final) = mv_fresh env n in
      if recs = [] \<or> mv_create_fails env n then (None, s)
      else
        (let s1 = s\<lparr>mm_frames := (mm_frames s)(tmp \<mapsto> []), mm_drawn := n + 1\<rparr>;
             (moved, fr) = move_segments env tmp recs (mm_frames s1); s2 = s1\<lparr>mm_frames := fr\<rparr>
         in if \<not> moved \<or> mv_close_fails env n then (None, s2)
            else (Some (frames_row env n cam final recs (the (fr tmp))),
                  s2\<lparr>mm_frames := fr(tmp := None, final := fr tmp)\<rparr>)))"

definition mergeMJPEGGroup ::
    "merge_env \<Rightarrow> string \<Rightarrow> recording list \<Rightarrow> int \<Rightarrow> merge_state \<Rightarrow> (nat \<times> nat \<times> int) \<times> merge_state" where
  "mergeMJPEGGroup env cam recs minSegments s =
     (let bytes = sum_list (map r_size recs); (room, b) = reserve (bytes * 11 sdiv 10) (mm_budget s);
          s1 = s\<lparr>mm_budget := b\<rparr>; n = mm_drawn s
      in if int (length recs) < minSegments then ((0, 0, 0), s)
         else if \<not> room then ((0, 0, 0), s1)
         else case MergeMJPEGSegments env cam recs s1 of
             (None, s2) \<Rightarrow> ((0, 0, 0), s2)
           | (Some row, s2) \<Rightarrow>
               (case replace_rows env n (row\<lparr>r_merged := True\<rparr>) recs (mm_db s2) of
                  Ok db \<Rightarrow> ((1, length recs, bytes), s2\<lparr>mm_db := db\<rparr>)
                | _ \<Rightarrow> ((0, 0, 0), s2\<lparr>mm_frames := (mm_frames s2)(r_path row := None)\<rparr>)))"

section \<open>The scheduled pass\<close>

text \<open>\<open>None\<close>: the parser panics; \<open>Some None\<close>: the file is missing or cannot be read.\<close>

definition parse_file :: "merge_env \<Rightarrow> bool \<Rightarrow> string \<Rightarrow> files \<Rightarrow> segmentInfo option option" where
  "parse_file env full p fs =
     (case fs p of
        None \<Rightarrow> Some None
      | Some f \<Rightarrow>
          (case (if full then ParseSegment p f (mv_boxes env f) else ParseSegmentTables p f (mv_boxes env f)) of
             Ok i \<Rightarrow> Some (Some i)
           | Err e \<Rightarrow> Some None
           | Panic \<Rightarrow> None))"

fun parse_recs ::
    "merge_env \<Rightarrow> bool \<Rightarrow> recording list \<Rightarrow> files \<Rightarrow> ((recording \<times> segmentInfo) list \<times> string list) option" where
  "parse_recs env full [] fs = Some ([], [])"
| "parse_recs env full (q # qs) fs =
     (case parse_file env full (r_path q) fs of
        None \<Rightarrow> None
      | Some r \<Rightarrow>
          map_option (\<lambda>(good, bad). case r of None \<Rightarrow> (good, r_id q # bad) | Some i \<Rightarrow> ((q, i) # good, bad))
            (parse_recs env full qs fs))"

definition group_key :: "recording \<times> segmentInfo \<Rightarrow> string" where
  "group_key p = mergeGroupKey (snd p)"

fun merge_groups ::
    "merge_env \<Rightarrow> string \<Rightarrow> string \<Rightarrow> int \<Rightarrow> (recording \<times> segmentInfo) list list \<Rightarrow> merge_state
       \<Rightarrow> (nat \<times> nat \<times> int) \<Rightarrow> (nat \<times> nat \<times> int) option \<times> merge_state" where
  "merge_groups env cam fmt least [] s acc = (Some acc, s)"
| "merge_groups env cam fmt least (g # gs) s acc =
     (if int (length g) < least then merge_groups env cam fmt least gs s acc
      else case writeMergedGroup env cam fmt g s of
          (None, s') \<Rightarrow> (None, s')
        | (Some (done, old), s') \<Rightarrow>
            merge_groups env cam fmt least gs s'
              (if done then (fst acc + 1, fst (snd acc) + length g, snd (snd acc) + old) else acc))"

definition mark :: "merge_env \<Rightarrow> string list \<Rightarrow> string \<Rightarrow> merge_state \<Rightarrow> merge_state" where
  "mark env ids status s =
     (if ids = [] \<or> mv_status_fails env then s else s\<lparr>mm_db := SetMergeStatus ids status (mm_db s)\<rparr>)"

definition mergeFormatGroup ::
    "merge_env \<Rightarrow> string \<Rightarrow> string \<Rightarrow> recording list \<Rightarrow> merge_config \<Rightarrow> merge_state
       \<Rightarrow> (nat \<times> nat \<times> int) option \<times> merge_state" where
  "mergeFormatGroup env cam fmt recs cfg s =
     (if fmt = ''mjpeg'' then (let (out, s') = mergeMJPEGGroup env cam recs (mg_min cfg) s in (Some out, s'))
      else case parse_recs env True recs (mm_files s) of
          None \<Rightarrow> (None, s)
        | Some (good, bad) \<Rightarrow>
            merge_groups env cam fmt (mg_min cfg)
              (map snd (visited env (group_by group_key (filter (\<lambda>p. si_codec (snd p) = fmt) good))))
              (mark env bad ''failed'' s) (0, 0, 0))"

definition add3 :: "nat \<times> nat \<times> int \<Rightarrow> nat \<times> nat \<times> int \<Rightarrow> nat \<times> nat \<times> int" where
  "add3 x y = (fst x + fst y, fst (snd x) + fst (snd y), snd (snd x) + snd (snd y))"

text \<open>A limit above 0 is counted down; the loop over formats ends when it reaches 0, or was 0.\<close>

fun merge_formats ::
    "merge_env \<Rightarrow> string \<Rightarrow> merge_config \<Rightarrow> (string \<times> recording list) list \<Rightarrow> int \<Rightarrow> merge_state
       \<Rightarrow> (nat \<times> nat \<times> int) \<Rightarrow> ((nat \<times> nat \<times> int) \<times> int) option \<times> merge_state" where
  "merge_formats env cam cfg [] limit s acc = (Some (acc, limit), s)"
| "merge_formats env cam cfg ((fmt, recs) # gs) limit s acc =
     (let rs = (if 0 < limit \<and> limit < int (length recs) then take (nat limit) recs else recs)
      in case mergeFormatGroup env cam fmt rs cfg s of
           (None, s') \<Rightarrow> (None, s')
         | (Some out, s') \<Rightarrow>
             (let limit' = (if 0 < limit then limit - int (fst (snd out)) else limit)
              in if limit' = 0 then (Some (add3 acc out, limit'), s')
                 else merge_formats env cam cfg gs limit' s' (add3 acc out)))"

fun merge_windows ::
    "merge_env \<Rightarrow> string \<Rightarrow> merge_config \<Rightarrow> nat \<Rightarrow> merge_window list \<Rightarrow> int \<Rightarrow> merge_state
       \<Rightarrow> (nat \<times> nat \<times> int) \<Rightarrow> (nat \<times> nat \<times> int) option \<times> merge_state" where
  "merge_windows env cam cfg i [] limit s acc = (Some acc, s)"
| "merge_windows env cam cfg i (w # ws) limit s acc =
     (if mv_stop env i then (Some acc, s)
      else if int (mw_count w) < mg_min cfg \<or> mv_list_fails env i
              \<or> int (length (ListMergeableSegments cam (mw_start w) (mw_end w) (mm_db s))) < mg_min cfg
           then merge_windows env cam cfg (i + 1) ws limit s acc
      else case merge_formats env cam cfg
             (visited env (groupByFormat (ListMergeableSegments cam (mw_start w) (mw_end w) (mm_db s)))) limit s acc of
          (None, s') \<Rightarrow> (None, s')
        | (Some (acc', limit'), s') \<Rightarrow> merge_windows env cam cfg (i + 1) ws limit' s' acc')"

datatype pass_result = Panicked | WindowsFailed | Passed "nat \<times> nat \<times> int"

definition mark_singletons :: "merge_env \<Rightarrow> string \<Rightarrow> int \<Rightarrow> merge_config \<Rightarrow> merge_state \<Rightarrow> merge_state" where
  "mark_singletons env cam minAge cfg s =
     mark env (map r_id (ListSingletonPendingRecordings cam (mv_zone env) (mv_now env) minAge (WindowSizeDuration cfg) (mm_db s)))
       ''merged'' s"

definition processCamera ::
    "merge_env \<Rightarrow> string \<Rightarrow> int \<Rightarrow> merge_config \<Rightarrow> merge_state \<Rightarrow> pass_result \<times> merge_state" where
  "processCamera env cam minAge cfg s0 =
     (let s = s0\<lparr>mm_budget := loadDiskBudget env\<rparr>
      in if mv_windows_fail env then (WindowsFailed, s)
         else case merge_windows env cam cfg 0
                (ListCameraMergeWindows cam (mv_zone env) (mv_now env) minAge (WindowSizeDuration cfg) (mm_db s))
                (mg_batch cfg) s (0, 0, 0) of
             (None, s') \<Rightarrow> (Panicked, s')
           | (Some out, s') \<Rightarrow> (Passed out, mark_singletons env cam minAge cfg s'))"

text \<open>The cameras of the configuration are pairs of id and whether they are enabled.\<close>

definition mergeCandidateIDs :: "(string \<times> bool) list \<Rightarrow> rec_table \<Rightarrow> string list" where
  "mergeCandidateIDs cams db = filter (\<lambda>i. (i, False) \<notin> set cams) (ListPendingMergeCameraIDs db)"

definition minimum_age :: "merge_config \<Rightarrow> int" where
  "minimum_age cfg = (case ParseDuration (mg_age cfg) of None \<Rightarrow> 600000000000 | Some d \<Rightarrow> d)"

record merge_status =
  mr_last :: nat
  mr_segments :: nat
  mr_files :: nat
  mr_errors :: nat

text \<open>The pass over the cameras: merged files, segments, errors and the segments counted against the limit.\<close>

fun merge_cameras ::
    "merge_env \<Rightarrow> (nat \<Rightarrow> bool) \<Rightarrow> merge_config \<Rightarrow> (string \<Rightarrow> merge_config option) \<Rightarrow> nat \<Rightarrow> string list \<Rightarrow> merge_state
       \<Rightarrow> nat \<times> nat \<times> nat \<Rightarrow> (nat \<times> nat \<times> nat) option \<times> merge_state" where
  "merge_cameras env stop cfg override i [] s acc = (Some acc, s)"
| "merge_cameras env stop cfg override i (c # cs) s acc =
     (let eff = ResolveMergeConfig cfg (override c); (files, segs, errs) = acc
      in if stop i then (Some acc, s)
         else if \<not> mg_enabled eff then merge_cameras env stop cfg override (i + 1) cs s acc
         else case processCamera env c (minimum_age cfg) eff s of
             (Panicked, s') \<Rightarrow> (None, s')
           | (WindowsFailed, s') \<Rightarrow> merge_cameras env stop cfg override (i + 1) cs s' (files, segs, errs + 1)
           | (Passed (m, k, f), s') \<Rightarrow>
               if int (segs + k) \<ge> mg_batch eff then (Some (files + m, segs + k, errs), s')
               else merge_cameras env stop cfg override (i + 1) cs s' (files + m, segs + k, errs))"

definition MergeManager_RunOnce ::
    "merge_env \<Rightarrow> (nat \<Rightarrow> bool) \<Rightarrow> bool \<Rightarrow> merge_config \<Rightarrow> (string \<Rightarrow> merge_config option) \<Rightarrow> (string \<times> bool) list
       \<Rightarrow> merge_state \<Rightarrow> merge_status option \<times> merge_state" where
  "MergeManager_RunOnce env stop list_fails cfg override cams s =
     (let ids = (if list_fails then map fst (filter snd cams) else mergeCandidateIDs cams (mm_db s))
      in case merge_cameras env stop cfg override 0 ids s (0, 0, 0) of
           (None, s') \<Rightarrow> (None, s')
         | (Some (files, segs, errs), s') \<Rightarrow>
             (Some \<lparr>mr_last = mv_now env, mr_segments = segs, mr_files = files, mr_errors = errs\<rparr>, s'))"

definition MergeCamera ::
    "merge_env \<Rightarrow> merge_config \<Rightarrow> merge_config option \<Rightarrow> string \<Rightarrow> merge_state \<Rightarrow> pass_result option \<times> merge_state" where
  "MergeCamera env cfg override cam s =
     (if \<not> mg_enabled (ResolveMergeConfig cfg override) then (None, s)
      else (let (out, s') = processCamera env cam (minimum_age cfg) (ResolveMergeConfig cfg override) s in (Some out, s')))"

definition PendingCounts ::
    "merge_env \<Rightarrow> merge_config \<Rightarrow> (string \<Rightarrow> merge_config option) \<Rightarrow> (string \<times> bool) list \<Rightarrow> rec_table \<Rightarrow> (string \<times> nat) list" where
  "PendingCounts env cfg override cams db =
     filter (\<lambda>e. snd e \<noteq> 0)
       (map (\<lambda>i. (i, sum_list (map mw_count
            (ListCameraMergeWindows i (mv_zone env) (mv_now env) (minimum_age cfg)
               (WindowSizeDuration (ResolveMergeConfig cfg (override i))) db))))
         (filter (\<lambda>i. mg_enabled (ResolveMergeConfig cfg (override i))) (mergeCandidateIDs cams db)))"

section \<open>The rolling merge\<close>

text \<open>Failures to reconcile are only logged.\<close>

fun reconcile_all :: "recording list \<Rightarrow> rec_table \<Rightarrow> files \<Rightarrow> files option" where
  "reconcile_all [] db fs = Some fs"
| "reconcile_all (q # qs) db fs =
     (case reconcileMergeJournal db (r_path q) fs of
        (Panic, fs') \<Rightarrow> None
      | (_, fs') \<Rightarrow> reconcile_all qs db fs')"

text \<open>The last bucket of a key, in the order of the starts, takes the pending segments of that key.\<close>

definition bucket_for :: "(recording \<times> segmentInfo) list \<Rightarrow> string \<Rightarrow> (recording \<times> segmentInfo) option" where
  "bucket_for buckets key = find (\<lambda>p. group_key p = key) (rev buckets)"

definition append_group ::
    "merge_env \<Rightarrow> string \<Rightarrow> string \<Rightarrow> (recording \<times> segmentInfo) list \<Rightarrow> string \<times> (recording \<times> segmentInfo) list
       \<Rightarrow> merge_state \<Rightarrow> unit option \<times> merge_state" where
  "append_group env cam fmt buckets g s =
     (let write = (\<lambda>members s1. case writeMergedGroup env cam fmt members s1 of (out, s2) \<Rightarrow> (map_option (\<lambda>_. ()) out, s2))
      in case bucket_for buckets (fst g) of
           None \<Rightarrow> if length (snd g) < 2 then (Some (), s) else write (snd g) s
         | Some b \<Rightarrow>
             (case appendOntoBucket (mv_boxes env) (mv_marshal env) (mv_bucket env (r_id (fst b))) (fst b)
                     (map fst (snd g)) (map snd (snd g)) (mm_budget s) (mm_files s) (mm_db s) of
                (out, budget, fs, db) \<Rightarrow>
                  (let s' = s\<lparr>mm_budget := budget, mm_files := fs, mm_db := db\<rparr>
                   in case out of
                        Panic \<Rightarrow> (None, s')
                      | Err AppendNotPossible \<Rightarrow> write (b # snd g) s'
                      | _ \<Rightarrow> (Some (), s'))))"

fun append_groups ::
    "merge_env \<Rightarrow> string \<Rightarrow> string \<Rightarrow> (recording \<times> segmentInfo) list \<Rightarrow> (string \<times> (recording \<times> segmentInfo) list) list
       \<Rightarrow> merge_state \<Rightarrow> unit option \<times> merge_state" where
  "append_groups env cam fmt buckets [] s = (Some (), s)"
| "append_groups env cam fmt buckets (g # gs) s =
     (case append_group env cam fmt buckets g s of
        (None, s') \<Rightarrow> (None, s')
      | (Some _, s') \<Rightarrow> append_groups env cam fmt buckets gs s')"

fun roll_formats ::
    "merge_env \<Rightarrow> string \<Rightarrow> recording list \<Rightarrow> (string \<times> recording list) list \<Rightarrow> merge_state \<Rightarrow> unit option \<times> merge_state" where
  "roll_formats env cam buckets [] s = (Some (), s)"
| "roll_formats env cam buckets ((fmt, recs) # gs) s =
     (if fmt = ''mjpeg'' \<or> fmt = ''jpeg'' then roll_formats env cam buckets gs (snd (mergeMJPEGGroup env cam recs 2 s))
      else case parse_recs env False recs (mm_files s) of
          None \<Rightarrow> (None, s)
        | Some (news, _) \<Rightarrow>
            (case parse_recs env False (filterByFormat buckets fmt) (mm_files s) of
               None \<Rightarrow> (None, s)
             | Some (olds, _) \<Rightarrow>
                 (case append_groups env cam fmt olds (visited env (group_by group_key news)) s of
                    (None, s') \<Rightarrow> (None, s')
                  | (Some _, s') \<Rightarrow> roll_formats env cam buckets gs s')))"

definition mergeHourLocked ::
    "merge_env \<Rightarrow> string \<Rightarrow> nat \<Rightarrow> merge_config \<Rightarrow> merge_state \<Rightarrow> unit option \<times> merge_state" where
  "mergeHourLocked env cam moment cfg s =
     (let (start, end) = mergeWindowUTC moment (WindowSizeDuration cfg);
          pending = ListMergeableSegments cam start end (mm_db s);
          buckets = ListWindowMergedRecordings cam start end (mm_db s)
      in if mv_list_fails env 0 \<or> pending = [] \<or> mv_list_fails env 1 then (Some (), s)
         else case reconcile_all buckets (mm_db s) (mm_files s) of
             None \<Rightarrow> (None, s)
           | Some fs \<Rightarrow>
               roll_formats env cam buckets (visited env (groupByFormat pending))
                 (s\<lparr>mm_files := fs, mm_budget := loadDiskBudget env\<rparr>))"

definition MergeHour ::
    "merge_env \<Rightarrow> merge_config \<Rightarrow> merge_config option \<Rightarrow> string \<Rightarrow> nat \<Rightarrow> merge_state \<Rightarrow> unit option \<times> merge_state" where
  "MergeHour env cfg override cam moment s =
     (if \<not> mg_enabled (ResolveMergeConfig cfg override) then (Some (), s)
      else mergeHourLocked env cam moment (ResolveMergeConfig cfg override) s)"

section \<open>Rows keep their files\<close>

definition mp4_row :: "recording \<Rightarrow> bool" where
  "mp4_row q \<longleftrightarrow> r_format q \<noteq> ''mjpeg'' \<and> r_format q \<noteq> ''jpeg''"

definition unused :: "merge_env \<Rightarrow> nat \<Rightarrow> string \<Rightarrow> bool" where
  "unused env n p \<longleftrightarrow> (\<forall>m \<ge> n. p \<noteq> fst (mv_fresh env m) \<and> p \<noteq> snd (mv_fresh env m))"

text \<open>
  Every row of an MP4 recording has its file; no two rows share a file; names are visible, and new ones are not in
  use.  A list of recordings that is worked on holds no file of another row.
\<close>

definition shelf :: "merge_env \<Rightarrow> recording list \<Rightarrow> merge_state \<Rightarrow> bool" where
  "shelf env recs s \<longleftrightarrow>
     (\<forall>q \<in> set (mm_db s). mp4_row q \<longrightarrow> mm_files s (r_path q) \<noteq> None)
   \<and> (\<forall>q \<in> set (mm_db s) \<union> set recs. visible (r_path q) \<and> unused env (mm_drawn s) (r_path q))
   \<and> (\<forall>q \<in> set (mm_db s) \<union> set recs. \<forall>p \<in> set (mm_db s). r_path p = r_path q \<longrightarrow> r_id p = r_id q)"

definition names_ok :: "merge_env \<Rightarrow> bool" where
  "names_ok env \<longleftrightarrow> (\<forall>n. visible (snd (mv_fresh env n)) \<and> unused env (n + 1) (snd (mv_fresh env n)))"

definition same_row :: "recording \<Rightarrow> recording \<Rightarrow> bool" where
  "same_row p q \<longleftrightarrow> r_path p = r_path q \<and> r_id p = r_id q \<and> r_format p = r_format q"

lemma unused_mono: "unused env n p \<Longrightarrow> n \<le> m \<Longrightarrow> unused env m p"
  by (simp add: unused_def)

lemma shelf_subset: "shelf env recs s \<Longrightarrow> set recs' \<subseteq> set recs \<Longrightarrow> shelf env recs' s"
  unfolding shelf_def by blast

text \<open>A step that only drops rows or changes other columns, and one that adds the row of a new file.\<close>

lemma shelf_sub:
  assumes "shelf env recs s" and "mm_drawn s \<le> mm_drawn s'"
    and rows: "\<And>p. p \<in> set (mm_db s') \<Longrightarrow> \<exists>q \<in> set (mm_db s). same_row p q"
    and files: "\<And>p. p \<in> set (mm_db s') \<Longrightarrow> mp4_row p \<Longrightarrow> mm_files s' (r_path p) \<noteq> None"
  shows "shelf env recs s'"
proof -
  have names: "\<forall>q \<in> set (mm_db s') \<union> set recs. visible (r_path q) \<and> unused env (mm_drawn s') (r_path q)"
    using assms(1,2) rows unused_mono unfolding shelf_def same_row_def by (metis UnE UnI1 UnI2)
  have "r_id p = r_id q" if "q \<in> set (mm_db s') \<union> set recs" "p \<in> set (mm_db s')" "r_path p = r_path q" for p q
  proof -
    note prems = that
    obtain p0 where p0: "p0 \<in> set (mm_db s)" "same_row p p0" using rows prems(2) by blast
    obtain q0 where q0: "q0 \<in> set (mm_db s) \<union> set recs" "r_path q = r_path q0" "r_id q = r_id q0"
      using rows prems(1) unfolding same_row_def by blast
    have "r_id p0 = r_id q0"
      using assms(1) p0 q0 prems(3) unfolding shelf_def same_row_def by (metis (no_types, lifting))
    with p0(2) q0(3) show ?thesis by (simp add: same_row_def)
  qed
  with names files show ?thesis unfolding shelf_def by blast
qed

lemma shelf_new:
  assumes "shelf env recs s" and "names_ok env" and "mm_drawn s' = mm_drawn s + 1"
    and rows: "\<And>p. p \<in> set (mm_db s') \<Longrightarrow> p = r \<or> (\<exists>q \<in> set (mm_db s). same_row p q)"
    and "r_path r = snd (mv_fresh env (mm_drawn s))"
    and files: "\<And>p. p \<in> set (mm_db s') \<Longrightarrow> mp4_row p \<Longrightarrow> mm_files s' (r_path p) \<noteq> None"
  shows "shelf env recs s'"
proof -
  let ?n = "mm_drawn s"
  have old: "visible (r_path q) \<and> unused env ?n (r_path q)" if "q \<in> set (mm_db s) \<union> set recs" for q
    using assms(1) that by (simp add: shelf_def)
  have new: "visible (r_path r)" "unused env (?n + 1) (r_path r)" using assms(2,5) by (simp_all add: names_ok_def)
  have differ: "r_path q \<noteq> r_path r" if "q \<in> set (mm_db s) \<union> set recs" for q
    using old[OF that] assms(5) by (auto simp: unused_def)
  have names: "visible (r_path q) \<and> unused env (?n + 1) (r_path q)" if "q \<in> set (mm_db s') \<union> set recs" for q
  proof (cases "q = r")
    case False
    with that rows have "\<exists>q0 \<in> set (mm_db s) \<union> set recs. r_path q = r_path q0" unfolding same_row_def by blast
    then obtain q0 where "q0 \<in> set (mm_db s) \<union> set recs" "r_path q = r_path q0" by blast
    then show ?thesis using old[of q0] unused_mono[of env ?n _ "?n + 1"] by simp
  qed (use new in simp)
  have "r_id p = r_id q" if "q \<in> set (mm_db s') \<union> set recs" "p \<in> set (mm_db s')" "r_path p = r_path q" for p q
  proof -
    note prems = that
    have from_old: "x = r \<or> (\<exists>x0 \<in> set (mm_db s) \<union> set recs. r_path x = r_path x0 \<and> r_id x = r_id x0)"
      if "x \<in> set (mm_db s') \<union> set recs" for x
      using that rows unfolding same_row_def by blast
    consider "p = r" "q = r" | "p = r" "q \<noteq> r" | "p \<noteq> r" "q = r" | "p \<noteq> r" "q \<noteq> r" by blast
    then show ?thesis
    proof cases
      case 2
      then obtain q0 where "q0 \<in> set (mm_db s) \<union> set recs" "r_path q = r_path q0" using from_old[OF prems(1)] by blast
      with differ[of q0] 2 prems(3) show ?thesis by simp
    next
      case 3
      then obtain p0 where "p0 \<in> set (mm_db s)" "r_path p = r_path p0" using rows[OF prems(2)] by (auto simp: same_row_def)
      with differ[of p0] 3 prems(3) show ?thesis by simp
    next
      case 4
      obtain p0 where p0: "p0 \<in> set (mm_db s)" "r_path p = r_path p0" "r_id p = r_id p0"
        using rows[OF prems(2)] 4 by (auto simp: same_row_def)
      obtain q0 where q0: "q0 \<in> set (mm_db s) \<union> set recs" "r_path q = r_path q0" "r_id q = r_id q0"
        using from_old[OF prems(1)] 4 by blast
      have "r_id p0 = r_id q0" using assms(1) p0 q0 prems(3) unfolding shelf_def by (metis (no_types, lifting))
      with p0 q0 show ?thesis by simp
    qed simp
  qed
  with names files show ?thesis unfolding shelf_def assms(3) by blast
qed

lemma replaced_rows:
  assumes "replace_rows env n row recs db = Ok db'" and "recs \<noteq> []"
  obtains r where "r_path r = r_path row" "r_format r = r_format row"
    "\<And>p. p \<in> set db' \<Longrightarrow> p = r \<or> p \<in> set db \<and> r_id p \<notin> r_id ` set recs"
proof -
  let ?r = "row\<lparr>r_stream := recordingStreamID row, r_merged := True, r_status := ''merged'',
               r_archived := False, r_reconnected := 0, r_gap := '''', r_locked := False\<rparr>"
  have "db' = delete_ids (map r_id recs) (db @ [?r])"
    using assms by (auto simp: replace_rows_def MergeAndReplaceRecordings_def bind_eq_Ok insert_row_def split: if_splits)
  then have "p = ?r \<or> p \<in> set db \<and> r_id p \<notin> r_id ` set recs" if "p \<in> set db'" for p
    using that by (auto simp: delete_ids_eq split: if_splits)
  then show ?thesis using that[of ?r] by simp
qed

lemma delete_sources_other: "p \<notin> r_path ` set recs \<Longrightarrow> delete_sources env recs fs p = fs p"
  unfolding delete_sources_def by (induction recs arbitrary: fs) auto


lemma shelf_files:
  assumes "shelf env recs s" and "mm_db s' = mm_db s" and "mm_drawn s \<le> mm_drawn s'"
    and "\<And>p. visible p \<Longrightarrow> unused env (mm_drawn s) p \<Longrightarrow> mm_files s p \<noteq> None \<Longrightarrow> mm_files s' p \<noteq> None"
  shows "shelf env recs s'"
proof (rule shelf_sub[OF assms(1,3)])
  fix p assume p: "p \<in> set (mm_db s')"
  then show "\<exists>q \<in> set (mm_db s). same_row p q" using assms(2) by (auto simp: same_row_def)
  assume "mp4_row p"
  then show "mm_files s' (r_path p) \<noteq> None" using assms p unfolding shelf_def by simp
qed

lemma fresh_names:
  assumes "unused env n p" shows "fst (mv_fresh env n) \<noteq> p" "snd (mv_fresh env n) \<noteq> p"
  using assms unfolding unused_def by force+

lemma writeMergedGroup_shelf:
  assumes "shelf env recs s" and "names_ok env" and "fst ` set grp \<subseteq> set recs"
  shows "shelf env recs (snd (writeMergedGroup env cam fmt grp s))"
proof -
  obtain room b where res: "reserve (sum_list (map r_size (map fst grp)) * 11 sdiv 10) (mm_budget s) = (room, b)" by force
  obtain tmp final where fresh: "mv_fresh env (mm_drawn s) = (tmp, final)" by force
  let ?s1 = "s\<lparr>mm_budget := b\<rparr>"
  let ?s2 = "?s1\<lparr>mm_files := (mm_files ?s1)(tmp \<mapsto> []), mm_drawn := mm_drawn s + 1\<rparr>"
  let ?drop = "?s2\<lparr>mm_files := (mm_files ?s2)(tmp := None)\<rparr>"
  note names = fresh_names[of env "mm_drawn s", unfolded fresh, simplified]
  have s1: "shelf env recs ?s1" by (rule shelf_files[OF assms(1)]) simp_all
  have s2: "shelf env recs ?s2" by (rule shelf_files[OF assms(1)]) simp_all
  have drop: "shelf env recs ?drop" by (rule shelf_files[OF assms(1)]) (auto dest: names)
  have gone: "shelf env recs (?drop\<lparr>mm_files := ((mm_files ?drop)(final \<mapsto> out))(final := None)\<rparr>)" for out
    by (rule shelf_files[OF assms(1)]) (auto dest: names)
  have new: "shelf env recs (?drop\<lparr>mm_db := db, mm_files := delete_sources env (map fst grp) ((mm_files ?drop)(final \<mapsto> out))\<rparr>)"
    if "replace_rows env (mm_drawn s) (merged_row env (mm_drawn s) cam fmt final (map fst grp) (map snd grp) len)
        (map fst grp) (mm_db s) = Ok db" "grp \<noteq> []" for out len db
  proof -
    have "map fst grp \<noteq> []" using that(2) by simp
    from replaced_rows[OF that(1) this] obtain r where r: "r_path r = final"
      and rows: "\<And>p. p \<in> set db \<Longrightarrow> p = r \<or> p \<in> set (mm_db s) \<and> r_id p \<notin> r_id ` set (map fst grp)"
      unfolding merged_row_def recording.simps by blast
    have unique: "r_path p \<noteq> r_path q" if "p \<in> set (mm_db s)" "r_id p \<notin> r_id ` set (map fst grp)" "q \<in> set (map fst grp)" for p q
      using assms(1,3) that unfolding shelf_def by (metis (no_types, lifting) UnI2 imageI image_set subsetD)
    have final: "final \<noteq> r_path q" if "q \<in> set (map fst grp)" for q
    proof -
      have "unused env (mm_drawn s) (r_path q)" using assms(1,3) that by (auto simp: shelf_def)
      then show ?thesis by (rule names(2))
    qed
    show ?thesis
    proof (rule shelf_new[OF assms(1,2), where r = r])
      fix p assume "p \<in> set (mm_db (?drop\<lparr>mm_db := db, mm_files := delete_sources env (map fst grp) ((mm_files ?drop)(final \<mapsto> out))\<rparr>))"
      then have p: "p \<in> set db" by simp
      show "p = r \<or> (\<exists>q \<in> set (mm_db s). same_row p q)" using rows[OF p] by (auto simp: same_row_def)
      assume mp4: "mp4_row p"
      have "(delete_sources env (map fst grp) ((mm_files ?drop)(final \<mapsto> out))) (r_path p) \<noteq> None"
      proof (cases "p = r")
        case True
        have "delete_sources env (map fst grp) ((mm_files ?drop)(final \<mapsto> out)) final = ((mm_files ?drop)(final \<mapsto> out)) final"
          by (rule delete_sources_other) (use final in auto)
        then show ?thesis using True r by simp
      next
        case False
        with rows[OF p] have old: "p \<in> set (mm_db s)" "r_id p \<notin> r_id ` set (map fst grp)" by blast+
        have "delete_sources env (map fst grp) ((mm_files ?drop)(final \<mapsto> out)) (r_path p)
            = ((mm_files ?drop)(final \<mapsto> out)) (r_path p)"
          by (rule delete_sources_other) (use unique[OF old] in blast)
        moreover have "mm_files s (r_path p) \<noteq> None" "unused env (mm_drawn s) (r_path p)"
          using assms(1) old(1) mp4 by (auto simp: shelf_def)
        ultimately show ?thesis using names[of "r_path p"] by auto
      qed
      then show "mm_files (?drop\<lparr>mm_db := db, mm_files := delete_sources env (map fst grp) ((mm_files ?drop)(final \<mapsto> out))\<rparr>)
          (r_path p) \<noteq> None" by simp
    qed (simp_all add: r fresh)
  qed
  show ?thesis
    unfolding writeMergedGroup_def Let_def res fresh prod.case
    using assms(1) s1 s2 drop gone new by (simp split: res.split)
qed


text \<open>The merge of frames touches no MP4 file, and its rows are not MP4 rows.\<close>

lemma MergeMJPEGSegments_files:
  assumes "MergeMJPEGSegments env cam recs s = (out, s')"
  shows "mm_files s' = mm_files s" "mm_db s' = mm_db s" "mm_drawn s \<le> mm_drawn s'"
    "out = Some row \<Longrightarrow> mm_drawn s' = mm_drawn s + 1 \<and> r_path row = snd (mv_fresh env (mm_drawn s)) \<and> r_format row = ''mjpeg''
       \<and> recs \<noteq> []"
  using assms unfolding MergeMJPEGSegments_def Let_def
  by (auto simp: frames_row_def split: prod.splits if_splits)

lemma mergeMJPEGGroup_shelf:
  assumes "shelf env recs s" and "names_ok env"
  shows "shelf env recs (snd (mergeMJPEGGroup env cam qs least s))"
proof -
  obtain room b where res: "reserve (sum_list (map r_size qs) * 11 sdiv 10) (mm_budget s) = (room, b)" by force
  obtain out s2 where m: "MergeMJPEGSegments env cam qs (s\<lparr>mm_budget := b\<rparr>) = (out, s2)" by force
  note f = MergeMJPEGSegments_files[OF m, simplified]
  have keep: "shelf env recs (s\<lparr>mm_budget := b\<rparr>)" "shelf env recs s2"
      "shelf env recs (s2\<lparr>mm_frames := fr\<rparr>)" for fr
    by (rule shelf_files[OF assms(1)]; simp add: f)+
  have new: "shelf env recs (s2\<lparr>mm_db := db\<rparr>)"
    if out: "out = Some row" and db: "replace_rows env (mm_drawn s) (row\<lparr>r_merged := True\<rparr>) qs (mm_db s2) = Ok db" for row db
  proof -
    note f4 = f(4)[OF out]
    have "qs \<noteq> []" "r_format row = ''mjpeg''" using f4 by simp_all
    have path: "r_path (row\<lparr>r_merged := True\<rparr>) = r_path row" "r_format (row\<lparr>r_merged := True\<rparr>) = ''mjpeg''"
      using f4 by simp_all
    obtain r where r: "r_path r = r_path row" "r_format r = ''mjpeg''"
      and rows: "\<And>p. p \<in> set db \<Longrightarrow> p = r \<or> p \<in> set (mm_db s) \<and> r_id p \<notin> r_id ` set qs"
      by (rule replaced_rows[OF db \<open>qs \<noteq> []\<close>]) (simp only: path f(2))
    show ?thesis
    proof (rule shelf_new[OF assms(1,2), where r = r])
      fix p assume "p \<in> set (mm_db (s2\<lparr>mm_db := db\<rparr>))"
      then have p: "p \<in> set db" by simp
      show "p = r \<or> (\<exists>q \<in> set (mm_db s). same_row p q)" using rows[OF p] by (auto simp: same_row_def)
      assume "mp4_row p"
      then have "p \<in> set (mm_db s)" using rows[OF p] r(2) by (auto simp: mp4_row_def)
      then show "mm_files (s2\<lparr>mm_db := db\<rparr>) (r_path p) \<noteq> None"
        using assms(1) \<open>mp4_row p\<close> f(1) unfolding shelf_def by simp
    qed (simp_all add: r f4)
  qed
  show ?thesis
    unfolding mergeMJPEGGroup_def Let_def res prod.case m
    using assms(1) keep new by (simp split: res.split option.split)
qed

lemma replaced_status: "set (SetMergeStatus is st db) = (\<lambda>q. if r_id q \<in> set is then q\<lparr>r_status := st\<rparr> else q) ` set db"
  by (auto simp: SetMergeStatus_eq update_where_def image_def)

lemma mark_shelf: "shelf env recs s \<Longrightarrow> shelf env recs (mark env is st s)"
proof -
  assume a: "shelf env recs s"
  show ?thesis
  proof (rule shelf_sub[OF a])
    fix p assume "p \<in> set (mm_db (mark env is st s))"
    then show ex: "\<exists>q \<in> set (mm_db s). same_row p q"
      by (auto simp: mark_def replaced_status same_row_def split: if_splits)
    assume "mp4_row p"
    moreover from ex obtain q where "q \<in> set (mm_db s)" "same_row p q" by blast
    ultimately show "mm_files (mark env is st s) (r_path p) \<noteq> None"
      using a unfolding shelf_def by (auto simp: mark_def same_row_def mp4_row_def)
  qed (simp add: mark_def)
qed


lemma shelf_listed:
  assumes "shelf env recs s" and "\<And>q. q \<in> set qs \<Longrightarrow> \<exists>p \<in> set (mm_db s). r_path q = r_path p \<and> r_id q = r_id p"
  shows "shelf env qs s"
  using assms unfolding shelf_def by (metis (no_types, lifting) Un_iff)

lemma mergeable_rows:
  "q \<in> set (ListMergeableSegments cam t t' db) \<Longrightarrow> \<exists>p \<in> set db. r_path q = r_path p \<and> r_id q = r_id p"
  "q \<in> set (ListWindowMergedRecordings cam t t' db) \<Longrightarrow> \<exists>p \<in> set db. r_path q = r_path p \<and> r_id q = r_id p"
  by (auto simp: ListMergeableSegments_def ListWindowMergedRecordings_def merge_view_def scanRecordingRow_def)

lemma group_by_members: "(k, g) \<in> set (group_by key xs) \<Longrightarrow> set g \<subseteq> set xs"
  by (induction key xs rule: group_by.induct) auto

lemma visited_members: "(k, g) \<in> set (visited env gs) \<Longrightarrow> (k, g) \<in> set gs"
  by (auto simp: visited_def List.map_filter_def dest: map_of_SomeD)

lemma parse_recs_members: "parse_recs env full qs fs = Some (good, bad) \<Longrightarrow> fst ` set good \<subseteq> set qs"
proof (induction qs arbitrary: good bad)
  case (Cons q qs)
  then show ?case by (fastforce split: option.splits)
qed simp

lemma merge_groups_shelf:
  assumes "names_ok env"
  shows "shelf env recs s \<Longrightarrow> \<forall>g \<in> set gs. fst ` set g \<subseteq> set recs
     \<Longrightarrow> shelf env recs (snd (merge_groups env cam fmt least gs s acc))"
proof (induction gs arbitrary: s acc)
  case (Cons g gs)
  have "shelf env recs (snd (writeMergedGroup env cam fmt g s))"
    using Cons.prems by (intro writeMergedGroup_shelf[OF _ assms]) simp_all
  then show ?case
    using Cons by (cases acc) (auto split: prod.split option.split)
qed simp

lemma mergeFormatGroup_shelf:
  assumes "shelf env recs s" and "names_ok env" and "set qs \<subseteq> set recs"
  shows "shelf env recs (snd (mergeFormatGroup env cam fmt qs cfg s))"
proof (cases "fmt = ''mjpeg''")
  case True
  then show ?thesis
    using mergeMJPEGGroup_shelf[OF assms(1,2), of cam qs "mg_min cfg"]
    by (cases "mergeMJPEGGroup env cam qs (mg_min cfg) s") (simp add: mergeFormatGroup_def)
next
  case mp4: False
  show ?thesis
  proof (cases "parse_recs env True qs (mm_files s)")
    case None
    then show ?thesis using mp4 assms(1) by (simp add: mergeFormatGroup_def)
  next
    case (Some parsed)
    obtain good bad where parsed: "parsed = (good, bad)" by force
    let ?gs = "map snd (visited env (group_by group_key (filter (\<lambda>p. si_codec (snd p) = fmt) good)))"
    have "fst ` set g \<subseteq> set recs" if "g \<in> set ?gs" for g
    proof -
      from that obtain k where "(k, g) \<in> set (group_by group_key (filter (\<lambda>p. si_codec (snd p) = fmt) good))"
        using visited_members by fastforce
      then have "set g \<subseteq> set good" using group_by_members by fastforce
      then show ?thesis using parse_recs_members[OF Some[unfolded parsed]] assms(3) by blast
    qed
    then have "shelf env recs (snd (merge_groups env cam fmt (mg_min cfg) ?gs (mark env bad ''failed'' s) (0, 0, 0)))"
      by (intro merge_groups_shelf[OF assms(2)] mark_shelf assms(1)) blast
    then show ?thesis using mp4 Some parsed by (simp add: mergeFormatGroup_def)
  qed
qed

lemma merge_formats_shelf:
  assumes "names_ok env"
  shows "shelf env recs s \<Longrightarrow> \<forall>g \<in> set gs. set (snd g) \<subseteq> set recs
     \<Longrightarrow> shelf env recs (snd (merge_formats env cam cfg gs limit s acc))"
proof (induction gs arbitrary: s limit acc)
  case (Cons g gs)
  obtain fmt qs where g: "g = (fmt, qs)" by force
  let ?rs = "if 0 < limit \<and> limit < int (length qs) then take (nat limit) qs else qs"
  have "set ?rs \<subseteq> set recs" using Cons.prems(2) set_take_subset[of "nat limit" qs] by (auto simp: g)
  from mergeFormatGroup_shelf[OF Cons.prems(1) assms this]
  have "shelf env recs (snd (mergeFormatGroup env cam fmt ?rs cfg s))" .
  then show ?case
    using Cons unfolding g merge_formats.simps Let_def
    by (cases "mergeFormatGroup env cam fmt ?rs cfg s") (auto split: option.split)
qed simp

lemma merge_windows_shelf:
  assumes "names_ok env"
  shows "shelf env [] s \<Longrightarrow> shelf env [] (snd (merge_windows env cam cfg i ws limit s acc))"
proof (induction ws arbitrary: i s limit acc)
  case (Cons w ws)
  let ?l = "ListMergeableSegments cam (mw_start w) (mw_end w) (mm_db s)"
  let ?gs = "visited env (groupByFormat ?l)"
  have "shelf env ?l s" by (rule shelf_listed[OF Cons.prems mergeable_rows(1)])
  moreover have "\<forall>g \<in> set ?gs. set (snd g) \<subseteq> set ?l"
    unfolding groupByFormat_def using visited_members group_by_members by fastforce
  ultimately have "shelf env ?l (snd (merge_formats env cam cfg ?gs limit s acc))"
    by (rule merge_formats_shelf[OF assms])
  then have "shelf env [] (snd (merge_formats env cam cfg ?gs limit s acc))" by (rule shelf_subset) simp
  then show ?case
    using Cons by (cases "merge_formats env cam cfg ?gs limit s acc") (auto split: option.split)
qed simp

lemma processCamera_shelf:
  assumes "names_ok env" and "shelf env [] s"
  shows "shelf env [] (snd (processCamera env cam age cfg s))"
proof -
  let ?s = "s\<lparr>mm_budget := loadDiskBudget env\<rparr>"
  have s: "shelf env [] ?s" by (rule shelf_files[OF assms(2)]) simp_all
  let ?w = "merge_windows env cam cfg 0
    (ListCameraMergeWindows cam (mv_zone env) (mv_now env) age (WindowSizeDuration cfg) (mm_db ?s)) (mg_batch cfg) ?s (0, 0, 0)"
  have w: "shelf env [] (snd ?w)" by (rule merge_windows_shelf[OF assms(1) s])
  show ?thesis
  proof (cases "mv_windows_fail env")
    case False
    then show ?thesis using w mark_shelf
      unfolding processCamera_def Let_def mark_singletons_def by (cases ?w) (simp split: option.split)
  qed (simp add: processCamera_def s)
qed

lemma merge_cameras_shelf:
  assumes "names_ok env"
  shows "shelf env [] s \<Longrightarrow> shelf env [] (snd (merge_cameras env stop cfg override i cs s acc))"
proof (induction cs arbitrary: i s acc)
  case (Cons c cs)
  obtain fl sg er where acc: "acc = (fl, sg, er)" by (cases acc)
  obtain out s' where p: "processCamera env c (minimum_age cfg) (ResolveMergeConfig cfg (override c)) s = (out, s')" by force
  have "shelf env [] s'" using processCamera_shelf[OF assms Cons.prems, of c "minimum_age cfg"] p by (metis snd_conv)
  then show ?case
    using Cons by (cases out) (auto simp: acc p Let_def)
qed simp


text \<open>The rolling merge: what an append does to the files of other rows.\<close>

definition keeps :: "files \<Rightarrow> files \<Rightarrow> bool" where
  "keeps fs fs' \<longleftrightarrow> (\<forall>p. visible p \<longrightarrow> fs p \<noteq> None \<longrightarrow> fs' p \<noteq> None)"

lemma files_keep_refl [simp]: "keeps fs fs"
  by (simp add: keeps_def)

lemma files_keep_trans: "keeps f g \<Longrightarrow> keeps g h \<Longrightarrow> keeps f h"
  by (simp add: keeps_def)

lemma keeps_write [simp]: "keeps fs (fs(q \<mapsto> b))"
  by (simp add: keeps_def)

lemma keeps_upd: "\<not> visible q \<Longrightarrow> keeps fs (fs(q := x))"
  by (auto simp: keeps_def)

lemma hidden_names [simp]: "\<not> visible (consumedPath p)" "\<not> visible (journalPath p)" "\<not> visible (journalPath p @ ''.tmp'')"
  using visible_names by blast+

lemma unhide_one_keeps: "keeps fs (unhide_one p fs)"
  unfolding unhide_one_def
  by (auto split: option.split intro: files_keep_trans[OF keeps_upd[OF hidden_names(1)] keeps_write])

lemma fold_keeps: "(\<And>x fs. keeps fs (f x fs)) \<Longrightarrow> keeps fs (fold f xs fs)"
  by (induction xs arbitrary: fs) (auto intro: files_keep_trans)

lemma unhideConsumed_keeps: "keeps fs (unhideConsumed ps fs)"
  unfolding unhideConsumed_def by (rule fold_keeps) (rule unhide_one_keeps)

lemma drop_consumed_keeps: "keeps fs (drop_consumed ps fs)"
  unfolding drop_consumed_def by (rule fold_keeps) (rule keeps_upd, simp)

lemma restoreJournalFile_keeps: "keeps fs (snd (restoreJournalFile p j fs))"
  by (simp add: restoreJournalFile_def split: option.split)

lemma reconcile_keeps_files: "keeps fs (snd (reconcileMergeJournal db p fs))"
proof -
  have 1: "keeps fs ((unhideConsumed (jl_paths j) fs')(journalPath p := None))"
    if "restoreJournalFile p j fs = (True, fs')" for j fs'
    using restoreJournalFile_keeps[of fs p j] that
    by (intro files_keep_trans[OF files_keep_trans[OF _ unhideConsumed_keeps] keeps_upd]) simp_all
  have 2: "keeps fs ((drop_consumed (jl_paths j) fs)(journalPath p := None))" for j
    by (rule files_keep_trans[OF drop_consumed_keeps keeps_upd]) simp
  have 3: "keeps fs fs'" if "restoreJournalFile p j fs = (False, fs')" for j fs'
    using restoreJournalFile_keeps[of fs p j] that by simp
  show ?thesis
    unfolding reconcileMergeJournal_def using 1 2 3
    by (auto split: res.split journal_error.split prod.split bool.split)
qed

lemma writeMergeJournal_keeps: "keeps fs (snd (writeMergeJournal p j fs))"
proof -
  have "keeps fs (fs(journalPath p @ ''.tmp'' := None))" by (rule keeps_upd) simp
  moreover have "keeps fs (fs(journalPath p @ ''.tmp'' := None, journalPath p \<mapsto> bs))" for bs
    by (rule files_keep_trans[OF keeps_upd keeps_write]) simp
  ultimately show ?thesis by (auto simp: writeMergeJournal_def split: res.split journal_error.split)
qed

lemma AppendMP4Samples_keeps: "keeps fs (snd (AppendMP4Samples marshal fs base segs fault))"
  by (auto simp: AppendMP4Samples_def Let_def split: res.split write_fault.split)

text \<open>A file that is hidden is the one of an absorbed row, and its bytes are under the hidden name.\<close>

definition shown_or_parked :: "string list \<Rightarrow> files \<Rightarrow> files \<Rightarrow> bool" where
  "shown_or_parked ps fs0 fs \<longleftrightarrow>
     (\<forall>p. visible p \<longrightarrow> fs0 p \<noteq> None \<longrightarrow> fs p \<noteq> None \<or> p \<in> set ps \<and> fs (consumedPath p) \<noteq> None)"

lemma hide_all_parks:
  assumes "hide_all fails qs fs = (done, fs')" and "shown_or_parked ps fs0 fs" and "set qs \<subseteq> set ps"
    and "\<forall>p \<in> set ps. visible p"
  shows "shown_or_parked ps fs0 fs'"
  using assms
proof (induction qs arbitrary: fails fs)
  case (Cons q qs)
  show ?case
  proof (cases "fails = Some 0 \<or> fs q = None")
    case True
    then show ?thesis using Cons.prems by (auto simp: hideConsumed_def split: if_splits)
  next
    case False
    then obtain b where b: "fs q = Some b" by auto
    have q: "visible q" "q \<in> set ps" using Cons.prems by auto
    have "shown_or_parked ps fs0 (fs(q := None, consumedPath q \<mapsto> b))"
      using Cons.prems(2) q b unfolding shown_or_parked_def by (auto simp: visible_names)
    then show ?thesis using Cons False b by (simp add: hideConsumed_def)
  qed
qed simp

lemma unhide_brings_back:
  assumes "\<forall>p \<in> set ps. visible p" and "p \<in> set ps" and "fs (consumedPath p) \<noteq> None"
  shows "unhideConsumed ps fs p \<noteq> None"
  using assms
proof (induction ps arbitrary: fs)
  case (Cons q ps)
  show ?case
  proof (cases "p = q")
    case True
    then have "unhide_one q fs p \<noteq> None" using Cons.prems(3) by (auto simp: unhide_one_def)
    then show ?thesis using unhideConsumed_keeps[of "unhide_one q fs" ps] Cons.prems(1) True
      by (simp add: unhideConsumed_def keeps_def)
  next
    case False
    then have "unhide_one q fs (consumedPath p) \<noteq> None"
      using Cons.prems by (auto simp: unhide_one_def split: option.split dest: visible_names(1)[of q p])
    then show ?thesis using Cons False by (simp add: unhideConsumed_def)
  qed
qed simp

lemma undo_append_keeps:
  assumes "shown_or_parked (jl_paths j) fs0 fs" and "\<forall>p \<in> set (jl_paths j). visible p"
  shows "keeps fs0 (undo_append path j fs)"
proof -
  have "keeps fs0 (unhideConsumed (jl_paths j) fs)"
    using assms unhide_brings_back[OF assms(2)] unhideConsumed_keeps[of fs "jl_paths j"]
    unfolding shown_or_parked_def keeps_def by metis
  then show ?thesis
    unfolding undo_append_def by (rule files_keep_trans[OF files_keep_trans[OF _ restoreJournalFile_keeps] keeps_upd]) simp
qed


lemma appendOntoBucket_files:
  assumes "appendOntoBucket boxes marshal faults bucket recs infos budget fs db = (out, b, fs', db')"
    and vis: "\<forall>p \<in> set (map r_path recs). visible p"
  shows "(db' = db \<and> keeps fs fs') \<or>
    ((\<exists>row. GrowMergedRecording row (map r_id recs) db = Ok db')
     \<and> (\<forall>p. visible p \<longrightarrow> p \<notin> set (map r_path recs) \<longrightarrow> fs p \<noteq> None \<longrightarrow> fs' p \<noteq> None))"
proof -
  let ?p = "r_path bucket"
  obtain o1 fs1 where rec: "reconcileMergeJournal db ?p fs = (o1, fs1)" by force
  have k1: "keeps fs fs1" using reconcile_keeps_files[of fs db ?p] rec by simp
  consider (early) "db' = db" "fs' = fs \<or> fs' = fs1"
    | (tried) info f where "fs1 ?p = Some f" "recs \<noteq> []" "length recs = length infos"
        "(case writeMergeJournal ?p (bucket_journal info recs f) fs1 of
           (Ok _, fs2) \<Rightarrow>
             (case AppendMP4Samples marshal fs2 info infos (bf_write faults) of
                (Appended, fs3) \<Rightarrow>
                  (case hide_all (bf_hide faults) (map r_path recs) fs3 of
                     (False, fs4) \<Rightarrow> db' = db \<and> fs' = undo_append ?p (bucket_journal info recs f) fs4
                   | (True, fs4) \<Rightarrow>
                       (\<exists>row. GrowMergedRecording row (map r_id recs) db = Ok db')
                         \<and> fs' = drop_consumed (map r_path recs) (fs4(journalPath ?p := None))
                       \<or> db' = db \<and> fs' = undo_append ?p (bucket_journal info recs f) fs4)
              | (_, fs3) \<Rightarrow> db' = db \<and> fs' = fs3)
         | (_, fs2) \<Rightarrow> db' = db \<and> fs' = fs2)"
  proof -
    note run = assms(1)[unfolded appendOntoBucket_def Let_def rec prod.case]
    let ?stop = "recs = [] \<or> length recs \<noteq> length infos"
    show thesis
    proof (cases "?stop \<or> (\<forall>u. o1 \<noteq> Ok u) \<or> fs1 ?p = None")
      case True
      then show ?thesis using run by (intro early) (cases "?stop"; cases o1; auto)+
    next
      case False
      then obtain u f where ok: "\<not> ?stop" "o1 = Ok u" "fs1 ?p = Some f" by auto
      obtain room b' where room: "reserve (sum_list (map r_size recs)) budget = (room, b')" by force
      note run' = run[unfolded ok res.case option.case if_False if_not_P[OF ok(1)] room prod.case]
      show ?thesis
      proof (cases "\<exists>info. ParseSegmentTables ?p f (boxes f) = Ok info \<and> segmentAppendable info (int (length f)) \<and> room")
        case False
        then show ?thesis using run'
          by (intro early; cases "ParseSegmentTables ?p f (boxes f)") (auto split: if_splits)
      next
        case True
        then obtain info where info: "ParseSegmentTables ?p f (boxes f) = Ok info" "segmentAppendable info (int (length f))" "room"
          by auto
        let ?j = "bucket_journal info recs f"
        have paths: "jl_paths ?j = map r_path recs" "jl_ids ?j = map r_id recs" by (simp_all add: bucket_journal_def)
        have no_panic: "GrowMergedRecording row is db \<noteq> Panic" for row "is" by (simp add: GrowMergedRecording_def)
        show ?thesis
        proof (rule tried)
          obtain o2 fs2 where w: "writeMergeJournal ?p ?j fs1 = (o2, fs2)" by force
          obtain o3 fs3 where a: "AppendMP4Samples marshal fs2 info infos (bf_write faults) = (o3, fs3)" by force
          obtain o4 fs4 where h: "hide_all (bf_hide faults) (map r_path recs) fs3 = (o4, fs4)" by force
          have "\<not> \<not> segmentAppendable info (int (length f))" "\<not> \<not> room" using info(2,3) by simp_all
          note run'' = run'[unfolded info(1) res.case if_not_P[OF this(1)] if_not_P[OF this(2)] paths w prod.case a h]
          show "case writeMergeJournal ?p ?j fs1 of
             (Ok _, fs2) \<Rightarrow>
               (case AppendMP4Samples marshal fs2 info infos (bf_write faults) of
                  (Appended, fs3) \<Rightarrow>
                    (case hide_all (bf_hide faults) (map r_path recs) fs3 of
                       (False, fs4) \<Rightarrow> db' = db \<and> fs' = undo_append ?p ?j fs4
                     | (True, fs4) \<Rightarrow>
                         (\<exists>row. GrowMergedRecording row (map r_id recs) db = Ok db')
                           \<and> fs' = drop_consumed (map r_path recs) (fs4(journalPath ?p := None))
                         \<or> db' = db \<and> fs' = undo_append ?p ?j fs4)
                | (_, fs3) \<Rightarrow> db' = db \<and> fs' = fs3)
           | (_, fs2) \<Rightarrow> db' = db \<and> fs' = fs2"
            using run'' no_panic
            by (cases o2; cases o3; cases o4) (auto simp: w a h split: res.splits if_splits)
        qed (use ok in simp_all)
      qed
    qed
  qed
  then show ?thesis
  proof cases
    case early then show ?thesis using k1 by auto
  next
    case tried
    let ?j = "bucket_journal info recs f"
    have paths: "jl_paths ?j = map r_path recs" by (simp add: bucket_journal_def)
    obtain o2 fs2 where w: "writeMergeJournal ?p ?j fs1 = (o2, fs2)" by force
    obtain o3 fs3 where a: "AppendMP4Samples marshal fs2 info infos (bf_write faults) = (o3, fs3)" by force
    obtain o4 fs4 where h: "hide_all (bf_hide faults) (map r_path recs) fs3 = (o4, fs4)" by force
    have k2: "keeps fs fs2" using files_keep_trans[OF k1 writeMergeJournal_keeps[of fs1 ?p ?j]] w by simp
    have k3: "keeps fs fs3"
      using files_keep_trans[OF k2 AppendMP4Samples_keeps[of fs2 marshal info infos "bf_write faults"]] a by simp
    then have "shown_or_parked (map r_path recs) fs fs3" by (auto simp: shown_or_parked_def keeps_def)
    from hide_all_parks[OF h this _ vis] have parked: "shown_or_parked (map r_path recs) fs fs4" by simp
    have undone: "keeps fs (undo_append ?p ?j fs4)"
      by (rule undo_append_keeps) (use parked vis in \<open>simp_all add: paths\<close>)
    have "keeps fs4 (drop_consumed (map r_path recs) (fs4(journalPath ?p := None)))"
      by (rule files_keep_trans[OF keeps_upd drop_consumed_keeps]) simp
    then have rest: "drop_consumed (map r_path recs) (fs4(journalPath ?p := None)) p \<noteq> None"
      if "visible p" "p \<notin> set (map r_path recs)" "fs p \<noteq> None" for p
      using parked that unfolding shown_or_parked_def keeps_def by metis
    show ?thesis
      using tried(4) k2 k3 undone rest by (cases o2; cases o3; cases o4) (auto simp: w a h)
  qed
qed


lemma grown_rows:
  assumes "GrowMergedRecording row is db = Ok db'" and "p \<in> set db'"
  shows "r_id p \<notin> set is" "\<exists>q \<in> set db. same_row p q"
proof -
  from assms obtain q where q: "q \<in> set db"
      "p = (if r_id q = r_id row
            then q\<lparr>r_ended := r_ended row, r_duration := r_duration row, r_size := r_size row, r_frames := r_frames row\<rparr>
            else q)" and "r_id p \<notin> set is"
    by (auto simp: GrowMergedRecording_def delete_ids_eq update_where_def split: if_splits)
  then show "r_id p \<notin> set is" by blast
  have "same_row p q" unfolding q(2) by (simp add: same_row_def)
  then show "\<exists>q \<in> set db. same_row p q" using q(1) by blast
qed

lemma appendOntoBucket_shelf:
  assumes "shelf env recs s" and "set qs \<subseteq> set recs"
    and "appendOntoBucket boxes marshal faults bucket qs infos budget (mm_files s) (mm_db s) = (out, b, fs, db)"
  shows "shelf env recs (s\<lparr>mm_budget := b, mm_files := fs, mm_db := db\<rparr>)"
proof -
  have vis: "\<forall>p \<in> set (map r_path qs). visible p" using assms(1,2) by (auto simp: shelf_def)
  have shown: "visible (r_path q)" if "q \<in> set (mm_db s)" for q using assms(1) that by (simp add: shelf_def)
  from appendOntoBucket_files[OF assms(3) vis] show ?thesis
  proof (elim disjE conjE exE)
    assume "db = mm_db s" "keeps (mm_files s) fs"
    then show ?thesis by (intro shelf_files[OF assms(1)]) (simp_all add: keeps_def)
  next
    fix row assume grow: "GrowMergedRecording row (map r_id qs) (mm_db s) = Ok db"
      and kept: "\<forall>p. visible p \<longrightarrow> p \<notin> set (map r_path qs) \<longrightarrow> mm_files s p \<noteq> None \<longrightarrow> fs p \<noteq> None"
    show ?thesis
    proof (rule shelf_sub[OF assms(1)])
      fix p assume "p \<in> set (mm_db (s\<lparr>mm_budget := b, mm_files := fs, mm_db := db\<rparr>))"
      then have p: "p \<in> set db" by simp
      from grown_rows[OF grow p] obtain q where q: "q \<in> set (mm_db s)" "same_row p q" "r_id q \<notin> r_id ` set qs"
        by (auto simp: same_row_def)
      then show "\<exists>q \<in> set (mm_db s). same_row p q" by blast
      assume "mp4_row p"
      then have "mm_files s (r_path q) \<noteq> None"
        using assms(1) q(1,2) by (simp add: shelf_def same_row_def mp4_row_def)
      moreover have "r_path q \<notin> set (map r_path qs)"
        using assms(1,2) q(1,3) unfolding shelf_def by (auto simp: image_def) (metis UnI2 subsetD)
      ultimately have "fs (r_path q) \<noteq> None" using kept shown[OF q(1)] by blast
      then show "mm_files (s\<lparr>mm_budget := b, mm_files := fs, mm_db := db\<rparr>) (r_path p) \<noteq> None"
        using q(2) by (simp add: same_row_def)
    qed simp
  qed
qed

lemma append_group_shelf:
  assumes "shelf env recs s" and "names_ok env" and "fst ` set buckets \<subseteq> set recs" and "fst ` set (snd g) \<subseteq> set recs"
  shows "shelf env recs (snd (append_group env cam fmt buckets g s))"
proof -
  have written: "shelf env recs (snd (case writeMergedGroup env cam fmt ms s1 of (out, s2) \<Rightarrow> (map_option (\<lambda>_. ()) out, s2)))"
    if "shelf env recs s1" "fst ` set ms \<subseteq> set recs" for ms s1
    using writeMergedGroup_shelf[OF that(1) assms(2) that(2), of cam fmt]
    by (cases "writeMergedGroup env cam fmt ms s1") simp
  show ?thesis
  proof (cases "bucket_for buckets (fst g)")
    case None
    then show ?thesis using assms(1) written[OF assms(1,4)] by (simp add: append_group_def)
  next
    case (Some bk)
    then obtain i where "i < length (rev buckets)" "bk = rev buckets ! i" by (auto simp: bucket_for_def find_Some_iff)
    then have "bk \<in> set buckets" by (metis nth_mem set_rev)
    then have more: "fst ` set (bk # snd g) \<subseteq> set recs" using assms(3,4) by auto
    obtain out b fs db where a: "appendOntoBucket (mv_boxes env) (mv_marshal env) (mv_bucket env (r_id (fst bk))) (fst bk)
        (map fst (snd g)) (map snd (snd g)) (mm_budget s) (mm_files s) (mm_db s) = (out, b, fs, db)"
      by (cases "appendOntoBucket (mv_boxes env) (mv_marshal env) (mv_bucket env (r_id (fst bk))) (fst bk)
        (map fst (snd g)) (map snd (snd g)) (mm_budget s) (mm_files s) (mm_db s)")
    have next_state: "shelf env recs (s\<lparr>mm_budget := b, mm_files := fs, mm_db := db\<rparr>)"
      by (rule appendOntoBucket_shelf[OF assms(1) _ a]) (use assms(4) in simp)
    show ?thesis
      unfolding append_group_def Let_def Some option.case a prod.case
      using next_state written[OF next_state more] by (cases out) (auto split: bucket_error.split)
  qed
qed

lemma append_groups_shelf:
  assumes "names_ok env" and "fst ` set buckets \<subseteq> set recs"
  shows "shelf env recs s \<Longrightarrow> \<forall>g \<in> set gs. fst ` set (snd g) \<subseteq> set recs
     \<Longrightarrow> shelf env recs (snd (append_groups env cam fmt buckets gs s))"
proof (induction gs arbitrary: s)
  case (Cons g gs)
  obtain out s' where g: "append_group env cam fmt buckets g s = (out, s')" by force
  have "shelf env recs s'"
    using append_group_shelf[OF Cons.prems(1) assms, of g cam fmt] Cons.prems(2) g by simp
  then show ?case using Cons by (cases out) (simp_all add: g)
qed simp

lemma roll_formats_shelf:
  assumes "names_ok env" and "set buckets \<subseteq> set recs"
  shows "shelf env recs s \<Longrightarrow> \<forall>g \<in> set gs. set (snd g) \<subseteq> set recs
     \<Longrightarrow> shelf env recs (snd (roll_formats env cam buckets gs s))"
proof (induction gs arbitrary: s)
  case (Cons g gs)
  obtain fmt qs where g: "g = (fmt, qs)" by force
  have qs: "set qs \<subseteq> set recs" and gs: "\<forall>g \<in> set gs. set (snd g) \<subseteq> set recs" using Cons.prems(2) g by auto
  show ?case
  proof (cases "fmt = ''mjpeg'' \<or> fmt = ''jpeg''")
    case True
    then show ?thesis using Cons.IH[OF mergeMJPEGGroup_shelf[OF Cons.prems(1) assms(1)] gs] by (auto simp: g)
  next
    case mp4: False
    show ?thesis
    proof (cases "parse_recs env False qs (mm_files s) = None
        \<or> parse_recs env False (filterByFormat buckets fmt) (mm_files s) = None")
      case True
      then show ?thesis using mp4 Cons.prems(1) by (auto simp: g split: option.split)
    next
      case False
      then obtain news bad olds bad' where parsed: "parse_recs env False qs (mm_files s) = Some (news, bad)"
          "parse_recs env False (filterByFormat buckets fmt) (mm_files s) = Some (olds, bad')" by auto
      let ?gs = "visited env (group_by group_key news)"
      have "fst ` set olds \<subseteq> set recs"
        using parse_recs_members[OF parsed(2)] assms(2) by (auto simp: filterByFormat_def)
      moreover have "\<forall>h \<in> set ?gs. fst ` set (snd h) \<subseteq> set recs"
      proof
        fix h assume "h \<in> set ?gs"
        then have "set (snd h) \<subseteq> set news"
          using group_by_members[OF visited_members, of "fst h" "snd h"] by simp
        then show "fst ` set (snd h) \<subseteq> set recs" using parse_recs_members[OF parsed(1)] qs by blast
      qed
      ultimately have "shelf env recs (snd (append_groups env cam fmt olds ?gs s))"
        by (intro append_groups_shelf[OF assms(1) _ Cons.prems(1)])
      then show ?thesis
        using mp4 Cons.IH[OF _ gs] unfolding g
        by (cases "append_groups env cam fmt olds ?gs s") (simp add: parsed split: option.split)
    qed
  qed
qed simp

lemma reconcile_all_keeps: "reconcile_all qs db fs = Some fs' \<Longrightarrow> keeps fs fs'"
proof (induction qs arbitrary: fs)
  case (Cons q qs)
  obtain out fs1 where r: "reconcileMergeJournal db (r_path q) fs = (out, fs1)" by force
  have "keeps fs fs1" using reconcile_keeps_files[of fs db "r_path q"] r by simp
  then show ?case using Cons.prems Cons.IH[of fs1] by (cases out) (auto simp: r intro: files_keep_trans)
qed simp

lemma mergeHourLocked_shelf:
  assumes "names_ok env" and "shelf env [] s"
  shows "shelf env [] (snd (mergeHourLocked env cam moment cfg s))"
proof -
  obtain t t' where w: "mergeWindowUTC moment (WindowSizeDuration cfg) = (t, t')" by force
  let ?pending = "ListMergeableSegments cam t t' (mm_db s)" and ?buckets = "ListWindowMergedRecordings cam t t' (mm_db s)"
  let ?recs = "?pending @ ?buckets" and ?gs = "visited env (groupByFormat ?pending)"
  show ?thesis
  proof (cases "reconcile_all ?buckets (mm_db s) (mm_files s)")
    case None
    then show ?thesis using assms(2) by (simp add: mergeHourLocked_def w Let_def)
  next
    case (Some fs)
    let ?s = "s\<lparr>mm_files := fs, mm_budget := loadDiskBudget env\<rparr>"
    have "shelf env ?recs s"
      using mergeable_rows by (intro shelf_listed[OF assms(2)]) (metis Un_iff set_append)
    then have "shelf env ?recs ?s"
      by (rule shelf_files) (use reconcile_all_keeps[OF Some] in \<open>simp_all add: keeps_def\<close>)
    then have "shelf env ?recs (snd (roll_formats env cam ?buckets ?gs ?s))"
    proof (rule roll_formats_shelf[OF assms(1), rotated])
      show "\<forall>g \<in> set ?gs. set (snd g) \<subseteq> set ?recs"
        unfolding groupByFormat_def using visited_members group_by_members by fastforce
    qed simp
    then have "shelf env [] (snd (roll_formats env cam ?buckets ?gs ?s))" by (rule shelf_subset) simp
    then show ?thesis using assms(2) Some by (simp add: mergeHourLocked_def w Let_def)
  qed
qed


section \<open>Everything the manager is asked to do\<close>

text \<open>Calls under different circumstances; the names drawn are common to them.\<close>

datatype merge_call =
    RunCall merge_env "nat \<Rightarrow> bool" bool merge_config "string \<Rightarrow> merge_config option" "(string \<times> bool) list"
  | CameraCall merge_env merge_config "merge_config option" string
  | HourCall merge_env merge_config "merge_config option" string nat

fun call_env :: "merge_call \<Rightarrow> merge_env" where
  "call_env (RunCall env stop lf cfg ov cams) = env"
| "call_env (CameraCall env cfg ov cam) = env"
| "call_env (HourCall env cfg ov cam moment) = env"

fun run_call :: "merge_call \<Rightarrow> merge_state \<Rightarrow> merge_state" where
  "run_call (RunCall env stop lf cfg ov cams) s = snd (MergeManager_RunOnce env stop lf cfg ov cams s)"
| "run_call (CameraCall env cfg ov cam) s = snd (MergeCamera env cfg ov cam s)"
| "run_call (HourCall env cfg ov cam moment) s = snd (MergeHour env cfg ov cam moment s)"

lemma run_call_shelf:
  assumes "names_ok (call_env c)" and "shelf (call_env c) [] s"
  shows "shelf (call_env c) [] (run_call c s)"
proof (cases c)
  case (RunCall env stop lf cfg ov cams)
  then have "names_ok env" "shelf env [] s" using assms by simp_all
  from merge_cameras_shelf[OF this] show ?thesis
    unfolding RunCall run_call.simps call_env.simps MergeManager_RunOnce_def Let_def
    by (auto split: prod.split option.split) (metis snd_conv)+
next
  case (CameraCall env cfg ov cam)
  then have "names_ok env" "shelf env [] s" using assms by simp_all
  then show ?thesis using processCamera_shelf[of env s cam "minimum_age cfg" "ResolveMergeConfig cfg ov"]
    by (simp add: CameraCall MergeCamera_def split: prod.split) (metis snd_conv)
next
  case (HourCall env cfg ov cam moment)
  then show ?thesis using assms mergeHourLocked_shelf[of env s] by (simp add: HourCall MergeHour_def)
qed

lemma shelf_same_names:
  "mv_fresh env' = mv_fresh env \<Longrightarrow> shelf env' recs s = shelf env recs s \<and> names_ok env' = names_ok env"
  by (simp add: shelf_def names_ok_def unused_def)

lemma run_calls_shelf:
  assumes "names_ok env"
  shows "shelf env [] s \<Longrightarrow> \<forall>c \<in> set calls. mv_fresh (call_env c) = mv_fresh env \<Longrightarrow> shelf env [] (fold run_call calls s)"
proof (induction calls arbitrary: s)
  case (Cons c calls)
  then have "shelf env [] (run_call c s)"
    using run_call_shelf[of c s] shelf_same_names[of "call_env c" env] assms by simp
  then show ?case using Cons by simp
qed simp

text \<open>C38: 
  Merging never leaves an MP4 row without its file: whatever passes over cameras and windows run, whichever of
  their calls fail, and however Go orders the groups, every row of the table names a file that exists.
\<close>

theorem merging_keeps_files:
  assumes "names_ok env" and "shelf env [] s" and "\<forall>c \<in> set calls. mv_fresh (call_env c) = mv_fresh env"
    and "q \<in> set (mm_db (fold run_call calls s))" and "mp4_row q"
  shows "mm_files (fold run_call calls s) (r_path q) \<noteq> None"
  using run_calls_shelf[OF assms(1-3)] assms(4,5) unfolding shelf_def by blast

definition merge_demo_row :: "string \<Rightarrow> nat \<Rightarrow> recording" where
  "merge_demo_row p t =
     \<lparr>r_id = p, r_camera = ''c'', r_stream = ''c'', r_path = p, r_format = ''h264'', r_started = t, r_ended = t + 1,
      r_duration = 0, r_size = 10, r_frames = 1, r_merged = False, r_status = ''pending'', r_archived = False,
      r_reconnected = 0, r_gap = [], r_locked = False\<rparr>"

definition merge_demo_state :: merge_state where
  "merge_demo_state =
     \<lparr>mm_files = [''a'' \<mapsto> [1], ''b'' \<mapsto> [2]], mm_frames = (\<lambda>_. None), mm_db = [merge_demo_row ''a'' 5, merge_demo_row ''b'' 9],
      mm_budget = \<lparr>bg_free = 0, bg_ok = False\<rparr>, mm_drawn = 0\<rparr>"

definition merge_demo_env :: merge_env where
  "merge_demo_env =
     \<lparr>mv_boxes = (\<lambda>_. []), mv_marshal = (\<lambda>_. []), mv_now = 1000, mv_zone = 0, mv_usage = Some (1000, 0),
      mv_fresh = (\<lambda>n. (''t'' @ replicate n CHR ''x'', ''m'' @ replicate n CHR ''x'')), mv_id = (\<lambda>n. ''i''),
      mv_order = (\<lambda>ks. ks), mv_create_fails = (\<lambda>_. False), mv_close_fails = (\<lambda>_. False),
      mv_replace_fails = (\<lambda>_. False), mv_move_fails = (\<lambda>_ _. False), mv_unlink_fails = (\<lambda>_. False),
      mv_status_fails = False, mv_windows_fail = False, mv_list_fails = (\<lambda>_. False),
      mv_bucket = (\<lambda>_. \<lparr>bf_write = NoFault, bf_hide = None, bf_grow = False\<rparr>), mv_stop = (\<lambda>_. False)\<rparr>"

definition merge_demo_config :: merge_config where
  "merge_demo_config = \<lparr>mg_enabled = True, mg_check = [], mg_window = [], mg_batch = 10, mg_age = [], mg_min = 2, mg_rolling = None,
      mg_debounce = []\<rparr>"

definition merge_demo_call :: merge_call where
  "merge_demo_call = HourCall merge_demo_env merge_demo_config None ''c'' 7"


lemma merge_demo_names: "names_ok merge_demo_env" "mv_fresh (call_env merge_demo_call) = mv_fresh merge_demo_env"
proof -
  have base: "path_base (c # replicate n CHR ''x'') = c # replicate n CHR ''x''" if "c \<noteq> CHR ''/''" for c n
    using that unfolding path_base_def by (subst takeWhile_eq_all_conv[THEN iffD2]) auto
  have "replicate n CHR ''x'' \<noteq> replicate m CHR ''x''" if "n + 1 \<le> m" for n m :: nat
    using that by (metis length_replicate not_less_eq_eq Suc_eq_plus1 order_refl)
  then show "names_ok merge_demo_env"
    by (auto simp: names_ok_def merge_demo_env_def visible_def unused_def base)
qed (simp add: merge_demo_call_def)

lemma merge_demo_shelf: "shelf merge_demo_env [] merge_demo_state"
  by (simp add: shelf_def merge_demo_state_def merge_demo_row_def merge_demo_env_def visible_def unused_def path_base_def)

lemma merge_demo_lists:
  "ListMergeableSegments ''c'' 0 3600000000000 (mm_db merge_demo_state)
     = [merge_view (merge_demo_row ''a'' 5), merge_view (merge_demo_row ''b'' 9)]"
  "ListWindowMergedRecordings ''c'' 0 3600000000000 (mm_db merge_demo_state) = []"
  by (simp_all add: ListMergeableSegments_def ListWindowMergedRecordings_def merge_demo_state_def is_pending_def
      is_closed_def order_by_def by_nat_def merge_demo_row_def)

lemma merge_demo_unparsed: "parse_file merge_demo_env full p fs = Some None"
  by (simp add: parse_file_def merge_demo_env_def ParseSegment_def ParseSegmentTables_def parseSegment_def video_track_def split: option.split)

lemma merge_demo_run: "mm_db (run_call merge_demo_call merge_demo_state) = [merge_demo_row ''a'' 5, merge_demo_row ''b'' 9]"
proof -
  have w: "mergeWindowUTC 7 (WindowSizeDuration merge_demo_config) = (0, 3600000000000)"
    by (simp add: mergeWindowUTC_def WindowSizeDuration_def merge_demo_config_def ParseDuration_def trim_space_def)
  have rows: "r_format (merge_view (merge_demo_row p t)) = ''h264''" for p t
    by (simp add: merge_demo_row_def merge_view_def scanRecordingRow_def)
  have facts: "visited merge_demo_env [g] = [g]" "visited merge_demo_env ([] :: (string \<times> 'a list) list) = []"
      "\<not> mv_list_fails merge_demo_env n" "mg_enabled merge_demo_config"
      "mm_db merge_demo_state = [merge_demo_row ''a'' 5, merge_demo_row ''b'' 9]" for g :: "string \<times> 'a list" and n
    by (simp_all add: visited_def merge_demo_env_def merge_demo_config_def merge_demo_state_def List.map_filter_simps)
  show ?thesis
    by (simp add: merge_demo_call_def MergeHour_def mergeHourLocked_def ResolveMergeConfig_def w merge_demo_lists
        merge_demo_unparsed groupByFormat_def rows) (simp add: facts rows merge_demo_unparsed filterByFormat_def)
qed

theorem merging_keeps_witness:
  "mm_files (fold run_call [merge_demo_call] merge_demo_state) ''a'' \<noteq> None"
  using merging_keeps_files[of merge_demo_env merge_demo_state "[merge_demo_call]" "merge_demo_row ''a'' 5"]
    merge_demo_names merge_demo_shelf merge_demo_run
  by (simp add: mp4_row_def merge_demo_row_def)


section \<open>Frames are not kept\<close>

lemma move_segments_clears:
  "move_segments env tmp qs fr = (True, fr') \<Longrightarrow> tmp \<notin> r_path ` set qs \<Longrightarrow>
     (\<forall>p. p \<noteq> tmp \<longrightarrow> fr p = None \<longrightarrow> fr' p = None) \<and> (\<forall>q \<in> set qs. fr' (r_path q) = None)"
proof (induction qs arbitrary: fr)
  case (Cons q qs)
  then obtain es where es: "fr (r_path q) = Some es" by (auto split: option.splits)
  obtain ok rest target where m:
      "move_frames env (r_path q) (order_by (\<lambda>a b. text_le (fst a) (fst b)) es) (the (fr tmp)) = (ok, rest, target)"
    by (metis prod_cases3)
  from Cons.prems have next_move: "move_segments env tmp qs (fr(r_path q := None, tmp \<mapsto> target)) = (True, fr')"
    by (simp add: es m split: bool.splits)
  have "tmp \<notin> r_path ` set qs" "tmp \<noteq> r_path q" using Cons.prems(2) by auto
  note IH = Cons.IH[OF next_move this(1)]
  have "fr' p = None" if "p \<noteq> tmp" "fr p = None" for p using IH that by simp
  moreover have "fr' (r_path q) = None" using IH \<open>tmp \<noteq> r_path q\<close> by simp
  ultimately show ?case using IH by simp
qed simp

text \<open>
  The rows of directories of frames have no such guarantee: the directories are emptied first, and when the
  transaction then fails the merged directory is removed, with every frame of rows that are still in the table.
\<close>

lemma failed_replace_loses_frames:
  assumes "least \<le> int (length qs)" and "reserve (sum_list (map r_size qs) * 11 sdiv 10) (mm_budget s) = (True, b)"
    and "MergeMJPEGSegments env cam qs (s\<lparr>mm_budget := b\<rparr>) = (Some row, s2)" and "mv_replace_fails env (mm_drawn s)"
    and "mergeMJPEGGroup env cam qs least s = (out, s')"
    and "\<forall>q \<in> set qs. r_path q \<noteq> fst (mv_fresh env (mm_drawn s)) \<and> r_path q \<noteq> snd (mv_fresh env (mm_drawn s))"
  shows "mm_db s' = mm_db s \<and> mm_frames s' (r_path row) = None \<and> (\<forall>q \<in> set qs. mm_frames s' (r_path q) = None)"
proof -
  obtain tmp final where fresh: "mv_fresh env (mm_drawn s) = (tmp, final)" by force
  obtain moved fr where m: "move_segments env tmp qs ((mm_frames s)(tmp \<mapsto> [])) = (moved, fr)" by force
  have s2: "moved" "mm_frames s2 = fr(tmp := None, final := fr tmp)" "mm_db s2 = mm_db s"
    using assms(3) unfolding MergeMJPEGSegments_def Let_def
    by (auto simp: fresh m split: if_splits prod.splits)
  have "tmp \<notin> r_path ` set qs" using assms(6) by (auto simp: fresh)
  with move_segments_clears[of env tmp qs "(mm_frames s)(tmp \<mapsto> [])" fr] m s2(1)
  have "\<forall>q \<in> set qs. fr (r_path q) = None" by simp
  moreover have "s' = s2\<lparr>mm_frames := (mm_frames s2)(r_path row := None)\<rparr>"
    using assms(1,4,5) by (simp add: mergeMJPEGGroup_def assms(2,3) replace_rows_def)
  ultimately show ?thesis using s2 assms(6) by (simp add: fresh)
qed

end
