(* ===== verification/Merge_Rolling.thy ===== *)
theory Merge_Rolling
  imports Merge_Manager
begin

text \<open>
  The coordinator of the rolling merge (\<open>merge/rolling.go\<close>): a timer for each camera that every closed segment
  sets back, and the window to merge when it fires.  A timer that fired and whose function waits for the lock is a
  state of its own, because a segment may come in between.
\<close>

section \<open>State and steps\<close>

text \<open>The map of timers, the map of times, the timers of the runtime that are armed, and the functions that wait.\<close>

record armed_timer =
  at_timer :: nat
  at_camera :: string
  at_due :: int

record rolling =
  ro_timers :: "string \<Rightarrow> nat option"
  ro_pending :: "string \<Rightarrow> nat option"
  ro_armed :: "armed_timer list"
  ro_waiting :: "string list"
  ro_next :: nat

definition NewRollingCoordinator :: rolling where
  "NewRollingCoordinator =
     \<lparr>ro_timers = (\<lambda>_. None), ro_pending = (\<lambda>_. None), ro_armed = [], ro_waiting = [], ro_next = 0\<rparr>"

text \<open>\<open>Reset\<close> arms a timer again, also one that has fired.\<close>

definition disarm :: "nat \<Rightarrow> armed_timer list \<Rightarrow> armed_timer list" where
  "disarm i ts = filter (\<lambda>t. at_timer t \<noteq> i) ts"

definition arm :: "nat \<Rightarrow> string \<Rightarrow> int \<Rightarrow> armed_timer list \<Rightarrow> armed_timer list" where
  "arm i cam due ts = disarm i ts @ [\<lparr>at_timer = i, at_camera = cam, at_due = due\<rparr>]"

definition schedule :: "string \<Rightarrow> nat \<Rightarrow> int \<Rightarrow> int \<Rightarrow> rolling \<Rightarrow> rolling" where
  "schedule cam moment debounce now r =
     (let r = r\<lparr>ro_pending := (ro_pending r)(cam \<mapsto> moment)\<rparr>
      in case ro_timers r cam of
           Some i \<Rightarrow> r\<lparr>ro_armed := arm i cam (now + debounce) (ro_armed r)\<rparr>
         | None \<Rightarrow>
             r\<lparr>ro_timers := (ro_timers r)(cam \<mapsto> ro_next r), ro_next := ro_next r + 1,
               ro_armed := arm (ro_next r) cam (now + debounce) (ro_armed r)\<rparr>)"

text \<open>The function of a timer reads a missing time as the zero time; its result is the call of \<open>MergeHour\<close>.\<close>

definition fired :: "string \<Rightarrow> rolling \<Rightarrow> rolling \<times> (string \<times> nat)" where
  "fired cam r =
     (let moment = (case ro_pending r cam of None \<Rightarrow> 0 | Some t \<Rightarrow> t)
      in (r\<lparr>ro_timers := (ro_timers r)(cam := None), ro_pending := (ro_pending r)(cam := None)\<rparr>, (cam, moment)))"

definition stopTimers :: "rolling \<Rightarrow> rolling" where
  "stopTimers r =
     r\<lparr>ro_armed := filter (\<lambda>t. ro_timers r (at_camera t) \<noteq> Some (at_timer t)) (ro_armed r),
       ro_timers := (\<lambda>_. None), ro_pending := (\<lambda>_. None)\<rparr>"

text \<open>A closed segment, with the camera and the start it names; a start that cannot be read is 0.\<close>

definition handle_completed ::
    "merge_config \<Rightarrow> (string \<Rightarrow> merge_config option) \<Rightarrow> string \<Rightarrow> nat \<Rightarrow> nat \<Rightarrow> rolling \<Rightarrow> rolling" where
  "handle_completed global override cam started now r =
     (let cfg = ResolveMergeConfig global (override cam)
      in if cam = [] \<or> \<not> IsRollingEnabled cfg then r
         else schedule cam (if started = 0 then now else started) (RollingDebounceDuration cfg) (int now) r)"

text \<open>What the runtime does: timers that are due start their functions, which get the lock in some order.\<close>

definition ring :: "int \<Rightarrow> rolling \<Rightarrow> rolling" where
  "ring now r =
     r\<lparr>ro_waiting := ro_waiting r @ map at_camera (filter (\<lambda>t. at_due t \<le> now) (ro_armed r)),
       ro_armed := filter (\<lambda>t. now < at_due t) (ro_armed r)\<rparr>"

definition run_waiting :: "nat \<Rightarrow> rolling \<Rightarrow> rolling \<times> (string \<times> nat)" where
  "run_waiting i r = fired (ro_waiting r ! i) (r\<lparr>ro_waiting := take i (ro_waiting r) @ drop (i + 1) (ro_waiting r)\<rparr>)"

datatype rolling_op =
    Completed merge_config "string \<Rightarrow> merge_config option" string nat nat
  | Ring int
  | RunWaiting nat

fun rolling_step :: "rolling_op \<Rightarrow> rolling \<times> (string \<times> nat) list \<Rightarrow> rolling \<times> (string \<times> nat) list" where
  "rolling_step (Completed g ov cam started now) (r, out) = (handle_completed g ov cam started now r, out)"
| "rolling_step (Ring now) (r, out) = (ring now r, out)"
| "rolling_step (RunWaiting i) (r, out) =
     (if i < length (ro_waiting r) then (case run_waiting i r of (r', call) \<Rightarrow> (r', out @ [call])) else (r, out))"

definition rolling_run :: "rolling_op list \<Rightarrow> rolling \<times> (string \<times> nat) list" where
  "rolling_run ops = fold rolling_step ops (NewRollingCoordinator, [])"

section \<open>A window that waits is merged\<close>

definition ticking :: "rolling \<Rightarrow> string \<Rightarrow> bool" where
  "ticking r cam \<longleftrightarrow> cam \<in> at_camera ` set (ro_armed r) \<or> cam \<in> set (ro_waiting r)"

text \<open>
  Ids are below the next one and belong to one camera; a camera has a time exactly when it has a timer, which then
  is armed or has fired.
\<close>

definition ids_ok :: "rolling \<Rightarrow> bool" where
  "ids_ok r \<longleftrightarrow>
     (\<forall>t \<in> set (ro_armed r). at_timer t < ro_next r)
   \<and> (\<forall>cam i. ro_timers r cam = Some i \<longrightarrow> i < ro_next r)
   \<and> (\<forall>cam i t. ro_timers r cam = Some i \<longrightarrow> t \<in> set (ro_armed r) \<longrightarrow> at_timer t = i \<longrightarrow> at_camera t = cam)
   \<and> (\<forall>c d i. ro_timers r c = Some i \<longrightarrow> ro_timers r d = Some i \<longrightarrow> c = d)"

definition rolling_inv :: "rolling \<Rightarrow> bool" where
  "rolling_inv r \<longleftrightarrow> ids_ok r
     \<and> (\<forall>cam. ro_pending r cam = None \<longleftrightarrow> ro_timers r cam = None) \<and> (\<forall>cam. ro_timers r cam \<noteq> None \<longrightarrow> ticking r cam)"

lemma ring_ticking: "ticking (ring now r) cam = ticking r cam"
  by (force simp: ticking_def ring_def image_iff)

lemma ring_inv: "rolling_inv r \<Longrightarrow> rolling_inv (ring now r)"
  using ring_ticking[of now r] unfolding rolling_inv_def ids_ok_def by (simp add: ring_def)

lemma set_arm: "set (arm i cam due ts) = insert \<lparr>at_timer = i, at_camera = cam, at_due = due\<rparr> {t \<in> set ts. at_timer t \<noteq> i}"
  by (auto simp: arm_def disarm_def)

lemma schedule_fields:
  assumes "i = (case ro_timers r cam of Some i \<Rightarrow> i | None \<Rightarrow> ro_next r)"
  shows "ro_armed (schedule cam moment debounce now r) = arm i cam (now + debounce) (ro_armed r)"
    "ro_timers (schedule cam moment debounce now r) = (ro_timers r)(cam \<mapsto> i)"
    "ro_pending (schedule cam moment debounce now r) = (ro_pending r)(cam \<mapsto> moment)"
    "ro_waiting (schedule cam moment debounce now r) = ro_waiting r"
    "ro_next (schedule cam moment debounce now r) = ro_next r + (if ro_timers r cam = None then 1 else 0)"
  using assms by (auto simp: schedule_def Let_def fun_upd_idem_iff split: option.split)

lemma schedule_inv:
  assumes "rolling_inv r"
  shows "rolling_inv (schedule cam moment debounce now r)"
proof -
  define i where "i = (case ro_timers r cam of Some i \<Rightarrow> i | None \<Rightarrow> ro_next r)"
  note f = schedule_fields[OF i_def, of moment debounce now]
  have ids: "ids_ok r" using assms by (simp add: rolling_inv_def)
  have own: "\<forall>t \<in> set (ro_armed r). at_timer t = i \<longrightarrow> at_camera t = cam" "\<forall>c. ro_timers r c = Some i \<longrightarrow> c = cam"
      "i < ro_next (schedule cam moment debounce now r)"
    using ids unfolding ids_ok_def i_def f by (auto split: option.splits)
  have "ids_ok (schedule cam moment debounce now r)"
    using ids own unfolding ids_ok_def f set_arm
    by (intro conjI allI ballI impI) (fastforce split: if_splits)+
  moreover have "ticking (schedule cam moment debounce now r) c" if "ticking r c \<or> c = cam" for c
    using that own(1) by (cases "c = cam") (force simp: ticking_def f set_arm)+
  ultimately show ?thesis using assms by (auto simp: rolling_inv_def f)
qed

lemma fired_inv:
  assumes "rolling_inv r" and "i < length (ro_waiting r)"
  shows "rolling_inv (fst (run_waiting i r))"
proof -
  let ?cam = "ro_waiting r ! i"
  have "set (ro_waiting r) \<subseteq> insert ?cam (set (take i (ro_waiting r) @ drop (i + 1) (ro_waiting r)))"
    using assms(2) by (subst id_take_nth_drop[OF assms(2)]) auto
  then have tick: "ticking (fst (run_waiting i r)) c" if "ticking r c" "c \<noteq> ?cam" for c
    using that by (auto simp: ticking_def run_waiting_def fired_def Let_def)
  have "ids_ok (fst (run_waiting i r))"
    using assms(1) unfolding rolling_inv_def ids_ok_def by (simp add: run_waiting_def fired_def Let_def)
  then show ?thesis
    using assms(1) tick unfolding rolling_inv_def by (simp add: run_waiting_def fired_def Let_def)
qed

lemma rolling_step_inv: "rolling_inv (fst p) \<Longrightarrow> rolling_inv (fst (rolling_step x p))"
proof (cases p)
  case (Pair r out)
  moreover assume "rolling_inv (fst p)"
  ultimately show ?thesis
    using fired_inv[of r]
    by (cases x) (simp_all add: handle_completed_def Let_def schedule_inv ring_inv split_beta)
qed

lemma rolling_run_inv: "rolling_inv (fst (rolling_run ops))"
proof -
  have "rolling_inv (fst (fold rolling_step ops p))" if "rolling_inv (fst p)" for p
    using that rolling_step_inv by (induction ops arbitrary: p) simp_all
  moreover have "rolling_inv NewRollingCoordinator"
    by (simp add: rolling_inv_def ids_ok_def NewRollingCoordinator_def)
  ultimately show ?thesis unfolding rolling_run_def by simp
qed

lemma calls_grow: "\<exists>new. snd (fold rolling_step (map RunWaiting is) (r, out)) = out @ new"
proof (induction "is" arbitrary: r out)
  case (Cons i "is")
  show ?case
  proof (cases "i < length (ro_waiting r)")
    case True
    obtain r1 call where "run_waiting i r = (r1, call)" by (cases "run_waiting i r")
    then show ?thesis using Cons[of r1 "out @ [call]"] True by auto
  qed (use Cons in simp)
qed simp

lemma waiting_runs:
  assumes "cam \<in> set (ro_waiting r)" and "ro_pending r cam = Some t"
    and "fold rolling_step (map RunWaiting order) (r, out) = (r', out')" and "cam \<notin> set (ro_waiting r')"
  shows "(cam, t) \<in> set (drop (length out) out')"
proof -
  show ?thesis using assms
  proof (induction order arbitrary: r out)
    case (Cons i order)
    show ?case
    proof (cases "i < length (ro_waiting r)")
      case True
      obtain r1 call where run: "run_waiting i r = (r1, call)" by (cases "run_waiting i r")
      have next_run: "fold rolling_step (map RunWaiting order) (r1, out @ [call]) = (r', out')"
        using Cons.prems(3) True run by simp
      show ?thesis
      proof (cases "ro_waiting r ! i = cam")
        case True
        then have "call = (cam, t)" using run Cons.prems(2) by (auto simp: run_waiting_def fired_def Let_def)
        then show ?thesis using calls_grow[of order r1 "out @ [call]"] next_run by auto
      next
        case False
        have "cam \<in> set (ro_waiting r1)" "ro_pending r1 cam = Some t"
          using run Cons.prems(1,2) False id_take_nth_drop[OF True]
          by (auto simp: run_waiting_def fired_def Let_def) (metis Un_iff insert_iff list.simps(15) set_append)
        from Cons.IH[OF this next_run Cons.prems(4)] show ?thesis
          by (auto dest: in_set_dropD simp: drop_Suc_Cons)
             (metis drop_drop in_set_dropD plus_1_eq_Suc)
      qed
    qed (use Cons in simp)
  qed simp
qed


definition demo_rolling :: "rolling_op list" where
  "demo_rolling =
     [Completed merge_demo_config (\<lambda>_. None) ''a'' 7 100, Completed merge_demo_config (\<lambda>_. None) ''b'' 8 100,
      Ring 5000000100, Completed merge_demo_config (\<lambda>_. None) ''a'' 9 5000000100]"

lemma demo_settings: "ResolveMergeConfig merge_demo_config None = merge_demo_config" "IsRollingEnabled merge_demo_config"
    "RollingDebounceDuration merge_demo_config = 5000000000"
  by (simp_all add: ResolveMergeConfig_def IsRollingEnabled_def RollingDebounceDuration_def merge_demo_config_def
      ParseDuration_def trim_space_def)

lemmas rolling_eval = rolling_run_def demo_rolling_def handle_completed_def demo_settings schedule_def arm_def disarm_def
  ring_def run_waiting_def fired_def NewRollingCoordinator_def Let_def


section \<open>What the coordinator forgets\<close>

text \<open>
  A segment of a later window replaces the one that waits: the last segments of an hour are left to the scheduled
  pass.  A timer that is set back after it fired calls \<open>MergeHour\<close> a second time, for the zero time.
\<close>

lemma earlier_window_forgotten:
  "snd (rolling_run
     [Completed merge_demo_config (\<lambda>_. None) ''a'' 3599000000000 3599500000000,
      Completed merge_demo_config (\<lambda>_. None) ''a'' 3600000000000 3600500000000, Ring 3700000000000, RunWaiting 0])
     = [(''a'', 3600000000000)]"
  by (simp add: rolling_eval)

lemma fired_twice: "snd (rolling_run (demo_rolling @ Ring 10000000100 # map RunWaiting [1, 0, 0])) = [(''b'', 8), (''a'', 9), (''a'', 0)]"
  by (simp add: rolling_eval)

text \<open>While segments of a camera close faster than the debounce time, its windows are never merged.\<close>

lemma rolling_starves:
  assumes "cam \<noteq> []" and "IsRollingEnabled (ResolveMergeConfig g (ov cam))" and "0 < started"
    and "int gap < RollingDebounceDuration (ResolveMergeConfig g (ov cam))"
  shows "snd (rolling_run (concat (map (\<lambda>k. [Completed g ov cam started (k * gap), Ring (int (k * gap + gap))]) [0..<n]))) = []"
proof -
  let ?d = "RollingDebounceDuration (ResolveMergeConfig g (ov cam))"
  let ?ops = "\<lambda>n. concat (map (\<lambda>k. [Completed g ov cam started (k * gap), Ring (int (k * gap + gap))]) [0..<n])"
  have "rolling_run (?ops (Suc n)) =
      (\<lparr>ro_timers = [cam \<mapsto> 0], ro_pending = [cam \<mapsto> started],
        ro_armed = [\<lparr>at_timer = 0, at_camera = cam, at_due = int (n * gap) + ?d\<rparr>], ro_waiting = [], ro_next = 1\<rparr>, [])" for n
  proof (induction n)
    case 0
    show ?case using assms by (simp add: rolling_run_def handle_completed_def schedule_def arm_def disarm_def ring_def
        NewRollingCoordinator_def fun_eq_iff)
  next
    case (Suc n)
    have ops: "?ops (Suc (Suc n)) = ?ops (Suc n) @ [Completed g ov cam started (Suc n * gap), Ring (int (Suc n * gap + gap))]"
      by (simp add: distrib_right)
    have run: "rolling_run (xs @ ys) = fold rolling_step ys (rolling_run xs)" for xs ys by (simp add: rolling_run_def)
    show ?case unfolding ops run Suc.IH
      using assms by (simp add: handle_completed_def schedule_def arm_def disarm_def ring_def fun_eq_iff)
  qed
  then show ?thesis by (cases n) (simp_all add: rolling_run_def)
qed

end
