(* ===== verification/Spec2Isabelle.thy ===== *)
theory Spec2Isabelle
  imports Wire_Protocol Jt808_Codec Jt808_Fragments Jt808_Server Jt808_Commands Tutk_Crypto Health_Manager
    Stream_Hub Log_Ring Event_Bus Auth_Media Auth_Digest Recorder_Scheduler Event_Windows Gb_Regions
    Merge_Append Db_Time Merge_Journal Recordings_Cache Storage_Files Cleanup
    Merge_Rolling
begin

text \<open>
  A verification library for lalmax-nvr, a network video recorder written in Go.  The program
  takes video from cameras and terminals over several protocols, fans frames out to recorders and
  viewers, records according to weekly plans and events, watches the health of the cameras, and
  keeps regions, recordings and accounts in a database behind an HTTP interface.  The library
  models the parts that carry its own logic; all file names below are relative to
  \<open>src/internal\<close>.

  How the parts meet.  A JT/T 808 terminal logs in over TCP (\<open>jt808\<close>); the signaling server grants
  it single streams, and the media authorizer (\<open>auth/media.go\<close>) admits a publisher only for such a
  grant, for the configured key, or for an internal stream that was reserved.  An admitted stream
  feeds a stream hub (\<open>model/stream.go\<close>), whose consumers are recorders and WebSocket viewers
  (\<open>wsstream\<close>).  The recording scheduler (\<open>recorder/scheduler.go\<close>) compares plans
  (\<open>recorder/planner.go\<close>) and event windows (\<open>recorder/event_manager.go\<close>) with the tasks that run
  (\<open>recorder/task.go\<close>).  The health manager (\<open>health\<close>) samples status and frames, raises events
  and restarts recorders; events travel over the bus (\<open>event/bus.go\<close>), log entries over the ring
  (\<open>middleware/logring.go\<close>).  A finished segment is a file of the storage manager
  (\<open>storage/manager.go\<close>) and a row of the recordings table (\<open>storage/db_recording.go\<close>); the merge
  (\<open>merge\<close>) joins the segments of an hour into one file and replaces their rows.

  Conventions.  \<open>Go_Prelude\<close> and \<open>Go_Strings\<close> hold what the components share: the outcome of a Go
  function (\<open>Ok\<close>, \<open>Err\<close>, \<open>Panic\<close>, so that an index out of range is a value), machine
  integers as words where their width shows, the byte orders of \<open>encoding/binary\<close>, the functions of
  \<open>strings\<close> and \<open>strconv\<close> that the source calls.  A struct is a record, a map a function into
  \<open>option\<close> or an association list where its order shows; the order in which Go visits a map is an
  argument.  A clock reading is an argument (nanoseconds as \<open>int\<close>), random bytes and the answers
  of the database or the network are arguments as well.  A mutex section is one step; where a
  function releases a lock in between, its sections are separate definitions (\<open>play_begin\<close> and
  \<open>play_end\<close>, \<open>ensure_check\<close>, \<open>ensure_start\<close> and \<open>ensure_commit\<close>, the steps of
  \<open>bus_step\<close>) and the theorems speak of every interleaving of them.

  Interfaces.  \<open>wire_codec\<close> (an encoder, a decoder and their round trip; interpreted by the JT/T 808
  packets and the four WebSocket messages) gives the round trip of a list of messages.  \<open>inv_machine\<close>
  (a step function and an invariant it keeps; interpreted by the signaling server, the fragment
  store, the quality tracker, the stream hub, the nonce store, the event windows and the table of
  recordings) gives the invariant after every run.  \<open>bounded_log\<close> (an append that forgets the oldest entry; interpreted by
  the log ring and a channel of the event bus) gives the last-entries reading of both.
  \<open>task_owner\<close> (what a scheduler needs of its tasks; interpreted by the task manager) carries the
  pass of the scheduler.

  The theories and what their lemmas show.
  \<^item> \<open>Wire_Protocol\<close> (\<open>wsstream/protocol.go\<close>, \<open>types.go\<close>): encoders and decoders of codec
    announcements, video and audio frames.  Round trips; no input makes a decoder panic; a
    parameter set of 65536 bytes is encoded but not read back.
  \<^item> \<open>Jt808_Codec\<close> (\<open>jt808/packet.go\<close>): frames with escape, checksum and phone number, and the
    scanner of the read loop.  A stream of packets is read back whatever garbage is between frames.
  \<^item> \<open>Jt808_Fragments\<close> (\<open>pushFrag\<close>): a message is reassembled once, for every order and repetition of
    its parts; the store is bounded; an empty part counts twice.
  \<^item> \<open>Jt808_Server\<close> (\<open>server.go\<close>): terminals, sessions, grants and the packet handler.  One connection
    per SIM, authentication only by the code, admission only for a live authenticated terminal,
    revocation at the end of a connection, and restored grants after a failed command.
  \<^item> \<open>Jt808_Commands\<close> (\<open>commands.go\<close>): the commands, their checks and byte layouts, and the
    parsers of the answers.
  \<^item> \<open>Tutk_Crypto\<close> (\<open>xiaomi/tutk/crypto.go\<close>, \<open>helpers.go\<close>): packet scrambling and its inverse, both
    XXTEA routines against the published cipher, command framing.
  \<^item> \<open>Health_Remediate\<close>, \<open>Health_Alerts\<close>, \<open>Health_Monitor\<close>, \<open>Health_Quality\<close>, \<open>Health_Manager\<close>
    (\<open>health/*.go\<close>): restart limits in every window, cooldown of alerts, the three detectors, uptime
    bounds, and the manager's loop that connects them.
  \<^item> \<open>Stream_Hub\<close> (\<open>model/stream.go\<close>): bounded consumer queues, the jitter buffer, key frame
    protection.  The loop of \<open>trySendIDR\<close> runs as often as the source's counter allows, the length of
    the queue when it starts.
  \<^item> \<open>Bounded_Log\<close>, \<open>Log_Ring\<close> (\<open>middleware/logring.go\<close>): the ring refines the list of the last
    entries; the handler's attributes and groups.
  \<^item> \<open>Event_Bus\<close> (\<open>event/bus.go\<close>, \<open>live.go\<close>): the bus as an inductive step relation over its locks and
    channels; dropping the oldest, silence after unsubscribing, and the block a publisher may run into.
  \<^item> \<open>Auth_Media\<close> (\<open>auth/media.go\<close>, \<open>media_internal.go\<close>, \<open>ban/manager.go\<close>): admission of publishers
    and players, reservation and revocation of internal streams.
  \<^item> \<open>Md5\<close>, \<open>Auth_Digest\<close> (\<open>auth/digest.go\<close>, \<open>digest_nonce.go\<close>): headers are parsed back from what
    is built and verify; a nonce is accepted once for each count, in increasing order.
  \<^item> \<open>Recorder_Plan\<close>, \<open>Recorder_Tasks\<close>, \<open>Recorder_Scheduler\<close> (\<open>storage/db_recording_plan.go\<close>,
    \<open>recorder/planner.go\<close>, \<open>task.go\<close>, \<open>scheduler.go\<close>): weekly windows as intervals, tasks under
    every interleaving of their sections, and what a pass of the scheduler leaves.
  \<^item> \<open>Recorder_Gate\<close> (\<open>recorder/backoff.go\<close>, \<open>adaptive.go\<close>, \<open>preroll.go\<close>, \<open>pts_check.go\<close>): delays,
    the calm mode of recording, the ring of groups of pictures before an event.
  \<^item> \<open>Event_Windows\<close> (\<open>recorder/event_manager.go\<close>): windows, their timers and the calls that fired.
  \<^item> \<open>Civil_Codes\<close>, \<open>Gb_Regions\<close> (\<open>civilcode/civilcode.go\<close>, \<open>storage/db_gb_region.go\<close>,
    \<open>api/handlers_gb_region.go\<close>): administrative codes and the tree of regions under creation,
    completion and deletion.
  \<^item> \<open>Audio_Config\<close> (\<open>wsstream/audio.go\<close>, \<open>merge/mp4merge.go\<close>): the AudioSpecificConfig, read bit by
    bit for live streams and, differently, by the merge.
  \<^item> \<open>Mp4_Boxes\<close>, \<open>Mp4_Parser\<close> (\<open>merge/parser.go\<close>): the tree of boxes that the mp4 library decodes, the
    walk over it and the tables of samples; the index the merge writes is read back.
  \<^item> \<open>Go_File\<close>, \<open>Mp4_Merge\<close>, \<open>Merge_Append\<close> (\<open>merge/mp4merge.go\<close>, \<open>append.go\<close>): reads, writes and
    truncation of a file; the merge of segments and the append to an hour file keep every sample
    with its bytes and its duration; a failed append leaves the file as it was.
  \<^item> \<open>Merge_Journal\<close> (\<open>merge/append.go\<close>, \<open>manager.go\<close>): the journal beside an hour file, hiding of
    absorbed segments, and \<open>appendOntoBucket\<close>.  The inductive relation \<open>append_state\<close> holds every state
    a crash can leave; reconciling each of them gives the state before or after the append.
  \<^item> \<open>Db_Time\<close> (\<open>storage/db.go\<close>): stored times sort like the times.
  \<^item> \<open>Recordings\<close> (\<open>storage/db_recording.go\<close>, \<open>db_merge.go\<close>, \<open>db_archive.go\<close>, \<open>db_stats.go\<close>): the table of
    recordings as the list of its rows, a function for every statement, its well-formedness under all
    of them, and the search with escaped wildcards.
  \<^item> \<open>Recordings_Cache\<close> (\<open>storage/recordings_cache.go\<close>): the cache of listings and counts; readers and
    writers interleave between their locks, and no answer is out of date once writers have invalidated.
  \<^item> \<open>Storage_Files\<close> (\<open>storage/manager.go\<close>): directories and segments of a camera, and which lost files
    are registered again.
  \<^item> \<open>Cleanup\<close> (\<open>cleanup/cleanup.go\<close>): a pass over table and storage with every failure as an argument.
    Locked recordings survive, retention is exact, the disk phase returns (its measure is the number
    of rows, then the distance of the query window from 10000), and every old file without a row is
    found by the rounds over the cameras.
  \<^item> \<open>Go_Duration\<close>, \<open>Merge_Windows\<close> (\<open>config/config.go\<close>, \<open>merge/manager.go\<close>): \<open>time.ParseDuration\<close>, the
    settings of the merge with the override of a camera, and its time windows: rounded in Go they are
    the buckets of the SQL queries for every window that divides a day.
  \<^item> \<open>Merge_Manager\<close> (\<open>merge/manager.go\<close>, \<open>mjpegmerge.go\<close>): the passes over cameras, windows and formats and
    the rolling merge of one window, over files, table and disk budget.  The invariant \<open>shelf\<close> (rows of
    MP4 recordings have their file, no file belongs to two rows) holds after every sequence of calls,
    with every failure and every order of Go's maps; for directories of frames it does not.
  \<^item> \<open>Merge_Rolling\<close> (\<open>merge/rolling.go\<close>): the timers that debounce the rolling merge, with functions that
    fired and wait; the window a camera asked for last is merged, an earlier one may be forgotten.

  Loops and bounds.  \<open>AllParents\<close> is a \<open>partial_function\<close> and returns after at most as many rounds
  as the code has characters; the recursion over descendants carries fuel, and a fuel above the
  longest code is enough in every tree the program builds with existing parents, while no fuel is
  enough for a region that is its own parent.  All other loops are structural or have a measure.
  Integers are words where they are cut or wrap (lengths, checksums, counters of the protocols);
  times and counters that cannot reach their limit are \<open>int\<close> or \<open>nat\<close>; quotients of
  floating-point numbers are exact quotients.

  Not modelled.  Handlers of the HTTP interface decode a request and call one service.  Of
  \<open>storage\<close> the tables of accounts, settings, streams and events, one SQL statement for each function,
  and the statistics by day and hour are left out.  Cameras, the RTSP and MP4 work of the recorders,
  GB28181 and VoIP signaling, ONVIF and discovery, transcoding and muxing drive
  sockets, processes and external libraries.  Of the modelled packages, tickers and goroutine
  start and stop, setters of callbacks, JSON and log output are left out, and the scheduler's later kick by
  the source reconciler.  The manifest lists every package with its reason.
\<close>

end
